(* ===== verification/Ledger_Prelude.thy ===== *)
theory Ledger_Prelude
  imports Main "HOL-Library.Word"
begin

text \<open>
  Shared vocabulary of the ledger development: the fact collections the component proofs
  draw on, Go's sized integers, the 16-byte UUIDs of \<^verbatim>\<open>github.com/google/uuid\<close> as 128-bit words
  read in big-endian order, \<^verbatim>\<open>bytes.Compare\<close>, the decimal conversions of \<^verbatim>\<open>strconv\<close>, the string
  helpers of \<^verbatim>\<open>strings\<close> the sources call, and generic lemmas on lists and maps.
\<close>

named_theorems pg_defs \<open>definitions of the driver-level PostgreSQL operations\<close>
named_theorems ledger_mono \<open>what holds of tables holds of tables that have grown\<close>

section \<open>Machine integers\<close>

text \<open>Go's \<^verbatim>\<open>int64\<close> (and \<^verbatim>\<open>int\<close> on the 64-bit targets the project builds for) wraps around;
  PostgreSQL's BIGINT raises an out-of-range error instead. Both are represented by \<^typ>\<open>int\<close>:
  Go arithmetic goes through \<open>wrap64\<close>, SQL arithmetic through the range check \<open>bigint\<close>.\<close>

definition wrap64 :: "int \<Rightarrow> int" where
  "wrap64 x = sint (word_of_int x :: 64 word)"

definition bigint :: "int \<Rightarrow> bool" where
  "bigint x \<longleftrightarrow> - (2 ^ 63) \<le> x \<and> x < 2 ^ 63"

lemma wrap64_range [simp]: "bigint (wrap64 x)"
  using sint_ge [of "word_of_int x :: 64 word"] sint_lt [of "word_of_int x :: 64 word"]
  by (simp add: bigint_def wrap64_def)

lemma wrap64_id [simp]: "bigint x \<Longrightarrow> wrap64 x = x"
  by (simp add: bigint_def wrap64_def sint_sbintrunc' signed_take_bit_int_eq_self)

lemma wrap64_add_left [simp]: "wrap64 (wrap64 x + y) = wrap64 (x + y)"
  and wrap64_add_right [simp]: "wrap64 (x + wrap64 y) = wrap64 (x + y)"
  and wrap64_diff_left [simp]: "wrap64 (wrap64 x - y) = wrap64 (x - y)"
  by (simp_all add: wrap64_def wi_hom_add [symmetric] wi_hom_sub [symmetric])

lemma bigint_neg: "bigint x \<Longrightarrow> 0 \<le> x \<Longrightarrow> bigint (- x)"
  by (simp add: bigint_def)

lemma bigint_mono: "bigint b \<Longrightarrow> 0 \<le> a \<Longrightarrow> a \<le> b \<Longrightarrow> bigint a"
  by (simp add: bigint_def)

section \<open>Bytes and UUIDs\<close>

type_synonym byte = "8 word"

text \<open>A UUID is a Go array of 16 bytes, compared as a whole and copied by value. It is kept as
  the 128-bit number its bytes spell most significant byte first; \<open>uuid_bytes\<close> is the slice
  \<^verbatim>\<open>id[:]\<close> and \<open>uuid_of_bytes\<close> the array filled from a slice. \<open>uuid_Nil\<close> is the zero array.\<close>

type_synonym uuid = "128 word"

definition uuid_Nil :: uuid where
  "uuid_Nil = 0"

fun be_bytes :: "nat \<Rightarrow> nat \<Rightarrow> byte list" where
  "be_bytes 0 n = []"
| "be_bytes (Suc k) n = be_bytes k (n div 256) @ [word_of_nat n]"

fun bytes_nat :: "byte list \<Rightarrow> nat" where
  "bytes_nat [] = 0"
| "bytes_nat (b # bs) = unat b * 256 ^ length bs + bytes_nat bs"

definition uuid_bytes :: "uuid \<Rightarrow> byte list" where
  "uuid_bytes u = be_bytes 16 (unat u)"

definition uuid_of_bytes :: "byte list \<Rightarrow> uuid" where
  "uuid_of_bytes bs = word_of_nat (bytes_nat bs)"

lemma length_be_bytes [simp]: "length (be_bytes k n) = k"
  by (induction k arbitrary: n) auto

lemma length_uuid_bytes [simp]: "length (uuid_bytes u) = 16"
  by (simp add: uuid_bytes_def)

lemma bytes_nat_append: "bytes_nat (xs @ ys) = bytes_nat xs * 256 ^ length ys + bytes_nat ys"
  by (induction xs) (auto simp: algebra_simps power_add)

lemma unat_byte: "unat (word_of_nat n :: byte) = n mod 256"
  by (simp add: unat_of_nat)

lemma bytes_nat_be_bytes: "bytes_nat (be_bytes k n) = n mod 256 ^ k"
proof (induction k arbitrary: n)
  case (Suc k)
  have "n mod (256 * 256 ^ k) = 256 * (n div 256 mod 256 ^ k) + n mod 256"
    by (rule mod_mult2_eq)
  then show ?case
    by (simp add: Suc bytes_nat_append unat_byte)
qed simp

lemma unat_byte_less [simp]: "unat (b :: byte) < 256"
proof -
  have "unat b < 2 ^ LENGTH(8)" by (rule unsigned_less)
  then show ?thesis by simp
qed

lemma unat_uuid_less [simp]: "unat (u :: uuid) < 256 ^ 16"
proof -
  have "unat u < 2 ^ LENGTH(128)" by (rule unsigned_less)
  then show ?thesis by simp
qed

lemma bytes_nat_less: "bytes_nat bs < 256 ^ length bs"
proof (induction bs)
  case (Cons b bs)
  have "Suc (unat b) * 256 ^ length bs \<le> 256 * 256 ^ length bs"
    by (rule mult_le_mono1) (use unat_byte_less [of b] in linarith)
  with Cons have "unat b * 256 ^ length bs + bytes_nat bs < 256 * 256 ^ length bs"
    unfolding mult_Suc by linarith
  then show ?case by simp
qed simp

lemma bytes_nat_inject:
  "length xs = length ys \<Longrightarrow> bytes_nat xs = bytes_nat ys \<Longrightarrow> xs = ys"
proof (induction xs ys rule: list_induct2)
  case (Cons x xs y ys)
  have x: "unat x = (bytes_nat (x # xs)) div 256 ^ length xs"
    using bytes_nat_less [of xs] by simp
  have y: "unat y = (bytes_nat (y # ys)) div 256 ^ length xs"
    using bytes_nat_less [of ys] Cons.hyps by simp
  have "unat x = unat y"
    unfolding x y Cons.prems ..
  then have "x = y"
    by (simp add: word_unat_eq_iff)
  with Cons show ?case by simp
qed simp

lemma uuid_of_bytes_uuid_bytes [simp]: "uuid_of_bytes (uuid_bytes u) = u"
  using unat_uuid_less [of u]
  by (simp add: uuid_of_bytes_def uuid_bytes_def bytes_nat_be_bytes del: unat_uuid_less)

lemma uuid_bytes_uuid_of_bytes:
  assumes "length bs = 16"
  shows "uuid_bytes (uuid_of_bytes bs) = bs"
proof (rule bytes_nat_inject)
  have "bytes_nat bs < 2 ^ 128"
    using bytes_nat_less [of bs] assms by simp
  then show "bytes_nat (uuid_bytes (uuid_of_bytes bs)) = bytes_nat bs"
    by (simp add: uuid_bytes_def uuid_of_bytes_def bytes_nat_be_bytes unat_of_nat)
qed (simp add: assms)

lemma uuid_bytes_inject [simp]: "uuid_bytes u = uuid_bytes v \<longleftrightarrow> u = v"
  by (metis uuid_of_bytes_uuid_bytes)

text \<open>\<^verbatim>\<open>bytes.Compare\<close> is lexicographic; on two slices of one length it is the order of the
  numbers they spell, so on UUIDs it is the order of \<^typ>\<open>uuid\<close>.\<close>

fun bytes_Compare :: "byte list \<Rightarrow> byte list \<Rightarrow> int" where
  "bytes_Compare [] [] = 0"
| "bytes_Compare [] (b # bs) = -1"
| "bytes_Compare (a # as) [] = 1"
| "bytes_Compare (a # as) (b # bs) =
     (if a < b then -1 else if b < a then 1 else bytes_Compare as bs)"

lemma bytes_Compare_less:
  "length as = length bs \<Longrightarrow> bytes_Compare as bs < 0 \<longleftrightarrow> bytes_nat as < bytes_nat bs"
proof (induction as bs rule: list_induct2)
  case (Cons a as b bs)
  have lt: "u * 256 ^ length as + m < v * 256 ^ length as + n"
    if "u < v" "m < 256 ^ length as" for u v m n :: nat
  proof -
    have "u * 256 ^ length as + 256 ^ length as \<le> v * 256 ^ length as"
      using \<open>u < v\<close> by (metis Suc_leI add.commute mult_Suc mult_le_mono1)
    with that(2) show ?thesis by linarith
  qed
  consider "a < b" | "b < a" | "a = b" by fastforce
  then show ?case
  proof cases
    case 1
    then show ?thesis
      using lt [of "unat a" "unat b" "bytes_nat as" "bytes_nat bs"] bytes_nat_less [of as] Cons.hyps
      by (simp add: word_less_nat_alt)
  next
    case 2
    then show ?thesis
      using lt [of "unat b" "unat a" "bytes_nat bs" "bytes_nat as"] bytes_nat_less [of bs] Cons.hyps
      by (simp add: word_less_nat_alt)
  next
    case 3
    then show ?thesis using Cons by simp
  qed
qed simp

lemma uuid_Compare_less [simp]:
  "bytes_Compare (uuid_bytes u) (uuid_bytes v) < 0 \<longleftrightarrow> u < v"
proof -
  have "unat w mod 256 ^ 16 = unat w" for w :: uuid
    using unat_uuid_less [of w] by (simp del: unat_uuid_less)
  then show ?thesis
    by (simp add: bytes_Compare_less uuid_bytes_def bytes_nat_be_bytes word_less_nat_alt)
qed

section \<open>Decimal conversions of \<^verbatim>\<open>strconv\<close>\<close>

definition digit_char :: "nat \<Rightarrow> char" where
  "digit_char d = char_of (48 + d)"

definition char_digit :: "char \<Rightarrow> nat option" where
  "char_digit c = (let n = of_char c :: nat in if 48 \<le> n \<and> n < 58 then Some (n - 48) else None)"

fun nat_digits :: "nat \<Rightarrow> string" where
  "nat_digits n = (if n < 10 then [digit_char n] else nat_digits (n div 10) @ [digit_char (n mod 10)])"

declare nat_digits.simps [simp del]

definition Itoa :: "int \<Rightarrow> string" where
  "Itoa i = (if i < 0 then CHR ''-'' # nat_digits (nat (- i)) else nat_digits (nat i))"

fun digits_val :: "nat \<Rightarrow> string \<Rightarrow> nat option" where
  "digits_val acc [] = Some acc"
| "digits_val acc (c # cs) =
     (case char_digit c of None \<Rightarrow> None | Some d \<Rightarrow> digits_val (acc * 10 + d) cs)"

text \<open>\<^verbatim>\<open>strconv.Atoi\<close>: an optional sign, then one or more decimal digits, within the range of
  \<^verbatim>\<open>int\<close>; every other text is an error.\<close>

definition Atoi :: "string \<Rightarrow> int option" where
  "Atoi s =
     (let neg = (case s of [] \<Rightarrow> False | c # _ \<Rightarrow> c = CHR ''-'');
          ds = (case s of [] \<Rightarrow> [] | c # r \<Rightarrow> if c = CHR ''-'' \<or> c = CHR ''+'' then r else s)
      in if ds = [] then None
         else case digits_val 0 ds of
                None \<Rightarrow> None
              | Some v \<Rightarrow> (let i = (if neg then - int v else int v)
                          in if bigint i then Some i else None))"

lemma char_digit_digit_char [simp]: "d < 10 \<Longrightarrow> char_digit (digit_char d) = Some d"
  by (simp add: char_digit_def digit_char_def of_char_of Let_def)

lemma digits_val_append:
  "digits_val acc (xs @ ys) =
     (case digits_val acc xs of None \<Rightarrow> None | Some v \<Rightarrow> digits_val v ys)"
  by (induction xs arbitrary: acc) (auto split: option.splits)

lemma digits_val_nat_digits [simp]: "digits_val 0 (nat_digits n) = Some n"
proof (induction n rule: nat_digits.induct)
  case (1 n)
  then show ?case
    by (subst nat_digits.simps) (simp add: digits_val_append)
qed

lemma nat_digits_Cons: "\<exists>d cs. d < 10 \<and> nat_digits n = digit_char d # cs"
proof (induction n rule: nat_digits.induct)
  case (1 n)
  show ?case
  proof (cases "n < 10")
    case True
    then show ?thesis by (subst nat_digits.simps) auto
  next
    case False
    with 1 show ?thesis by (subst nat_digits.simps) auto
  qed
qed

lemma digit_char_not_sign:
  "d < 10 \<Longrightarrow> digit_char d \<noteq> CHR ''-'' \<and> digit_char d \<noteq> CHR ''+''"
  using char_digit_digit_char [of d]
  by (auto simp del: char_digit_digit_char simp: char_digit_def Let_def)

lemma Atoi_Itoa [simp]:
  assumes "bigint i"
  shows "Atoi (Itoa i) = Some i"
proof (cases "i < 0")
  case True
  then have "nat_digits (nat (- i)) \<noteq> []"
    using nat_digits_Cons [of "nat (- i)"] by auto
  with True assms show ?thesis
    by (simp add: Atoi_def Itoa_def Let_def)
next
  case False
  obtain d cs where "d < 10" and eq: "nat_digits (nat i) = digit_char d # cs"
    using nat_digits_Cons by blast
  have v: "digits_val 0 (digit_char d # cs) = Some (nat i)"
    using digits_val_nat_digits [of "nat i"] by (simp only: eq)
  from False assms digit_char_not_sign [OF \<open>d < 10\<close>] show ?thesis
    by (simp add: Atoi_def Itoa_def Let_def eq v del: digits_val.simps)
qed

section \<open>String helpers of \<^verbatim>\<open>strings\<close>\<close>

definition HasPrefix :: "string \<Rightarrow> string \<Rightarrow> bool" where
  "HasPrefix s p \<longleftrightarrow> take (length p) s = p"

definition TrimPrefix :: "string \<Rightarrow> string \<Rightarrow> string" where
  "TrimPrefix s p = (if HasPrefix s p then drop (length p) s else s)"

lemma HasPrefix_append [simp]: "HasPrefix (p @ s) p"
  by (simp add: HasPrefix_def)

lemma TrimPrefix_append [simp]: "TrimPrefix (p @ s) p = s"
  by (simp add: TrimPrefix_def)

lemma HasPrefix_iff: "HasPrefix s p \<longleftrightarrow> (\<exists>r. s = p @ r)"
  by (metis HasPrefix_append HasPrefix_def append_take_drop_id)

section \<open>Sums over filtered lists\<close>

lemma sum_list_filter_append [simp]:
  "sum_list (map f (filter P (xs @ ys))) =
     sum_list (map f (filter P xs)) + (sum_list (map f (filter P ys)) :: int)"
  by simp

lemma fold_max_init: "fold max xs (m :: int) \<ge> m"
  by (induction xs arbitrary: m) (auto intro: order_trans [OF max.cobounded2])

lemma fold_max_ge: "x \<in> set xs \<Longrightarrow> x \<le> fold max xs (m :: int)"
  by (induction xs arbitrary: m) (auto intro: order_trans [OF max.cobounded1 fold_max_init])

lemma fold_max_le: "m \<le> b \<Longrightarrow> (\<And>x. x \<in> set xs \<Longrightarrow> x \<le> b) \<Longrightarrow> fold max xs (m :: int) \<le> b"
  by (induction xs arbitrary: m) auto

lemma fold_max_mem: "fold max xs (m :: int) \<in> insert m (set xs)"
proof (induction xs arbitrary: m)
  case (Cons a xs)
  from Cons [of "max a m"] show ?case by (auto simp: max_def split: if_splits)
qed simp

end
