(* ===== verification/Entity.thy ===== *)
theory Entity
  imports Ledger_Prelude
begin

text \<open>
  The domain entities of \<^verbatim>\<open>internal/domain/entity\<close>: currencies, accounts, postings, transactions,
  transfer requests, the idempotency states, the sentinel errors, and Go's \<^verbatim>\<open>errors.Is\<close> over the
  errors the system can produce.
\<close>

section \<open>Currency\<close>

text \<open>\<^verbatim>\<open>Currency\<close> is a Go \<^verbatim>\<open>int16\<close>; the five named constants are values of it, and a value that is
  none of them is possible.\<close>

type_synonym currency = "16 word"

definition CURRENCY_UNSPECIFIED :: currency where "CURRENCY_UNSPECIFIED = 0"
definition CURRENCY_USD :: currency where "CURRENCY_USD = 1"
definition CURRENCY_EUR :: currency where "CURRENCY_EUR = 2"
definition CURRENCY_RUB :: currency where "CURRENCY_RUB = 3"
definition CURRENCY_BYN :: currency where "CURRENCY_BYN = 4"

lemmas currency_defs = CURRENCY_UNSPECIFIED_def CURRENCY_USD_def CURRENCY_EUR_def
  CURRENCY_RUB_def CURRENCY_BYN_def

definition IsValid :: "currency \<Rightarrow> bool" where
  "IsValid c \<longleftrightarrow> c = CURRENCY_USD \<or> c = CURRENCY_EUR \<or> c = CURRENCY_RUB \<or> c = CURRENCY_BYN"

lemma IsValid_not_unspecified: "IsValid c \<Longrightarrow> c \<noteq> CURRENCY_UNSPECIFIED"
  by (auto simp: IsValid_def currency_defs)

lemma IsValid_range: "IsValid c \<longleftrightarrow> 1 \<le> sint c \<and> sint c \<le> 4"
proof
  show "1 \<le> sint c \<and> sint c \<le> 4" if "IsValid c"
    using that by (auto simp: IsValid_def currency_defs)
  show "IsValid c" if a: "1 \<le> sint c \<and> sint c \<le> 4"
  proof -
    have "sint c = 1 \<or> sint c = 2 \<or> sint c = 3 \<or> sint c = 4"
      using a by arith
    moreover have "c = word_of_int (sint c)" by simp
    ultimately have "c = word_of_int 1 \<or> c = word_of_int 2 \<or> c = word_of_int 3 \<or> c = word_of_int 4"
      by metis
    then show ?thesis by (simp add: IsValid_def currency_defs)
  qed
qed

section \<open>Entities\<close>

type_synonym time = int  \<comment> \<open>an instant, in nanoseconds\<close>

record account =
  acc_ID :: uuid
  acc_Balance :: int
  acc_Currency :: currency
  acc_LatestPostingID :: int
  acc_UpdatedAt :: time

record posting =
  p_ID :: int
  p_TransactionID :: uuid
  p_AccountID :: uuid
  p_Amount :: int

record transaction =
  t_ID :: uuid
  t_FromAccountID :: uuid
  t_ToAccountID :: uuid
  t_Currency :: currency
  t_Amount :: int
  t_IdempotencyKey :: uuid
  t_CreatedAt :: time

record transaction_request =
  req_IdempotencyKey :: uuid
  req_FromAccountID :: uuid
  req_ToAccountID :: uuid
  req_Currency :: currency
  req_Amount :: int

section \<open>Idempotency states\<close>

definition IDEMPOTENCY_STATUS_UNSPECIFIED :: string where
  "IDEMPOTENCY_STATUS_UNSPECIFIED = ''unspecified''"
definition IDEMPOTENCY_IN_PROCESS :: string where
  "IDEMPOTENCY_IN_PROCESS = ''in process''"

section \<open>Errors\<close>

text \<open>The failures of a network client (a lost connection, a cancelled or expired context) and
  the errors PostgreSQL reports for a statement or a transaction.\<close>

datatype driver_error = Conn_Error | Ctx_Canceled | Ctx_Deadline

datatype pg_error =
    Unique_Violation          \<comment> \<open>SQLSTATE 23505\<close>
  | Foreign_Key_Violation     \<comment> \<open>SQLSTATE 23503\<close>
  | Check_Violation           \<comment> \<open>SQLSTATE 23514\<close>
  | Numeric_Out_Of_Range      \<comment> \<open>SQLSTATE 22003\<close>
  | Invalid_Row_Count         \<comment> \<open>SQLSTATE 2201W, 2201X\<close>
  | In_Failed_Tx              \<comment> \<open>SQLSTATE 25P02\<close>
  | Tx_Closed                 \<comment> \<open>\<^verbatim>\<open>pgx.ErrTxClosed\<close>\<close>
  | Commit_Rollback           \<comment> \<open>\<^verbatim>\<open>pgx.ErrTxCommitRollback\<close>\<close>

text \<open>Go's \<^verbatim>\<open>error\<close> values: the sentinels of \<^verbatim>\<open>entity/errors.go\<close>, the errors of the drivers and of
  \<^verbatim>\<open>uuid.NewV7\<close>, a text made by \<^verbatim>\<open>fmt.Errorf\<close>, and a wrapped error (\<^verbatim>\<open>fmt.Errorf\<close> with \<^verbatim>\<open>%w\<close>).\<close>

datatype error =
    ErrAccountNotFound
  | ErrTransactionNotFound
  | ErrInvalidTxType
  | ErrInvalidAmount
  | ErrSameAccountTransfer
  | ErrInvalidCurrency
  | ErrEmptyIdempotencyKey
  | ErrInvalidUUID
  | ErrInsufficientFunds
  | ErrCurrencyMismatch
  | ErrIdempotencyConflict
  | ErrIdempotencyInProgress
  | Driver driver_error
  | Pg pg_error
  | Uuid_Error
  | Errorf string
  | Wrap string error

type_synonym 'a result = "error + 'a"

fun errors_Is :: "error \<Rightarrow> error \<Rightarrow> bool" where
  "errors_Is (Wrap m e) t \<longleftrightarrow> Wrap m e = t \<or> errors_Is e t"
| "errors_Is e t \<longleftrightarrow> e = t"

lemma errors_Is_refl [simp]: "errors_Is e e"
  by (cases e) auto

text \<open>An error that wraps no sentinel: what the drivers produce and what \<^verbatim>\<open>fmt.Errorf\<close> makes of it.\<close>

fun system_error :: "error \<Rightarrow> bool" where
  "system_error (Wrap m e) \<longleftrightarrow> system_error e"
| "system_error (Driver d) \<longleftrightarrow> True"
| "system_error (Pg p) \<longleftrightarrow> True"
| "system_error Uuid_Error \<longleftrightarrow> True"
| "system_error (Errorf m) \<longleftrightarrow> True"
| "system_error _ \<longleftrightarrow> False"

lemma system_error_Is:
  "system_error e \<Longrightarrow> \<not> system_error t \<Longrightarrow> \<not> errors_Is e t"
  by (induction e) auto

end
