(* ===== verification/Postgres.thy ===== *)
theory Postgres
  imports Entity
begin

text \<open>
  The PostgreSQL repository of \<^verbatim>\<open>internal/repository/postgres\<close> over the schema of
  \<^verbatim>\<open>migrations/000001_init_schema.up.sql\<close>. A statement of the source is a function on the tables;
  a driver call may fail at every point, before the server acts (\<open>Lost\<close>) or after it
  (\<open>Ack_Lost\<close>), as the list \<open>faults\<close> of the state says. A transaction sees the committed tables
  with its own changes on top and is installed by its commit (READ COMMITTED); the sequence behind
  \<^verbatim>\<open>postings.id\<close> advances outside every transaction, as PostgreSQL sequences do.
\<close>

section \<open>State\<close>

record tables =
  accounts :: "uuid \<rightharpoonup> account"
  transactions :: "transaction list"
  postings :: "posting list"
  worker_cursors :: "string \<rightharpoonup> int"

datatype tx_state = Active "tables \<Rightarrow> tables" | Aborted

datatype fault = Fine | Lost driver_error | Ack_Lost driver_error

record pg =
  committed :: tables
  postings_id_seq :: int
  pg_now :: time
  open_txs :: "nat \<rightharpoonup> tx_state"
  next_tx :: nat
  faults :: "fault list"

text \<open>\<^verbatim>\<open>entity.CustomTx\<close> is Go's \<^verbatim>\<open>any\<close>: nil, a pgx transaction, or a value of another type.\<close>

datatype custom_tx = Nil_Tx | Pg_Tx nat | Foreign_Tx

datatype querier = Pool | Tx nat

type_synonym 'a pgm = "pg \<Rightarrow> 'a result \<times> pg"

type_synonym 'a stmt = "int \<Rightarrow> time \<Rightarrow> tables \<Rightarrow> (pg_error + 'a \<times> (tables \<Rightarrow> tables)) \<times> int"

definition return_r :: "'a \<Rightarrow> 's \<Rightarrow> 'a result \<times> 's" where
  "return_r a = (\<lambda>s. (Inr a, s))"

definition throw :: "error \<Rightarrow> 's \<Rightarrow> 'a result \<times> 's" where
  "throw e = (\<lambda>s. (Inl e, s))"

definition bind_r :: "('s \<Rightarrow> 'a result \<times> 's) \<Rightarrow> ('a \<Rightarrow> 's \<Rightarrow> 'b result \<times> 's) \<Rightarrow> 's \<Rightarrow> 'b result \<times> 's" where
  "bind_r m f = (\<lambda>s. case m s of (Inl e, s') \<Rightarrow> (Inl e, s') | (Inr a, s') \<Rightarrow> f a s')"

text \<open>Rewriting of a returned error, the \<^verbatim>\<open>if err != nil { return ..., g(err) }\<close> of the sources.\<close>

definition on_error :: "('s \<Rightarrow> 'a result \<times> 's) \<Rightarrow> (error \<Rightarrow> error) \<Rightarrow> 's \<Rightarrow> 'a result \<times> 's" where
  "on_error m g = (\<lambda>s. case m s of (Inl e, s') \<Rightarrow> (Inl (g e), s') | (Inr a, s') \<Rightarrow> (Inr a, s'))"

lemma return_r_eq [simp]: "return_r a s = (Inr a, s)"
  by (simp add: return_r_def)

lemma throw_eq [simp]: "throw e s = (Inl e, s)"
  by (simp add: throw_def)

lemma bind_r_Inr [simp]: "m s = (Inr a, s') \<Longrightarrow> bind_r m f s = f a s'"
  and bind_r_Inl [simp]: "m s = (Inl e, s') \<Longrightarrow> bind_r m f s = (Inl e, s')"
  by (simp_all add: bind_r_def)

lemma on_error_Inr [simp]: "m s = (Inr a, s') \<Longrightarrow> on_error m g s = (Inr a, s')"
  and on_error_Inl [simp]: "m s = (Inl e, s') \<Longrightarrow> on_error m g s = (Inl (g e), s')"
  by (simp_all add: on_error_def)

lemma bind_r_cases [consumes 1, case_names Err Ok]:
  assumes "bind_r m f s = (r, t)"
  obtains e where "m s = (Inl e, t)" "r = Inl e"
  | a u where "m s = (Inr a, u)" "f a u = (r, t)"
  using assms by (auto simp: bind_r_def split: prod.splits sum.splits)

lemma on_error_cases [consumes 1, case_names Err Ok]:
  assumes "on_error m g s = (r, t)"
  obtains e where "m s = (Inl e, t)" "r = Inl (g e)"
  | a where "m s = (Inr a, t)" "r = Inr a"
  using assms by (auto simp: on_error_def split: prod.splits sum.splits)

section \<open>The driver\<close>

definition next_fault :: "pg \<Rightarrow> fault \<times> pg" where
  "next_fault s = (case faults s of [] \<Rightarrow> (Fine, s) | f # fs \<Rightarrow> (f, s\<lparr>faults := fs\<rparr>))"

definition set_tx :: "nat \<Rightarrow> tx_state option \<Rightarrow> pg \<Rightarrow> pg" where
  "set_tx n t s = s\<lparr>open_txs := (open_txs s)(n := t)\<rparr>"

text \<open>\<^verbatim>\<open>pgxpool.Pool.Begin\<close>.\<close>

definition pool_Begin :: "nat pgm" where
  "pool_Begin s =
     (case next_fault s of
        (Fine, s') \<Rightarrow> (Inr (next_tx s'), set_tx (next_tx s') (Some (Active id)) s'\<lparr>next_tx := Suc (next_tx s')\<rparr>)
      | (Lost d, s') \<Rightarrow> (Inl (Driver d), s')
      | (Ack_Lost d, s') \<Rightarrow> (Inl (Driver d), s'))"

text \<open>A statement inside a transaction. A failed statement or a broken connection leaves the
  transaction unable to commit.\<close>

definition tx_Exec :: "nat \<Rightarrow> 'a stmt \<Rightarrow> 'a pgm" where
  "tx_Exec n f s =
     (case open_txs s n of
        None \<Rightarrow> (Inl (Pg Tx_Closed), s)
      | Some Aborted \<Rightarrow>
          (case next_fault s of
             (Fine, s') \<Rightarrow> (Inl (Pg In_Failed_Tx), s')
           | (Lost d, s') \<Rightarrow> (Inl (Driver d), s')
           | (Ack_Lost d, s') \<Rightarrow> (Inl (Driver d), s'))
      | Some (Active u) \<Rightarrow>
          (case next_fault s of
             (Fine, s') \<Rightarrow>
               (case f (postings_id_seq s) (pg_now s) (u (committed s)) of
                  (Inl e, q) \<Rightarrow> (Inl (Pg e), set_tx n (Some Aborted) s'\<lparr>postings_id_seq := q\<rparr>)
                | (Inr (a, eff), q) \<Rightarrow>
                    (Inr a, set_tx n (Some (Active (eff \<circ> u))) s'\<lparr>postings_id_seq := q\<rparr>))
           | (Lost d, s') \<Rightarrow> (Inl (Driver d), set_tx n (Some Aborted) s')
           | (Ack_Lost d, s') \<Rightarrow>
               (Inl (Driver d),
                set_tx n (Some Aborted) s'\<lparr>postings_id_seq := snd (f (postings_id_seq s) (pg_now s) (u (committed s)))\<rparr>)))"

text \<open>A statement on the pool commits by itself.\<close>

definition pool_Exec :: "'a stmt \<Rightarrow> 'a pgm" where
  "pool_Exec f s =
     (case next_fault s of
        (Lost d, s') \<Rightarrow> (Inl (Driver d), s')
      | (Fine, s') \<Rightarrow>
          (case f (postings_id_seq s) (pg_now s) (committed s) of
             (Inl e, q) \<Rightarrow> (Inl (Pg e), s'\<lparr>postings_id_seq := q\<rparr>)
           | (Inr (a, eff), q) \<Rightarrow>
               (Inr a, s'\<lparr>postings_id_seq := q, committed := eff (committed s)\<rparr>))
      | (Ack_Lost d, s') \<Rightarrow>
          (case f (postings_id_seq s) (pg_now s) (committed s) of
             (Inl e, q) \<Rightarrow> (Inl (Driver d), s'\<lparr>postings_id_seq := q\<rparr>)
           | (Inr (a, eff), q) \<Rightarrow>
               (Inl (Driver d), s'\<lparr>postings_id_seq := q, committed := eff (committed s)\<rparr>)))"

definition q_Exec :: "querier \<Rightarrow> 'a stmt \<Rightarrow> 'a pgm" where
  "q_Exec q f = (case q of Pool \<Rightarrow> pool_Exec f | Tx n \<Rightarrow> tx_Exec n f)"

text \<open>\<^verbatim>\<open>rows.Err()\<close> after the rows are read: the connection may break while they arrive.\<close>

definition rows_Err :: "querier \<Rightarrow> unit pgm" where
  "rows_Err q s =
     (case next_fault s of
        (Fine, s') \<Rightarrow> (Inr (), s')
      | (Lost d, s') \<Rightarrow> (Inl (Driver d), (case q of Pool \<Rightarrow> s' | Tx n \<Rightarrow> set_tx n (Some Aborted) s'))
      | (Ack_Lost d, s') \<Rightarrow> (Inl (Driver d), (case q of Pool \<Rightarrow> s' | Tx n \<Rightarrow> set_tx n (Some Aborted) s')))"

text \<open>\<^verbatim>\<open>pgx.Tx.Commit\<close> and \<^verbatim>\<open>Rollback\<close>: both close the handle on every outcome.\<close>

definition tx_Commit :: "nat \<Rightarrow> unit pgm" where
  "tx_Commit n s =
     (case open_txs s n of
        None \<Rightarrow> (Inl (Pg Tx_Closed), s)
      | Some Aborted \<Rightarrow>
          (case next_fault s of
             (Fine, s') \<Rightarrow> (Inl (Pg Commit_Rollback), set_tx n None s')
           | (Lost d, s') \<Rightarrow> (Inl (Driver d), set_tx n None s')
           | (Ack_Lost d, s') \<Rightarrow> (Inl (Driver d), set_tx n None s'))
      | Some (Active u) \<Rightarrow>
          (case next_fault s of
             (Fine, s') \<Rightarrow> (Inr (), set_tx n None s'\<lparr>committed := u (committed s)\<rparr>)
           | (Lost d, s') \<Rightarrow> (Inl (Driver d), set_tx n None s')
           | (Ack_Lost d, s') \<Rightarrow> (Inl (Driver d), set_tx n None s'\<lparr>committed := u (committed s)\<rparr>)))"

definition tx_Rollback :: "nat \<Rightarrow> unit pgm" where
  "tx_Rollback n s =
     (case open_txs s n of
        None \<Rightarrow> (Inl (Pg Tx_Closed), s)
      | Some t \<Rightarrow>
          (case next_fault s of
             (Fine, s') \<Rightarrow> (Inr (), set_tx n None s')
           | (Lost d, s') \<Rightarrow> (Inl (Driver d), set_tx n None s')
           | (Ack_Lost d, s') \<Rightarrow> (Inl (Driver d), set_tx n None s')))"

lemmas driver_defs [pg_defs] = pool_Begin_def tx_Exec_def pool_Exec_def rows_Err_def tx_Commit_def
  tx_Rollback_def q_Exec_def set_tx_def next_fault_def

section \<open>Statements\<close>

definition read_stmt :: "(tables \<Rightarrow> 'a) \<Rightarrow> 'a stmt" where
  "read_stmt g = (\<lambda>q now w. (Inr (g w, id), q))"

definition upd_row :: "uuid \<Rightarrow> (account \<Rightarrow> account) \<Rightarrow> tables \<Rightarrow> tables" where
  "upd_row i f w = (case accounts w i of None \<Rightarrow> w | Some r \<Rightarrow> w\<lparr>accounts := (accounts w)(i \<mapsto> f r)\<rparr>)"

text \<open>\<^verbatim>\<open>SET amount = ..., latest_posting_id = GREATEST(latest_posting_id, $2), updated_at =
  CURRENT_TIMESTAMP\<close>, the assignments that \<^verbatim>\<open>DebitBalance\<close> and \<^verbatim>\<open>CreditBalance\<close> share.\<close>

definition move_row :: "int \<Rightarrow> int \<Rightarrow> time \<Rightarrow> account \<Rightarrow> account" where
  "move_row d pid now r = r\<lparr>acc_Balance := acc_Balance r + d,
     acc_LatestPostingID := max (acc_LatestPostingID r) pid, acc_UpdatedAt := now\<rparr>"

text \<open>An UPDATE of one account row: BIGINT overflow and the CHECK on \<^verbatim>\<open>amount\<close> are errors; the
  result is the number of rows affected.\<close>

definition update_account :: "uuid \<Rightarrow> (account \<Rightarrow> bool) \<Rightarrow> (time \<Rightarrow> account \<Rightarrow> account) \<Rightarrow> nat stmt" where
  "update_account i cond f = (\<lambda>q now w.
     (case accounts w i of
        None \<Rightarrow> Inr (0, id)
      | Some r \<Rightarrow>
          if \<not> cond r then Inr (0, id)
          else if \<not> bigint (acc_Balance (f now r)) then Inl Numeric_Out_Of_Range
          else if acc_Balance (f now r) < 0 then Inl Check_Violation
          else Inr (1, upd_row i (f now)), q))"

definition add_account :: "account \<Rightarrow> tables \<Rightarrow> tables" where
  "add_account a w = w\<lparr>accounts := (accounts w)(acc_ID a \<mapsto> a)\<rparr>"

definition insert_account :: "account \<Rightarrow> unit stmt" where
  "insert_account a = (\<lambda>q now w.
     (if acc_Balance a < 0 then Inl Check_Violation
      else if accounts w (acc_ID a) \<noteq> None then Inl Unique_Violation
      else Inr ((), add_account (a\<lparr>acc_UpdatedAt := now\<rparr>)), q))"

text \<open>A TIMESTAMPTZ keeps microseconds; the driver drops the rest of \<^verbatim>\<open>tr.CreatedAt\<close>.\<close>

definition stored_transaction :: "transaction \<Rightarrow> transaction" where
  "stored_transaction t = t\<lparr>t_CreatedAt := 1000 * (t_CreatedAt t div 1000)\<rparr>"

definition add_transaction :: "transaction \<Rightarrow> tables \<Rightarrow> tables" where
  "add_transaction t w = w\<lparr>transactions := transactions w @ [stored_transaction t]\<rparr>"

definition insert_transaction :: "transaction \<Rightarrow> unit stmt" where
  "insert_transaction t = (\<lambda>q now w.
     (if t_Amount t \<le> 0 then Inl Check_Violation
      else if \<exists>t'\<in>set (transactions w). t_ID t' = t_ID t \<or> t_IdempotencyKey t' = t_IdempotencyKey t
        then Inl Unique_Violation
      else if accounts w (t_FromAccountID t) = None \<or> accounts w (t_ToAccountID t) = None
        then Inl Foreign_Key_Violation
      else Inr ((), add_transaction t), q))"

text \<open>The rows of one INSERT into \<^verbatim>\<open>postings\<close> take consecutive values of the sequence.\<close>

fun number_postings :: "int \<Rightarrow> posting list \<Rightarrow> posting list" where
  "number_postings q [] = []"
| "number_postings q (p # ps) = p\<lparr>p_ID := q + 1\<rparr> # number_postings (q + 1) ps"

definition add_postings :: "posting list \<Rightarrow> tables \<Rightarrow> tables" where
  "add_postings rows w = w\<lparr>postings := postings w @ rows\<rparr>"

definition insert_postings :: "posting list \<Rightarrow> (int \<times> uuid) list stmt" where
  "insert_postings ps = (\<lambda>q now w.
     let rows = number_postings q ps in
     (if \<exists>p\<in>set ps. (\<forall>t\<in>set (transactions w). t_ID t \<noteq> p_TransactionID p) \<or> accounts w (p_AccountID p) = None
        then Inl Foreign_Key_Violation
      else Inr (map (\<lambda>p. (p_ID p, p_AccountID p)) rows, add_postings rows),
      q + int (length ps)))"

section \<open>\<^verbatim>\<open>common.go\<close> and \<^verbatim>\<open>tx_context.go\<close>\<close>

definition castTx :: "custom_tx \<Rightarrow> nat result" where
  "castTx tx = (case tx of Nil_Tx \<Rightarrow> Inl ErrInvalidTxType | Pg_Tx n \<Rightarrow> Inr n | Foreign_Tx \<Rightarrow> Inl ErrInvalidTxType)"

definition with_cast :: "custom_tx \<Rightarrow> (nat \<Rightarrow> 'a pgm) \<Rightarrow> 'a pgm" where
  "with_cast tx f = (case castTx tx of Inl e \<Rightarrow> throw e | Inr n \<Rightarrow> f n)"

text \<open>Of a \<^verbatim>\<open>context.Context\<close> only the transaction stored under \<^verbatim>\<open>txContextKey\<close> is data; its
  cancellation reaches the repository as a failing driver call.\<close>

type_synonym ctx = "nat option"

definition background :: ctx where
  "background = None"

definition withTx :: "ctx \<Rightarrow> nat \<Rightarrow> ctx" where
  "withTx c n = Some n"

definition querierFromContext :: "ctx \<Rightarrow> querier" where
  "querierFromContext c = (case c of Some n \<Rightarrow> Tx n | None \<Rightarrow> Pool)"

text \<open>The closure given to \<^verbatim>\<open>ReadWrite\<close> may hold more state than the server's, so the state is
  arbitrary and \<open>begin_call\<close> and \<open>end_call\<close> say how a driver call acts on it.\<close>

definition ReadWrite ::
  "(nat pgm \<Rightarrow> 's \<Rightarrow> nat result \<times> 's) \<Rightarrow> (unit pgm \<Rightarrow> 's \<Rightarrow> unit result \<times> 's) \<Rightarrow>
   ctx \<Rightarrow> (ctx \<Rightarrow> 's \<Rightarrow> unit result \<times> 's) \<Rightarrow> 's \<Rightarrow> unit result \<times> 's" where
  "ReadWrite begin_call end_call c fn =
     bind_r (on_error (begin_call pool_Begin) (Wrap ''db: failed to begin read-write transaction'')) (\<lambda>n s.
       case fn (withTx c n) s of
         (Inl e, s') \<Rightarrow> (Inl e, snd (end_call (tx_Rollback n) s'))
       | (Inr _, s') \<Rightarrow> on_error (end_call (tx_Commit n)) (Wrap ''db: commit failed'') s')"

section \<open>\<^verbatim>\<open>account.go\<close>\<close>

definition CreateAccount :: "custom_tx \<Rightarrow> account \<Rightarrow> unit pgm" where
  "CreateAccount tx acc = with_cast tx (\<lambda>n.
     on_error (tx_Exec n (insert_account acc)) (Wrap ''db: failed to create account''))"

definition GetByID :: "uuid \<Rightarrow> account pgm" where
  "GetByID i =
     bind_r (on_error (pool_Exec (read_stmt (\<lambda>w. accounts w i))) (Wrap ''db: failed to get account''))
       (\<lambda>row. case row of None \<Rightarrow> throw ErrAccountNotFound | Some a \<Rightarrow> return_r a)"

definition GetCurrencies :: "uuid list \<Rightarrow> (uuid \<rightharpoonup> currency) pgm" where
  "GetCurrencies ids =
     (if ids = [] then return_r Map.empty
      else bind_r (on_error
             (pool_Exec (read_stmt (\<lambda>w i. if i \<in> set ids then map_option acc_Currency (accounts w i) else None)))
             (Wrap ''db: failed to get currencies'')) (\<lambda>rows.
           bind_r (on_error (rows_Err Pool) (Wrap ''db: rows scan currency failed'')) (\<lambda>_.
             return_r rows)))"

definition DebitBalance :: "custom_tx \<Rightarrow> uuid \<Rightarrow> int \<Rightarrow> int \<Rightarrow> unit pgm" where
  "DebitBalance tx i amount postingID = with_cast tx (\<lambda>n.
     bind_r (on_error
         (tx_Exec n (update_account i (\<lambda>r. amount \<le> acc_Balance r) (move_row (- amount) postingID)))
         (Wrap ''db: failed to debit balance''))
       (\<lambda>affected. if affected = 0 then throw ErrInsufficientFunds else return_r ()))"

definition CreditBalance :: "custom_tx \<Rightarrow> uuid \<Rightarrow> int \<Rightarrow> int \<Rightarrow> unit pgm" where
  "CreditBalance tx i amount postingID = with_cast tx (\<lambda>n.
     bind_r (on_error
         (tx_Exec n (update_account i (\<lambda>r. True) (move_row amount postingID)))
         (Wrap ''db: failed to credit balance''))
       (\<lambda>affected. if affected = 0 then throw ErrAccountNotFound else return_r ()))"

section \<open>\<^verbatim>\<open>transaction.go\<close>\<close>

definition CreateTransaction :: "custom_tx \<Rightarrow> transaction \<Rightarrow> unit pgm" where
  "CreateTransaction tx tr = with_cast tx (\<lambda>n.
     on_error (tx_Exec n (insert_transaction tr))
       (\<lambda>e. if e = Pg Unique_Violation then ErrIdempotencyConflict else e))"

definition GetTransactionByID :: "uuid \<Rightarrow> transaction pgm" where
  "GetTransactionByID i =
     bind_r (on_error (pool_Exec (read_stmt (\<lambda>w. find (\<lambda>t. t_ID t = i) (transactions w))))
         (Wrap ''db: get transaction error''))
       (\<lambda>row. case row of None \<Rightarrow> throw ErrTransactionNotFound | Some t \<Rightarrow> return_r t)"

definition BeginTx :: "custom_tx pgm" where
  "BeginTx = bind_r (on_error pool_Begin (Wrap ''db: failed to begin transaction''))
     (\<lambda>n. return_r (Pg_Tx n))"

definition CommitTx :: "custom_tx \<Rightarrow> unit pgm" where
  "CommitTx tx = with_cast tx tx_Commit"

definition RollbackTx :: "custom_tx \<Rightarrow> unit pgm" where
  "RollbackTx tx = with_cast tx tx_Rollback"

section \<open>\<^verbatim>\<open>posting.go\<close>\<close>

text \<open>An error of the executed statement is reported when its rows are read; every other failure
  when the query is sent.\<close>

definition execution_error :: "error \<Rightarrow> bool" where
  "execution_error e \<longleftrightarrow> e \<in> {Pg Foreign_Key_Violation, Pg Check_Violation, Pg Unique_Violation,
     Pg Numeric_Out_Of_Range, Pg Invalid_Row_Count}"

definition created_ids :: "(int \<times> uuid) list \<Rightarrow> (uuid \<rightharpoonup> int)" where
  "created_ids rows = fold (\<lambda>(i, a) m. m(a \<mapsto> i)) rows Map.empty"

definition CreatePostings :: "custom_tx \<Rightarrow> posting list \<Rightarrow> (uuid \<rightharpoonup> int) pgm" where
  "CreatePostings tx ps = with_cast tx (\<lambda>n.
     if length ps = 1 \<or> length ps = 2 then
       bind_r (on_error (tx_Exec n (insert_postings ps))
           (\<lambda>e. Wrap (if execution_error e then ''db: rows created postings failed''
                      else ''db: create postings failed'') e)) (\<lambda>rows.
       bind_r (on_error (rows_Err (Tx n)) (Wrap ''db: rows created postings failed'')) (\<lambda>_.
         return_r (created_ids rows)))
     else return_r Map.empty)"

definition ListPostingsByAccountID :: "uuid \<Rightarrow> int \<Rightarrow> int \<Rightarrow> posting list pgm" where
  "ListPostingsByAccountID a limit offset =
     bind_r (on_error
         (pool_Exec (\<lambda>q now w.
            (if limit < 0 \<or> offset < 0 then Inl Invalid_Row_Count
             else Inr (take (nat limit) (drop (nat offset)
                    (rev (sort_key p_ID (filter (\<lambda>p. p_AccountID p = a) (postings w))))), id), q)))
         (\<lambda>e. Wrap (if execution_error e then ''db: rows scan postings failed''
                    else ''db: query postings failed'') e)) (\<lambda>rows.
     bind_r (on_error (rows_Err Pool) (Wrap ''db: rows scan postings failed'')) (\<lambda>_.
       return_r rows))"

section \<open>\<^verbatim>\<open>posting_worker.go\<close>\<close>

definition sum_postings :: "(posting \<Rightarrow> bool) \<Rightarrow> tables \<Rightarrow> int" where
  "sum_postings P w = sum_list (map p_Amount (filter P (postings w)))"

definition max_posting_id :: "(posting \<Rightarrow> bool) \<Rightarrow> tables \<Rightarrow> int" where
  "max_posting_id P w = (case map p_ID (filter P (postings w)) of [] \<Rightarrow> 0 | i # is \<Rightarrow> fold max is i)"

text \<open>\<^verbatim>\<open>SUM\<close> over BIGINT is a NUMERIC; scanning it into an \<^verbatim>\<open>int64\<close> fails out of range.\<close>

definition GetPostingsSum :: "ctx \<Rightarrow> uuid \<Rightarrow> int \<Rightarrow> int pgm" where
  "GetPostingsSum c a limitID =
     bind_r (on_error
         (q_Exec (querierFromContext c)
            (if limitID > 0 then read_stmt (sum_postings (\<lambda>p. p_AccountID p = a \<and> p_ID p \<le> limitID))
             else read_stmt (sum_postings (\<lambda>p. p_AccountID p = a))))
         (Wrap ''db: get postings sum failed''))
       (\<lambda>sum. if bigint sum then return_r sum
              else throw (Wrap ''db: get postings sum failed'' (Errorf ''cannot scan numeric into int64'')))"

definition GetBalanceFromPostings :: "ctx \<Rightarrow> uuid \<Rightarrow> int pgm" where
  "GetBalanceFromPostings c a = GetPostingsSum c a 0"

definition GetAccountBalanceSnapshot :: "ctx \<Rightarrow> uuid \<Rightarrow> (int \<times> int) pgm" where
  "GetAccountBalanceSnapshot c a =
     bind_r (on_error (q_Exec (querierFromContext c) (read_stmt (\<lambda>w. accounts w a)))
         (Wrap ''db: get account balance snapshot failed''))
       (\<lambda>row. case row of None \<Rightarrow> throw ErrAccountNotFound
                        | Some r \<Rightarrow> return_r (acc_Balance r, acc_LatestPostingID r))"

definition correction :: "uuid \<Rightarrow> int \<Rightarrow> nat stmt" where
  "correction a newAmount = (\<lambda>q now w.
     update_account a (\<lambda>r. True)
       (\<lambda>now r. r\<lparr>acc_Balance := newAmount,
          acc_LatestPostingID := max_posting_id (\<lambda>p. p_AccountID p = a) w,
          acc_UpdatedAt := now\<rparr>) q now w)"

definition UpdateBalanceFromContext :: "ctx \<Rightarrow> uuid \<Rightarrow> int \<Rightarrow> unit pgm" where
  "UpdateBalanceFromContext c a newAmount =
     bind_r (on_error (q_Exec (querierFromContext c) (correction a newAmount))
         (Wrap ''db: update balance from context failed''))
       (\<lambda>_. return_r ())"

definition ApplyBalanceCorrection :: "ctx \<Rightarrow> uuid \<Rightarrow> int \<Rightarrow> unit pgm" where
  "ApplyBalanceCorrection c a newAmount = UpdateBalanceFromContext c a newAmount"

definition GetCursorPosition :: "string \<Rightarrow> int \<Rightarrow> (int \<times> int) pgm" where
  "GetCursorPosition workerName batchSize =
     bind_r (on_error (pool_Exec (read_stmt (\<lambda>w. case worker_cursors w workerName of None \<Rightarrow> 0 | Some p \<Rightarrow> p)))
         (Wrap ''db: get worker cursor position failed'')) (\<lambda>cursorPosition.
     bind_r (on_error (pool_Exec (read_stmt (max_posting_id (\<lambda>_. True))))
         (Wrap ''db: get max posting id failed'')) (\<lambda>maxPostingID.
       let upperLimit = wrap64 (cursorPosition + batchSize)
       in return_r (cursorPosition, if upperLimit > maxPostingID then maxPostingID else upperLimit)))"

definition GetActiveAccounts :: "int \<Rightarrow> int \<Rightarrow> uuid list pgm" where
  "GetActiveAccounts lastCheckedID maxID =
     (if lastCheckedID \<ge> maxID then return_r []
      else bind_r (on_error
             (pool_Exec (read_stmt (\<lambda>w.
                sort (remdups (map p_AccountID (filter (\<lambda>p. p_ID p > lastCheckedID \<and> p_ID p \<le> maxID) (postings w)))))))
             (Wrap ''db: get active accounts failed'')) (\<lambda>rows.
           bind_r (on_error (rows_Err Pool) (Wrap ''db: iterate active accounts failed'')) (\<lambda>_.
             return_r rows)))"

definition upsert_cursor :: "string \<Rightarrow> int \<Rightarrow> unit stmt" where
  "upsert_cursor name position = (\<lambda>q now w.
     (if position < 0 then Inl Check_Violation
      else Inr ((), (\<lambda>w. w\<lparr>worker_cursors := (worker_cursors w)(name \<mapsto> position)\<rparr>)), q))"

definition UpdateCursorPosition :: "string \<Rightarrow> int \<Rightarrow> unit pgm" where
  "UpdateCursorPosition workerName position =
     on_error (pool_Exec (upsert_cursor workerName position))
       (Wrap ''db: update worker cursor position failed'')"

end
