(* ===== verification/Postgres_Facts.thy ===== *)
theory Postgres_Facts
  imports Postgres
begin

text \<open>
  What the repository operations do to a transaction's view of the tables and to the rest of the
  server state, the invariants of the tables (\<open>schema_ok\<close>, what the constraints of the schema
  enforce; \<open>books_ok\<close>, that every balance is the sum of its postings), and the statements that
  keep them.
\<close>

section \<open>Frames and views\<close>

definition tx_view :: "nat \<Rightarrow> pg \<Rightarrow> tables option" where
  "tx_view n s = (case open_txs s n of Some (Active u) \<Rightarrow> Some (u (committed s)) | _ \<Rightarrow> None)"

text \<open>What a call inside transaction \<open>n\<close> leaves alone.\<close>

definition tx_frame :: "nat \<Rightarrow> pg \<Rightarrow> pg \<Rightarrow> bool" where
  "tx_frame n s t \<longleftrightarrow> committed t = committed s \<and> pg_now t = pg_now s \<and> next_tx t = next_tx s
     \<and> (\<forall>m. m \<noteq> n \<longrightarrow> open_txs t m = open_txs s m)
     \<and> (open_txs s n = None \<longleftrightarrow> open_txs t n = None)
     \<and> postings_id_seq s \<le> postings_id_seq t \<and> (faults s = [] \<longrightarrow> faults t = [])"

lemma tx_frame_refl [simp]: "tx_frame n s s"
  by (simp add: tx_frame_def)

lemma tx_frame_trans [trans]: "tx_frame n s t \<Longrightarrow> tx_frame n t u \<Longrightarrow> tx_frame n s u"
  by (auto simp: tx_frame_def)

lemma next_fault_cases:
  obtains "faults s = []" "next_fault s = (Fine, s)"
  | f fs where "faults s = f # fs" "next_fault s = (f, s\<lparr>faults := fs\<rparr>)"
  by (cases "faults s") (auto simp: pg_defs)

definition seq_mono :: "'a stmt \<Rightarrow> bool" where
  "seq_mono f \<longleftrightarrow> (\<forall>q now w. q \<le> snd (f q now w))"

lemma seq_mono_stmts [simp, intro]:
  "seq_mono (read_stmt g)" "seq_mono (update_account i c h)" "seq_mono (insert_account a)"
  "seq_mono (insert_transaction t)" "seq_mono (insert_postings ps)" "seq_mono (correction i x)"
  by (auto simp: seq_mono_def read_stmt_def update_account_def insert_account_def correction_def
      insert_transaction_def insert_postings_def Let_def)

lemma tx_Exec_frame:
  assumes "seq_mono f" and "tx_Exec n f s = (r, t)"
  shows "tx_frame n s t"
proof -
  have q: "postings_id_seq s \<le> snd (f (postings_id_seq s) (pg_now s) w)" for w
    using assms(1) by (simp add: seq_mono_def)
  have "f (postings_id_seq s) (pg_now s) w = (x, q') \<Longrightarrow> postings_id_seq s \<le> q'" for w x q'
    using q [of w] by simp
  with q assms(2) show ?thesis
    by (cases "faults s")
      (auto simp: pg_defs tx_frame_def
        split: option.splits tx_state.splits fault.splits prod.splits sum.splits)
qed

lemma tx_Exec_Inr:
  assumes "tx_Exec n f s = (Inr a, t)"
  obtains w eff where "tx_view n s = Some w"
    and "f (postings_id_seq s) (pg_now s) w = (Inr (a, eff), postings_id_seq t)"
    and "tx_view n t = Some (eff w)"
  using assms
  by (cases "faults s")
    (auto simp: pg_defs tx_view_def
      split: option.splits tx_state.splits fault.splits prod.splits sum.splits)

lemma tx_Exec_quiet:
  assumes "faults s = []" and "tx_view n s = Some w"
  shows "\<exists>t. tx_Exec n f s =
           ((case fst (f (postings_id_seq s) (pg_now s) w) of Inl e \<Rightarrow> Inl (Pg e) | Inr (a, _) \<Rightarrow> Inr a), t)"
  using assms
  by (auto simp: pg_defs tx_view_def split: option.splits tx_state.splits
      prod.splits sum.splits)

lemma rows_Err_frame:
  "rows_Err (Tx n) s = (r, t) \<Longrightarrow> open_txs s n \<noteq> None \<Longrightarrow> tx_frame n s t"
  by (cases "faults s")
    (auto simp: pg_defs tx_frame_def split: fault.splits)

lemma rows_Err_Inr:
  "rows_Err q s = (Inr x, t) \<Longrightarrow> open_txs t = open_txs s \<and> committed t = committed s
     \<and> postings_id_seq t = postings_id_seq s \<and> pg_now t = pg_now s"
  by (cases "faults s") (auto simp: pg_defs split: fault.splits)

lemma rows_Err_quiet: "faults s = [] \<Longrightarrow> rows_Err q s = (Inr (), s)"
  by (simp add: pg_defs)

lemma tx_view_open: "tx_view n s = Some w \<Longrightarrow> open_txs s n \<noteq> None"
  by (auto simp: tx_view_def split: option.splits)

section \<open>Frames of the repository operations\<close>

lemma with_cast_Pg [simp]: "with_cast (Pg_Tx n) f = f n"
  by (simp add: with_cast_def castTx_def)

lemma CreateAccount_frame: "CreateAccount (Pg_Tx n) a s = (r, t) \<Longrightarrow> tx_frame n s t"
  by (auto simp: CreateAccount_def elim!: on_error_cases dest: tx_Exec_frame [rotated])

lemma CreateTransaction_frame: "CreateTransaction (Pg_Tx n) x s = (r, t) \<Longrightarrow> tx_frame n s t"
  by (auto simp: CreateTransaction_def elim!: on_error_cases dest: tx_Exec_frame [rotated])

lemma DebitBalance_frame: "DebitBalance (Pg_Tx n) i a p s = (r, t) \<Longrightarrow> tx_frame n s t"
  by (auto simp: DebitBalance_def split: if_splits elim!: on_error_cases bind_r_cases
      dest: tx_Exec_frame [rotated])

lemma CreditBalance_frame: "CreditBalance (Pg_Tx n) i a p s = (r, t) \<Longrightarrow> tx_frame n s t"
  by (auto simp: CreditBalance_def split: if_splits elim!: on_error_cases bind_r_cases
      dest: tx_Exec_frame [rotated])

lemma CreatePostings_frame:
  assumes "CreatePostings (Pg_Tx n) ps s = (r, t)"
  shows "tx_frame n s t"
proof (cases "length ps = 1 \<or> length ps = 2")
  case True
  show ?thesis
    using assms unfolding CreatePostings_def with_cast_Pg if_P [OF True]
  proof (cases rule: bind_r_cases)
    case (Err e)
    then show ?thesis by (auto elim!: on_error_cases dest: tx_Exec_frame [rotated])
  next
    case (Ok rows u)
    then have x: "tx_Exec n (insert_postings ps) s = (Inr rows, u)"
      by (auto elim!: on_error_cases)
    then have su: "tx_frame n s u" and "open_txs u n \<noteq> None"
      by (auto dest: tx_Exec_frame [rotated] tx_view_open elim: tx_Exec_Inr)
    moreover obtain r' where "rows_Err (Tx n) u = (r', t)"
      using Ok(2) by (auto elim!: on_error_cases bind_r_cases)
    ultimately show ?thesis by (blast intro: tx_frame_trans rows_Err_frame)
  qed
next
  case False
  with assms show ?thesis by (simp add: CreatePostings_def)
qed

lemmas repo_frames = CreateAccount_frame CreateTransaction_frame DebitBalance_frame
  CreditBalance_frame CreatePostings_frame

section \<open>Successful operations\<close>

lemma CreateAccount_Inr:
  assumes "CreateAccount (Pg_Tx n) a s = (Inr x, t)" and "tx_view n s = Some w"
  shows "tx_view n t = Some (add_account (a\<lparr>acc_UpdatedAt := pg_now s\<rparr>) w)"
    and "0 \<le> acc_Balance a" and "accounts w (acc_ID a) = None"
    and "postings_id_seq t = postings_id_seq s"
  using assms by (auto simp: CreateAccount_def insert_account_def split: if_splits
      elim!: on_error_cases tx_Exec_Inr)

lemma CreateTransaction_Inr:
  assumes "CreateTransaction (Pg_Tx n) x s = (Inr y, t)" and "tx_view n s = Some w"
  shows "tx_view n t = Some (add_transaction x w)"
    and "0 < t_Amount x"
    and "\<And>t'. t' \<in> set (transactions w) \<Longrightarrow> t_ID t' \<noteq> t_ID x \<and> t_IdempotencyKey t' \<noteq> t_IdempotencyKey x"
    and "accounts w (t_FromAccountID x) \<noteq> None" and "accounts w (t_ToAccountID x) \<noteq> None"
    and "postings_id_seq t = postings_id_seq s"
  using assms by (auto simp: CreateTransaction_def insert_transaction_def split: if_splits
      elim!: on_error_cases tx_Exec_Inr)

lemma CreatePostings_Inr:
  assumes "CreatePostings (Pg_Tx n) ps s = (Inr ids, t)" and "tx_view n s = Some w"
    and len: "length ps = 1 \<or> length ps = 2"
  shows "tx_view n t = Some (add_postings (number_postings (postings_id_seq s) ps) w)"
    and "ids = created_ids (map (\<lambda>p. (p_ID p, p_AccountID p)) (number_postings (postings_id_seq s) ps))"
    and "postings_id_seq t = postings_id_seq s + int (length ps)"
    and "\<And>p. p \<in> set ps \<Longrightarrow> accounts w (p_AccountID p) \<noteq> None"
    and "\<And>p. p \<in> set ps \<Longrightarrow> p_TransactionID p \<in> t_ID ` set (transactions w)"
proof -
  obtain rows u where x: "tx_Exec n (insert_postings ps) s = (Inr rows, u)"
    and y: "rows_Err (Tx n) u = (Inr (), t)" and ids: "ids = created_ids rows"
    using assms(1) unfolding CreatePostings_def with_cast_Pg if_P [OF len]
    by (auto elim!: on_error_cases bind_r_cases)
  have tu: "tx_view n t = tx_view n u" "postings_id_seq t = postings_id_seq u"
    using rows_Err_Inr [OF y] by (auto simp: tx_view_def split: option.splits tx_state.splits)
  from x have *: "insert_postings ps (postings_id_seq s) (pg_now s) w =
      (Inr (rows, add_postings (number_postings (postings_id_seq s) ps)), postings_id_seq u)"
    and "tx_view n u = Some (add_postings (number_postings (postings_id_seq s) ps) w)"
    using assms(2) by (auto simp: insert_postings_def Let_def split: if_splits elim!: tx_Exec_Inr)
  then show "tx_view n t = Some (add_postings (number_postings (postings_id_seq s) ps) w)"
    and "ids = created_ids (map (\<lambda>p. (p_ID p, p_AccountID p)) (number_postings (postings_id_seq s) ps))"
    and "postings_id_seq t = postings_id_seq s + int (length ps)"
    and "\<And>p. p \<in> set ps \<Longrightarrow> accounts w (p_AccountID p) \<noteq> None"
    and "\<And>p. p \<in> set ps \<Longrightarrow> p_TransactionID p \<in> t_ID ` set (transactions w)"
    by (auto simp: insert_postings_def Let_def tu ids image_iff split: if_splits) metis
qed

lemma DebitBalance_Inr:
  assumes "DebitBalance (Pg_Tx n) i a p s = (Inr x, t)" and "tx_view n s = Some w"
  shows "tx_view n t = Some (upd_row i (move_row (- a) p (pg_now s)) w)"
    and "\<exists>r. accounts w i = Some r \<and> a \<le> acc_Balance r \<and> bigint (acc_Balance r - a)"
    and "postings_id_seq t = postings_id_seq s"
  using assms by (auto simp: DebitBalance_def update_account_def move_row_def split: if_splits option.splits
      elim!: on_error_cases bind_r_cases tx_Exec_Inr)

lemma CreditBalance_Inr:
  assumes "CreditBalance (Pg_Tx n) i a p s = (Inr x, t)" and "tx_view n s = Some w"
  shows "tx_view n t = Some (upd_row i (move_row a p (pg_now s)) w)"
    and "\<exists>r. accounts w i = Some r \<and> 0 \<le> acc_Balance r + a \<and> bigint (acc_Balance r + a)"
    and "postings_id_seq t = postings_id_seq s"
  using assms by (auto simp: CreditBalance_def update_account_def move_row_def split: if_splits option.splits
      elim!: on_error_cases bind_r_cases tx_Exec_Inr)

section \<open>Results on a server that answers every call\<close>

lemma CreateAccount_quiet:
  assumes "faults s = []" and "tx_view n s = Some w"
  shows "fst (CreateAccount (Pg_Tx n) a s) =
    (if acc_Balance a < 0 then Inl (Wrap ''db: failed to create account'' (Pg Check_Violation))
     else if accounts w (acc_ID a) \<noteq> None then Inl (Wrap ''db: failed to create account'' (Pg Unique_Violation))
     else Inr ())"
  using tx_Exec_quiet [OF assms, of "insert_account a"]
  by (auto simp: CreateAccount_def insert_account_def on_error_def split: if_splits)

lemma CreateTransaction_quiet:
  assumes "faults s = []" and "tx_view n s = Some w"
  shows "fst (CreateTransaction (Pg_Tx n) x s) =
    (if t_Amount x \<le> 0 then Inl (Pg Check_Violation)
     else if \<exists>t'\<in>set (transactions w). t_ID t' = t_ID x \<or> t_IdempotencyKey t' = t_IdempotencyKey x
       then Inl ErrIdempotencyConflict
     else if accounts w (t_FromAccountID x) = None \<or> accounts w (t_ToAccountID x) = None
       then Inl (Pg Foreign_Key_Violation)
     else Inr ())"
  using tx_Exec_quiet [OF assms, of "insert_transaction x"]
  by (auto simp: CreateTransaction_def insert_transaction_def on_error_def split: if_splits)

lemma CreatePostings_quiet:
  assumes "faults s = []" and "tx_view n s = Some w" and len: "length ps = 1 \<or> length ps = 2"
    and "\<forall>p\<in>set ps. p_TransactionID p \<in> t_ID ` set (transactions w) \<and> accounts w (p_AccountID p) \<noteq> None"
  shows "\<exists>ids t. CreatePostings (Pg_Tx n) ps s = (Inr ids, t)"
proof -
  have "fst (insert_postings ps (postings_id_seq s) (pg_now s) w) =
     Inr (map (\<lambda>p. (p_ID p, p_AccountID p)) (number_postings (postings_id_seq s) ps),
          add_postings (number_postings (postings_id_seq s) ps))"
    using assms(4) by (fastforce simp: insert_postings_def Let_def)
  with tx_Exec_quiet [OF assms(1,2), of "insert_postings ps"]
  obtain rows u where x: "tx_Exec n (insert_postings ps) s = (Inr rows, u)"
    by auto
  moreover have "faults u = []"
    using tx_Exec_frame [OF _ x] assms(1) by (auto simp: tx_frame_def)
  ultimately show ?thesis
    using len by (simp add: CreatePostings_def rows_Err_quiet)
qed

lemma DebitBalance_quiet:
  assumes "faults s = []" and "tx_view n s = Some w"
    and "\<And>r. accounts w i = Some r \<Longrightarrow> bigint (acc_Balance r)" and "0 \<le> a"
  shows "fst (DebitBalance (Pg_Tx n) i a p s) =
    (case accounts w i of None \<Rightarrow> Inl ErrInsufficientFunds
     | Some r \<Rightarrow> if a \<le> acc_Balance r then Inr () else Inl ErrInsufficientFunds)"
proof -
  have "bigint (acc_Balance r - a)" if "accounts w i = Some r" "a \<le> acc_Balance r" for r
    using assms(3) [OF that(1)] that(2) \<open>0 \<le> a\<close> by (simp add: bigint_def)
  then show ?thesis
    using tx_Exec_quiet [OF assms(1,2), of "update_account i (\<lambda>r. a \<le> acc_Balance r) (move_row (- a) p)"]
    by (auto simp: DebitBalance_def update_account_def move_row_def on_error_def bind_r_def
        split: if_splits option.splits)
qed

lemma CreditBalance_quiet:
  assumes "faults s = []" and "tx_view n s = Some w"
    and "\<And>r. accounts w i = Some r \<Longrightarrow> 0 \<le> acc_Balance r" and "0 \<le> a"
  shows "fst (CreditBalance (Pg_Tx n) i a p s) =
    (case accounts w i of None \<Rightarrow> Inl ErrAccountNotFound
     | Some r \<Rightarrow> if bigint (acc_Balance r + a) then Inr ()
                else Inl (Wrap ''db: failed to credit balance'' (Pg Numeric_Out_Of_Range)))"
proof -
  have "0 \<le> acc_Balance r + a" if "accounts w i = Some r" for r
    using assms(3) [OF that] \<open>0 \<le> a\<close> by simp
  then show ?thesis
    using tx_Exec_quiet [OF assms(1,2), of "update_account i (\<lambda>r. True) (move_row a p)"]
    by (auto simp: CreditBalance_def update_account_def move_row_def on_error_def bind_r_def
        split: if_splits option.splits)
qed

section \<open>Invariants of the tables\<close>

abbreviation of_account :: "uuid \<Rightarrow> posting \<Rightarrow> bool" where
  "of_account a \<equiv> (\<lambda>p. p_AccountID p = a)"

text \<open>What the keys, the references and the CHECKs of the schema enforce, with \<open>q\<close> the last value
  the posting sequence gave.\<close>

definition schema_ok :: "int \<Rightarrow> tables \<Rightarrow> bool" where
  "schema_ok q w \<longleftrightarrow>
     (\<forall>a r. accounts w a = Some r \<longrightarrow> acc_ID r = a \<and> 0 \<le> acc_Balance r \<and> bigint (acc_Balance r))
   \<and> distinct (map t_ID (transactions w)) \<and> distinct (map t_IdempotencyKey (transactions w))
   \<and> (\<forall>t\<in>set (transactions w). 0 < t_Amount t \<and> accounts w (t_FromAccountID t) \<noteq> None
        \<and> accounts w (t_ToAccountID t) \<noteq> None)
   \<and> distinct (map p_ID (postings w))
   \<and> (\<forall>p\<in>set (postings w). 0 < p_ID p \<and> p_ID p \<le> q \<and> accounts w (p_AccountID p) \<noteq> None
        \<and> p_TransactionID p \<in> t_ID ` set (transactions w))"

text \<open>The books balance: each balance is the sum of the account's postings, and
  \<^verbatim>\<open>latest_posting_id\<close> is the newest of them.\<close>

definition books_ok :: "tables \<Rightarrow> bool" where
  "books_ok w \<longleftrightarrow> (\<forall>a r. accounts w a = Some r \<longrightarrow>
     acc_Balance r = sum_postings (of_account a) w
     \<and> acc_LatestPostingID r = max_posting_id (of_account a) w)"

lemma max_posting_id_fold:
  assumes "\<forall>p\<in>set (postings w). 0 < p_ID p"
  shows "max_posting_id P w = fold max (map p_ID (filter P (postings w))) 0"
proof (cases "map p_ID (filter P (postings w))")
  case (Cons i js)
  then have "i \<in> set (map p_ID (filter P (postings w)))" by simp
  with assms have "0 < i" by auto
  with Cons show ?thesis by (simp add: max_posting_id_def max_def)
qed (simp add: max_posting_id_def)

lemma sum_postings_add [simp]:
  "sum_postings P (add_postings rows w) = sum_postings P w + sum_list (map p_Amount (filter P rows))"
  by (simp add: sum_postings_def add_postings_def)

lemma sum_postings_frame [simp]:
  "sum_postings P (upd_row i f w) = sum_postings P w"
  "sum_postings P (add_transaction t w) = sum_postings P w"
  "sum_postings P (add_account a w) = sum_postings P w"
  by (simp_all add: sum_postings_def upd_row_def add_transaction_def add_account_def split: option.splits)

lemma max_posting_id_frame [simp]:
  "max_posting_id P (upd_row i f w) = max_posting_id P w"
  "max_posting_id P (add_transaction t w) = max_posting_id P w"
  "max_posting_id P (add_account a w) = max_posting_id P w"
  by (simp_all add: max_posting_id_def upd_row_def add_transaction_def add_account_def split: option.splits)

lemma tables_frame [simp]:
  "postings (upd_row i f w) = postings w" "transactions (upd_row i f w) = transactions w"
  "worker_cursors (upd_row i f w) = worker_cursors w"
  "accounts (add_transaction t w) = accounts w" "postings (add_transaction t w) = postings w"
  "transactions (add_transaction t w) = transactions w @ [stored_transaction t]"
  "accounts (add_postings rows w) = accounts w" "transactions (add_postings rows w) = transactions w"
  "postings (add_postings rows w) = postings w @ rows"
  "postings (add_account a w) = postings w" "transactions (add_account a w) = transactions w"
  "accounts (add_account a w) = (accounts w)(acc_ID a \<mapsto> a)"
  "worker_cursors (add_transaction t w) = worker_cursors w" "worker_cursors (add_postings rows w) = worker_cursors w"
  "worker_cursors (add_account a w) = worker_cursors w"
  by (simp_all add: upd_row_def add_transaction_def add_postings_def add_account_def split: option.splits)

lemma accounts_upd_row:
  "accounts (upd_row i f w) = (accounts w)(i := map_option f (accounts w i))"
  by (auto simp: upd_row_def split: option.splits)

lemma upd_row_commute:
  "i \<noteq> j \<Longrightarrow> upd_row i f (upd_row j g w) = upd_row j g (upd_row i f w)"
  by (auto simp: upd_row_def fun_upd_twist split: option.splits)

lemma stored_transaction_sel [simp]:
  "t_ID (stored_transaction t) = t_ID t" "t_Amount (stored_transaction t) = t_Amount t"
  "t_IdempotencyKey (stored_transaction t) = t_IdempotencyKey t"
  "t_FromAccountID (stored_transaction t) = t_FromAccountID t"
  "t_ToAccountID (stored_transaction t) = t_ToAccountID t"
  "t_Currency (stored_transaction t) = t_Currency t"
  by (simp_all add: stored_transaction_def)

lemma move_row_sel [simp]:
  "acc_ID (move_row d p now r) = acc_ID r" "acc_Currency (move_row d p now r) = acc_Currency r"
  "acc_Balance (move_row d p now r) = acc_Balance r + d"
  "acc_LatestPostingID (move_row d p now r) = max (acc_LatestPostingID r) p"
  by (simp_all add: move_row_def)

text \<open>A new row takes part in the maximum wherever its id stands among the others.\<close>

lemma max_posting_id_snoc:
  assumes "\<forall>p\<in>set (postings w). 0 < p_ID p" and "0 < p_ID x"
  shows "max_posting_id P (add_postings [x] w) = (if P x then max (max_posting_id P w) (p_ID x) else max_posting_id P w)"
  using assms by (subst (1 2 3) max_posting_id_fold) (auto simp: max.commute)

lemma max_posting_id_le:
  assumes "\<forall>p\<in>set (postings w). 0 < p_ID p \<and> p_ID p \<le> q" and "0 \<le> q"
  shows "max_posting_id P w \<le> q" "0 \<le> max_posting_id P w"
  using assms fold_max_init [of 0] by (auto simp: max_posting_id_fold intro!: fold_max_le)

text \<open>The schema is kept by every accepted statement.\<close>

lemma schema_ok_seq_mono: "schema_ok q w \<Longrightarrow> q \<le> q' \<Longrightarrow> schema_ok q' w"
  by (force simp: schema_ok_def)

lemma schema_ok_add_transaction:
  assumes "schema_ok q w" and "0 < t_Amount t"
    and "\<And>t'. t' \<in> set (transactions w) \<Longrightarrow> t_ID t' \<noteq> t_ID t \<and> t_IdempotencyKey t' \<noteq> t_IdempotencyKey t"
    and "accounts w (t_FromAccountID t) \<noteq> None" and "accounts w (t_ToAccountID t) \<noteq> None"
  shows "schema_ok q (add_transaction t w)"
proof -
  have "t_ID t \<notin> t_ID ` set (transactions w)"
    and "t_IdempotencyKey t \<notin> t_IdempotencyKey ` set (transactions w)"
    using assms(3) by fastforce+
  with assms show ?thesis by (auto simp: schema_ok_def)
qed

lemma schema_ok_add_posting:
  assumes "schema_ok q w" and "0 < p_ID p" and "p_ID p \<le> q" and "p_ID p \<notin> p_ID ` set (postings w)"
    and "accounts w (p_AccountID p) \<noteq> None" and "p_TransactionID p \<in> t_ID ` set (transactions w)"
  shows "schema_ok q (add_postings [p] w)"
  using assms by (force simp: schema_ok_def)

lemma schema_ok_upd_row:
  assumes "schema_ok q w"
    and "\<And>r. accounts w i = Some r \<Longrightarrow> acc_ID (f r) = acc_ID r \<and> 0 \<le> acc_Balance (f r) \<and> bigint (acc_Balance (f r))"
  shows "schema_ok q (upd_row i f w)"
  using assms by (auto simp: schema_ok_def accounts_upd_row)

lemma schema_ok_add_account:
  assumes "schema_ok q w" and "0 \<le> acc_Balance a" and "bigint (acc_Balance a)"
    and "accounts w (acc_ID a) = None"
  shows "schema_ok q (add_account a w)"
  using assms by (auto simp: schema_ok_def)

text \<open>A posting and the matching movement of its account keep the books.\<close>

lemma books_ok_add_transaction [simp]: "books_ok (add_transaction t w) \<longleftrightarrow> books_ok w"
  by (simp add: books_ok_def)

lemma schema_ok_posting_ids:
  "schema_ok q w \<Longrightarrow> \<forall>p\<in>set (postings w). 0 < p_ID p \<and> p_ID p \<le> q"
  by (auto simp: schema_ok_def)

lemma books_ok_post:
  assumes books: "books_ok w" and schema: "schema_ok q w" and pid: "0 < p_ID p"
  shows "books_ok (upd_row (p_AccountID p) (move_row (p_Amount p) (p_ID p) now) (add_postings [p] w))"
proof -
  have ids: "\<forall>p\<in>set (postings w). 0 < p_ID p"
    using schema_ok_posting_ids [OF schema] by blast
  with books pid show ?thesis
    by (auto simp: books_ok_def accounts_upd_row max_posting_id_snoc [OF ids pid])
qed

section \<open>Beginning and ending a transaction\<close>

text \<open>What the end of transaction \<open>n\<close> leaves alone.\<close>

definition closed_frame :: "nat \<Rightarrow> pg \<Rightarrow> pg \<Rightarrow> bool" where
  "closed_frame n s t \<longleftrightarrow> pg_now t = pg_now s \<and> next_tx t = next_tx s
     \<and> open_txs t = (open_txs s)(n := None) \<and> postings_id_seq t = postings_id_seq s
     \<and> (faults s = [] \<longrightarrow> faults t = [])"

lemma BeginTx_Inr:
  assumes "BeginTx s = (Inr tx, t)"
  shows "tx = Pg_Tx (next_tx s)" and "tx_view (next_tx s) t = Some (committed s)"
    and "committed t = committed s" and "pg_now t = pg_now s" and "next_tx t = Suc (next_tx s)"
    and "open_txs t = (open_txs s)(next_tx s \<mapsto> Active id)" and "postings_id_seq t = postings_id_seq s"
    and "faults s = [] \<Longrightarrow> faults t = []"
  using assms
  by (cases "faults s"; auto simp: pg_defs BeginTx_def tx_view_def
      on_error_def bind_r_def split: fault.splits prod.splits sum.splits)+

lemma BeginTx_Inl:
  assumes "BeginTx s = (Inl e, t)"
  shows "t = s\<lparr>faults := faults t\<rparr>" and "\<exists>d. e = Wrap ''db: failed to begin transaction'' (Driver d)"
  using assms
  by (cases "faults s"; auto simp: pg_defs BeginTx_def
      on_error_def bind_r_def split: fault.splits prod.splits sum.splits)+

lemma BeginTx_quiet: "faults s = [] \<Longrightarrow> \<exists>tx t. BeginTx s = (Inr tx, t)"
  by (simp add: pg_defs BeginTx_def on_error_def bind_r_def)

lemma tx_Commit_view:
  assumes "tx_Commit n s = (x, t)" and "tx_view n s = Some w"
  shows "closed_frame n s t"
    and "x = Inr () \<and> committed t = w \<or> (\<exists>d. x = Inl (Driver d) \<and> committed t \<in> {committed s, w})"
    and "faults s = [] \<Longrightarrow> x = Inr ()"
  using assms
  by (cases "faults s"; auto simp: pg_defs closed_frame_def tx_view_def
      split: option.splits tx_state.splits fault.splits)+

lemma tx_Rollback_frame:
  assumes "tx_Rollback n s = (x, t)"
  shows "closed_frame n s t" and "committed t = committed s"
  using assms
  by (cases "faults s"; auto simp: pg_defs closed_frame_def
      split: option.splits tx_state.splits fault.splits)+

end
