(* ===== verification/External.thy ===== *)
theory External
  imports Entity
begin

text \<open>
  Code the repository calls and does not contain, as parameters: the functions of
  \<^verbatim>\<open>github.com/google/uuid\<close>, the JSON codec of a transaction (which goes through that package's and
  \<^verbatim>\<open>time\<close>'s marshallers), and a Redis client. What the callers rely on is stated once:
  \<open>uuid_laws\<close>, \<open>json_laws\<close>, and the locale \<open>redis_server\<close>, whose laws are the documented meaning
  of GET, SET with a time to live, SET NX GET and DEL on a server that evicts nothing. A reference
  server with a clock and scripted failures satisfies the locale.
\<close>

section \<open>UUIDs and JSON\<close>

record ext =
  uuid_String :: "uuid \<Rightarrow> string"
  uuid_Parse :: "string \<Rightarrow> uuid option"
  uuid_FromBytes :: "byte list \<Rightarrow> uuid option"
  json_Marshal :: "transaction \<Rightarrow> string option"
  json_Unmarshal :: "string \<Rightarrow> transaction option"

text \<open>\<^verbatim>\<open>Parse\<close> reads what \<^verbatim>\<open>String\<close> prints; \<^verbatim>\<open>FromBytes\<close> takes exactly 16 bytes.\<close>

definition uuid_laws :: "ext \<Rightarrow> bool" where
  "uuid_laws E \<longleftrightarrow> (\<forall>u. uuid_Parse E (uuid_String E u) = Some u)
     \<and> (\<forall>bs. uuid_FromBytes E bs = (if length bs = 16 then Some (uuid_of_bytes bs) else None))"

text \<open>Unmarshalling reads back what marshalling wrote.\<close>

definition json_laws :: "ext \<Rightarrow> bool" where
  "json_laws E \<longleftrightarrow> (\<forall>t b. json_Marshal E t = Some b \<longrightarrow> json_Unmarshal E b = Some t)"

lemma uuid_String_inject:
  assumes "uuid_laws E"
  shows "uuid_String E u = uuid_String E v \<longleftrightarrow> u = v"
  using assms by (metis option.inject uuid_laws_def)

lemma uuid_FromBytes_bytes [simp]: "uuid_laws E \<Longrightarrow> uuid_FromBytes E (uuid_bytes u) = Some u"
  by (simp add: uuid_laws_def)

section \<open>Redis\<close>

datatype redis_error = Redis_Nil | Redis_Fail driver_error

record 'r redis =
  rdb_Get :: "string \<Rightarrow> 'r \<Rightarrow> (redis_error + string) \<times> 'r"
  rdb_Set :: "string \<Rightarrow> string \<Rightarrow> int \<Rightarrow> 'r \<Rightarrow> redis_error option \<times> 'r"
  rdb_Del :: "string \<Rightarrow> 'r \<Rightarrow> redis_error option \<times> 'r"
  rdb_SetArgs :: "string \<Rightarrow> string \<Rightarrow> int \<Rightarrow> 'r \<Rightarrow> (redis_error + string) \<times> 'r"

type_synonym store = "string \<Rightarrow> (string \<times> int) option"  \<comment> \<open>value and deadline\<close>

definition live :: "int \<Rightarrow> store \<Rightarrow> string \<Rightarrow> string option" where
  "live now m k = (case m k of None \<Rightarrow> None | Some (v, d) \<Rightarrow> if now < d then Some v else None)"

definition ttl_put :: "string \<Rightarrow> string \<Rightarrow> int \<Rightarrow> int \<Rightarrow> store \<Rightarrow> store" where
  "ttl_put k v ttl now m = m(k \<mapsto> (v, now + ttl))"

lemma live_ttl_put: "0 < ttl \<Longrightarrow> live now (ttl_put k v ttl now m) k = Some v"
  and live_ttl_put_other: "k' \<noteq> k \<Longrightarrow> live t (ttl_put k v ttl now m) k' = live t m k'"
  by (simp_all add: live_def ttl_put_def)

text \<open>A command runs at the instant its reply state shows; a failed command may or may not have
  run on the server. \<open>rdb_SetArgs\<close> is SET with NX and GET: the old value of a live key, or the
  reply \<^verbatim>\<open>redis.Nil\<close> when the key was absent and has been set.\<close>

locale redis_server =
  fixes R :: "'r redis" and clock :: "'r \<Rightarrow> int" and data :: "'r \<Rightarrow> store"
  assumes get: "rdb_Get R k r = (x, r') \<Longrightarrow>
      clock r \<le> clock r' \<and> data r' = data r \<and>
      (case x of Inr v \<Rightarrow> live (clock r') (data r) k = Some v
               | Inl Redis_Nil \<Rightarrow> live (clock r') (data r) k = None
               | Inl (Redis_Fail d) \<Rightarrow> True)"
    and set: "rdb_Set R k v ttl r = (y, r') \<Longrightarrow>
      clock r \<le> clock r' \<and>
      (case y of None \<Rightarrow> data r' = ttl_put k v ttl (clock r') (data r)
               | Some e \<Rightarrow> e \<noteq> Redis_Nil \<and> data r' \<in> {data r, ttl_put k v ttl (clock r') (data r)})"
    and del: "rdb_Del R k r = (y, r') \<Longrightarrow>
      clock r \<le> clock r' \<and>
      (case y of None \<Rightarrow> data r' = (data r)(k := None)
               | Some e \<Rightarrow> e \<noteq> Redis_Nil \<and> data r' \<in> {data r, (data r)(k := None)})"
    and set_nx: "rdb_SetArgs R k v ttl r = (x, r') \<Longrightarrow>
      clock r \<le> clock r' \<and>
      (case x of Inr old \<Rightarrow> live (clock r') (data r) k = Some old \<and> data r' = data r
               | Inl Redis_Nil \<Rightarrow> live (clock r') (data r) k = None
                   \<and> data r' = ttl_put k v ttl (clock r') (data r)
               | Inl (Redis_Fail d) \<Rightarrow> data r' = data r
                   \<or> (live (clock r') (data r) k = None \<and> data r' = ttl_put k v ttl (clock r') (data r)))"

section \<open>A reference server\<close>

text \<open>Each command consumes one entry of the script: how much time passes before it runs, and
  whether the client loses it (\<open>Some (d, applied)\<close>).\<close>

record ref_redis =
  rr_clock :: int
  rr_data :: store
  rr_script :: "(nat \<times> (driver_error \<times> bool) option) list"

definition rr_tick :: "ref_redis \<Rightarrow> (driver_error \<times> bool) option \<times> ref_redis" where
  "rr_tick r = (case rr_script r of [] \<Rightarrow> (None, r)
     | (dt, f) # sc \<Rightarrow> (f, r\<lparr>rr_clock := rr_clock r + int dt, rr_script := sc\<rparr>))"

definition rr_Get :: "string \<Rightarrow> ref_redis \<Rightarrow> (redis_error + string) \<times> ref_redis" where
  "rr_Get k r = (case rr_tick r of (Some (d, _), r') \<Rightarrow> (Inl (Redis_Fail d), r')
     | (None, r') \<Rightarrow> (case live (rr_clock r') (rr_data r') k of None \<Rightarrow> (Inl Redis_Nil, r') | Some v \<Rightarrow> (Inr v, r')))"

definition rr_write :: "(int \<Rightarrow> store \<Rightarrow> store) \<Rightarrow> ref_redis \<Rightarrow> redis_error option \<times> ref_redis" where
  "rr_write f r = (case rr_tick r of
       (None, r') \<Rightarrow> (None, r'\<lparr>rr_data := f (rr_clock r') (rr_data r')\<rparr>)
     | (Some (d, applied), r') \<Rightarrow>
         (Some (Redis_Fail d), if applied then r'\<lparr>rr_data := f (rr_clock r') (rr_data r')\<rparr> else r'))"

definition rr_SetArgs :: "string \<Rightarrow> string \<Rightarrow> int \<Rightarrow> ref_redis \<Rightarrow> (redis_error + string) \<times> ref_redis" where
  "rr_SetArgs k v ttl r = (case rr_tick r of
       (None, r') \<Rightarrow> (case live (rr_clock r') (rr_data r') k of
           None \<Rightarrow> (Inl Redis_Nil, r'\<lparr>rr_data := ttl_put k v ttl (rr_clock r') (rr_data r')\<rparr>)
         | Some old \<Rightarrow> (Inr old, r'))
     | (Some (d, applied), r') \<Rightarrow>
         (Inl (Redis_Fail d),
          if applied \<and> live (rr_clock r') (rr_data r') k = None
          then r'\<lparr>rr_data := ttl_put k v ttl (rr_clock r') (rr_data r')\<rparr> else r'))"

definition ref_client :: "ref_redis redis" where
  "ref_client = \<lparr>rdb_Get = rr_Get, rdb_Set = (\<lambda>k v ttl. rr_write (ttl_put k v ttl)),
     rdb_Del = (\<lambda>k. rr_write (\<lambda>_ m. m(k := None))), rdb_SetArgs = rr_SetArgs\<rparr>"

lemma rr_tick_mono:
  "rr_tick r = (f, r') \<Longrightarrow> rr_clock r \<le> rr_clock r' \<and> rr_data r' = rr_data r"
  by (auto simp: rr_tick_def split: list.splits)

interpretation ref: redis_server ref_client rr_clock rr_data
proof (unfold_locales, goal_cases)
  case (1 k r x r')
  then show ?case
    by (auto simp: ref_client_def rr_Get_def dest!: rr_tick_mono split: prod.splits option.splits)
next
  case (2 k v ttl r x r')
  then show ?case
    by (auto simp: ref_client_def rr_write_def dest!: rr_tick_mono
        split: prod.splits option.splits if_splits)
next
  case (3 k r x r')
  then show ?case
    by (auto simp: ref_client_def rr_write_def dest!: rr_tick_mono
        split: prod.splits option.splits if_splits)
next
  case (4 k v ttl r x r')
  then show ?case
    by (auto simp: ref_client_def rr_SetArgs_def dest!: rr_tick_mono
        split: prod.splits option.splits if_splits)
qed

section \<open>A reference library\<close>

text \<open>Concrete functions that satisfy the laws: a UUID printed as its 16 bytes, and a codec that
  covers the transactions of one account pair and currency.\<close>

definition ref_String :: "uuid \<Rightarrow> string" where
  "ref_String u = map (\<lambda>b. char_of (unat b)) (uuid_bytes u)"

definition ref_Parse :: "string \<Rightarrow> uuid option" where
  "ref_Parse s = (if length s = 16 then Some (uuid_of_bytes (map (\<lambda>c. word_of_nat (of_char c)) s)) else None)"

definition ref_FromBytes :: "byte list \<Rightarrow> uuid option" where
  "ref_FromBytes bs = (if length bs = 16 then Some (uuid_of_bytes bs) else None)"

definition ref_fields :: "transaction \<Rightarrow> string" where
  "ref_fields t = concat (map ref_String [t_ID t, t_FromAccountID t, t_ToAccountID t, t_IdempotencyKey t])"

definition ref_Marshal :: "transaction \<Rightarrow> string option" where
  "ref_Marshal t = (if t_Currency t = CURRENCY_USD \<and> t_CreatedAt t = 0 \<and> bigint (t_Amount t)
     then Some (ref_fields t @ Itoa (t_Amount t)) else None)"

definition ref_Unmarshal :: "string \<Rightarrow> transaction option" where
  "ref_Unmarshal s = (case (ref_Parse (take 16 s), ref_Parse (take 16 (drop 16 s)),
      ref_Parse (take 16 (drop 32 s)), ref_Parse (take 16 (drop 48 s)), Atoi (drop 64 s)) of
        (Some i, Some f, Some t, Some k, Some a) \<Rightarrow>
          Some \<lparr>t_ID = i, t_FromAccountID = f, t_ToAccountID = t, t_Currency = CURRENCY_USD,
             t_Amount = a, t_IdempotencyKey = k, t_CreatedAt = 0\<rparr>
      | _ \<Rightarrow> None)"

definition ref_ext :: ext where
  "ref_ext = \<lparr>uuid_String = ref_String, uuid_Parse = ref_Parse, uuid_FromBytes = ref_FromBytes,
     json_Marshal = ref_Marshal, json_Unmarshal = ref_Unmarshal\<rparr>"

lemma ref_String_length [simp]: "length (ref_String u) = 16"
  by (simp add: ref_String_def)

lemma ref_Parse_String [simp]: "ref_Parse (ref_String u) = Some u"
proof -
  have "map (\<lambda>b. word_of_nat (of_char (char_of (unat b) :: char))) bs = bs" for bs :: "byte list"
    by (rule map_idI) simp
  then show ?thesis
    by (simp add: ref_Parse_def ref_String_def comp_def)
qed

lemma ref_uuid_laws [simp]: "uuid_laws ref_ext"
  by (simp add: uuid_laws_def ref_ext_def ref_FromBytes_def)

lemma ref_json_laws [simp]: "json_laws ref_ext"
  by (auto simp: json_laws_def ref_ext_def ref_Marshal_def ref_Unmarshal_def ref_fields_def
      split: if_splits)

end
