(* ===== verification/Redis_Cache.thy ===== *)
theory Redis_Cache
  imports External
begin

text \<open>
  The Redis repositories of \<^verbatim>\<open>internal/repository/redis\<close>: the cache of balances, account currencies
  and transactions (\<^verbatim>\<open>CacheRepo\<close>), and the idempotency keys (\<^verbatim>\<open>IdempotencyRepository\<close>), over a
  Redis client given as a parameter. Inside \<open>redis_server\<close> each operation is related to the live
  keys of the server.
\<close>

section \<open>Operations\<close>

definition redis_err :: "redis_error \<Rightarrow> error" where
  "redis_err e = (case e of Redis_Nil \<Rightarrow> Errorf ''redis: nil'' | Redis_Fail d \<Rightarrow> Driver d)"

definition cmd_Err :: "(error \<Rightarrow> error) \<Rightarrow> redis_error option \<times> 'r \<Rightarrow> unit result \<times> 'r" where
  "cmd_Err wrap c = (case c of (None, r) \<Rightarrow> (Inr (), r) | (Some e, r) \<Rightarrow> (Inl (wrap (redis_err e)), r))"

text \<open>\<^verbatim>\<open>Balance.go\<close>\<close>

definition balance_key :: "ext \<Rightarrow> uuid \<Rightarrow> string" where
  "balance_key E a = ''balance:'' @ uuid_String E a"

definition SetBalance :: "ext \<Rightarrow> 'r redis \<Rightarrow> uuid \<Rightarrow> int \<Rightarrow> int \<Rightarrow> 'r \<Rightarrow> unit result \<times> 'r" where
  "SetBalance E R a amount ttl r = cmd_Err id (rdb_Set R (balance_key E a) (Itoa amount) ttl r)"

definition GetBalance :: "ext \<Rightarrow> 'r redis \<Rightarrow> uuid \<Rightarrow> 'r \<Rightarrow> int result \<times> 'r" where
  "GetBalance E R a r =
     (case rdb_Get R (balance_key E a) r of
        (Inl Redis_Nil, r') \<Rightarrow> (Inr 0, r')
      | (Inl e, r') \<Rightarrow> (Inl (redis_err e), r')
      | (Inr v, r') \<Rightarrow> (case Atoi v of None \<Rightarrow> (Inl (Errorf ''strconv.ParseInt''), r') | Some i \<Rightarrow> (Inr i, r')))"

definition DeleteBalance :: "ext \<Rightarrow> 'r redis \<Rightarrow> uuid \<Rightarrow> 'r \<Rightarrow> unit result \<times> 'r" where
  "DeleteBalance E R a r = cmd_Err id (rdb_Del R (balance_key E a) r)"

text \<open>\<^verbatim>\<open>Currency.go\<close>\<close>

definition currency_key :: "ext \<Rightarrow> uuid \<Rightarrow> string" where
  "currency_key E a = ''currency:'' @ uuid_String E a"

definition SetAccountCurrency :: "ext \<Rightarrow> 'r redis \<Rightarrow> uuid \<Rightarrow> currency \<Rightarrow> int \<Rightarrow> 'r \<Rightarrow> unit result \<times> 'r" where
  "SetAccountCurrency E R a c ttl r = cmd_Err id (rdb_Set R (currency_key E a) (Itoa (sint c)) ttl r)"

definition GetAccountCurrency :: "ext \<Rightarrow> 'r redis \<Rightarrow> uuid \<Rightarrow> 'r \<Rightarrow> currency result \<times> 'r" where
  "GetAccountCurrency E R a r =
     (case rdb_Get R (currency_key E a) r of
        (Inl Redis_Nil, r') \<Rightarrow> (Inr CURRENCY_UNSPECIFIED, r')
      | (Inl e, r') \<Rightarrow> (Inl (redis_err e), r')
      | (Inr v, r') \<Rightarrow>
          (case Atoi v of
             None \<Rightarrow> (Inr CURRENCY_UNSPECIFIED, r')
           | Some i \<Rightarrow> (Inr (word_of_int i), r')))"

text \<open>\<^verbatim>\<open>Transaction.go\<close>\<close>

definition transactionCacheKey :: "ext \<Rightarrow> uuid \<Rightarrow> string" where
  "transactionCacheKey E i = ''transaction:'' @ uuid_String E i"

definition SetTransaction :: "ext \<Rightarrow> 'r redis \<Rightarrow> transaction option \<Rightarrow> int \<Rightarrow> 'r \<Rightarrow> unit result \<times> 'r" where
  "SetTransaction E R tx ttl r =
     (case tx of
        None \<Rightarrow> (Inl (Errorf ''redis set transaction: nil transaction''), r)
      | Some t \<Rightarrow>
          (case json_Marshal E t of
             None \<Rightarrow> (Inl (Wrap ''redis set transaction: marshal'' (Errorf ''json'')), r)
           | Some payload \<Rightarrow>
               cmd_Err (Wrap ''redis set transaction'') (rdb_Set R (transactionCacheKey E (t_ID t)) payload ttl r)))"

definition GetTransaction :: "ext \<Rightarrow> 'r redis \<Rightarrow> uuid \<Rightarrow> 'r \<Rightarrow> transaction option result \<times> 'r" where
  "GetTransaction E R i r =
     (case rdb_Get R (transactionCacheKey E i) r of
        (Inl Redis_Nil, r') \<Rightarrow> (Inr None, r')
      | (Inl e, r') \<Rightarrow> (Inl (Wrap ''redis get transaction'' (redis_err e)), r')
      | (Inr v, r') \<Rightarrow>
          (case json_Unmarshal E v of
             None \<Rightarrow> (Inl (Wrap ''redis get transaction: unmarshal'' (Errorf ''json'')), r')
           | Some t \<Rightarrow> (Inr (Some t), r')))"

text \<open>\<^verbatim>\<open>idempotency.go\<close>; durations are in nanoseconds.\<close>

definition idempotencyKeyTTL :: int where
  "idempotencyKeyTTL = 10 * 60 * 1000000000"

definition castKey :: "ext \<Rightarrow> uuid \<Rightarrow> string" where
  "castKey E k = ''idempotency:'' @ uuid_String E k"

definition CheckOrLock :: "ext \<Rightarrow> 'r redis \<Rightarrow> uuid \<Rightarrow> 'r \<Rightarrow> (bool \<times> string) result \<times> 'r" where
  "CheckOrLock E R k r =
     (case rdb_SetArgs R (castKey E k) IDEMPOTENCY_IN_PROCESS idempotencyKeyTTL r of
        (Inl Redis_Nil, r') \<Rightarrow> (Inr (True, IDEMPOTENCY_IN_PROCESS), r')
      | (Inl e, r') \<Rightarrow> (Inl (redis_err e), r')
      | (Inr old, r') \<Rightarrow> (Inr (False, old), r'))"

definition UpdateIdempotencyStatus :: "ext \<Rightarrow> 'r redis \<Rightarrow> uuid \<Rightarrow> string \<Rightarrow> 'r \<Rightarrow> unit result \<times> 'r" where
  "UpdateIdempotencyStatus E R k st r = cmd_Err id (rdb_Set R (castKey E k) st idempotencyKeyTTL r)"

definition DeleteIdempotency :: "ext \<Rightarrow> 'r redis \<Rightarrow> uuid \<Rightarrow> 'r \<Rightarrow> unit result \<times> 'r" where
  "DeleteIdempotency E R k r = cmd_Err id (rdb_Del R (castKey E k) r)"

section \<open>Keys\<close>

lemma key_inject [simp]:
  assumes "uuid_laws E"
  shows "balance_key E a = balance_key E b \<longleftrightarrow> a = b"
    and "currency_key E a = currency_key E b \<longleftrightarrow> a = b"
    and "transactionCacheKey E a = transactionCacheKey E b \<longleftrightarrow> a = b"
    and "castKey E a = castKey E b \<longleftrightarrow> a = b"
  using assms
  by (simp_all add: balance_key_def currency_key_def transactionCacheKey_def castKey_def uuid_String_inject)

lemma key_disjoint [simp]:
  "balance_key E a \<noteq> currency_key E b" "currency_key E b \<noteq> balance_key E a"
  "balance_key E a \<noteq> transactionCacheKey E b" "transactionCacheKey E b \<noteq> balance_key E a"
  "currency_key E a \<noteq> transactionCacheKey E b" "transactionCacheKey E b \<noteq> currency_key E a"
  by (simp_all add: balance_key_def currency_key_def transactionCacheKey_def)

lemma bigint_sint16 [simp]: "bigint (sint (c :: currency))"
  using sint_ge [of c] sint_lt [of c] by (simp add: bigint_def)

lemma cmd_Err_Inr [simp]: "cmd_Err w c = (Inr x, r) \<longleftrightarrow> c = (None, r)"
  by (auto simp: cmd_Err_def split: prod.splits option.splits)

lemma cmd_Err_Inl: "cmd_Err w c = (Inl e, r) \<longleftrightarrow> (\<exists>x. c = (Some x, r) \<and> e = w (redis_err x))"
  by (auto simp: cmd_Err_def split: prod.splits option.splits)

section \<open>Behaviour on a server\<close>

text \<open>What the cache says of an account's currency: nothing for an absent or a damaged entry.\<close>

definition cached_currency :: "ext \<Rightarrow> int \<Rightarrow> store \<Rightarrow> uuid \<Rightarrow> currency" where
  "cached_currency E now m a = (case live now m (currency_key E a) of
     None \<Rightarrow> CURRENCY_UNSPECIFIED
   | Some v \<Rightarrow> (case Atoi v of None \<Rightarrow> CURRENCY_UNSPECIFIED | Some i \<Rightarrow> word_of_int i))"

context redis_server
begin

lemma GetAccountCurrency_spec:
  assumes "GetAccountCurrency E R a r = (x, r')"
  shows "data r' = data r" and "clock r \<le> clock r'"
    and "x = Inr c \<Longrightarrow> c = cached_currency E (clock r') (data r) a"
  using assms get [of "currency_key E a" r]
  by (auto simp: GetAccountCurrency_def cached_currency_def redis_err_def
      split: prod.splits sum.splits redis_error.splits option.splits)

lemma SetAccountCurrency_spec:
  assumes "SetAccountCurrency E R a c ttl r = (x, r')"
  shows "data r' \<in> {data r, ttl_put (currency_key E a) (Itoa (sint c)) ttl (clock r') (data r)}"
    and "clock r \<le> clock r'"
    and "x = Inr () \<Longrightarrow> data r' = ttl_put (currency_key E a) (Itoa (sint c)) ttl (clock r') (data r)"
  using assms set [of "currency_key E a" "Itoa (sint c)" ttl r]
  by (cases x; auto simp: SetAccountCurrency_def cmd_Err_Inl split: option.splits)+

lemma GetBalance_after_SetBalance:
  assumes "SetBalance E R a amount ttl r = (Inr (), r1)" and "GetBalance E R a r1 = (Inr v, r2)"
    and "bigint amount" and "clock r2 < clock r1 + ttl"
  shows "v = amount"
  using assms set [of "balance_key E a" "Itoa amount" ttl r] get [of "balance_key E a" r1]
  by (auto simp: SetBalance_def GetBalance_def live_def ttl_put_def
      split: prod.splits sum.splits redis_error.splits option.splits if_splits)

lemma GetBalance_after_DeleteBalance:
  assumes "DeleteBalance E R a r = (Inr (), r1)" and "GetBalance E R a r1 = (Inr v, r2)"
  shows "v = 0"
  using assms del [of "balance_key E a" r] get [of "balance_key E a" r1]
  by (auto simp: DeleteBalance_def GetBalance_def live_def
      split: prod.splits sum.splits redis_error.splits option.splits if_splits)

lemma SetTransaction_spec:
  assumes "SetTransaction E R (Some t) ttl r = (x, r')"
  shows "clock r \<le> clock r'"
    and "data r' = data r \<or> (\<exists>b. json_Marshal E t = Some b
           \<and> data r' = ttl_put (transactionCacheKey E (t_ID t)) b ttl (clock r') (data r))"
    and "x = Inr () \<Longrightarrow> \<exists>b. json_Marshal E t = Some b
           \<and> data r' = ttl_put (transactionCacheKey E (t_ID t)) b ttl (clock r') (data r)"
  using assms set [of "transactionCacheKey E (t_ID t)" _ ttl r]
  by (cases x; fastforce simp: SetTransaction_def cmd_Err_Inl split: option.splits)+

lemma GetTransaction_spec:
  assumes "GetTransaction E R i r = (x, r')"
  shows "data r' = data r" and "clock r \<le> clock r'"
    and "x = Inr None \<Longrightarrow> live (clock r') (data r) (transactionCacheKey E i) = None"
    and "x = Inr (Some t) \<Longrightarrow> \<exists>b. live (clock r') (data r) (transactionCacheKey E i) = Some b
           \<and> json_Unmarshal E b = Some t"
  using assms get [of "transactionCacheKey E i" r]
  by (auto simp: GetTransaction_def split: prod.splits sum.splits redis_error.splits option.splits)

lemma CheckOrLock_spec:
  assumes "CheckOrLock E R k r = (x, r')"
  shows "clock r \<le> clock r'"
    and "x = Inr (True, st) \<Longrightarrow> live (clock r') (data r) (castKey E k) = None
           \<and> data r' = ttl_put (castKey E k) IDEMPOTENCY_IN_PROCESS idempotencyKeyTTL (clock r') (data r)"
    and "x = Inr (False, st) \<Longrightarrow> live (clock r') (data r) (castKey E k) = Some st \<and> data r' = data r"
  using assms set_nx [of "castKey E k" IDEMPOTENCY_IN_PROCESS idempotencyKeyTTL r]
  by (auto simp: CheckOrLock_def split: prod.splits sum.splits redis_error.splits)

end

end
