(* ===== verification/Transfer_UC.thy ===== *)
theory Transfer_UC
  imports Postgres_Facts Redis_Cache
begin

text \<open>
  \<^verbatim>\<open>TransferUseCase\<close> of \<^verbatim>\<open>internal/usecase/transfer.go\<close>: validation of the request and of the
  account currencies, then one database transaction that records the transfer, its two postings
  and the movement of the two balances in the order of the account ids, and last the publication
  of the committed transfer.
\<close>

section \<open>The process around a use case\<close>

text \<open>The database and the cache, the answers of \<^verbatim>\<open>uuid.NewV7\<close> still to come (\<open>None\<close> for an error),
  the wall clock, the counter \<^verbatim>\<open>ledger_transfer_total\<close> by result, and the publications started.\<close>

record 'r world =
  db :: pg
  cache :: 'r
  uuid_source :: "uuid option list"
  wall :: time
  transfer_total :: "string \<Rightarrow> nat"
  spawned :: "transaction list"

definition on_db :: "'a pgm \<Rightarrow> 'r world \<Rightarrow> 'a result \<times> 'r world" where
  "on_db m W = (case m (db W) of (x, s) \<Rightarrow> (x, W\<lparr>db := s\<rparr>))"

definition on_cache :: "('r \<Rightarrow> 'a \<times> 'r) \<Rightarrow> 'r world \<Rightarrow> 'a \<times> 'r world" where
  "on_cache m W = (case m (cache W) of (x, r) \<Rightarrow> (x, W\<lparr>cache := r\<rparr>))"

definition uuid_NewV7 :: "'r world \<Rightarrow> uuid result \<times> 'r world" where
  "uuid_NewV7 W = (case uuid_source W of
     [] \<Rightarrow> (Inl Uuid_Error, W)
   | None # us \<Rightarrow> (Inl Uuid_Error, W\<lparr>uuid_source := us\<rparr>)
   | Some u # us \<Rightarrow> (Inr u, W\<lparr>uuid_source := us\<rparr>))"

text \<open>\<^verbatim>\<open>TransferUseCase\<close>: whether its metrics and its publisher are non-nil.\<close>

record transfer_uc =
  uc_metrics :: bool
  uc_publisher :: bool

section \<open>Validation\<close>

definition validateRequest :: "transaction_request \<Rightarrow> unit result" where
  "validateRequest req =
     (if req_Amount req \<le> 0 then Inl ErrInvalidAmount
      else if req_FromAccountID req = req_ToAccountID req then Inl ErrSameAccountTransfer
      else if req_IdempotencyKey req = uuid_Nil then Inl ErrEmptyIdempotencyKey
      else if \<not> IsValid (req_Currency req) then Inl ErrInvalidCurrency
      else Inr ())"

definition currencyTTL :: int where
  "currencyTTL = 24 * 60 * 60 * 1000000000"

text \<open>One of the two goroutines that ask the cache; an error leaves the zero value.\<close>

definition read_currency :: "ext \<Rightarrow> 'r redis \<Rightarrow> uuid \<Rightarrow> 'r world \<Rightarrow> currency \<times> 'r world" where
  "read_currency E R a W =
     (case on_cache (GetAccountCurrency E R a) W of
        (Inl _, W') \<Rightarrow> (CURRENCY_UNSPECIFIED, W')
      | (Inr c, W') \<Rightarrow> (c, W'))"

text \<open>Both goroutines; \<open>from_first\<close> is the order in which the server sees the two commands.\<close>

definition read_currencies ::
  "ext \<Rightarrow> 'r redis \<Rightarrow> bool \<Rightarrow> uuid \<Rightarrow> uuid \<Rightarrow> 'r world \<Rightarrow> (currency \<times> currency) \<times> 'r world" where
  "read_currencies E R from_first fromID toID W =
     (if from_first then
        (case read_currency E R fromID W of (cf, W1) \<Rightarrow>
         case read_currency E R toID W1 of (ct, W2) \<Rightarrow> ((cf, ct), W2))
      else
        (case read_currency E R toID W of (ct, W1) \<Rightarrow>
         case read_currency E R fromID W1 of (cf, W2) \<Rightarrow> ((cf, ct), W2)))"

definition resolve_currency ::
  "ext \<Rightarrow> 'r redis \<Rightarrow> (uuid \<rightharpoonup> currency) \<Rightarrow> uuid \<Rightarrow> currency \<Rightarrow> 'r world \<Rightarrow> currency result \<times> 'r world" where
  "resolve_currency E R currencies a c W =
     (if c = CURRENCY_UNSPECIFIED then
        (case currencies a of
           Some c' \<Rightarrow> (Inr c', snd (on_cache (SetAccountCurrency E R a c' currencyTTL) W))
         | None \<Rightarrow> (Inl ErrAccountNotFound, W))
      else (Inr c, W))"

definition validateTransferCurrencies ::
  "ext \<Rightarrow> 'r redis \<Rightarrow> bool \<Rightarrow> uuid \<Rightarrow> uuid \<Rightarrow> currency \<Rightarrow> 'r world \<Rightarrow> unit result \<times> 'r world" where
  "validateTransferCurrencies E R from_first fromID toID currency W =
     (case read_currencies E R from_first fromID toID W of ((cf, ct), W1) \<Rightarrow>
        let missingIDs = (if cf = CURRENCY_UNSPECIFIED then [fromID] else [])
                       @ (if ct = CURRENCY_UNSPECIFIED then [toID] else []);
            check = (\<lambda>cf ct. if cf \<noteq> currency \<or> ct \<noteq> currency then throw ErrCurrencyMismatch else return_r ())
        in if length missingIDs > 0 then
             bind_r (on_db (GetCurrencies missingIDs)) (\<lambda>currencies.
             bind_r (resolve_currency E R currencies fromID cf) (\<lambda>cf'.
             bind_r (resolve_currency E R currencies toID ct) (\<lambda>ct'.
               check cf' ct'))) W1
           else check cf ct W1)"

section \<open>The database transaction\<close>

record balanceOp =
  accountID :: uuid
  isDebit :: bool

definition balance_ops :: "uuid \<Rightarrow> uuid \<Rightarrow> balanceOp list" where
  "balance_ops fromID toID =
     (let op0 = \<lparr>accountID = fromID, isDebit = True\<rparr>; op1 = \<lparr>accountID = toID, isDebit = False\<rparr>
      in if bytes_Compare (uuid_bytes (accountID op1)) (uuid_bytes (accountID op0)) < 0
         then [op1, op0] else [op0, op1])"

fun run_ops :: "custom_tx \<Rightarrow> int \<Rightarrow> (uuid \<rightharpoonup> int) \<Rightarrow> balanceOp list \<Rightarrow> unit pgm" where
  "run_ops tx amount postingIDs [] = return_r ()"
| "run_ops tx amount postingIDs (op # ops) =
     (let postingID = (case postingIDs (accountID op) of None \<Rightarrow> 0 | Some i \<Rightarrow> i)
      in bind_r (if isDebit op then DebitBalance tx (accountID op) amount postingID
                 else CreditBalance tx (accountID op) amount postingID)
           (\<lambda>_. run_ops tx amount postingIDs ops))"

definition transfer_postings :: "transaction \<Rightarrow> posting list" where
  "transfer_postings trx =
     [\<lparr>p_ID = 0, p_TransactionID = t_ID trx, p_AccountID = t_FromAccountID trx, p_Amount = wrap64 (- t_Amount trx)\<rparr>,
      \<lparr>p_ID = 0, p_TransactionID = t_ID trx, p_AccountID = t_ToAccountID trx, p_Amount = t_Amount trx\<rparr>]"

text \<open>Steps 5 to 8 of \<^verbatim>\<open>Transaction\<close>: the row, its postings, the two balances.\<close>

definition transfer_work :: "custom_tx \<Rightarrow> transaction \<Rightarrow> unit pgm" where
  "transfer_work tx trx =
     bind_r (CreateTransaction tx trx) (\<lambda>_.
     bind_r (CreatePostings tx (transfer_postings trx)) (\<lambda>postingIDs.
       run_ops tx (t_Amount trx) postingIDs (balance_ops (t_FromAccountID trx) (t_ToAccountID trx))))"

definition new_transaction :: "uuid \<Rightarrow> time \<Rightarrow> transaction_request \<Rightarrow> transaction" where
  "new_transaction trxID now req =
     \<lparr>t_ID = trxID, t_FromAccountID = req_FromAccountID req, t_ToAccountID = req_ToAccountID req,
      t_Currency = req_Currency req, t_Amount = req_Amount req,
      t_IdempotencyKey = req_IdempotencyKey req, t_CreatedAt = now\<rparr>"

text \<open>What runs between \<^verbatim>\<open>BeginTx\<close> and the deferred rollback.\<close>

definition transfer_in_tx :: "custom_tx \<Rightarrow> transaction_request \<Rightarrow> 'r world \<Rightarrow> transaction result \<times> 'r world" where
  "transfer_in_tx tx req =
     bind_r uuid_NewV7 (\<lambda>trxID W.
       let trx = new_transaction trxID (wall W) req
       in bind_r (on_db (transfer_work tx trx)) (\<lambda>_.
          bind_r (on_db (CommitTx tx)) (\<lambda>_. return_r trx)) W)"

definition rollback_on_error :: "custom_tx \<Rightarrow> ('r world \<Rightarrow> 'a result \<times> 'r world) \<Rightarrow> 'r world \<Rightarrow> 'a result \<times> 'r world" where
  "rollback_on_error tx m W =
     (case m W of
        (Inl e, W') \<Rightarrow> (Inl e, snd (on_db (RollbackTx tx) W'))
      | (Inr a, W') \<Rightarrow> (Inr a, W'))"

definition transfer_status :: "'a result \<Rightarrow> string" where
  "transfer_status x =
     (case x of
        Inr _ \<Rightarrow> ''success''
      | Inl err \<Rightarrow>
          if errors_Is err ErrInvalidAmount \<or> errors_Is err ErrSameAccountTransfer
             \<or> errors_Is err ErrEmptyIdempotencyKey \<or> errors_Is err ErrInvalidCurrency then ''validation_error''
          else if errors_Is err ErrCurrencyMismatch then ''currency_mismatch''
          else if errors_Is err ErrInsufficientFunds then ''insufficient_funds''
          else ''system_error'')"

definition RecordTransfer :: "string \<Rightarrow> 'r world \<Rightarrow> 'r world" where
  "RecordTransfer st W = W\<lparr>transfer_total := (transfer_total W)(st := Suc (transfer_total W st))\<rparr>"

definition transaction_main ::
  "transfer_uc \<Rightarrow> ext \<Rightarrow> 'r redis \<Rightarrow> bool \<Rightarrow> transaction_request \<Rightarrow> 'r world \<Rightarrow> uuid result \<times> 'r world" where
  "transaction_main uc E R from_first req =
     (case validateRequest req of
        Inl e \<Rightarrow> throw e
      | Inr _ \<Rightarrow>
          bind_r (validateTransferCurrencies E R from_first (req_FromAccountID req) (req_ToAccountID req) (req_Currency req)) (\<lambda>_.
          bind_r (on_db BeginTx) (\<lambda>tx.
          bind_r (rollback_on_error tx (transfer_in_tx tx req)) (\<lambda>trx W.
            (Inr (t_ID trx), if uc_publisher uc then W\<lparr>spawned := spawned W @ [trx]\<rparr> else W)))))"

definition Transaction ::
  "transfer_uc \<Rightarrow> ext \<Rightarrow> 'r redis \<Rightarrow> bool \<Rightarrow> transaction_request \<Rightarrow> 'r world \<Rightarrow> uuid result \<times> 'r world" where
  "Transaction uc E R from_first req W =
     (case transaction_main uc E R from_first req W of
        (x, W') \<Rightarrow> (x, if uc_metrics uc then RecordTransfer (transfer_status x) W' else W'))"

section \<open>The effect of a transfer on the tables\<close>

definition transfer_ok :: "transaction \<Rightarrow> tables \<Rightarrow> bool" where
  "transfer_ok trx w \<longleftrightarrow> 0 < t_Amount trx
     \<and> (\<forall>t'\<in>set (transactions w). t_ID t' \<noteq> t_ID trx \<and> t_IdempotencyKey t' \<noteq> t_IdempotencyKey trx)
     \<and> (\<exists>r. accounts w (t_FromAccountID trx) = Some r \<and> t_Amount trx \<le> acc_Balance r
          \<and> bigint (acc_Balance r - t_Amount trx))
     \<and> (\<exists>r. accounts w (t_ToAccountID trx) = Some r \<and> 0 \<le> acc_Balance r + t_Amount trx
          \<and> bigint (acc_Balance r + t_Amount trx))"

definition transfer_tables :: "transaction \<Rightarrow> int \<Rightarrow> time \<Rightarrow> tables \<Rightarrow> tables" where
  "transfer_tables trx q now w =
     upd_row (t_ToAccountID trx) (move_row (t_Amount trx) (q + 2) now)
       (upd_row (t_FromAccountID trx) (move_row (- t_Amount trx) (q + 1) now)
         (add_postings (number_postings q (transfer_postings trx)) (add_transaction trx w)))"

lemma run_ops_frame: "run_ops (Pg_Tx n) a ids ops s = (r, t) \<Longrightarrow> tx_frame n s t"
proof (induction ops arbitrary: s)
  case (Cons op ops)
  from Cons.prems show ?case
    unfolding run_ops.simps Let_def
  proof (cases rule: bind_r_cases)
    case (Err e)
    then show ?thesis by (auto split: if_splits dest: repo_frames)
  next
    case (Ok x u)
    then have "tx_frame n s u" by (auto split: if_splits dest: repo_frames)
    then show ?thesis using Cons.IH [OF Ok(2)] by (rule tx_frame_trans)
  qed
qed simp

lemma transfer_work_frame:
  assumes "transfer_work (Pg_Tx n) trx s = (r, t)"
  shows "tx_frame n s t"
  using assms unfolding transfer_work_def
  by (elim bind_r_cases) (blast intro: tx_frame_trans dest: repo_frames run_ops_frame)+

lemma created_ids_transfer:
  assumes "t_FromAccountID trx \<noteq> t_ToAccountID trx"
  shows "created_ids (map (\<lambda>p. (p_ID p, p_AccountID p)) (number_postings q (transfer_postings trx)))
    = [t_FromAccountID trx \<mapsto> q + 1, t_ToAccountID trx \<mapsto> q + 2]"
  using assms by (simp add: created_ids_def transfer_postings_def add.commute)

lemma run_ops_transfer_Inr:
  assumes run: "run_ops (Pg_Tx n) a ids (balance_ops f g) s = (Inr x, t)"
    and view: "tx_view n s = Some w" and "f \<noteq> g" and ids: "ids f = Some i" "ids g = Some j"
  shows "tx_view n t = Some (upd_row g (move_row a j (pg_now s)) (upd_row f (move_row (- a) i (pg_now s)) w))"
    and "\<exists>r. accounts w f = Some r \<and> a \<le> acc_Balance r \<and> bigint (acc_Balance r - a)"
    and "\<exists>r. accounts w g = Some r \<and> 0 \<le> acc_Balance r + a \<and> bigint (acc_Balance r + a)"
    and "postings_id_seq t = postings_id_seq s"
proof -
  have "tx_view n t = Some (upd_row g (move_row a j (pg_now s)) (upd_row f (move_row (- a) i (pg_now s)) w))
    \<and> (\<exists>r. accounts w f = Some r \<and> a \<le> acc_Balance r \<and> bigint (acc_Balance r - a))
    \<and> (\<exists>r. accounts w g = Some r \<and> 0 \<le> acc_Balance r + a \<and> bigint (acc_Balance r + a))
    \<and> postings_id_seq t = postings_id_seq s"
  proof (cases "g < f")
    case True
    with run ids obtain u where 1: "CreditBalance (Pg_Tx n) g a j s = (Inr (), u)"
      and 2: "DebitBalance (Pg_Tx n) f a i u = (Inr (), t)"
      by (auto simp: balance_ops_def elim!: bind_r_cases)
    have "pg_now u = pg_now s"
      using CreditBalance_frame [OF 1] by (simp add: tx_frame_def)
    with CreditBalance_Inr [OF 1 view] DebitBalance_Inr [OF 2] \<open>f \<noteq> g\<close> show ?thesis
      by (auto simp: accounts_upd_row upd_row_commute)
  next
    case False
    with run ids obtain u where 1: "DebitBalance (Pg_Tx n) f a i s = (Inr (), u)"
      and 2: "CreditBalance (Pg_Tx n) g a j u = (Inr (), t)"
      by (auto simp: balance_ops_def elim!: bind_r_cases)
    have "pg_now u = pg_now s"
      using DebitBalance_frame [OF 1] by (simp add: tx_frame_def)
    with DebitBalance_Inr [OF 1 view] CreditBalance_Inr [OF 2] \<open>f \<noteq> g\<close> show ?thesis
      by (auto simp: accounts_upd_row)
  qed
  then show "tx_view n t = Some (upd_row g (move_row a j (pg_now s)) (upd_row f (move_row (- a) i (pg_now s)) w))"
    and "\<exists>r. accounts w f = Some r \<and> a \<le> acc_Balance r \<and> bigint (acc_Balance r - a)"
    and "\<exists>r. accounts w g = Some r \<and> 0 \<le> acc_Balance r + a \<and> bigint (acc_Balance r + a)"
    and "postings_id_seq t = postings_id_seq s"
    by blast+
qed

lemma transfer_work_Inr:
  assumes work: "transfer_work (Pg_Tx n) trx s = (Inr x, t)" and view: "tx_view n s = Some w"
    and ne: "t_FromAccountID trx \<noteq> t_ToAccountID trx"
  shows "tx_view n t = Some (transfer_tables trx (postings_id_seq s) (pg_now s) w)"
    and "transfer_ok trx w"
    and "postings_id_seq t = postings_id_seq s + 2"
proof -
  let ?q = "postings_id_seq s"
  obtain s1 s2 ids where
    1: "CreateTransaction (Pg_Tx n) trx s = (Inr (), s1)" and
    2: "CreatePostings (Pg_Tx n) (transfer_postings trx) s1 = (Inr ids, s2)" and
    3: "run_ops (Pg_Tx n) (t_Amount trx) ids (balance_ops (t_FromAccountID trx) (t_ToAccountID trx)) s2 = (Inr x, t)"
    using work unfolding transfer_work_def by (auto elim!: bind_r_cases)
  note ct = CreateTransaction_Inr [OF 1 view]
  have len: "length (transfer_postings trx) = 1 \<or> length (transfer_postings trx) = 2"
    by (simp add: transfer_postings_def)
  note cp = CreatePostings_Inr [OF 2 ct(1) len]
  have ids: "ids (t_FromAccountID trx) = Some (?q + 1)" "ids (t_ToAccountID trx) = Some (?q + 2)"
    using cp(2) ct(6) ne by (simp_all add: created_ids_transfer)
  note ro = run_ops_transfer_Inr [OF 3 cp(1) ne ids]
  have now: "pg_now s2 = pg_now s"
    using CreateTransaction_frame [OF 1] CreatePostings_frame [OF 2] by (simp add: tx_frame_def)
  show "tx_view n t = Some (transfer_tables trx ?q (pg_now s) w)"
    using ro(1) ct(6) by (simp add: transfer_tables_def now)
  show "transfer_ok trx w"
    using ct ro(2,3) by (simp add: transfer_ok_def)
  show "postings_id_seq t = ?q + 2"
    using ro(4) cp(3) ct(6) by (simp add: transfer_postings_def)
qed

section \<open>A transfer keeps the schema and the books\<close>

lemma add_postings_upd_row: "add_postings rows (upd_row i f w) = upd_row i f (add_postings rows w)"
  by (simp add: add_postings_def upd_row_def split: option.splits)

lemma add_postings_append: "add_postings (xs @ ys) w = add_postings ys (add_postings xs w)"
  by (simp add: add_postings_def)

definition post_entry :: "posting \<Rightarrow> time \<Rightarrow> tables \<Rightarrow> tables" where
  "post_entry p now w = upd_row (p_AccountID p) (move_row (p_Amount p) (p_ID p) now) (add_postings [p] w)"

definition debit_entry :: "transaction \<Rightarrow> int \<Rightarrow> posting" where
  "debit_entry trx i = \<lparr>p_ID = i, p_TransactionID = t_ID trx, p_AccountID = t_FromAccountID trx, p_Amount = - t_Amount trx\<rparr>"

definition credit_entry :: "transaction \<Rightarrow> int \<Rightarrow> posting" where
  "credit_entry trx i = \<lparr>p_ID = i, p_TransactionID = t_ID trx, p_AccountID = t_ToAccountID trx, p_Amount = t_Amount trx\<rparr>"

lemma entry_sel [simp]:
  "p_ID (debit_entry trx i) = i" "p_ID (credit_entry trx i) = i"
  "p_AccountID (debit_entry trx i) = t_FromAccountID trx" "p_AccountID (credit_entry trx i) = t_ToAccountID trx"
  "p_TransactionID (debit_entry trx i) = t_ID trx" "p_TransactionID (credit_entry trx i) = t_ID trx"
  "p_Amount (debit_entry trx i) = - t_Amount trx" "p_Amount (credit_entry trx i) = t_Amount trx"
  by (simp_all add: debit_entry_def credit_entry_def)

lemma transfer_tables_entries:
  assumes "bigint (t_Amount trx)" and "0 < t_Amount trx"
  shows "transfer_tables trx q now w =
    post_entry (credit_entry trx (q + 2)) now (post_entry (debit_entry trx (q + 1)) now (add_transaction trx w))"
proof -
  have "wrap64 (- t_Amount trx) = - t_Amount trx"
    using assms by (simp add: bigint_neg)
  then have "number_postings q (transfer_postings trx) = [debit_entry trx (q + 1)] @ [credit_entry trx (q + 2)]"
    by (simp add: transfer_postings_def debit_entry_def credit_entry_def)
  then show ?thesis
    unfolding transfer_tables_def post_entry_def
    by (simp only: add_postings_append add_postings_upd_row entry_sel)
qed

lemma schema_ok_post_entry:
  assumes "schema_ok q w" and "0 < p_ID p" and "p_ID p \<le> q" and "p_ID p \<notin> p_ID ` set (postings w)"
    and "p_TransactionID p \<in> t_ID ` set (transactions w)"
    and "\<exists>r. accounts w (p_AccountID p) = Some r \<and> 0 \<le> acc_Balance r + p_Amount p \<and> bigint (acc_Balance r + p_Amount p)"
  shows "schema_ok q (post_entry p now w)"
  unfolding post_entry_def
  using assms by (intro schema_ok_upd_row schema_ok_add_posting) auto

text \<open>The two ids of a transfer may stand anywhere below the sequence, as long as no row has them.\<close>

definition unused_ids :: "int \<Rightarrow> int \<Rightarrow> tables \<Rightarrow> bool" where
  "unused_ids Q q w \<longleftrightarrow> 0 \<le> q \<and> q + 2 \<le> Q \<and> (\<forall>p\<in>set (postings w). p_ID p \<noteq> q + 1 \<and> p_ID p \<noteq> q + 2)"

lemma unused_ids_next: "schema_ok q w \<Longrightarrow> 0 \<le> q \<Longrightarrow> unused_ids (q + 2) q w"
  by (fastforce simp: unused_ids_def dest: schema_ok_posting_ids)

lemma transfer_entries_schema:
  assumes "schema_ok Q w" and free: "unused_ids Q q w" and ok: "transfer_ok trx w"
    and ne: "t_FromAccountID trx \<noteq> t_ToAccountID trx"
  shows "schema_ok Q (add_transaction trx w)"
    and "schema_ok Q (post_entry (debit_entry trx (q + 1)) now (add_transaction trx w))"
    and "schema_ok Q (post_entry (credit_entry trx (q + 2)) now (post_entry (debit_entry trx (q + 1)) now (add_transaction trx w)))"
proof -
  let ?w1 = "add_transaction trx w"
  let ?w2 = "post_entry (debit_entry trx (q + 1)) now ?w1"
  show 1: "schema_ok Q ?w1"
    using assms(1) ok by (intro schema_ok_add_transaction) (auto simp: transfer_ok_def)
  show 2: "schema_ok Q ?w2"
    by (rule schema_ok_post_entry [OF 1]) (use ok free in \<open>auto simp: transfer_ok_def unused_ids_def\<close>)
  show "schema_ok Q (post_entry (credit_entry trx (q + 2)) now ?w2)"
    by (rule schema_ok_post_entry [OF 2])
      (use ok free ne in \<open>auto simp: transfer_ok_def unused_ids_def post_entry_def accounts_upd_row\<close>)
qed

lemma transfer_tables_kept:
  assumes "schema_ok Q w" and free: "unused_ids Q q w" and ok: "transfer_ok trx w" and b: "bigint (t_Amount trx)"
    and ne: "t_FromAccountID trx \<noteq> t_ToAccountID trx"
  shows "schema_ok Q (transfer_tables trx q now w)"
    and "books_ok w \<Longrightarrow> books_ok (transfer_tables trx q now w)"
proof -
  from ok have pos: "0 < t_Amount trx" by (simp add: transfer_ok_def)
  from free have q: "0 \<le> q" by (simp add: unused_ids_def)
  note s = transfer_entries_schema [OF assms(1) free ok ne]
  show "schema_ok Q (transfer_tables trx q now w)"
    using s(3) pos b by (simp add: transfer_tables_entries)
  assume "books_ok w"
  then have "books_ok (post_entry (debit_entry trx (q + 1)) now (add_transaction trx w))"
    unfolding post_entry_def using q by (intro books_ok_post [OF _ s(1)]) auto
  then have "books_ok (post_entry (credit_entry trx (q + 2)) now (post_entry (debit_entry trx (q + 1)) now (add_transaction trx w)))"
    unfolding post_entry_def [of "credit_entry trx (q + 2)"]
    using q by (intro books_ok_post [OF _ s(2)]) auto
  then show "books_ok (transfer_tables trx q now w)"
    using pos b by (simp add: transfer_tables_entries)
qed

lemma transfer_tables_next:
  assumes "schema_ok q w" and "0 \<le> q" and "transfer_ok trx w" and "bigint (t_Amount trx)"
    and "t_FromAccountID trx \<noteq> t_ToAccountID trx"
  shows "schema_ok (q + 2) (transfer_tables trx q now w)"
    and "books_ok w \<Longrightarrow> books_ok (transfer_tables trx q now w)"
  using transfer_tables_kept [OF schema_ok_seq_mono [OF assms(1)] unused_ids_next [OF assms(1,2)] assms(3-5)] by auto

section \<open>The whole use case\<close>

definition handles_ok :: "pg \<Rightarrow> bool" where
  "handles_ok s \<longleftrightarrow> (\<forall>n\<ge>next_tx s. open_txs s n = None)"

definition db_ok :: "pg \<Rightarrow> bool" where
  "db_ok s \<longleftrightarrow> 0 \<le> postings_id_seq s \<and> schema_ok (postings_id_seq s) (committed s) \<and> books_ok (committed s)"

text \<open>Reads leave everything but the fault script alone.\<close>

definition same_db :: "pg \<Rightarrow> pg \<Rightarrow> bool" where
  "same_db s t \<longleftrightarrow> committed t = committed s \<and> postings_id_seq t = postings_id_seq s \<and> pg_now t = pg_now s
     \<and> open_txs t = open_txs s \<and> next_tx t = next_tx s \<and> (faults s = [] \<longrightarrow> faults t = [])"

lemma same_db_refl [simp]: "same_db s s"
  by (simp add: same_db_def)

lemma same_db_trans [trans]: "same_db s t \<Longrightarrow> same_db t u \<Longrightarrow> same_db s u"
  by (simp add: same_db_def)

lemma BeginTx_Inl_same:
  assumes "BeginTx s = (Inl e, t)"
  shows "same_db s t"
  using assms
  by (cases "faults s")
    (auto simp: pg_defs same_db_def BeginTx_def on_error_def bind_r_def
      split: fault.splits prod.splits sum.splits)

lemma pool_read_same: "pool_Exec (read_stmt g) s = (x, t) \<Longrightarrow> same_db s t"
  by (cases "faults s") (auto simp: pg_defs read_stmt_def same_db_def split: fault.splits)

lemma pool_read_Inr: "pool_Exec (read_stmt g) s = (Inr a, t) \<Longrightarrow> a = g (committed s)"
  by (cases "faults s") (auto simp: pg_defs read_stmt_def split: fault.splits)

lemma pool_read_quiet: "faults s = [] \<Longrightarrow> pool_Exec (read_stmt g) s = (Inr (g (committed s)), s)"
  by (simp add: pg_defs read_stmt_def)

lemma rows_Err_Pool_same: "rows_Err Pool s = (x, t) \<Longrightarrow> same_db s t"
  by (cases "faults s") (auto simp: pg_defs same_db_def split: fault.splits)

lemma GetCurrencies_same:
  assumes "GetCurrencies ids s = (x, t)"
  shows "same_db s t"
proof (cases "ids = []")
  case False
  show ?thesis
    using assms unfolding GetCurrencies_def if_not_P [OF False]
    by (elim bind_r_cases on_error_cases)
      (auto intro: same_db_trans dest: pool_read_same rows_Err_Pool_same elim!: on_error_cases bind_r_cases)
qed (use assms in \<open>simp add: GetCurrencies_def\<close>)

lemma GetCurrencies_Inr:
  assumes "GetCurrencies ids s = (Inr m, t)" and "i \<in> set ids"
  shows "m i = map_option acc_Currency (accounts (committed s) i)"
proof -
  from assms(2) have "ids \<noteq> []" by auto
  with assms show ?thesis
    by (auto simp: GetCurrencies_def elim!: bind_r_cases on_error_cases dest!: pool_read_Inr)
qed

lemma GetCurrencies_quiet:
  assumes "faults s = []"
  shows "\<exists>m. GetCurrencies ids s = (Inr m, s)"
  using assms by (simp add: GetCurrencies_def pool_read_quiet rows_Err_quiet)

definition same_world :: "'r world \<Rightarrow> 'r world \<Rightarrow> bool" where
  "same_world W W' \<longleftrightarrow> same_db (db W) (db W') \<and> uuid_source W' = uuid_source W \<and> wall W' = wall W
     \<and> transfer_total W' = transfer_total W \<and> spawned W' = spawned W"

lemma same_world_refl [simp]: "same_world W W"
  by (simp add: same_world_def)

lemma same_world_trans [trans]: "same_world W W1 \<Longrightarrow> same_world W1 W2 \<Longrightarrow> same_world W W2"
  by (auto simp: same_world_def intro: same_db_trans)

lemma on_cache_same: "on_cache m W = (x, W') \<Longrightarrow> same_world W W'"
  by (auto simp: on_cache_def same_world_def split: prod.splits)

lemma read_currency_same: "read_currency E R a W = (c, W') \<Longrightarrow> same_world W W'"
  by (auto simp: read_currency_def split: prod.splits sum.splits dest: on_cache_same)

lemma read_currencies_same: "read_currencies E R ff f t W = (c, W') \<Longrightarrow> same_world W W'"
  by (auto simp: read_currencies_def split: prod.splits if_splits
      intro: same_world_trans dest!: read_currency_same)

lemma resolve_currency_same: "resolve_currency E R m a c W = (x, W') \<Longrightarrow> same_world W W'"
  by (auto simp: resolve_currency_def on_cache_same split: if_splits option.splits)
    (metis on_cache_same prod.collapse)

lemma on_db_GetCurrencies_same: "on_db (GetCurrencies ids) W = (x, W') \<Longrightarrow> same_world W W'"
  by (auto simp: on_db_def same_world_def split: prod.splits dest: GetCurrencies_same)

lemma validateTransferCurrencies_same:
  assumes "validateTransferCurrencies E R ff f t c W = (x, W')"
  shows "same_world W W'"
proof -
  obtain cf ct W1 where rc: "read_currencies E R ff f t W = ((cf, ct), W1)"
    by (metis surj_pair)
  then have "same_world W W1" by (rule read_currencies_same)
  moreover have "same_world W1 W'"
    using assms rc
    by (auto simp: validateTransferCurrencies_def Let_def split: if_splits elim!: bind_r_cases
        intro: same_world_trans dest!: resolve_currency_same on_db_GetCurrencies_same)
  ultimately show ?thesis by (rule same_world_trans)
qed

text \<open>Between \<^verbatim>\<open>BeginTx\<close> and the deferred rollback: the transfer is in the tables as a whole or not
  at all, and the transaction is closed.\<close>

lemma transfer_closing:
  assumes view: "tx_view n s = Some w" and ne: "t_FromAccountID trx \<noteq> t_ToAccountID trx"
    and run: "bind_r (transfer_work (Pg_Tx n) trx) (\<lambda>_. CommitTx (Pg_Tx n)) s = (x, t)"
    and t': "t' = (case x of Inl e \<Rightarrow> snd (RollbackTx (Pg_Tx n) t) | Inr _ \<Rightarrow> t)"
  shows "open_txs t' = (open_txs s)(n := None) \<and> next_tx t' = next_tx s \<and> pg_now t' = pg_now s
      \<and> postings_id_seq s \<le> postings_id_seq t' \<and> (faults s = [] \<longrightarrow> faults t' = [])"
    and "(\<exists>e. x = Inl e) \<and> committed t' = committed s
       \<or> transfer_ok trx w \<and> committed t' = transfer_tables trx (postings_id_seq s) (pg_now s) w
         \<and> postings_id_seq t' = postings_id_seq s + 2 \<and> (x = Inr () \<or> (\<exists>d. x = Inl (Driver d)))"
proof -
  obtain y v where rb: "tx_Rollback n t = (y, v)" by fastforce
  note rbf = tx_Rollback_frame [OF rb]
  have both: "(open_txs t' = (open_txs s)(n := None) \<and> next_tx t' = next_tx s \<and> pg_now t' = pg_now s
      \<and> postings_id_seq s \<le> postings_id_seq t' \<and> (faults s = [] \<longrightarrow> faults t' = []))
    \<and> ((\<exists>e. x = Inl e) \<and> committed t' = committed s
       \<or> transfer_ok trx w \<and> committed t' = transfer_tables trx (postings_id_seq s) (pg_now s) w
         \<and> postings_id_seq t' = postings_id_seq s + 2 \<and> (x = Inr () \<or> (\<exists>d. x = Inl (Driver d))))"
    using run
  proof (cases rule: bind_r_cases)
    case (Err e)
    have "tx_frame n s t" using Err(1) by (rule transfer_work_frame)
    with Err rb rbf t' show ?thesis
      by (auto simp: RollbackTx_def tx_frame_def closed_frame_def fun_eq_iff)
  next
    case (Ok z u)
    have su: "tx_frame n s u" using Ok(1) by (rule transfer_work_frame)
    note w = transfer_work_Inr [OF Ok(1) view ne]
    from Ok(2) have cm: "tx_Commit n u = (x, t)" by (simp add: CommitTx_def)
    note c = tx_Commit_view [OF cm w(1)]
    show ?thesis
    proof (cases x)
      case (Inl e)
      with rb rbf t' su w c show ?thesis
        by (auto simp: RollbackTx_def tx_frame_def closed_frame_def fun_eq_iff)
    next
      case (Inr z)
      with t' su w c show ?thesis
        by (auto simp: tx_frame_def closed_frame_def fun_eq_iff)
    qed
  qed
  then show "open_txs t' = (open_txs s)(n := None) \<and> next_tx t' = next_tx s \<and> pg_now t' = pg_now s
      \<and> postings_id_seq s \<le> postings_id_seq t' \<and> (faults s = [] \<longrightarrow> faults t' = [])"
    and "(\<exists>e. x = Inl e) \<and> committed t' = committed s
       \<or> transfer_ok trx w \<and> committed t' = transfer_tables trx (postings_id_seq s) (pg_now s) w
         \<and> postings_id_seq t' = postings_id_seq s + 2 \<and> (x = Inr () \<or> (\<exists>d. x = Inl (Driver d)))"
    by blast+
qed

lemma on_db_bind: "bind_r (on_db m) (\<lambda>a. on_db (f a)) W = on_db (bind_r m f) W"
  by (auto simp: on_db_def bind_r_def split: prod.splits sum.splits)

definition process_same :: "'r world \<Rightarrow> 'r world \<Rightarrow> bool" where
  "process_same W W' \<longleftrightarrow> cache W' = cache W \<and> wall W' = wall W \<and> transfer_total W' = transfer_total W
     \<and> spawned W' = spawned W"

lemma process_same_db [simp]: "process_same W (W'\<lparr>db := s\<rparr>) \<longleftrightarrow> process_same W W'"
  by (simp add: process_same_def)

lemma uuid_NewV7_spec:
  assumes "uuid_NewV7 W = (x, W')"
  shows "db W' = db W" "process_same W W'" "x = Inl e \<Longrightarrow> e = Uuid_Error" "x = Inr u \<Longrightarrow> Some u \<in> set (uuid_source W)"
  using assms by (auto simp: uuid_NewV7_def process_same_def split: list.splits option.splits)

text \<open>The same for the world: a successful \<^verbatim>\<open>uuid.NewV7\<close> is followed by \<open>transfer_closing\<close>, a failed
  one by a rollback.\<close>

lemma transfer_in_tx_cases:
  assumes run: "rollback_on_error (Pg_Tx n) (transfer_in_tx (Pg_Tx n) req) W = (x, W')"
  obtains (no_uuid) "x = Inl Uuid_Error" "db W' = snd (RollbackTx (Pg_Tx n) (db W))" "process_same W W'"
  | (uuid) u y t where
      "bind_r (transfer_work (Pg_Tx n) (new_transaction u (wall W) req)) (\<lambda>_. CommitTx (Pg_Tx n)) (db W) = (y, t)"
      "db W' = (case y of Inl e \<Rightarrow> snd (RollbackTx (Pg_Tx n) t) | Inr _ \<Rightarrow> t)" "process_same W W'"
      "x = map_sum id (\<lambda>_. new_transaction u (wall W) req) y"
      "Some u \<in> set (uuid_source W)"
proof -
  obtain z W1 where nv: "uuid_NewV7 W = (z, W1)" by fastforce
  note W1 = uuid_NewV7_spec [OF nv]
  obtain v s where rb: "RollbackTx (Pg_Tx n) (db W) = (v, s)" by fastforce
  show thesis
  proof (cases z)
    case (Inl e)
    have "transfer_in_tx (Pg_Tx n) req W = (Inl Uuid_Error, W1)"
      using nv W1(3) Inl by (simp add: transfer_in_tx_def)
    with run rb W1(1,2) show ?thesis
      by (intro no_uuid) (auto simp: rollback_on_error_def on_db_def)
  next
    case (Inr u)
    let ?trx = "new_transaction u (wall W) req"
    obtain y t where y: "bind_r (transfer_work (Pg_Tx n) ?trx) (\<lambda>_. CommitTx (Pg_Tx n)) (db W) = (y, t)"
      by fastforce
    have "wall W1 = wall W" using W1(2) by (simp add: process_same_def)
    then have "transfer_in_tx (Pg_Tx n) req W =
        bind_r (on_db (transfer_work (Pg_Tx n) ?trx)) (\<lambda>_. bind_r (on_db (CommitTx (Pg_Tx n))) (\<lambda>_. return_r ?trx)) W1"
      using nv Inr by (simp add: transfer_in_tx_def Let_def)
    also have "\<dots> = (map_sum id (\<lambda>_. ?trx) y, W1\<lparr>db := t\<rparr>)"
      using y W1(1) by (auto simp: bind_r_def on_db_def split: prod.splits sum.splits)
    finally have "transfer_in_tx (Pg_Tx n) req W = (map_sum id (\<lambda>_. ?trx) y, W1\<lparr>db := t\<rparr>)" .
    with run y W1(2) W1(4) [OF Inr] show ?thesis
      by (intro uuid [OF y])
        (auto simp: rollback_on_error_def on_db_def split: sum.splits prod.splits)
  qed
qed

lemma transaction_main_cases:
  assumes "transaction_main uc E R ff req W = (x, W')"
  obtains (rejected) e where "x = Inl e" "same_world W W'"
  | (ran) W1 W2 W3 y where
      "validateRequest req = Inr ()"
      "validateTransferCurrencies E R ff (req_FromAccountID req) (req_ToAccountID req) (req_Currency req) W = (Inr (), W1)"
      "same_world W W1"
      "on_db BeginTx W1 = (Inr (Pg_Tx (next_tx (db W))), W2)"
      "rollback_on_error (Pg_Tx (next_tx (db W))) (transfer_in_tx (Pg_Tx (next_tx (db W))) req) W2 = (y, W3)"
      "x = map_sum id t_ID y"
      "W' = (case y of Inr trx \<Rightarrow> if uc_publisher uc then W3\<lparr>spawned := spawned W3 @ [trx]\<rparr> else W3 | Inl _ \<Rightarrow> W3)"
proof (cases "validateRequest req")
  case (Inl e)
  with assms show ?thesis by (intro rejected) (auto simp: transaction_main_def)
next
  case (Inr v)
  let ?vc = "validateTransferCurrencies E R ff (req_FromAccountID req) (req_ToAccountID req) (req_Currency req)"
  obtain z W1 where vc: "?vc W = (z, W1)" by fastforce
  have s1: "same_world W W1" using vc by (rule validateTransferCurrencies_same)
  show ?thesis
  proof (cases z)
    case (Inl e)
    with assms Inr vc s1 show ?thesis by (intro rejected) (auto simp: transaction_main_def)
  next
    case z: (Inr v')
    obtain b s2 where bg: "BeginTx (db W1) = (b, s2)" by fastforce
    show ?thesis
    proof (cases b)
      case (Inl e)
      have "same_db (db W1) s2" using bg Inl by (intro BeginTx_Inl_same) simp
      then have "same_world W1 (W1\<lparr>db := s2\<rparr>)" by (simp add: same_world_def)
      with assms Inr vc z bg Inl s1 show ?thesis
        by (intro rejected) (auto simp: transaction_main_def on_db_def intro: same_world_trans)
    next
      case b: (Inr tx)
      have tx: "tx = Pg_Tx (next_tx (db W))"
        using BeginTx_Inr(1) [OF bg [unfolded b]] s1 by (simp add: same_world_def same_db_def)
      obtain y W3 where y: "rollback_on_error tx (transfer_in_tx tx req) (W1\<lparr>db := s2\<rparr>) = (y, W3)"
        by fastforce
      from assms Inr vc z bg b y show ?thesis
        by (intro ran [of W1 "W1\<lparr>db := s2\<rparr>" y W3])
          (auto simp: transaction_main_def on_db_def bind_r_def tx s1 split: sum.splits)
    qed
  qed
qed

definition transfer_done :: "transaction \<Rightarrow> pg \<Rightarrow> pg \<Rightarrow> bool" where
  "transfer_done trx s t \<longleftrightarrow> transfer_ok trx (committed s)
     \<and> committed t = transfer_tables trx (postings_id_seq s) (pg_now s) (committed s)
     \<and> postings_id_seq t = postings_id_seq s + 2"

text \<open>What a call of \<^verbatim>\<open>Transaction\<close> leaves as it was: no database transaction stays open.\<close>

definition transfer_frame :: "pg \<Rightarrow> pg \<Rightarrow> bool" where
  "transfer_frame s t \<longleftrightarrow> open_txs t = open_txs s \<and> handles_ok t \<and> pg_now t = pg_now s
     \<and> postings_id_seq s \<le> postings_id_seq t \<and> (faults s = [] \<longrightarrow> faults t = [])"

text \<open>The outcomes: an error and no change of the tables, or the transfer of a fresh id applied as a
  whole, reported by that id or, when the acknowledgement of the commit was lost, by a driver error.\<close>

definition transfer_outcome :: "transfer_uc \<Rightarrow> transaction_request \<Rightarrow> 'r world \<Rightarrow> uuid result \<Rightarrow> 'r world \<Rightarrow> bool" where
  "transfer_outcome uc req W x W' \<longleftrightarrow>
     (\<exists>e. x = Inl e) \<and> committed (db W') = committed (db W) \<and> spawned W' = spawned W
   \<or> (\<exists>u. Some u \<in> set (uuid_source W) \<and> validateRequest req = Inr ()
        \<and> transfer_done (new_transaction u (wall W) req) (db W) (db W')
        \<and> (x = Inr u \<and> spawned W' = spawned W @ (if uc_publisher uc then [new_transaction u (wall W) req] else [])
           \<or> (\<exists>d. x = Inl (Driver d)) \<and> spawned W' = spawned W))"

lemma handles_ok_next: "handles_ok s \<Longrightarrow> (open_txs s)(next_tx s := None) = open_txs s"
  by (auto simp: handles_ok_def fun_eq_iff)

lemma BeginTx_same:
  assumes "same_world W W1" and "on_db BeginTx W1 = (Inr (Pg_Tx (next_tx (db W))), W2)"
  shows "tx_view (next_tx (db W)) (db W2) = Some (committed (db W))"
    and "committed (db W2) = committed (db W)" "postings_id_seq (db W2) = postings_id_seq (db W)"
    and "pg_now (db W2) = pg_now (db W)" "next_tx (db W2) = Suc (next_tx (db W))"
    and "open_txs (db W2) = (open_txs (db W))(next_tx (db W) \<mapsto> Active id)"
    and "faults (db W) = [] \<Longrightarrow> faults (db W2) = []"
    and "uuid_source W2 = uuid_source W" "wall W2 = wall W" "transfer_total W2 = transfer_total W"
    and "spawned W2 = spawned W"
proof -
  have b: "BeginTx (db W1) = (Inr (Pg_Tx (next_tx (db W))), db W2)" and W2: "W2 = W1\<lparr>db := db W2\<rparr>"
    using assms(2) by (auto simp: on_db_def split: prod.splits)
  have s: "committed (db W1) = committed (db W)" "postings_id_seq (db W1) = postings_id_seq (db W)"
    "pg_now (db W1) = pg_now (db W)" "open_txs (db W1) = open_txs (db W)" "next_tx (db W1) = next_tx (db W)"
    "faults (db W) = [] \<Longrightarrow> faults (db W1) = []" "uuid_source W1 = uuid_source W" "wall W1 = wall W"
    "transfer_total W1 = transfer_total W" "spawned W1 = spawned W"
    using assms(1) by (auto simp: same_world_def same_db_def)
  note B = BeginTx_Inr [OF b, unfolded s]
  show "tx_view (next_tx (db W)) (db W2) = Some (committed (db W))"
    "committed (db W2) = committed (db W)" "postings_id_seq (db W2) = postings_id_seq (db W)"
    "pg_now (db W2) = pg_now (db W)" "next_tx (db W2) = Suc (next_tx (db W))"
    "open_txs (db W2) = (open_txs (db W))(next_tx (db W) \<mapsto> Active id)"
    "faults (db W) = [] \<Longrightarrow> faults (db W2) = []"
    using B s(6) by blast+
  show "uuid_source W2 = uuid_source W" "wall W2 = wall W" "transfer_total W2 = transfer_total W"
    "spawned W2 = spawned W"
    by (subst W2; simp add: s)+
qed

lemma new_transaction_sel [simp]:
  "t_ID (new_transaction u now req) = u" "t_FromAccountID (new_transaction u now req) = req_FromAccountID req"
  "t_ToAccountID (new_transaction u now req) = req_ToAccountID req"
  "t_Amount (new_transaction u now req) = req_Amount req"
  "t_Currency (new_transaction u now req) = req_Currency req"
  "t_IdempotencyKey (new_transaction u now req) = req_IdempotencyKey req"
  by (simp_all add: new_transaction_def)

lemma validateRequest_Inr:
  "validateRequest req = Inr () \<longleftrightarrow> 0 < req_Amount req \<and> req_FromAccountID req \<noteq> req_ToAccountID req
     \<and> req_IdempotencyKey req \<noteq> uuid_Nil \<and> IsValid (req_Currency req)"
  by (auto simp: validateRequest_def)

lemma transaction_main_outcome:
  assumes run: "transaction_main uc E R ff req W = (x, W')" and ho: "handles_ok (db W)"
  shows "transfer_frame (db W) (db W') \<and> transfer_total W' = transfer_total W \<and> transfer_outcome uc req W x W'"
  using run
proof (cases rule: transaction_main_cases)
  case (rejected e)
  with ho show ?thesis
    by (auto simp: same_world_def same_db_def handles_ok_def transfer_frame_def transfer_outcome_def)
next
  case (ran W1 W2 W3 y)
  note B = BeginTx_same [OF ran(3,4)]
  have W'db: "db W' = db W3" "transfer_total W' = transfer_total W3"
    using ran(7) by (auto split: sum.splits)
  show ?thesis
    using ran(5)
  proof (cases rule: transfer_in_tx_cases)
    case no_uuid
    obtain r t where rb: "tx_Rollback (next_tx (db W)) (db W2) = (r, t)" by fastforce
    then have "db W3 = t" using no_uuid(2) by (simp add: RollbackTx_def)
    then show ?thesis
      using no_uuid ran(6,7) tx_Rollback_frame [OF rb] B ho handles_ok_next [OF ho]
      by (auto simp: closed_frame_def process_same_def handles_ok_def transfer_frame_def transfer_outcome_def)
  next
    case (uuid u z t)
    let ?trx = "new_transaction u (wall W) req"
    have ne: "t_FromAccountID ?trx \<noteq> t_ToAccountID ?trx"
      using ran(1) by (simp add: validateRequest_Inr)
    note c = transfer_closing [OF B(1) ne uuid(1) [unfolded B(9)] uuid(2), unfolded B(1-6)]
    have "transfer_frame (db W) (db W3)"
      using c(1) B(7) ho handles_ok_next [OF ho] by (auto simp: handles_ok_def transfer_frame_def)
    moreover have "spawned W3 = spawned W" "transfer_total W3 = transfer_total W"
      using uuid(3) B by (simp_all add: process_same_def)
    moreover have "Some u \<in> set (uuid_source W)" using uuid(5) B by simp
    ultimately show ?thesis
      using c(2) uuid(4) ran(1,6,7) B(9)
      by (auto simp: W'db transfer_outcome_def transfer_done_def)
  qed
qed

lemma RecordTransfer_sel [simp]:
  "db (RecordTransfer st W) = db W" "spawned (RecordTransfer st W) = spawned W"
  "cache (RecordTransfer st W) = cache W" "uuid_source (RecordTransfer st W) = uuid_source W"
  "transfer_total (RecordTransfer st W) = (transfer_total W)(st := Suc (transfer_total W st))"
  by (simp_all add: RecordTransfer_def)

lemma transfer_outcome_RecordTransfer [simp]:
  "transfer_outcome uc req W x (RecordTransfer st W') \<longleftrightarrow> transfer_outcome uc req W x W'"
  by (simp add: transfer_outcome_def)

lemma Transaction_outcome:
  assumes run: "Transaction uc E R ff req W = (x, W')" and ho: "handles_ok (db W)"
  shows "transfer_frame (db W) (db W')" and "transfer_outcome uc req W x W'"
    and "transfer_total W' = (if uc_metrics uc
      then (transfer_total W)(transfer_status x := Suc (transfer_total W (transfer_status x))) else transfer_total W)"
proof -
  obtain W1 where m: "transaction_main uc E R ff req W = (x, W1)"
    and W': "W' = (if uc_metrics uc then RecordTransfer (transfer_status x) W1 else W1)"
    using run by (auto simp: Transaction_def split: prod.splits)
  note o = transaction_main_outcome [OF m ho]
  show "transfer_frame (db W) (db W')" "transfer_outcome uc req W x W'"
    "transfer_total W' = (if uc_metrics uc
      then (transfer_total W)(transfer_status x := Suc (transfer_total W (transfer_status x))) else transfer_total W)"
    using o by (simp_all add: W')
qed

section \<open>The verdict on a server that answers every call\<close>

text \<open>The result of steps 5 to 8 as a function of the tables.\<close>

definition transfer_verdict :: "transaction \<Rightarrow> tables \<Rightarrow> unit result" where
  "transfer_verdict trx w =
     (if \<exists>t'\<in>set (transactions w). t_ID t' = t_ID trx \<or> t_IdempotencyKey t' = t_IdempotencyKey trx
        then Inl ErrIdempotencyConflict
      else case (accounts w (t_FromAccountID trx), accounts w (t_ToAccountID trx)) of
        (Some f, Some g) \<Rightarrow>
          let poor = acc_Balance f < t_Amount trx; over = \<not> bigint (acc_Balance g + t_Amount trx);
              over_err = Wrap ''db: failed to credit balance'' (Pg Numeric_Out_Of_Range)
          in if t_ToAccountID trx < t_FromAccountID trx
             then (if over then Inl over_err else if poor then Inl ErrInsufficientFunds else Inr ())
             else (if poor then Inl ErrInsufficientFunds else if over then Inl over_err else Inr ())
      | _ \<Rightarrow> Inl (Pg Foreign_Key_Violation))"

lemma schema_ok_account:
  "schema_ok q w \<Longrightarrow> accounts w a = Some r \<Longrightarrow> acc_ID r = a \<and> 0 \<le> acc_Balance r \<and> bigint (acc_Balance r)"
  by (simp add: schema_ok_def)

lemma transfer_verdict_ok:
  assumes "transfer_verdict trx w = Inr ()" and "schema_ok q w" and "0 < t_Amount trx"
  shows "transfer_ok trx w"
proof -
  have "bigint (acc_Balance r - t_Amount trx)"
    if "accounts w (t_FromAccountID trx) = Some r" "t_Amount trx \<le> acc_Balance r" for r
    using that assms(3) schema_ok_account [OF assms(2) that(1)] by (simp add: bigint_def)
  moreover have "0 \<le> acc_Balance r + t_Amount trx" if "accounts w (t_ToAccountID trx) = Some r" for r
    using that assms(3) schema_ok_account [OF assms(2) that(1)] by simp
  ultimately show ?thesis
    using assms(1,3)
    by (auto simp: transfer_verdict_def transfer_ok_def Let_def split: if_splits option.splits)
qed

lemma fst_bind_r: "fst (bind_r m f s) = (case m s of (Inl e, _) \<Rightarrow> Inl e | (Inr a, t) \<Rightarrow> fst (f a t))"
  by (simp add: bind_r_def split: prod.splits sum.splits)

lemma run_ops_quiet:
  assumes fl: "faults s = []" and view: "tx_view n s = Some w" and ne: "f \<noteq> g" and "0 \<le> a"
    and rows: "accounts w f = Some rf" "accounts w g = Some rg"
    and ok: "0 \<le> acc_Balance rf" "bigint (acc_Balance rf)" "0 \<le> acc_Balance rg"
  shows "fst (run_ops (Pg_Tx n) a ids (balance_ops f g) s) =
    (let poor = acc_Balance rf < a; over = \<not> bigint (acc_Balance rg + a);
         over_err = Wrap ''db: failed to credit balance'' (Pg Numeric_Out_Of_Range)
     in if g < f
        then (if over then Inl over_err else if poor then Inl ErrInsufficientFunds else Inr ())
        else (if poor then Inl ErrInsufficientFunds else if over then Inl over_err else Inr ()))"
proof -
  have debit: "fst (DebitBalance (Pg_Tx n) f a i t) = (if a \<le> acc_Balance rf then Inr () else Inl ErrInsufficientFunds)"
    if "faults t = []" "tx_view n t = Some v" "accounts v f = Some rf" for i t v
    using that ok \<open>0 \<le> a\<close> by (subst DebitBalance_quiet [OF that(1,2)]) auto
  have credit: "fst (CreditBalance (Pg_Tx n) g a i t) = (if bigint (acc_Balance rg + a) then Inr ()
      else Inl (Wrap ''db: failed to credit balance'' (Pg Numeric_Out_Of_Range)))"
    if "faults t = []" "tx_view n t = Some v" "accounts v g = Some rg" for i t v
    using that ok \<open>0 \<le> a\<close> by (subst CreditBalance_quiet [OF that(1,2)]) auto
  show ?thesis
  proof (cases "g < f")
    case True
    obtain x t where c: "CreditBalance (Pg_Tx n) g a (case ids g of None \<Rightarrow> 0 | Some i \<Rightarrow> i) s = (x, t)" by fastforce
    have "faults t = []" using CreditBalance_frame [OF c] fl by (simp add: tx_frame_def)
    moreover have "tx_view n t = Some (upd_row g (move_row a (case ids g of None \<Rightarrow> 0 | Some i \<Rightarrow> i) (pg_now s)) w)" if "x = Inr ()"
      using CreditBalance_Inr(1) [OF _ view] c that by simp
    ultimately have "x = Inr () \<Longrightarrow> fst (DebitBalance (Pg_Tx n) f a (case ids f of None \<Rightarrow> 0 | Some i \<Rightarrow> i) t) = (if a \<le> acc_Balance rf then Inr () else Inl ErrInsufficientFunds)"
      using debit ne rows by (simp add: accounts_upd_row)
    moreover have "x = (if bigint (acc_Balance rg + a) then Inr ()
        else Inl (Wrap ''db: failed to credit balance'' (Pg Numeric_Out_Of_Range)))"
      using credit [OF fl view rows(2)] c by (metis fst_conv)
    ultimately show ?thesis
      using True c ne by (auto simp: balance_ops_def fst_bind_r Let_def split: prod.splits sum.splits)
  next
    case False
    obtain x t where c: "DebitBalance (Pg_Tx n) f a (case ids f of None \<Rightarrow> 0 | Some i \<Rightarrow> i) s = (x, t)" by fastforce
    have "faults t = []" using DebitBalance_frame [OF c] fl by (simp add: tx_frame_def)
    moreover have "tx_view n t = Some (upd_row f (move_row (- a) (case ids f of None \<Rightarrow> 0 | Some i \<Rightarrow> i) (pg_now s)) w)" if "x = Inr ()"
      using DebitBalance_Inr(1) [OF _ view] c that by simp
    ultimately have "x = Inr () \<Longrightarrow> fst (CreditBalance (Pg_Tx n) g a (case ids g of None \<Rightarrow> 0 | Some i \<Rightarrow> i) t) =
        (if bigint (acc_Balance rg + a) then Inr () else Inl (Wrap ''db: failed to credit balance'' (Pg Numeric_Out_Of_Range)))"
      using credit ne rows by (simp add: accounts_upd_row)
    moreover have "x = (if a \<le> acc_Balance rf then Inr () else Inl ErrInsufficientFunds)"
      using debit [OF fl view rows(1)] c by (metis fst_conv)
    ultimately show ?thesis
      using False c ne
      by (cases "a \<le> acc_Balance rf"; cases "bigint (acc_Balance rg + a)")
        (auto simp: balance_ops_def fst_bind_r Let_def split: prod.splits sum.splits)
  qed
qed

lemma transfer_work_quiet:
  assumes fl: "faults s = []" and view: "tx_view n s = Some w" and schema: "schema_ok q w"
    and pos: "0 < t_Amount trx" and ne: "t_FromAccountID trx \<noteq> t_ToAccountID trx"
  shows "fst (transfer_work (Pg_Tx n) trx s) = transfer_verdict trx w"
proof -
  obtain x s1 where c: "CreateTransaction (Pg_Tx n) trx s = (x, s1)" by fastforce
  note cq = CreateTransaction_quiet [OF fl view, of trx, unfolded c fst_conv]
  show ?thesis
  proof (cases x)
    case (Inl e)
    with cq c pos show ?thesis
      by (auto simp: transfer_work_def fst_bind_r transfer_verdict_def split: if_splits option.splits)
  next
    case (Inr v)
    note ci = CreateTransaction_Inr [OF c [unfolded Inr] view]
    obtain rf rg where rows: "accounts w (t_FromAccountID trx) = Some rf" "accounts w (t_ToAccountID trx) = Some rg"
      using ci(4,5) by blast
    have fl1: "faults s1 = []" using CreateTransaction_frame [OF c] fl by (simp add: tx_frame_def)
    have len: "length (transfer_postings trx) = 1 \<or> length (transfer_postings trx) = 2"
      by (simp add: transfer_postings_def)
    obtain ids s2 where p: "CreatePostings (Pg_Tx n) (transfer_postings trx) s1 = (Inr ids, s2)"
      using CreatePostings_quiet [OF fl1 ci(1) len] rows by (auto simp: transfer_postings_def)
    note cp = CreatePostings_Inr [OF p ci(1) len]
    have fl2: "faults s2 = []" using CreatePostings_frame [OF p] fl1 by (simp add: tx_frame_def)
    have "fst (transfer_work (Pg_Tx n) trx s) =
        fst (run_ops (Pg_Tx n) (t_Amount trx) ids (balance_ops (t_FromAccountID trx) (t_ToAccountID trx)) s2)"
      using c Inr p by (simp add: transfer_work_def)
    also have "\<dots> = transfer_verdict trx w"
      using ci(3) rows pos schema_ok_account [OF schema rows(1)] schema_ok_account [OF schema rows(2)]
      by (subst run_ops_quiet [OF fl2 cp(1) ne, of _ rf rg]) (auto simp: transfer_verdict_def)
    finally show ?thesis .
  qed
qed

lemma transaction_main_quiet:
  assumes fl: "faults (db W) = []" and schema: "schema_ok q (committed (db W))"
    and req: "validateRequest req = Inr ()"
    and cur: "validateTransferCurrencies E R ff (req_FromAccountID req) (req_ToAccountID req) (req_Currency req) W = (Inr (), W1)"
    and u: "uuid_source W = Some u # us"
  shows "fst (transaction_main uc E R ff req W) =
    map_sum id (\<lambda>_. u) (transfer_verdict (new_transaction u (wall W) req) (committed (db W)))"
proof -
  have s1: "same_world W W1" using cur by (rule validateTransferCurrencies_same)
  then have "faults (db W1) = []" and n: "next_tx (db W1) = next_tx (db W)"
    using fl by (simp_all add: same_world_def same_db_def)
  then obtain t where "BeginTx (db W1) = (Inr (Pg_Tx (next_tx (db W))), t)"
    using BeginTx_quiet [of "db W1"] BeginTx_Inr(1) [of "db W1"] by (metis n)
  then have bg: "on_db BeginTx W1 = (Inr (Pg_Tx (next_tx (db W))), W1\<lparr>db := t\<rparr>)"
    by (simp add: on_db_def)
  let ?n = "next_tx (db W)" and ?W2 = "W1\<lparr>db := t\<rparr>"
  note B = BeginTx_same [OF s1 bg]
  obtain y W3 where run: "rollback_on_error (Pg_Tx ?n) (transfer_in_tx (Pg_Tx ?n) req) ?W2 = (y, W3)" by fastforce
  have main: "fst (transaction_main uc E R ff req W) = map_sum id t_ID y"
    using req cur bg run by (simp add: transaction_main_def fst_bind_r split: sum.splits)
  let ?trx = "new_transaction u (wall W) req"
  have work: "fst (transfer_work (Pg_Tx ?n) ?trx t) = transfer_verdict ?trx (committed (db W))"
    using transfer_work_quiet [of t ?n _ q ?trx] B(1,7) fl schema req by (simp add: validateRequest_Inr)
  have "fst (CommitTx (Pg_Tx ?n) s) = Inr ()" if ok: "transfer_work (Pg_Tx ?n) ?trx t = (Inr (), s)" for s
  proof -
    have "faults s = []" using transfer_work_frame [OF ok] B(7) fl by (simp add: tx_frame_def)
    moreover have "tx_view ?n s = Some (transfer_tables ?trx (postings_id_seq t) (pg_now t) (committed (db W)))"
      by (rule transfer_work_Inr(1) [OF ok]) (use B(1) req in \<open>simp_all add: validateRequest_Inr\<close>)
    moreover obtain x s' where "tx_Commit ?n s = (x, s')" by fastforce
    ultimately show ?thesis using tx_Commit_view(3) by (fastforce simp: CommitTx_def)
  qed
  then have "y = map_sum id (\<lambda>_. ?trx) (transfer_verdict ?trx (committed (db W)))"
    using run work B(8,9) u
    by (auto simp: rollback_on_error_def transfer_in_tx_def uuid_NewV7_def on_db_def bind_r_def Let_def
        split: prod.splits sum.splits)
  then show ?thesis
    by (cases "transfer_verdict ?trx (committed (db W))") (simp_all add: main)
qed

section \<open>Currencies and the cache\<close>

text \<open>The cache agrees with the tables: an entry of the key \<^verbatim>\<open>currency:<id>\<close>, live or expired, holds
  the currency of an existing account.\<close>

definition coherent :: "ext \<Rightarrow> store \<Rightarrow> tables \<Rightarrow> bool" where
  "coherent E m w \<longleftrightarrow> (\<forall>a v d. m (currency_key E a) = Some (v, d) \<longrightarrow>
     (\<exists>r i. accounts w a = Some r \<and> Atoi v = Some i \<and> word_of_int i = acc_Currency r))"

lemma coherent_cached:
  assumes "coherent E m w" and "cached_currency E now m a \<noteq> CURRENCY_UNSPECIFIED"
  shows "\<exists>r. accounts w a = Some r \<and> acc_Currency r = cached_currency E now m a"
  using assms by (fastforce simp: coherent_def cached_currency_def live_def split: option.splits if_splits)

lemma coherent_put:
  assumes "uuid_laws E" and "coherent E m w" and "accounts w a = Some r"
  shows "coherent E (ttl_put (currency_key E a) (Itoa (sint (acc_Currency r))) ttl now m) w"
  using assms by (auto simp: coherent_def ttl_put_def)

lemma coherent_put_other:
  assumes "coherent E m w" and "k \<notin> range (currency_key E)"
  shows "coherent E (ttl_put k v ttl now m) w" and "coherent E (m(k := None)) w"
  using assms by (auto simp: coherent_def ttl_put_def)

lemma coherent_mono:
  assumes "coherent E m w"
    and "\<And>a r. accounts w a = Some r \<Longrightarrow> \<exists>r'. accounts w' a = Some r' \<and> acc_Currency r' = acc_Currency r"
  shows "coherent E m w'"
  using assms by (fastforce simp: coherent_def)

context redis_server
begin

lemma read_currency_spec:
  assumes "read_currency E R a W = (c, W')"
  shows "data (cache W') = data (cache W)" and "db W' = db W"
    and "coherent E (data (cache W)) w \<Longrightarrow> c \<noteq> CURRENCY_UNSPECIFIED \<Longrightarrow> \<exists>r. accounts w a = Some r \<and> acc_Currency r = c"
  using assms GetAccountCurrency_spec [of E a "cache W"] coherent_cached [of E "data (cache W)" w _ a]
  by (fastforce simp: read_currency_def on_cache_def split: prod.splits sum.splits)+

lemma read_currencies_spec:
  assumes "read_currencies E R ff f t W = ((cf, ct), W')"
  shows "data (cache W') = data (cache W)" and "db W' = db W"
    and "coherent E (data (cache W)) w \<Longrightarrow> cf \<noteq> CURRENCY_UNSPECIFIED \<Longrightarrow> \<exists>r. accounts w f = Some r \<and> acc_Currency r = cf"
    and "coherent E (data (cache W)) w \<Longrightarrow> ct \<noteq> CURRENCY_UNSPECIFIED \<Longrightarrow> \<exists>r. accounts w t = Some r \<and> acc_Currency r = ct"
proof -
  have "data (cache W') = data (cache W) \<and> db W' = db W \<and> (coherent E (data (cache W)) w \<longrightarrow>
      (cf \<noteq> CURRENCY_UNSPECIFIED \<longrightarrow> (\<exists>r. accounts w f = Some r \<and> acc_Currency r = cf)) \<and>
      (ct \<noteq> CURRENCY_UNSPECIFIED \<longrightarrow> (\<exists>r. accounts w t = Some r \<and> acc_Currency r = ct)))"
  proof (cases ff)
    case True
    then obtain W1 where 1: "read_currency E R f W = (cf, W1)" and 2: "read_currency E R t W1 = (ct, W')"
      using assms by (auto simp: read_currencies_def split: prod.splits)
    show ?thesis using read_currency_spec(1,2) [OF 1] read_currency_spec(3) [OF 1, of w]
        read_currency_spec(1,2) [OF 2] read_currency_spec(3) [OF 2, of w] by auto
  next
    case False
    then obtain W1 where 1: "read_currency E R t W = (ct, W1)" and 2: "read_currency E R f W1 = (cf, W')"
      using assms by (auto simp: read_currencies_def split: prod.splits)
    show ?thesis using read_currency_spec(1,2) [OF 1] read_currency_spec(3) [OF 1, of w]
        read_currency_spec(1,2) [OF 2] read_currency_spec(3) [OF 2, of w] by auto
  qed
  then show "data (cache W') = data (cache W)" and "db W' = db W"
    and "coherent E (data (cache W)) w \<Longrightarrow> cf \<noteq> CURRENCY_UNSPECIFIED \<Longrightarrow> \<exists>r. accounts w f = Some r \<and> acc_Currency r = cf"
    and "coherent E (data (cache W)) w \<Longrightarrow> ct \<noteq> CURRENCY_UNSPECIFIED \<Longrightarrow> \<exists>r. accounts w t = Some r \<and> acc_Currency r = ct"
    by blast+
qed

lemma resolve_currency_spec:
  assumes "resolve_currency E R m a c W = (x, W')" and "uuid_laws E" and "coherent E (data (cache W)) w"
    and "c = CURRENCY_UNSPECIFIED \<Longrightarrow> m a = map_option acc_Currency (accounts w a)"
    and "c \<noteq> CURRENCY_UNSPECIFIED \<Longrightarrow> \<exists>r. accounts w a = Some r \<and> acc_Currency r = c"
  shows "coherent E (data (cache W')) w" and "db W' = db W"
    and "x = Inr c' \<Longrightarrow> \<exists>r. accounts w a = Some r \<and> acc_Currency r = c'"
proof -
  have put: "coherent E (data r') w"
    if "SetAccountCurrency E R a (acc_Currency row) currencyTTL (cache W) = (y, r')" "accounts w a = Some row" for y r' row
    using SetAccountCurrency_spec(1) [OF that(1)] coherent_put [OF assms(2,3) that(2)] assms(3) by auto
  show "coherent E (data (cache W')) w" and "db W' = db W"
    and "x = Inr c' \<Longrightarrow> \<exists>r. accounts w a = Some r \<and> acc_Currency r = c'"
    using assms put
    by (auto simp: resolve_currency_def on_cache_def split: if_splits option.splits prod.splits)
qed

lemma resolve_both_spec:
  assumes run: "bind_r (resolve_currency E R m f cf) (\<lambda>cf'. bind_r (resolve_currency E R m t ct) (\<lambda>ct'.
        if cf' \<noteq> c \<or> ct' \<noteq> c then throw ErrCurrencyMismatch else return_r ())) W = (x, W')"
    and laws: "uuid_laws E" and co: "coherent E (data (cache W)) w"
    and f: "cf = CURRENCY_UNSPECIFIED \<Longrightarrow> m f = map_option acc_Currency (accounts w f)"
      "cf \<noteq> CURRENCY_UNSPECIFIED \<Longrightarrow> \<exists>r. accounts w f = Some r \<and> acc_Currency r = cf"
    and t: "ct = CURRENCY_UNSPECIFIED \<Longrightarrow> m t = map_option acc_Currency (accounts w t)"
      "ct \<noteq> CURRENCY_UNSPECIFIED \<Longrightarrow> \<exists>r. accounts w t = Some r \<and> acc_Currency r = ct"
  shows "coherent E (data (cache W')) w \<and> (x = Inr () \<longrightarrow> (\<exists>rf rt. accounts w f = Some rf \<and> acc_Currency rf = c
           \<and> accounts w t = Some rt \<and> acc_Currency rt = c))"
  using run
proof (cases rule: bind_r_cases)
  case (Err e)
  with resolve_currency_spec [OF Err(1) laws co f] show ?thesis by auto
next
  case o1: (Ok cf' W3)
  note s1 = resolve_currency_spec [OF o1(1) laws co f]
  show ?thesis
    using o1(2)
  proof (cases rule: bind_r_cases)
    case (Err e)
    with resolve_currency_spec [OF Err(1) laws s1(1) t] show ?thesis by auto
  next
    case o2: (Ok ct' W4)
    with s1 resolve_currency_spec [OF o2(1) laws s1(1) t] show ?thesis
      by (auto split: if_splits)
  qed
qed

lemma validateTransferCurrencies_spec:
  assumes run: "validateTransferCurrencies E R ff f t c W = (x, W')"
    and laws: "uuid_laws E" and co: "coherent E (data (cache W)) (committed (db W))"
  shows "coherent E (data (cache W')) (committed (db W)) \<and>
    (x = Inr () \<longrightarrow> (\<exists>rf rt. accounts (committed (db W)) f = Some rf \<and> acc_Currency rf = c
           \<and> accounts (committed (db W)) t = Some rt \<and> acc_Currency rt = c))"
proof -
  obtain cf ct W1 where rc: "read_currencies E R ff f t W = ((cf, ct), W1)" by (metis surj_pair)
  note r = read_currencies_spec [OF rc]
  have co1: "coherent E (data (cache W1)) (committed (db W))" using co r(1) by simp
  define ids where "ids = (if cf = CURRENCY_UNSPECIFIED then [f] else []) @ (if ct = CURRENCY_UNSPECIFIED then [t] else [])"
  show ?thesis
  proof (cases "ids = []")
    case True
    then have "cf \<noteq> CURRENCY_UNSPECIFIED" "ct \<noteq> CURRENCY_UNSPECIFIED" by (auto simp: ids_def split: if_splits)
    with run rc r(3,4) [OF co] co1 show ?thesis
      by (auto simp: validateTransferCurrencies_def Let_def split: if_splits)
  next
    case False
    from run rc False have "bind_r (on_db (GetCurrencies ids)) (\<lambda>m. bind_r (resolve_currency E R m f cf) (\<lambda>cf'.
        bind_r (resolve_currency E R m t ct) (\<lambda>ct'.
          if cf' \<noteq> c \<or> ct' \<noteq> c then throw ErrCurrencyMismatch else return_r ()))) W1 = (x, W')"
      by (simp add: validateTransferCurrencies_def Let_def ids_def)
    then show ?thesis
    proof (cases rule: bind_r_cases)
      case (Err e)
      with co1 show ?thesis by (auto simp: on_db_def split: prod.splits)
    next
      case (Ok m W2)
      then obtain s2 where gc: "GetCurrencies ids (db W) = (Inr m, s2)" and W2: "cache W2 = cache W1"
        using r(2) by (auto simp: on_db_def split: prod.splits)
      show ?thesis
        by (rule resolve_both_spec [OF Ok(2) laws _ _ r(3) [OF co] _ r(4) [OF co]])
          (use co1 W2 GetCurrencies_Inr [OF gc] in \<open>auto simp: ids_def\<close>)
    qed
  qed
qed

end

end
