(* ===== verification/Sample.thy ===== *)
theory Sample
  imports Transfer_UC
begin

text \<open>
  A small concrete ledger on which the theorems are exercised: two USD accounts opened with 100 and
  50, an empty cache, a server that answers every call, and a request that moves 30 from the second
  account to the first.
\<close>

definition sample_tables :: tables where
  "sample_tables =
     \<lparr>accounts =
        [1 \<mapsto> \<lparr>acc_ID = 1, acc_Balance = 100, acc_Currency = CURRENCY_USD, acc_LatestPostingID = 1, acc_UpdatedAt = 0\<rparr>,
         2 \<mapsto> \<lparr>acc_ID = 2, acc_Balance = 50, acc_Currency = CURRENCY_USD, acc_LatestPostingID = 2, acc_UpdatedAt = 0\<rparr>],
      transactions =
        [\<lparr>t_ID = 11, t_FromAccountID = 1, t_ToAccountID = 1, t_Currency = CURRENCY_USD, t_Amount = 100,
          t_IdempotencyKey = 21, t_CreatedAt = 0\<rparr>,
         \<lparr>t_ID = 12, t_FromAccountID = 2, t_ToAccountID = 2, t_Currency = CURRENCY_USD, t_Amount = 50,
          t_IdempotencyKey = 22, t_CreatedAt = 0\<rparr>],
      postings =
        [\<lparr>p_ID = 1, p_TransactionID = 11, p_AccountID = 1, p_Amount = 100\<rparr>,
         \<lparr>p_ID = 2, p_TransactionID = 12, p_AccountID = 2, p_Amount = 50\<rparr>],
      worker_cursors = Map.empty\<rparr>"

definition sample_db :: pg where
  "sample_db = \<lparr>committed = sample_tables, postings_id_seq = 2, pg_now = 5, open_txs = Map.empty,
     next_tx = 0, faults = []\<rparr>"

definition sample_cache :: ref_redis where
  "sample_cache = \<lparr>rr_clock = 0, rr_data = Map.empty, rr_script = []\<rparr>"

definition sample_world :: "ref_redis world" where
  "sample_world = \<lparr>db = sample_db, cache = sample_cache, uuid_source = [Some 13, Some 14, Some 15],
     wall = 7, transfer_total = (\<lambda>_. 0), spawned = []\<rparr>"

definition sample_request :: transaction_request where
  "sample_request = \<lparr>req_IdempotencyKey = 23, req_FromAccountID = 2, req_ToAccountID = 1,
     req_Currency = CURRENCY_USD, req_Amount = 30\<rparr>"

definition sample_uc :: transfer_uc where
  "sample_uc = \<lparr>uc_metrics = True, uc_publisher = True\<rparr>"

lemmas sample_defs = sample_world_def sample_db_def sample_tables_def sample_cache_def
  sample_request_def sample_uc_def

lemma sample_schema_ok [simp]: "schema_ok 2 sample_tables"
  by (simp add: sample_tables_def schema_ok_def bigint_def)

lemma sample_books_ok [simp]: "books_ok sample_tables"
  by (simp add: sample_tables_def books_ok_def sum_postings_def max_posting_id_def)

lemma sample_db_ok [simp]: "db_ok sample_db"
  by (simp add: db_ok_def sample_db_def)

lemma sample_handles_ok [simp]: "handles_ok sample_db"
  by (simp add: handles_ok_def sample_db_def)

lemma sample_coherent [simp]: "coherent E (rr_data sample_cache) w"
  by (simp add: coherent_def sample_cache_def)

lemma sample_world_sel [simp]:
  "db sample_world = sample_db" "cache sample_world = sample_cache" "wall sample_world = 7"
  "committed sample_db = sample_tables" "faults sample_db = []" "postings_id_seq sample_db = 2"
  "uuid_source sample_world = [Some 13, Some 14, Some 15]"
  by (simp_all add: sample_world_def sample_db_def)

lemma sample_validateRequest [simp]: "validateRequest sample_request = Inr ()"
  by code_simp

text \<open>The transfer succeeds.\<close>

definition sample_run :: "uuid result \<times> ref_redis world" where
  "sample_run = Transaction sample_uc ref_ext ref_client True sample_request sample_world"

lemma sample_run_fst: "fst sample_run = Inr 13"
  by code_simp

lemma sample_run_eq:
  "Transaction sample_uc ref_ext ref_client True sample_request sample_world = (Inr 13, snd sample_run)"
  using sample_run_fst by (metis prod.collapse sample_run_def)

end
