(* ===== verification/Transfer_Laws.thy ===== *)
theory Transfer_Laws
  imports Sample
begin

text \<open>
  The theorems about \<^verbatim>\<open>TransferUseCase.Transaction\<close>: atomicity under every pattern of driver
  failures, the invariants of the ledger, conservation of money, the verdict on a server that
  answers, the once-only effect of an idempotency key, and the currency check.
\<close>

section \<open>Totals\<close>

definition total_in :: "currency \<Rightarrow> tables \<Rightarrow> int" where
  "total_in c w = (\<Sum>a\<in>UNIV. case accounts w a of None \<Rightarrow> 0
     | Some r \<Rightarrow> if acc_Currency r = c then acc_Balance r else 0)"

lemma total_in_upd_row:
  assumes "accounts w i = Some r" and "acc_Currency (f r) = acc_Currency r"
  shows "total_in c (upd_row i f w) =
    total_in c w + (if acc_Currency r = c then acc_Balance (f r) - acc_Balance r else 0)"
proof -
  let ?g = "\<lambda>w a. case accounts w a of None \<Rightarrow> 0 | Some r \<Rightarrow> if acc_Currency r = c then acc_Balance r else 0"
  have "(\<Sum>a\<in>UNIV - {i}. ?g (upd_row i f w) a) = (\<Sum>a\<in>UNIV - {i}. ?g w a)"
    by (rule sum.cong) (auto simp: accounts_upd_row)
  then show ?thesis
    using assms by (simp add: total_in_def sum.remove [of UNIV i] accounts_upd_row)
qed

lemma total_in_frame [simp]:
  "total_in c (add_transaction t w) = total_in c w" "total_in c (add_postings ps w) = total_in c w"
  by (simp_all add: total_in_def)

lemma transfer_tables_total:
  assumes ne: "t_FromAccountID trx \<noteq> t_ToAccountID trx"
    and rows: "accounts w (t_FromAccountID trx) = Some rf" "accounts w (t_ToAccountID trx) = Some rt"
    and cur: "acc_Currency rf = acc_Currency rt"
  shows "total_in c (transfer_tables trx q now w) = total_in c w"
proof -
  let ?w = "add_postings (number_postings q (transfer_postings trx)) (add_transaction trx w)"
  let ?w' = "upd_row (t_FromAccountID trx) (move_row (- t_Amount trx) (q + 1) now) ?w"
  have "total_in c ?w' = total_in c ?w + (if acc_Currency rf = c then - t_Amount trx else 0)"
    using rows by (subst total_in_upd_row [where r = rf]) simp_all
  moreover have "total_in c (transfer_tables trx q now w) =
      total_in c ?w' + (if acc_Currency rt = c then t_Amount trx else 0)"
    unfolding transfer_tables_def
    using ne rows by (subst total_in_upd_row [where r = rt]) (simp_all add: accounts_upd_row)
  ultimately show ?thesis by (simp add: cur)
qed

section \<open>The cache after a transfer\<close>

lemma transfer_in_tx_cache: "transfer_in_tx tx req W = (x, W') \<Longrightarrow> cache W' = cache W"
  by (auto simp: transfer_in_tx_def uuid_NewV7_def on_db_def Let_def
      split: prod.splits list.splits option.splits elim!: bind_r_cases)

lemma rollback_on_error_cache:
  "rollback_on_error tx (transfer_in_tx tx req) W = (x, W') \<Longrightarrow> cache W' = cache W"
  by (auto simp: rollback_on_error_def on_db_def split: prod.splits sum.splits dest: transfer_in_tx_cache)

lemma Transaction_cache:
  assumes "Transaction uc E R ff req W = (x, W')"
  obtains (invalid) e where "x = Inl e" "cache W' = cache W" "db W' = db W"
  | (checked) y W1 where
      "validateTransferCurrencies E R ff (req_FromAccountID req) (req_ToAccountID req) (req_Currency req) W = (y, W1)"
      "cache W' = cache W1" "\<And>e. y = Inl e \<Longrightarrow> x = Inl e \<and> committed (db W') = committed (db W)"
proof (cases "validateRequest req")
  case (Inl e)
  with assms invalid show ?thesis
    by (auto simp: Transaction_def transaction_main_def split: if_splits)
next
  case (Inr v)
  obtain y W1 where v: "validateTransferCurrencies E R ff (req_FromAccountID req) (req_ToAccountID req) (req_Currency req) W = (y, W1)"
    by fastforce
  obtain W2 where m: "transaction_main uc E R ff req W = (x, W2)" and W': "cache W' = cache W2" "db W' = db W2"
    using assms by (auto simp: Transaction_def split: prod.splits if_splits)
  have "cache W2 = cache W1"
    using m Inr v
    by (auto simp: transaction_main_def on_db_def split: prod.splits if_splits elim!: bind_r_cases
        dest!: rollback_on_error_cache)
  moreover have "x = Inl e \<and> committed (db W2) = committed (db W)" if "y = Inl e" for e
    using m Inr v that validateTransferCurrencies_same [OF v]
    by (auto simp: transaction_main_def same_world_def same_db_def)
  ultimately show ?thesis using checked [OF v] W' by simp
qed

section \<open>The journal\<close>

text \<open>Double entry: the postings of a transfer cancel out; those of an opening balance, a
  transaction from an account to itself, add up to its amount.\<close>

definition journal_ok :: "tables \<Rightarrow> bool" where
  "journal_ok w \<longleftrightarrow> (\<forall>t\<in>set (transactions w).
     sum_postings (\<lambda>p. p_TransactionID p = t_ID t) w =
       (if t_FromAccountID t = t_ToAccountID t then t_Amount t else 0))"

lemma sum_postings_none:
  "\<forall>p\<in>set (postings w). \<not> P p \<Longrightarrow> sum_postings P w = 0"
  by (simp add: sum_postings_def filter_empty_conv)

lemma schema_ok_fresh_posting:
  assumes "schema_ok q w" and "\<forall>t'\<in>set (transactions w). t_ID t' \<noteq> i"
  shows "sum_postings (\<lambda>p. p_TransactionID p = i) w = 0"
proof (intro sum_postings_none ballI notI)
  fix p assume "p \<in> set (postings w)" "p_TransactionID p = i"
  then have "i \<in> t_ID ` set (transactions w)" using assms(1) by (auto simp: schema_ok_def)
  with assms(2) show False by auto
qed

lemma journal_ok_transfer:
  assumes "journal_ok w" and "schema_ok q w" and ok: "transfer_ok trx w" and "bigint (t_Amount trx)"
    and ne: "t_FromAccountID trx \<noteq> t_ToAccountID trx"
  shows "journal_ok (transfer_tables trx q' now w)"
proof -
  have fresh: "\<forall>t'\<in>set (transactions w). t_ID t' \<noteq> t_ID trx"
    using ok by (auto simp: transfer_ok_def)
  have "0 < t_Amount trx" using ok by (simp add: transfer_ok_def)
  then have neg: "wrap64 (- t_Amount trx) = - t_Amount trx"
    using assms(4) by (simp add: bigint_neg)
  note zero = schema_ok_fresh_posting [OF assms(2) fresh]
  show ?thesis
    using assms(1) fresh ne
    by (auto simp: journal_ok_def transfer_tables_def transfer_postings_def zero neg)
qed

section \<open>Ledger, totals and cache after a transfer\<close>

lemma Transaction_ledger:
  assumes run: "Transaction uc E R ff req W = (x, W')" and "handles_ok (db W)"
    and "bigint (req_Amount req)" and ok: "db_ok (db W)" and "journal_ok (committed (db W))"
  shows "db_ok (db W') \<and> journal_ok (committed (db W'))"
proof -
  note f = Transaction_outcome(1) [OF run assms(2), unfolded transfer_frame_def]
  from Transaction_outcome(2) [OF run assms(2)]
  consider "committed (db W') = committed (db W)"
    | u where "validateRequest req = Inr ()" "transfer_done (new_transaction u (wall W) req) (db W) (db W')"
    unfolding transfer_outcome_def by blast
  then show ?thesis
  proof cases
    case 1
    with f ok assms(5) show ?thesis by (auto simp: db_ok_def intro: schema_ok_seq_mono)
  next
    case 2
    with ok assms(3,5) show ?thesis
      by (auto simp: db_ok_def transfer_done_def validateRequest_Inr
          intro!: transfer_tables_next journal_ok_transfer)
  qed
qed

lemma Transaction_totals:
  assumes srv: "redis_server R clock data" and laws: "uuid_laws E"
    and co: "coherent E (data (cache W)) (committed (db W))"
    and run: "Transaction uc E R ff req W = (x, W')" and ho: "handles_ok (db W)"
  shows "total_in c (committed (db W')) = total_in c (committed (db W))
    \<and> coherent E (data (cache W')) (committed (db W'))"
    (is "total_in c ?w' = total_in c ?w \<and> _")
proof -
  show ?thesis
    using run
  proof (cases rule: Transaction_cache)
    case (invalid e)
    with co show ?thesis by simp
  next
    case (checked y W1)
    note v = redis_server.validateTransferCurrencies_spec [OF srv checked(1) laws co]
    from Transaction_outcome(2) [OF run ho]
    consider "?w' = ?w"
      | u where "y = Inr ()" "validateRequest req = Inr ()" "transfer_done (new_transaction u (wall W) req) (db W) (db W')"
      unfolding transfer_outcome_def using checked(3) by (cases y) fastforce+
    then show ?thesis
    proof cases
      case 1
      with v checked(2) show ?thesis by simp
    next
      case 2
      then have w': "?w' = transfer_tables (new_transaction u (wall W) req) (postings_id_seq (db W)) (pg_now (db W)) ?w"
        by (simp add: transfer_done_def)
      obtain rf rt where r: "accounts ?w (req_FromAccountID req) = Some rf" "accounts ?w (req_ToAccountID req) = Some rt"
        "acc_Currency rf = acc_Currency rt"
        using v 2(1) by auto
      have "coherent E (data (cache W')) ?w'"
        using v checked(2) by (rule_tac coherent_mono [of _ _ ?w])
          (auto simp: w' transfer_tables_def accounts_upd_row)
      moreover have "total_in c ?w' = total_in c ?w"
        unfolding w' using 2 r by (intro transfer_tables_total [where rf = rf and rt = rt]) (simp_all add: validateRequest_Inr)
      ultimately show ?thesis by simp
    qed
  qed
qed

section \<open>Theorems\<close>

text \<open>C1. A transfer is atomic whatever the database driver does. Under every pattern of lost
  statements and lost acknowledgements, and for every answer of the cache, \<^verbatim>\<open>Transaction\<close> either
  returns an error and leaves the committed tables as they were and publishes nothing, or applies
  the whole transfer (row, two postings, two balances) once, under an id that \<^verbatim>\<open>uuid.NewV7\<close> gave
  and only after the request passed validation; then it returns that id and starts the
  publication, or a driver error when the acknowledgement of the commit was lost. No database
  transaction stays open.\<close>

theorem Transaction_atomic:
  assumes "Transaction uc E R ff req W = (x, W')" and "handles_ok (db W)"
  shows "open_txs (db W') = open_txs (db W) \<and> handles_ok (db W') \<and>
    ((\<exists>e. x = Inl e) \<and> committed (db W') = committed (db W) \<and> spawned W' = spawned W
     \<or> (\<exists>u trx. Some u \<in> set (uuid_source W) \<and> trx = new_transaction u (wall W) req
          \<and> validateRequest req = Inr () \<and> transfer_ok trx (committed (db W))
          \<and> committed (db W') = transfer_tables trx (postings_id_seq (db W)) (pg_now (db W)) (committed (db W))
          \<and> (x = Inr u \<and> spawned W' = spawned W @ (if uc_publisher uc then [trx] else [])
             \<or> (\<exists>d. x = Inl (Driver d)) \<and> spawned W' = spawned W)))"
  using Transaction_outcome(1,2) [OF assms]
  unfolding transfer_frame_def transfer_outcome_def transfer_done_def by blast

theorem Transaction_atomic_witness:
  "\<exists>trx. t_ID trx = 13 \<and> transfer_ok trx sample_tables
     \<and> committed (db (snd sample_run)) = transfer_tables trx 2 (pg_now sample_db) sample_tables
     \<and> spawned (snd sample_run) = [trx]"
  using Transaction_atomic [OF sample_run_eq] by (auto simp: sample_uc_def sample_world_def)

text \<open>C2. A transfer keeps the ledger sound: the constraints of the schema hold, no balance is
  negative or outside BIGINT, every balance is the sum of the account's postings and
  \<^verbatim>\<open>latest_posting_id\<close> is the newest of them, and the journal is in double entry; this for every
  request with an \<^verbatim>\<open>int64\<close> amount and every pattern of failures.\<close>

theorem Transaction_keeps_ledger:
  assumes run: "Transaction uc E R ff req W = (x, W')" and "handles_ok (db W)"
    and "bigint (req_Amount req)" and ok: "db_ok (db W)" and "journal_ok (committed (db W))"
  shows "db_ok (db W') \<and> journal_ok (committed (db W'))"
  using Transaction_ledger [OF assms] .

theorem Transaction_keeps_ledger_witness:
  "db_ok (db (snd sample_run)) \<and> journal_ok (committed (db (snd sample_run)))"
proof -
  have "bigint (req_Amount sample_request)" by (simp add: sample_request_def bigint_def)
  moreover have "journal_ok sample_tables" by (simp add: journal_ok_def sample_tables_def sum_postings_def)
  ultimately show ?thesis using Transaction_keeps_ledger [OF sample_run_eq] by simp
qed

text \<open>C3. Money is conserved in every currency. Over any Redis server, with a cache that agrees with
  the tables, a call of \<^verbatim>\<open>Transaction\<close> leaves the total of the balances of each currency as it was, on
  success and on every failure, and leaves the cache in agreement with the tables.\<close>

theorem Transaction_conserves:
  assumes srv: "redis_server R clock data" and laws: "uuid_laws E"
    and co: "coherent E (data (cache W)) (committed (db W))"
    and run: "Transaction uc E R ff req W = (x, W')" and ho: "handles_ok (db W)"
  shows "total_in c (committed (db W')) = total_in c (committed (db W))
    \<and> coherent E (data (cache W')) (committed (db W'))"
  using Transaction_totals [OF assms] .

theorem Transaction_conserves_witness:
  "total_in CURRENCY_USD (committed (db (snd sample_run))) = total_in CURRENCY_USD sample_tables
     \<and> coherent ref_ext (rr_data (cache (snd sample_run))) (committed (db (snd sample_run)))"
  using Transaction_conserves [OF ref.redis_server_axioms ref_uuid_laws _ sample_run_eq] by simp

text \<open>What a transfer answers, read off the request, the fresh id and the tables.\<close>

definition currency_verdict :: "uuid \<Rightarrow> uuid \<Rightarrow> currency \<Rightarrow> tables \<Rightarrow> unit result" where
  "currency_verdict f t c w =
     (case (accounts w f, accounts w t) of
        (Some rf, Some rt) \<Rightarrow> if acc_Currency rf = c \<and> acc_Currency rt = c then Inr () else Inl ErrCurrencyMismatch
      | _ \<Rightarrow> Inl ErrAccountNotFound)"

definition expected_result :: "uuid \<Rightarrow> transaction_request \<Rightarrow> tables \<Rightarrow> uuid result" where
  "expected_result u req w =
     (if req_Amount req \<le> 0 then Inl ErrInvalidAmount
      else if req_FromAccountID req = req_ToAccountID req then Inl ErrSameAccountTransfer
      else if req_IdempotencyKey req = 0 then Inl ErrEmptyIdempotencyKey
      else if \<not> (1 \<le> sint (req_Currency req) \<and> sint (req_Currency req) \<le> 4) then Inl ErrInvalidCurrency
      else case (accounts w (req_FromAccountID req), accounts w (req_ToAccountID req)) of
        (Some rf, Some rt) \<Rightarrow>
          if acc_Currency rf \<noteq> req_Currency req \<or> acc_Currency rt \<noteq> req_Currency req then Inl ErrCurrencyMismatch
          else if \<exists>t\<in>set (transactions w). t_ID t = u \<or> t_IdempotencyKey t = req_IdempotencyKey req
            then Inl ErrIdempotencyConflict
          else
            let poor = acc_Balance rf < req_Amount req; over = 2 ^ 63 \<le> acc_Balance rt + req_Amount req;
                over_err = Wrap ''db: failed to credit balance'' (Pg Numeric_Out_Of_Range)
            in if poor \<and> (over \<longrightarrow> req_FromAccountID req < req_ToAccountID req) then Inl ErrInsufficientFunds
               else if over then Inl over_err
               else Inr u
      | _ \<Rightarrow> Inl ErrAccountNotFound)"

lemma expected_result_eq:
  assumes "schema_ok q w"
  shows "expected_result u req w = (case validateRequest req of Inl e \<Rightarrow> Inl e | Inr _ \<Rightarrow>
     case currency_verdict (req_FromAccountID req) (req_ToAccountID req) (req_Currency req) w of Inl e \<Rightarrow> Inl e
     | Inr _ \<Rightarrow> map_sum id (\<lambda>_. u) (transfer_verdict (new_transaction u now req) w))"
proof (cases "validateRequest req")
  case (Inl e)
  then show ?thesis
    by (auto simp: expected_result_def validateRequest_def uuid_Nil_def IsValid_range split: if_splits)
next
  case (Inr x)
  then have ok: "0 < req_Amount req" "req_FromAccountID req \<noteq> req_ToAccountID req" "req_IdempotencyKey req \<noteq> 0"
    "1 \<le> sint (req_Currency req) \<and> sint (req_Currency req) \<le> 4"
    by (auto simp: validateRequest_def uuid_Nil_def IsValid_range split: if_splits)
  have big: "(\<not> bigint (acc_Balance r + req_Amount req)) = (2 ^ 63 \<le> acc_Balance r + req_Amount req)"
    if "accounts w a = Some r" for a r
    using schema_ok_account [OF assms that] ok(1) by (auto simp: bigint_def)
  show ?thesis
    using Inr ok big
    by (auto simp: expected_result_def currency_verdict_def transfer_verdict_def new_transaction_def Let_def
        split: option.splits)
qed

text \<open>On a server that answers every call the currency check is a function of the tables: what the cache
  holds and whether it answers decides only where the two currencies are read.\<close>

context redis_server
begin

lemma resolve_currency_quiet:
  assumes "c = CURRENCY_UNSPECIFIED \<Longrightarrow> m a = map_option acc_Currency (accounts w a)"
    and "c \<noteq> CURRENCY_UNSPECIFIED \<Longrightarrow> \<exists>r. accounts w a = Some r \<and> acc_Currency r = c"
  shows "fst (resolve_currency E R m a c W) =
    (case accounts w a of None \<Rightarrow> Inl ErrAccountNotFound | Some r \<Rightarrow> Inr (acc_Currency r))"
  using assms by (cases "c = CURRENCY_UNSPECIFIED") (auto simp: resolve_currency_def split: option.splits)

lemma resolve_both_quiet:
  assumes f: "cf = CURRENCY_UNSPECIFIED \<Longrightarrow> m f = map_option acc_Currency (accounts w f)"
      "cf \<noteq> CURRENCY_UNSPECIFIED \<Longrightarrow> \<exists>r. accounts w f = Some r \<and> acc_Currency r = cf"
    and t: "ct = CURRENCY_UNSPECIFIED \<Longrightarrow> m t = map_option acc_Currency (accounts w t)"
      "ct \<noteq> CURRENCY_UNSPECIFIED \<Longrightarrow> \<exists>r. accounts w t = Some r \<and> acc_Currency r = ct"
  shows "fst (bind_r (resolve_currency E R m f cf) (\<lambda>cf'. bind_r (resolve_currency E R m t ct) (\<lambda>ct'.
        if cf' \<noteq> c \<or> ct' \<noteq> c then throw ErrCurrencyMismatch else return_r ())) W) = currency_verdict f t c w"
proof -
  obtain x W1 where 1: "resolve_currency E R m f cf W = (x, W1)" by fastforce
  obtain y W2 where 2: "resolve_currency E R m t ct W1 = (y, W2)" by fastforce
  show ?thesis
    using resolve_currency_quiet [of cf m f w E W, OF f] resolve_currency_quiet [of ct m t w E W1, OF t] 1 2
    by (auto simp: bind_r_def throw_def return_r_def currency_verdict_def split: option.splits sum.splits)
qed

lemma validateTransferCurrencies_quiet:
  assumes fl: "faults (db W) = []" and co: "coherent E (data (cache W)) (committed (db W))"
  shows "fst (validateTransferCurrencies E R ff f t c W) = currency_verdict f t c (committed (db W))"
proof -
  obtain cf ct W1 where rc: "read_currencies E R ff f t W = ((cf, ct), W1)" by (metis surj_pair)
  note r = read_currencies_spec [OF rc]
  define ids where "ids = (if cf = CURRENCY_UNSPECIFIED then [f] else []) @ (if ct = CURRENCY_UNSPECIFIED then [t] else [])"
  show ?thesis
  proof (cases "ids = []")
    case True
    then have "cf \<noteq> CURRENCY_UNSPECIFIED" "ct \<noteq> CURRENCY_UNSPECIFIED" by (auto simp: ids_def split: if_splits)
    with rc r(3,4) [OF co] show ?thesis
      by (auto simp: validateTransferCurrencies_def Let_def currency_verdict_def throw_def return_r_def)
  next
    case False
    obtain m where gc: "GetCurrencies ids (db W) = (Inr m, db W)" using GetCurrencies_quiet [OF fl] by blast
    let ?check = "\<lambda>m. bind_r (resolve_currency E R m f cf) (\<lambda>cf'. bind_r (resolve_currency E R m t ct) (\<lambda>ct'.
        if cf' \<noteq> c \<or> ct' \<noteq> c then throw ErrCurrencyMismatch else return_r ()))"
    have "validateTransferCurrencies E R ff f t c W = bind_r (on_db (GetCurrencies ids)) ?check W1"
      using rc False by (simp add: validateTransferCurrencies_def Let_def ids_def)
    also have "\<dots> = ?check m (W1\<lparr>db := db W\<rparr>)"
      using gc r(2) by (simp add: on_db_def bind_r_def [of "on_db _"])
    finally have "fst (validateTransferCurrencies E R ff f t c W) = fst (?check m (W1\<lparr>db := db W\<rparr>))" by simp
    also have "\<dots> = currency_verdict f t c (committed (db W))"
      by (rule resolve_both_quiet [OF _ r(3) [OF co] _ r(4) [OF co]])
        (use GetCurrencies_Inr [OF gc] in \<open>auto simp: ids_def\<close>)
    finally show ?thesis .
  qed
qed

end

text \<open>C4. The verdict on a server that answers every call, over any Redis server whose entries agree with
  the tables, is this function of the request, the fresh id and the tables, on every branch: an
  invalid request gets the error of the first failed check; then a missing account
  \<^verbatim>\<open>ErrAccountNotFound\<close>; an account of another currency than the request's, on either side,
  \<^verbatim>\<open>ErrCurrencyMismatch\<close>; a used transaction id or idempotency key \<^verbatim>\<open>ErrIdempotencyConflict\<close>; a
  balance below the amount \<^verbatim>\<open>ErrInsufficientFunds\<close> and a credit beyond BIGINT the wrapped database
  error, the one of the smaller account id first when both hold; otherwise the transfer goes through
  and the fresh id is returned. Which goroutine asks the cache first, what the cache holds and
  whether it answers make no difference.\<close>

theorem Transaction_verdict:
  assumes srv: "redis_server R clock data" and co: "coherent E (data (cache W)) (committed (db W))"
    and "faults (db W) = []" and "db_ok (db W)" and "uuid_source W = Some u # us"
  shows "fst (Transaction uc E R ff req W) = expected_result u req (committed (db W))"
proof -
  let ?vc = "validateTransferCurrencies E R ff (req_FromAccountID req) (req_ToAccountID req) (req_Currency req)"
  have "fst (Transaction uc E R ff req W) = fst (transaction_main uc E R ff req W)"
    by (simp add: Transaction_def split: prod.splits)
  moreover obtain y W1 where v: "?vc W = (y, W1)" by fastforce
  moreover have "y = currency_verdict (req_FromAccountID req) (req_ToAccountID req) (req_Currency req) (committed (db W))"
    using redis_server.validateTransferCurrencies_quiet [OF srv assms(3) co,
        of ff "req_FromAccountID req" "req_ToAccountID req" "req_Currency req"] v by simp
  moreover have sch: "schema_ok (postings_id_seq (db W)) (committed (db W))" using assms(4) by (simp add: db_ok_def)
  ultimately show ?thesis
    using transaction_main_quiet [OF assms(3) sch _ _ assms(5), of req E R ff W1 uc]
    unfolding expected_result_eq [OF sch, of u req "wall W"]
    by (cases "validateRequest req"; cases "fst (?vc W)") (auto simp: transaction_main_def fst_bind_r)
qed

theorem Transaction_verdict_witness:
  "fst (Transaction sample_uc ref_ext ref_client False (sample_request\<lparr>req_Amount := 60\<rparr>) sample_world) = Inl ErrInsufficientFunds
   \<and> fst (Transaction sample_uc ref_ext ref_client False (sample_request\<lparr>req_IdempotencyKey := 21\<rparr>) sample_world) = Inl ErrIdempotencyConflict
   \<and> fst (Transaction sample_uc ref_ext ref_client True (sample_request\<lparr>req_Currency := CURRENCY_EUR\<rparr>) sample_world) = Inl ErrCurrencyMismatch
   \<and> fst (Transaction sample_uc ref_ext ref_client True sample_request sample_world) = Inr 13"
proof -
  note v = Transaction_verdict [OF ref.redis_server_axioms _ _ _ , of ref_ext sample_world 13 "[Some 14, Some 15]" sample_uc]
  have e: "expected_result 13 (sample_request\<lparr>req_Amount := 60\<rparr>) sample_tables = Inl ErrInsufficientFunds"
    "expected_result 13 (sample_request\<lparr>req_IdempotencyKey := 21\<rparr>) sample_tables = Inl ErrIdempotencyConflict"
    "expected_result 13 (sample_request\<lparr>req_Currency := CURRENCY_EUR\<rparr>) sample_tables = Inl ErrCurrencyMismatch"
    "expected_result 13 sample_request sample_tables = Inr 13"
    by code_simp+
  show ?thesis
    by (simp add: v e)
qed

text \<open>An idempotency key is applied at most once: when the tables hold a transaction of the
  request's key, \<^verbatim>\<open>Transaction\<close> returns an error and changes no table and publishes nothing, whatever the
  cache and the driver do.\<close>

theorem Transaction_once:
  assumes run: "Transaction uc E R ff req W = (x, W')" and ho: "handles_ok (db W)"
    and used: "t \<in> set (transactions (committed (db W)))" "t_IdempotencyKey t = req_IdempotencyKey req"
  shows "(\<exists>e. x = Inl e) \<and> committed (db W') = committed (db W) \<and> spawned W' = spawned W"
proof -
  have "\<not> transfer_done (new_transaction u (wall W) req) (db W) (db W')" for u
    using used by (auto simp: transfer_done_def transfer_ok_def)
  then show ?thesis
    using Transaction_outcome(2) [OF run ho] unfolding transfer_outcome_def by blast
qed

theorem Transaction_once_witness:
  "committed (db (snd (Transaction sample_uc ref_ext ref_client True (sample_request\<lparr>req_IdempotencyKey := 21\<rparr>) sample_world)))
     = sample_tables"
proof -
  let ?run = "Transaction sample_uc ref_ext ref_client True (sample_request\<lparr>req_IdempotencyKey := 21\<rparr>) sample_world"
  have "?run = (fst ?run, snd ?run)" by simp
  from Transaction_once [OF this, of "hd (transactions sample_tables)"] show ?thesis
    by (simp add: sample_tables_def)
qed

text \<open>C18. The effect of a successful transfer: the source loses the amount and the destination gains
  it, each with its own posting as the newest; every other account is as before; the transaction
  list grows by the row of the returned id, carrying the request's fields; the postings grow by two
  entries of opposite amounts that name this transaction.\<close>

theorem Transaction_effect:
  assumes run: "Transaction uc E R ff req W = (Inr u, W')" and ho: "handles_ok (db W)" and big: "bigint (req_Amount req)"
  defines "w \<equiv> committed (db W)" and "w' \<equiv> committed (db W')" and "a \<equiv> req_Amount req"
    and "f \<equiv> req_FromAccountID req" and "g \<equiv> req_ToAccountID req" and "q \<equiv> postings_id_seq (db W)"
  shows "(\<exists>rf rg. accounts w f = Some rf \<and> accounts w g = Some rg \<and> a \<le> acc_Balance rf
      \<and> accounts w' = (accounts w)
          (f \<mapsto> rf\<lparr>acc_Balance := acc_Balance rf - a,
                 acc_LatestPostingID := max (acc_LatestPostingID rf) (q + 1), acc_UpdatedAt := pg_now (db W)\<rparr>,
           g \<mapsto> rg\<lparr>acc_Balance := acc_Balance rg + a,
                 acc_LatestPostingID := max (acc_LatestPostingID rg) (q + 2), acc_UpdatedAt := pg_now (db W)\<rparr>))
    \<and> transactions w' = transactions w @
      [\<lparr>t_ID = u, t_FromAccountID = f, t_ToAccountID = g, t_Currency = req_Currency req, t_Amount = a,
        t_IdempotencyKey = req_IdempotencyKey req, t_CreatedAt = 1000 * (wall W div 1000)\<rparr>]
    \<and> postings w' = postings w @
      [\<lparr>p_ID = q + 1, p_TransactionID = u, p_AccountID = f, p_Amount = - a\<rparr>,
       \<lparr>p_ID = q + 2, p_TransactionID = u, p_AccountID = g, p_Amount = a\<rparr>]
    \<and> worker_cursors w' = worker_cursors w"
proof (intro conjI)
  have v: "validateRequest req = Inr ()" and d: "transfer_done (new_transaction u (wall W) req) (db W) (db W')"
    using Transaction_outcome(2) [OF run ho] by (auto simp: transfer_outcome_def)
  then have w': "w' = transfer_tables (new_transaction u (wall W) req) q (pg_now (db W)) w"
    and pos: "0 < a" and ne: "f \<noteq> g"
    by (simp_all add: transfer_done_def w_def w'_def q_def validateRequest_Inr a_def f_def g_def)
  obtain rf rg where r: "accounts w f = Some rf" "accounts w g = Some rg" "a \<le> acc_Balance rf"
    using d by (auto simp: transfer_done_def transfer_ok_def w_def f_def g_def a_def)
  then show "\<exists>rf rg. accounts w f = Some rf \<and> accounts w g = Some rg \<and> a \<le> acc_Balance rf
      \<and> accounts w' = (accounts w)
          (f \<mapsto> rf\<lparr>acc_Balance := acc_Balance rf - a,
                 acc_LatestPostingID := max (acc_LatestPostingID rf) (q + 1), acc_UpdatedAt := pg_now (db W)\<rparr>,
           g \<mapsto> rg\<lparr>acc_Balance := acc_Balance rg + a,
                 acc_LatestPostingID := max (acc_LatestPostingID rg) (q + 2), acc_UpdatedAt := pg_now (db W)\<rparr>)"
    using ne by (simp add: w' transfer_tables_def accounts_upd_row move_row_def a_def f_def g_def)
  have "wrap64 (- a) = - a" using big pos by (simp add: a_def bigint_neg)
  then show "postings w' = postings w @
      [\<lparr>p_ID = q + 1, p_TransactionID = u, p_AccountID = f, p_Amount = - a\<rparr>,
       \<lparr>p_ID = q + 2, p_TransactionID = u, p_AccountID = g, p_Amount = a\<rparr>]"
    by (simp add: w' transfer_tables_def transfer_postings_def a_def f_def g_def)
  show "transactions w' = transactions w @
      [\<lparr>t_ID = u, t_FromAccountID = f, t_ToAccountID = g, t_Currency = req_Currency req, t_Amount = a,
        t_IdempotencyKey = req_IdempotencyKey req, t_CreatedAt = 1000 * (wall W div 1000)\<rparr>]"
    by (simp add: w' transfer_tables_def stored_transaction_def new_transaction_def a_def f_def g_def)
  show "worker_cursors w' = worker_cursors w"
    by (simp add: w' transfer_tables_def)
qed

theorem Transaction_effect_witness:
  "map_option acc_Balance (accounts (committed (db (snd sample_run))) 2) = Some 20
   \<and> map_option acc_Balance (accounts (committed (db (snd sample_run))) 1) = Some 130"
proof -
  have "bigint (req_Amount sample_request)" by (simp add: sample_request_def bigint_def)
  from Transaction_effect [OF sample_run_eq _ this] show ?thesis
    by (auto simp: sample_request_def sample_tables_def)
qed

text \<open>Every call is counted once under the label of its result: \<^verbatim>\<open>success\<close> exactly for a returned id,
  \<^verbatim>\<open>validation_error\<close> for the four refusals of \<^verbatim>\<open>validateRequest\<close>, and \<^verbatim>\<open>system_error\<close> for an error
  that wraps no sentinel of the domain.\<close>

theorem Transaction_metrics:
  assumes "Transaction uc E R ff req W = (x, W')" and "handles_ok (db W)" and "uc_metrics uc"
  shows "transfer_total W' = (transfer_total W)(transfer_status x := Suc (transfer_total W (transfer_status x)))
    \<and> (transfer_status x = ''success'' \<longleftrightarrow> (\<exists>u. x = Inr u))
    \<and> (validateRequest req \<noteq> Inr () \<longrightarrow> transfer_status x = ''validation_error'')
    \<and> (\<forall>e. x = Inl e \<and> system_error e \<longrightarrow> transfer_status x = ''system_error'')"
proof (intro conjI impI allI)
  show "transfer_total W' = (transfer_total W)(transfer_status x := Suc (transfer_total W (transfer_status x)))"
    using Transaction_outcome(3) [OF assms(1,2)] assms(3) by simp
  show "transfer_status x = ''success'' \<longleftrightarrow> (\<exists>u. x = Inr u)"
    by (auto simp: transfer_status_def split: sum.splits if_splits)
  show "transfer_status x = ''validation_error''" if bad: "validateRequest req \<noteq> Inr ()"
  proof -
    obtain e where e: "validateRequest req = Inl e" using bad by (cases "validateRequest req") auto
    then have "x = Inl e" using assms(1) by (simp add: Transaction_def transaction_main_def)
    then show ?thesis using e by (auto simp: validateRequest_def transfer_status_def split: if_splits)
  qed
  show "transfer_status x = ''system_error''" if "x = Inl e \<and> system_error e" for e
    using that system_error_Is [of e] by (simp add: transfer_status_def)
qed

theorem Transaction_metrics_witness:
  "transfer_total (snd sample_run) ''success'' = 1 \<and> transfer_total (snd sample_run) ''system_error'' = 0"
proof -
  have "uc_metrics sample_uc" by (simp add: sample_uc_def)
  from Transaction_metrics [OF sample_run_eq _ this] show ?thesis
    by (simp add: sample_world_def transfer_status_def)
qed

end
