(* ===== verification/Account_UC.thy ===== *)
theory Account_UC
  imports Transfer_Laws
begin

text \<open>
  \<^verbatim>\<open>AccountUseCase\<close> of \<^verbatim>\<open>internal/usecase/account.go\<close>: an account is inserted with a zero balance
  and its opening funds are applied through a transaction, a posting and a credit in the same
  database transaction; then its currency is cached. The locale \<open>tx_body\<close> states once what a unit of
  work between \<^verbatim>\<open>BeginTx\<close> and \<^verbatim>\<open>CommitTx\<close> promises and what follows for the database.
\<close>

section \<open>The use case\<close>

definition new_account :: "uuid \<Rightarrow> currency \<Rightarrow> time \<Rightarrow> account" where
  "new_account i currency now =
     \<lparr>acc_ID = i, acc_Balance = 0, acc_Currency = currency, acc_LatestPostingID = 0, acc_UpdatedAt = now\<rparr>"

definition opening_transaction :: "uuid \<Rightarrow> uuid \<Rightarrow> uuid \<Rightarrow> int \<Rightarrow> currency \<Rightarrow> time \<Rightarrow> transaction" where
  "opening_transaction trxID openingKey i balance currency now =
     \<lparr>t_ID = trxID, t_FromAccountID = i, t_ToAccountID = i, t_Currency = currency, t_Amount = balance,
      t_IdempotencyKey = openingKey, t_CreatedAt = now\<rparr>"

definition opening_posting :: "uuid \<Rightarrow> uuid \<Rightarrow> int \<Rightarrow> posting" where
  "opening_posting trxID i balance = \<lparr>p_ID = 0, p_TransactionID = trxID, p_AccountID = i, p_Amount = balance\<rparr>"

text \<open>The statements of the \<^verbatim>\<open>if balance > 0\<close> block.\<close>

definition opening_work :: "ext \<Rightarrow> custom_tx \<Rightarrow> uuid \<Rightarrow> transaction \<Rightarrow> unit pgm" where
  "opening_work E tx i trx =
     bind_r (CreateTransaction tx trx) (\<lambda>_.
     bind_r (CreatePostings tx [opening_posting (t_ID trx) i (t_Amount trx)]) (\<lambda>postingIDs.
       case postingIDs i of
         None \<Rightarrow> throw (Errorf (''create account: missing posting id for '' @ uuid_String E i))
       | Some postingID \<Rightarrow> CreditBalance tx i (t_Amount trx) postingID))"

definition open_balance :: "ext \<Rightarrow> custom_tx \<Rightarrow> uuid \<Rightarrow> currency \<Rightarrow> int \<Rightarrow> 'r world \<Rightarrow> unit result \<times> 'r world" where
  "open_balance E tx i currency balance =
     (if balance > 0 then
        bind_r uuid_NewV7 (\<lambda>openingKey.
        bind_r uuid_NewV7 (\<lambda>trxID W.
          on_db (opening_work E tx i (opening_transaction trxID openingKey i balance currency (wall W))) W))
      else return_r ())"

definition create_work :: "ext \<Rightarrow> uuid \<Rightarrow> currency \<Rightarrow> int \<Rightarrow> time \<Rightarrow> custom_tx \<Rightarrow> 'r world \<Rightarrow> unit result \<times> 'r world" where
  "create_work E i currency balance now tx =
     bind_r (on_db (Postgres.CreateAccount tx (new_account i currency now))) (\<lambda>_.
       open_balance E tx i currency balance)"

definition in_tx :: "(custom_tx \<Rightarrow> 'r world \<Rightarrow> unit result \<times> 'r world) \<Rightarrow> 'r world \<Rightarrow> unit result \<times> 'r world" where
  "in_tx work =
     bind_r (on_db BeginTx) (\<lambda>tx. rollback_on_error tx (bind_r (work tx) (\<lambda>_. on_db (CommitTx tx))))"

text \<open>\<^verbatim>\<open>rand.Intn(100000000)\<close> is the argument \<open>rnd\<close> reduced to its range.\<close>

definition uc_CreateAccount :: "ext \<Rightarrow> 'r redis \<Rightarrow> nat \<Rightarrow> currency \<Rightarrow> 'r world \<Rightarrow> uuid result \<times> 'r world" where
  "uc_CreateAccount E R rnd currency =
     (if currency = CURRENCY_UNSPECIFIED then throw ErrInvalidCurrency
      else bind_r uuid_NewV7 (\<lambda>i W.
        let balance = int (rnd mod 100000000)
        in bind_r (in_tx (create_work E i currency balance (wall W))) (\<lambda>_ W'.
             (Inr i, snd (on_cache (SetAccountCurrency E R i currency currencyTTL) W'))) W))"

definition uc_GetBalance :: "uuid \<Rightarrow> 'r world \<Rightarrow> account result \<times> 'r world" where
  "uc_GetBalance i = on_db (GetByID i)"

section \<open>A unit of work in a transaction\<close>

locale tx_body =
  fixes work :: "custom_tx \<Rightarrow> 'r world \<Rightarrow> unit result \<times> 'r world"
    and goal :: "int \<Rightarrow> time \<Rightarrow> tables \<Rightarrow> tables \<Rightarrow> int \<Rightarrow> bool"
  assumes frame: "work (Pg_Tx n) W = (x, W') \<Longrightarrow> tx_frame n (db W) (db W') \<and> process_same W W'"
    and reach: "work (Pg_Tx n) W = (Inr (), W') \<Longrightarrow> tx_view n (db W) = Some w \<Longrightarrow>
      \<exists>w'. tx_view n (db W') = Some w' \<and> goal (postings_id_seq (db W)) (pg_now (db W)) w w' (postings_id_seq (db W'))"
begin

text \<open>The work is committed as a whole or leaves no trace, and its transaction is closed.\<close>

lemma closing:
  assumes view: "tx_view n (db W) = Some w"
    and run: "rollback_on_error (Pg_Tx n) (bind_r (work (Pg_Tx n)) (\<lambda>_. on_db (CommitTx (Pg_Tx n)))) W = (x, W')"
  shows "open_txs (db W') = (open_txs (db W))(n := None) \<and> next_tx (db W') = next_tx (db W)
      \<and> pg_now (db W') = pg_now (db W) \<and> postings_id_seq (db W) \<le> postings_id_seq (db W')
      \<and> (faults (db W) = [] \<longrightarrow> faults (db W') = []) \<and> process_same W W'
      \<and> ((\<exists>e. x = Inl e) \<and> committed (db W') = committed (db W)
         \<or> goal (postings_id_seq (db W)) (pg_now (db W)) w (committed (db W')) (postings_id_seq (db W'))
           \<and> (x = Inr () \<or> (\<exists>d. x = Inl (Driver d))))"
proof -
  obtain y V where m: "bind_r (work (Pg_Tx n)) (\<lambda>_. on_db (CommitTx (Pg_Tx n))) W = (y, V)" by fastforce
  obtain z v where rb: "tx_Rollback n (db V) = (z, v)" by fastforce
  note rbf = tx_Rollback_frame [OF rb]
  have xy: "x = y" "W' = (case y of Inl e \<Rightarrow> V\<lparr>db := v\<rparr> | Inr _ \<Rightarrow> V)"
    using run m rb by (auto simp: rollback_on_error_def RollbackTx_def on_db_def split: sum.splits)
  show ?thesis
    using m
  proof (cases rule: bind_r_cases)
    case (Err e)
    with frame [OF Err(1)] rbf show ?thesis
      by (auto simp: xy tx_frame_def closed_frame_def process_same_def fun_eq_iff)
  next
    case (Ok a U)
    note f = frame [OF Ok(1)]
    obtain w' where w': "tx_view n (db U) = Some w'"
      "goal (postings_id_seq (db W)) (pg_now (db W)) w w' (postings_id_seq (db U))"
      using reach [OF _ view] Ok(1) by auto
    have cm: "tx_Commit n (db U) = (y, db V)" and V: "V = U\<lparr>db := db V\<rparr>"
      using Ok(2) by (auto simp: CommitTx_def on_db_def split: prod.splits)
    have "process_same U V" by (subst V) (simp add: process_same_def)
    then show ?thesis
      using tx_Commit_view [OF cm w'(1)] f w'(2) rbf
      by (cases y) (auto simp: xy tx_frame_def closed_frame_def process_same_def fun_eq_iff)
  qed
qed

lemma in_tx_outcome:
  assumes run: "in_tx work W = (x, W')" and ho: "handles_ok (db W)"
  shows "transfer_frame (db W) (db W') \<and> process_same W W' \<and>
    ((\<exists>e. x = Inl e) \<and> committed (db W') = committed (db W)
     \<or> goal (postings_id_seq (db W)) (pg_now (db W)) (committed (db W)) (committed (db W')) (postings_id_seq (db W'))
       \<and> (x = Inr () \<or> (\<exists>d. x = Inl (Driver d))))"
  using run unfolding in_tx_def
proof (cases rule: bind_r_cases)
  case (Err e)
  then have b: "BeginTx (db W) = (Inl e, db W')" and W': "W' = W\<lparr>db := db W'\<rparr>"
    by (auto simp: on_db_def split: prod.splits)
  have "process_same W W'" by (subst W') (simp add: process_same_def)
  with Err(2) ho BeginTx_Inl_same [OF b] show ?thesis
    by (auto simp: same_db_def transfer_frame_def handles_ok_def)
next
  case (Ok tx W1)
  then have b: "BeginTx (db W) = (Inr tx, db W1)" and W1: "W1 = W\<lparr>db := db W1\<rparr>"
    by (auto simp: on_db_def split: prod.splits)
  have s: "process_same W W1" by (subst W1) (simp add: process_same_def)
  note B = BeginTx_Inr [OF b]
  note c = closing [OF B(2) Ok(2) [unfolded B(1)], unfolded B(3-7)]
  have "transfer_frame (db W) (db W')"
    using c B(8) ho handles_ok_next [OF ho] by (auto simp: transfer_frame_def handles_ok_def)
  then show ?thesis using c s by (auto simp: process_same_def)
qed

end

section \<open>The effect of an opening on the tables\<close>

definition opening_entry :: "transaction \<Rightarrow> int \<Rightarrow> posting" where
  "opening_entry trx i = (opening_posting (t_ID trx) (t_ToAccountID trx) (t_Amount trx))\<lparr>p_ID := i\<rparr>"

definition opening_tables :: "uuid \<Rightarrow> currency \<Rightarrow> transaction \<Rightarrow> int \<Rightarrow> time \<Rightarrow> tables \<Rightarrow> tables" where
  "opening_tables i currency trx q now w =
     post_entry (opening_entry trx (q + 1)) now (add_transaction trx (add_account (new_account i currency now) w))"

definition opened :: "uuid \<Rightarrow> currency \<Rightarrow> int \<Rightarrow> int \<Rightarrow> time \<Rightarrow> tables \<Rightarrow> tables \<Rightarrow> int \<Rightarrow> bool" where
  "opened i currency balance q now w w' q' \<longleftrightarrow> accounts w i = None \<and>
     (if 0 < balance then
        (\<exists>trx. t_FromAccountID trx = i \<and> t_ToAccountID trx = i \<and> t_Amount trx = balance \<and> t_Currency trx = currency
           \<and> (\<forall>t'\<in>set (transactions w). t_ID t' \<noteq> t_ID trx \<and> t_IdempotencyKey t' \<noteq> t_IdempotencyKey trx)
           \<and> w' = opening_tables i currency trx q now w \<and> q' = q + 1)
      else w' = add_account (new_account i currency now) w \<and> q' = q)"

lemma on_db_D: "on_db m W = (x, W') \<Longrightarrow> m (db W) = (x, db W') \<and> process_same W W'"
  by (auto simp: on_db_def process_same_def split: prod.splits)

lemma opening_work_frame:
  assumes "opening_work E (Pg_Tx n) i trx s = (r, t)"
  shows "tx_frame n s t"
  using assms unfolding opening_work_def
  by (elim bind_r_cases)
    (auto split: option.splits dest!: CreateTransaction_frame CreatePostings_frame CreditBalance_frame
      intro: tx_frame_trans [THEN tx_frame_trans] tx_frame_trans)

lemma opening_work_Inr:
  assumes run: "opening_work E (Pg_Tx n) (t_ToAccountID trx) trx s = (Inr x, t)" and view: "tx_view n s = Some w"
  shows "tx_view n t = Some (post_entry (opening_entry trx (postings_id_seq s + 1)) (pg_now s) (add_transaction trx w))"
    and "\<forall>t'\<in>set (transactions w). t_ID t' \<noteq> t_ID trx \<and> t_IdempotencyKey t' \<noteq> t_IdempotencyKey trx"
    and "postings_id_seq t = postings_id_seq s + 1"
proof -
  let ?p = "opening_posting (t_ID trx) (t_ToAccountID trx) (t_Amount trx)"
  obtain s1 s2 ids where
    1: "CreateTransaction (Pg_Tx n) trx s = (Inr (), s1)" and
    2: "CreatePostings (Pg_Tx n) [?p] s1 = (Inr ids, s2)" and
    3: "(case ids (t_ToAccountID trx) of None \<Rightarrow> throw (Errorf (''create account: missing posting id for '' @ uuid_String E (t_ToAccountID trx)))
       | Some p \<Rightarrow> CreditBalance (Pg_Tx n) (t_ToAccountID trx) (t_Amount trx) p) s2 = (Inr x, t)"
    using run unfolding opening_work_def by (auto elim!: bind_r_cases)
  note ct = CreateTransaction_Inr [OF 1 view]
  have len: "length [?p] = 1 \<or> length [?p] = 2" by simp
  note cp = CreatePostings_Inr [OF 2 ct(1) len]
  have "ids (t_ToAccountID trx) = Some (postings_id_seq s + 1)"
    using cp(2) ct(6) by (simp add: created_ids_def opening_posting_def)
  with 3 have 4: "CreditBalance (Pg_Tx n) (t_ToAccountID trx) (t_Amount trx) (postings_id_seq s + 1) s2 = (Inr x, t)"
    by simp
  have now: "pg_now s2 = pg_now s"
    using CreateTransaction_frame [OF 1] CreatePostings_frame [OF 2] by (simp add: tx_frame_def)
  note cb = CreditBalance_Inr [OF 4 cp(1)]
  show "tx_view n t = Some (post_entry (opening_entry trx (postings_id_seq s + 1)) (pg_now s) (add_transaction trx w))"
    using cb(1) ct(6) by (simp add: now post_entry_def opening_entry_def opening_posting_def)
  show "\<forall>t'\<in>set (transactions w). t_ID t' \<noteq> t_ID trx \<and> t_IdempotencyKey t' \<noteq> t_IdempotencyKey trx"
    using ct(3) by blast
  show "postings_id_seq t = postings_id_seq s + 1"
    using cb(3) cp(3) ct(6) by simp
qed

lemma uuid_NewV7_same: "uuid_NewV7 W = (x, W') \<Longrightarrow> db W' = db W \<and> process_same W W'"
  using uuid_NewV7_spec(1,2) by blast

lemma open_balance_frame:
  assumes "open_balance E (Pg_Tx n) i c b W = (x, W')"
  shows "tx_frame n (db W) (db W') \<and> process_same W W'"
  using assms
  by (fastforce simp: open_balance_def on_db_def process_same_def split: if_splits prod.splits
      elim!: bind_r_cases dest!: uuid_NewV7_same opening_work_frame)

interpretation acct: tx_body "create_work E i c b now" "opened i c b"
proof (unfold_locales, goal_cases)
  case (1 n W x W')
  then show ?case
    unfolding create_work_def
  proof (cases rule: bind_r_cases)
    case (Err e)
    then show ?thesis
      by (auto simp: on_db_def process_same_def split: prod.splits dest!: CreateAccount_frame)
  next
    case (Ok a U)
    have "tx_frame n (db W) (db U) \<and> process_same W U"
      using Ok(1) by (auto simp: on_db_def process_same_def split: prod.splits dest!: CreateAccount_frame)
    with open_balance_frame [OF Ok(2)] show ?thesis
      by (auto simp: process_same_def intro: tx_frame_trans)
  qed
next
  case (2 n W W' w)
  from 2(1) obtain U where a: "on_db (Postgres.CreateAccount (Pg_Tx n) (new_account i c now)) W = (Inr (), U)"
    and ob: "open_balance E (Pg_Tx n) i c b U = (Inr (), W')"
    by (auto simp: create_work_def elim!: bind_r_cases)
  have ca: "Postgres.CreateAccount (Pg_Tx n) (new_account i c now) (db W) = (Inr (), db U)"
    using on_db_D [OF a] by simp
  note ca' = CreateAccount_Inr [OF ca 2(2)]
  let ?w = "add_account (new_account i c (pg_now (db W))) w"
  have view: "tx_view n (db U) = Some ?w" and fresh: "accounts w i = None"
    and q: "postings_id_seq (db U) = postings_id_seq (db W)" and nw: "pg_now (db U) = pg_now (db W)"
    using ca' CreateAccount_frame [OF ca] by (simp_all add: new_account_def tx_frame_def)
  show ?case
  proof (cases "0 < b")
    case True
    have "open_balance E (Pg_Tx n) i c b U = bind_r uuid_NewV7 (\<lambda>k. bind_r uuid_NewV7 (\<lambda>u V.
        on_db (opening_work E (Pg_Tx n) i (opening_transaction u k i b c (wall V))) V)) U"
      using True by (simp add: open_balance_def)
    with ob obtain k V1 u V where "uuid_NewV7 U = (Inr k, V1)" "uuid_NewV7 V1 = (Inr u, V)"
      and "on_db (opening_work E (Pg_Tx n) i (opening_transaction u k i b c (wall V))) V = (Inr (), W')"
      by (auto elim!: bind_r_cases)
    then have o: "opening_work E (Pg_Tx n) i (opening_transaction u k i b c (wall V)) (db U) = (Inr (), db W')"
      using on_db_D uuid_NewV7_same by metis
    let ?trx = "opening_transaction u k i b c (wall V)"
    have "opening_work E (Pg_Tx n) (t_ToAccountID ?trx) ?trx (db U) = (Inr (), db W')"
      using o by (simp add: opening_transaction_def)
    note w = opening_work_Inr [OF this view]
    show ?thesis
      using True fresh w q nw
      by (auto simp: opened_def opening_tables_def opening_transaction_def intro!: exI [of _ ?trx])
  next
    case False
    with ob view fresh q show ?thesis by (auto simp: opened_def open_balance_def)
  qed
qed

lemma uc_CreateAccount_outcome:
  assumes run: "uc_CreateAccount E R rnd c W = (x, W')" and ho: "handles_ok (db W)"
  shows "transfer_frame (db W) (db W') \<and> transfer_total W' = transfer_total W \<and> spawned W' = spawned W \<and>
    ((\<exists>e. x = Inl e) \<and> committed (db W') = committed (db W) \<and> cache W' = cache W
     \<or> (\<exists>i. c \<noteq> CURRENCY_UNSPECIFIED \<and> Some i \<in> set (uuid_source W)
         \<and> opened i c (int (rnd mod 100000000)) (postings_id_seq (db W)) (pg_now (db W))
             (committed (db W)) (committed (db W')) (postings_id_seq (db W'))
         \<and> (x = Inr i \<and> cache W' = snd (SetAccountCurrency E R i c currencyTTL (cache W))
            \<or> (\<exists>d. x = Inl (Driver d)) \<and> cache W' = cache W)))"
proof (cases "c = CURRENCY_UNSPECIFIED")
  case True
  with run ho show ?thesis by (auto simp: uc_CreateAccount_def transfer_frame_def)
next
  case False
  from run False have "bind_r uuid_NewV7 (\<lambda>i W. bind_r (in_tx (create_work E i c (int (rnd mod 100000000)) (wall W))) (\<lambda>_ W'.
             (Inr i, snd (on_cache (SetAccountCurrency E R i c currencyTTL) W'))) W) W = (x, W')"
    by (simp add: uc_CreateAccount_def)
  then show ?thesis
  proof (cases rule: bind_r_cases)
    case (Err e)
    with uuid_NewV7_same [OF Err(1)] ho show ?thesis
      by (auto simp: transfer_frame_def process_same_def)
  next
    case (Ok i V)
    note u = uuid_NewV7_same [OF Ok(1)]
    have src: "Some i \<in> set (uuid_source W)" using uuid_NewV7_spec(4) [OF Ok(1)] by simp
    obtain y U where it: "in_tx (create_work E i c (int (rnd mod 100000000)) (wall V)) V = (y, U)" by fastforce
    have "handles_ok (db V)" using u ho by simp
    note o = acct.in_tx_outcome [OF it this]
    have W': "x = (case y of Inl e \<Rightarrow> Inl e | Inr _ \<Rightarrow> Inr i)"
      "W' = (case y of Inl e \<Rightarrow> U | Inr _ \<Rightarrow> snd (on_cache (SetAccountCurrency E R i c currencyTTL) U))"
      using Ok(2) it by (auto simp: bind_r_def split: sum.splits)
    show ?thesis
      using o u src False
      by (cases y) (auto simp: W' process_same_def on_cache_def split: prod.splits)
  qed
qed

section \<open>An opening keeps the schema, the books and the journal\<close>

lemma opening_entry_sel [simp]:
  "p_ID (opening_entry trx i) = i" "p_AccountID (opening_entry trx i) = t_ToAccountID trx"
  "p_TransactionID (opening_entry trx i) = t_ID trx" "p_Amount (opening_entry trx i) = t_Amount trx"
  by (simp_all add: opening_entry_def opening_posting_def)

lemma new_account_sel [simp]:
  "acc_ID (new_account i c now) = i" "acc_Balance (new_account i c now) = 0"
  "acc_Currency (new_account i c now) = c" "acc_LatestPostingID (new_account i c now) = 0"
  by (simp_all add: new_account_def)

lemma schema_ok_new_account:
  assumes "schema_ok q w" and "accounts w i = None"
  shows "schema_ok q (add_account (new_account i c now) w)"
  using assms by (intro schema_ok_add_account) (simp_all add: bigint_def)

lemma books_ok_new_account:
  assumes "books_ok w" and "schema_ok q w" and "accounts w i = None"
  shows "books_ok (add_account (new_account i c now) w)"
proof -
  have "filter (of_account i) (postings w) = []"
    using assms(2,3) by (auto simp: filter_empty_conv schema_ok_def)
  then have "sum_postings (of_account i) w = 0" "max_posting_id (of_account i) w = 0"
    by (simp_all add: sum_postings_def max_posting_id_def)
  with assms(1) show ?thesis by (simp add: books_ok_def)
qed

text \<open>The posting's id may stand anywhere below the sequence, as long as no row has it.\<close>

lemma opened_kept:
  assumes o: "opened i c b q now w w' q'" and "0 \<le> q" and schema: "schema_ok Q w" and books: "books_ok w"
    and journal: "journal_ok w" and b: "bigint b"
    and free: "0 < b \<Longrightarrow> q + 1 \<le> Q \<and> (\<forall>p\<in>set (postings w). p_ID p \<noteq> q + 1)"
  shows "schema_ok Q w' \<and> books_ok w' \<and> journal_ok w'"
proof (cases "0 < b")
  case False
  with o journal show ?thesis
    using schema_ok_new_account [OF schema] books_ok_new_account [OF books schema]
    by (auto simp: opened_def journal_ok_def)
next
  case True
  then obtain trx where trx: "t_FromAccountID trx = i" "t_ToAccountID trx = i" "t_Amount trx = b"
      "\<And>t'. t' \<in> set (transactions w) \<Longrightarrow> t_ID t' \<noteq> t_ID trx \<and> t_IdempotencyKey t' \<noteq> t_IdempotencyKey trx"
    and fresh: "accounts w i = None" and w': "w' = opening_tables i c trx q now w"
    using o by (auto simp: opened_def)
  let ?w1 = "add_account (new_account i c now) w"
  have s1: "schema_ok Q (add_transaction trx ?w1)"
    using trx True schema_ok_new_account [OF schema fresh] by (intro schema_ok_add_transaction) auto
  have "schema_ok Q w'"
    unfolding w' opening_tables_def
    using \<open>0 \<le> q\<close> trx True b free by (intro schema_ok_post_entry [OF s1]) auto
  moreover have "books_ok w'"
    unfolding w' opening_tables_def post_entry_def
    using books_ok_new_account [OF books schema fresh] \<open>0 \<le> q\<close> by (intro books_ok_post [OF _ s1]) auto
  moreover have "journal_ok w'"
    using journal trx(1-3) ballI [OF trx(4)] schema_ok_fresh_posting [OF schema, of "t_ID trx"]
    by (fastforce simp: w' opening_tables_def post_entry_def journal_ok_def)
  ultimately show ?thesis by simp
qed

lemma opened_keeps:
  assumes o: "opened i c b q now w w' q'" and "0 \<le> q" and schema: "schema_ok q w" and books: "books_ok w"
    and journal: "journal_ok w" and b: "bigint b"
  shows "schema_ok q' w' \<and> books_ok w' \<and> journal_ok w' \<and> q \<le> q'"
proof -
  have q: "q \<le> q'" "0 < b \<Longrightarrow> q' = q + 1" using o by (auto simp: opened_def split: if_splits)
  then show ?thesis
    using opened_kept [OF o assms(2) schema_ok_seq_mono [OF schema q(1)] books journal b] schema_ok_posting_ids [OF schema] by fastforce
qed

lemma total_in_add_account:
  assumes "accounts w (acc_ID a) = None"
  shows "total_in c (add_account a w) = total_in c w + (if acc_Currency a = c then acc_Balance a else 0)"
proof -
  let ?g = "\<lambda>w x. case accounts w x of None \<Rightarrow> 0 | Some r \<Rightarrow> if acc_Currency r = c then acc_Balance r else 0"
  have "(\<Sum>x\<in>UNIV - {acc_ID a}. ?g (add_account a w) x) = (\<Sum>x\<in>UNIV - {acc_ID a}. ?g w x)"
    by (rule sum.cong) auto
  then show ?thesis
    using assms by (simp add: total_in_def sum.remove [of UNIV "acc_ID a"])
qed

lemma opened_total:
  assumes "opened i c b q now w w' q'" and "0 \<le> b"
  shows "total_in c' w' = total_in c' w + (if c' = c then b else 0)"
  using assms
  by (auto simp: opened_def opening_tables_def post_entry_def total_in_add_account
      total_in_upd_row [where r = "new_account i c now"] split: if_splits)

lemma opened_accounts:
  assumes "opened i c b q now w w' q'" and "0 \<le> b"
  shows "accounts w i = None" and "\<exists>r. accounts w' i = Some r \<and> acc_Currency r = c \<and> acc_Balance r = b"
    and "a \<noteq> i \<Longrightarrow> accounts w' a = accounts w a"
  using assms
  by (auto simp: opened_def opening_tables_def post_entry_def accounts_upd_row split: if_splits)

section \<open>Openings on a server that answers\<close>

lemma opening_work_quiet:
  assumes fl: "faults s = []" and view: "tx_view n s = Some w" and pos: "0 < t_Amount trx" and b: "bigint (t_Amount trx)"
    and acc: "t_FromAccountID trx = i" "t_ToAccountID trx = i" "accounts w i = Some r" "acc_Balance r = 0"
    and fresh: "\<forall>t'\<in>set (transactions w). t_ID t' \<noteq> t_ID trx \<and> t_IdempotencyKey t' \<noteq> t_IdempotencyKey trx"
  shows "\<exists>t. opening_work E (Pg_Tx n) i trx s = (Inr (), t)"
proof -
  obtain x s1 where c: "CreateTransaction (Pg_Tx n) trx s = (x, s1)" by fastforce
  have "x = Inr ()"
    using CreateTransaction_quiet [OF fl view, of trx] c pos acc fresh by auto
  note c = c [unfolded this]
  note ct = CreateTransaction_Inr [OF c view]
  have fl1: "faults s1 = []" using CreateTransaction_frame [OF c] fl by (simp add: tx_frame_def)
  let ?ps = "[opening_posting (t_ID trx) i (t_Amount trx)]"
  have len: "length ?ps = 1 \<or> length ?ps = 2" by simp
  obtain ids s2 where p: "CreatePostings (Pg_Tx n) ?ps s1 = (Inr ids, s2)"
    using CreatePostings_quiet [OF fl1 ct(1) len] acc by (auto simp: opening_posting_def)
  note cp = CreatePostings_Inr [OF p ct(1) len]
  have fl2: "faults s2 = []" using CreatePostings_frame [OF p] fl1 by (simp add: tx_frame_def)
  have ids: "ids i = Some (postings_id_seq s1 + 1)"
    using cp(2) by (simp add: created_ids_def opening_posting_def)
  have "fst (CreditBalance (Pg_Tx n) i (t_Amount trx) (postings_id_seq s1 + 1) s2) = Inr ()"
    using acc pos b by (subst CreditBalance_quiet [OF fl2 cp(1)]) auto
  then obtain t where "CreditBalance (Pg_Tx n) i (t_Amount trx) (postings_id_seq s1 + 1) s2 = (Inr (), t)"
    by (metis prod.collapse)
  with c p ids show ?thesis by (simp add: opening_work_def)
qed

lemma create_work_quiet:
  assumes fl: "faults (db W) = []" and view: "tx_view n (db W) = Some w" and fresh: "accounts w i = None"
    and b: "0 \<le> b" "bigint b" and src: "uuid_source W = Some k # Some u # us"
    and ids: "\<forall>t\<in>set (transactions w). t_ID t \<noteq> u \<and> t_IdempotencyKey t \<noteq> k"
  shows "\<exists>W'. create_work E i c b now (Pg_Tx n) W = (Inr (), W')"
proof -
  let ?acc = "new_account i c now"
  obtain x s where ca: "Postgres.CreateAccount (Pg_Tx n) ?acc (db W) = (x, s)" by fastforce
  have x: "x = Inr ()" using CreateAccount_quiet [OF fl view, of ?acc] ca fresh by simp
  note ca' = CreateAccount_Inr [OF ca [unfolded x] view]
  have fs: "faults s = []" using CreateAccount_frame [OF ca] fl by (simp add: tx_frame_def)
  let ?trx = "opening_transaction u k i b c (wall W)"
  have "\<exists>t. opening_work E (Pg_Tx n) i ?trx s = (Inr (), t)" if "0 < b"
    using that b ids
    by (intro opening_work_quiet [OF fs ca'(1), where r = "?acc\<lparr>acc_UpdatedAt := pg_now (db W)\<rparr>"])
      (auto simp: opening_transaction_def)
  then show ?thesis
    using ca x src b
    by (auto simp: create_work_def open_balance_def on_db_def uuid_NewV7_def)
qed

lemma in_tx_quiet:
  assumes fl: "faults (db W) = []"
    and work: "\<And>V n. faults (db V) = [] \<Longrightarrow> tx_view n (db V) = Some (committed (db W)) \<Longrightarrow> uuid_source V = uuid_source W \<Longrightarrow>
      \<exists>V' w'. work (Pg_Tx n) V = (Inr (), V') \<and> tx_view n (db V') = Some w' \<and> faults (db V') = []"
  shows "\<exists>W'. in_tx work W = (Inr (), W')"
proof -
  obtain tx s where b: "BeginTx (db W) = (Inr tx, s)" using BeginTx_quiet [OF fl] by blast
  note B = BeginTx_Inr [OF b]
  obtain V w' where V: "work tx (W\<lparr>db := s\<rparr>) = (Inr (), V)" "tx_view (next_tx (db W)) (db V) = Some w'" "faults (db V) = []"
    using work [of "W\<lparr>db := s\<rparr>" "next_tx (db W)"] B(1,2) B(8) [OF fl] by auto
  obtain y t where c: "tx_Commit (next_tx (db W)) (db V) = (y, t)" by fastforce
  have "y = Inr ()" using tx_Commit_view(3) [OF c V(2,3)] .
  with b V(1) c show ?thesis
    by (simp add: in_tx_def on_db_def rollback_on_error_def CommitTx_def B(1))
qed

lemma uc_CreateAccount_quiet:
  fixes W :: "'r world"
  assumes fl: "faults (db W) = []" and c: "c \<noteq> CURRENCY_UNSPECIFIED"
    and src: "uuid_source W = Some i # Some k # Some u # us"
    and fresh: "accounts (committed (db W)) i = None"
      "\<forall>t\<in>set (transactions (committed (db W))). t_ID t \<noteq> u \<and> t_IdempotencyKey t \<noteq> k"
  shows "fst (uc_CreateAccount E R rnd c W) = Inr i"
proof -
  let ?V = "W\<lparr>uuid_source := Some k # Some u # us\<rparr>" and ?b = "int (rnd mod 100000000)"
  have b: "0 \<le> ?b" "bigint ?b" using mod_less_divisor [of 100000000 rnd] by (simp_all add: bigint_def)
  have "\<exists>W'. in_tx (create_work E i c ?b (wall W)) ?V = (Inr (), W')"
  proof (rule in_tx_quiet)
    fix V :: "'r world" and n assume V: "faults (db V) = []" "tx_view n (db V) = Some (committed (db ?V))" "uuid_source V = uuid_source ?V"
    obtain V' where r: "create_work E i c ?b (wall W) (Pg_Tx n) V = (Inr (), V')"
      using create_work_quiet [OF V(1,2) _ b, of i k u us E c "wall W"] V(3) fresh by auto
    then show "\<exists>V' w'. create_work E i c ?b (wall W) (Pg_Tx n) V = (Inr (), V') \<and> tx_view n (db V') = Some w' \<and> faults (db V') = []"
      using acct.frame [OF r] acct.reach [OF r V(2)] V(1) by (auto simp: tx_frame_def)
  qed (use fl in simp)
  then show ?thesis
    using c src by (auto simp: uc_CreateAccount_def uuid_NewV7_def)
qed

lemma uc_CreateAccount_ledger:
  assumes run: "uc_CreateAccount E R rnd c W = (x, W')" and ho: "handles_ok (db W)"
    and ok: "db_ok (db W)" "journal_ok (committed (db W))"
  shows "db_ok (db W') \<and> journal_ok (committed (db W')) \<and> open_txs (db W') = open_txs (db W) \<and> handles_ok (db W') \<and>
    ((\<exists>e. x = Inl e) \<and> committed (db W') = committed (db W)
     \<or> (\<exists>i r. (x = Inr i \<or> (\<exists>d. x = Inl (Driver d))) \<and> Some i \<in> set (uuid_source W) \<and> c \<noteq> CURRENCY_UNSPECIFIED
         \<and> accounts (committed (db W)) i = None \<and> accounts (committed (db W')) i = Some r
         \<and> acc_Currency r = c \<and> acc_Balance r = int (rnd mod 100000000) \<and> acc_Balance r < 100000000
         \<and> (\<forall>a. a \<noteq> i \<longrightarrow> accounts (committed (db W')) a = accounts (committed (db W)) a)
         \<and> (\<forall>c'. total_in c' (committed (db W')) =
               total_in c' (committed (db W)) + (if c' = c then int (rnd mod 100000000) else 0))))"
proof -
  let ?b = "int (rnd mod 100000000)"
  have b: "0 \<le> ?b" "bigint ?b" "?b < 100000000"
    using mod_less_divisor [of 100000000 rnd] by (simp_all add: bigint_def)
  note o = uc_CreateAccount_outcome [OF run ho]
  note f = o [THEN conjunct1, unfolded transfer_frame_def]
  from o consider (err) e where "x = Inl e" "committed (db W') = committed (db W)"
    | (added) i where "c \<noteq> CURRENCY_UNSPECIFIED" "Some i \<in> set (uuid_source W)"
        "opened i c ?b (postings_id_seq (db W)) (pg_now (db W)) (committed (db W)) (committed (db W')) (postings_id_seq (db W'))"
        "x = Inr i \<or> (\<exists>d. x = Inl (Driver d))"
    by blast
  then show ?thesis
  proof cases
    case err
    with f ok show ?thesis by (auto simp: db_ok_def intro: schema_ok_seq_mono)
  next
    case (added i)
    have "db_ok (db W') \<and> journal_ok (committed (db W'))"
      using opened_keeps [OF added(3)] ok b(2) by (auto simp: db_ok_def)
    with added f b(3) opened_accounts [OF added(3) b(1)] opened_total [OF added(3) b(1)] show ?thesis by auto
  qed
qed

lemma uc_CreateAccount_coherent:
  assumes srv: "redis_server R clock data" and laws: "uuid_laws E"
    and co: "coherent E (data (cache W)) (committed (db W))"
    and run: "uc_CreateAccount E R rnd c W = (x, W')" and ho: "handles_ok (db W)"
  shows "coherent E (data (cache W')) (committed (db W'))"
proof -
  from uc_CreateAccount_outcome [OF run ho] consider (err) "committed (db W') = committed (db W)" "cache W' = cache W"
    | (added) i where "opened i c (int (rnd mod 100000000)) (postings_id_seq (db W)) (pg_now (db W)) (committed (db W))
          (committed (db W')) (postings_id_seq (db W'))"
        "cache W' = snd (SetAccountCurrency E R i c currencyTTL (cache W)) \<or> cache W' = cache W"
    by blast
  then show ?thesis
  proof cases
    case err
    with co show ?thesis by simp
  next
    case (added i)
    note a = opened_accounts [OF added(1) of_nat_0_le_iff]
    have co': "coherent E (data (cache W)) (committed (db W'))"
      using a(1,3) by (intro coherent_mono [OF co]) (metis option.distinct(1))
    obtain r where r: "accounts (committed (db W')) i = Some r" "acc_Currency r = c" using a(2) by blast
    obtain y m where s: "SetAccountCurrency E R i c currencyTTL (cache W) = (y, m)" by fastforce
    have "coherent E (data m) (committed (db W'))"
      using redis_server.SetAccountCurrency_spec(1) [OF srv s] coherent_put [OF laws co' r(1)] co' r(2) by auto
    with added(2) co' s show ?thesis by auto
  qed
qed

lemma uc_GetBalance_spec:
  "same_world W (snd (uc_GetBalance i W)) \<and>
   (case fst (uc_GetBalance i W) of
      Inr a \<Rightarrow> accounts (committed (db W)) i = Some a
    | Inl e \<Rightarrow> e = ErrAccountNotFound \<and> accounts (committed (db W)) i = None
        \<or> (\<exists>d. e = Wrap ''db: failed to get account'' (Driver d) \<and> faults (db W) \<noteq> []))"
  by (cases "faults (db W)")
    (auto simp: uc_GetBalance_def GetByID_def on_db_def bind_r_def on_error_def pool_Exec_def read_stmt_def
      next_fault_def same_world_def same_db_def split: fault.splits option.splits)

section \<open>Theorems\<close>

text \<open>C19. Opening an account is atomic and keeps the ledger sound. Under every pattern of driver
  failures \<^verbatim>\<open>CreateAccount\<close> either returns an error and changes no table, or adds one account under a
  fresh id, with the drawn balance below 100000000 and the requested currency; its balance is the sum
  of its opening postings, every other account is as before, and the total of its currency grows by
  exactly that balance. No database transaction stays open.\<close>

theorem CreateAccount_opens:
  assumes run: "uc_CreateAccount E R rnd c W = (x, W')" and ho: "handles_ok (db W)"
    and ok: "db_ok (db W)" "journal_ok (committed (db W))"
  shows "db_ok (db W') \<and> journal_ok (committed (db W')) \<and> open_txs (db W') = open_txs (db W) \<and> handles_ok (db W') \<and>
    ((\<exists>e. x = Inl e) \<and> committed (db W') = committed (db W)
     \<or> (\<exists>i r. (x = Inr i \<or> (\<exists>d. x = Inl (Driver d))) \<and> Some i \<in> set (uuid_source W) \<and> c \<noteq> CURRENCY_UNSPECIFIED
         \<and> accounts (committed (db W)) i = None \<and> accounts (committed (db W')) i = Some r
         \<and> acc_Currency r = c \<and> acc_Balance r = int (rnd mod 100000000) \<and> acc_Balance r < 100000000
         \<and> (\<forall>a. a \<noteq> i \<longrightarrow> accounts (committed (db W')) a = accounts (committed (db W)) a)
         \<and> (\<forall>c'. total_in c' (committed (db W')) =
               total_in c' (committed (db W)) + (if c' = c then int (rnd mod 100000000) else 0))))"
  using uc_CreateAccount_ledger [OF assms] .

definition sample_opening :: "uuid result \<times> ref_redis world" where
  "sample_opening = uc_CreateAccount ref_ext ref_client 777 CURRENCY_EUR sample_world"

lemma sample_opening_fst: "fst sample_opening = Inr 13"
  unfolding sample_opening_def
  by (rule uc_CreateAccount_quiet [where k = 14 and u = 15 and us = "[]"]) (simp_all add: sample_tables_def currency_defs)

lemma sample_opening_eq: "uc_CreateAccount ref_ext ref_client 777 CURRENCY_EUR sample_world = (Inr 13, snd sample_opening)"
  using sample_opening_fst by (metis prod.collapse sample_opening_def)

lemma sample_journal_ok [simp]: "journal_ok sample_tables"
  by (simp add: journal_ok_def sample_tables_def sum_postings_def)

theorem CreateAccount_opens_witness:
  "db_ok (db (snd sample_opening)) \<and> map_option acc_Balance (accounts (committed (db (snd sample_opening))) 13) = Some 777
   \<and> total_in CURRENCY_EUR (committed (db (snd sample_opening))) = total_in CURRENCY_EUR sample_tables + 777"
  using CreateAccount_opens [OF sample_opening_eq] by auto

text \<open>Opening an account keeps the currency cache in agreement with the tables, over any Redis
  server and whatever becomes of the cache write.\<close>

theorem CreateAccount_coherent:
  assumes srv: "redis_server R clock data" and laws: "uuid_laws E"
    and co: "coherent E (data (cache W)) (committed (db W))"
    and run: "uc_CreateAccount E R rnd c W = (x, W')" and ho: "handles_ok (db W)"
  shows "coherent E (data (cache W')) (committed (db W'))"
  using uc_CreateAccount_coherent [OF assms] .

theorem CreateAccount_coherent_witness:
  "coherent ref_ext (rr_data (cache (snd sample_opening))) (committed (db (snd sample_opening)))"
  using CreateAccount_coherent [OF ref.redis_server_axioms ref_uuid_laws _ sample_opening_eq] by simp

text \<open>On a server that answers, with three fresh ids, \<^verbatim>\<open>CreateAccount\<close> succeeds for every currency but
  the unspecified one, so also for a value that is no currency of the ledger.\<close>

theorem CreateAccount_accepts:
  assumes fl: "faults (db W) = []" and c: "c \<noteq> CURRENCY_UNSPECIFIED"
    and src: "uuid_source W = Some i # Some k # Some u # us"
    and fresh: "accounts (committed (db W)) i = None"
      "\<forall>t\<in>set (transactions (committed (db W))). t_ID t \<noteq> u \<and> t_IdempotencyKey t \<noteq> k"
  shows "fst (uc_CreateAccount E R rnd c W) = Inr i"
  using uc_CreateAccount_quiet [OF assms] .

theorem CreateAccount_accepts_witness:
  "\<not> IsValid 99 \<and> fst (uc_CreateAccount ref_ext ref_client 5 99 sample_world) = Inr 13"
proof -
  have "(99 :: currency) \<noteq> CURRENCY_UNSPECIFIED" "\<not> IsValid 99" by (simp_all add: currency_defs IsValid_def)
  then show ?thesis
    using CreateAccount_accepts [of sample_world 99 13 14 15 "[]"] by (simp add: sample_tables_def)
qed

text \<open>Reading a balance returns the committed row of the account or \<^verbatim>\<open>ErrAccountNotFound\<close>, a
  driver failure wrapped, and changes nothing.\<close>

theorem GetBalance_reads:
  "same_world W (snd (uc_GetBalance i W)) \<and>
   (case fst (uc_GetBalance i W) of
      Inr a \<Rightarrow> accounts (committed (db W)) i = Some a
    | Inl e \<Rightarrow> e = ErrAccountNotFound \<and> accounts (committed (db W)) i = None
        \<or> (\<exists>d. e = Wrap ''db: failed to get account'' (Driver d) \<and> faults (db W) \<noteq> []))"
  using uc_GetBalance_spec .

end
