(* ===== verification/Posting_Worker.thy ===== *)
theory Posting_Worker
  imports Account_UC
begin

text \<open>
  \<^verbatim>\<open>PostingWorker\<close> of \<^verbatim>\<open>internal/usecase/posting_worker.go\<close>: it walks the postings in batches behind a
  stored cursor, compares each touched account with the sum of its postings, and overwrites a balance
  that disagrees. Other processes use the database while it runs: before every driver call the next
  entry of \<open>wk_env\<close> acts on the server. The context is alive for \<open>wk_alive\<close> more observations
  (\<open>None\<close>: it is never cancelled); a driver call under a cancelled context fails.
\<close>

section \<open>State\<close>

record wk =
  wk_db :: pg
  wk_env :: "(pg \<Rightarrow> pg) list"
  wk_alive :: "nat option"
  wk_corrections :: nat

record posting_worker =
  pw_cursor :: bool
  pw_metrics :: bool
  pw_workerName :: string
  pw_batchSize :: int
  pw_backoffTime :: int

definition defaultPostingBatchSize :: int where "defaultPostingBatchSize = 100"
definition defaultBackoff :: int where "defaultBackoff = 5 * 1000000000"
definition maxBalanceVersionSteps :: nat where "maxBalanceVersionSteps = 8"

definition NewPostingWorker :: "bool \<Rightarrow> bool \<Rightarrow> string \<Rightarrow> int \<Rightarrow> int \<Rightarrow> posting_worker result" where
  "NewPostingWorker cursor metrics workerName batchSize backoff =
     (if workerName = '''' then Inl (Errorf ''posting worker: worker name is required'')
      else Inr \<lparr>pw_cursor = cursor, pw_metrics = metrics, pw_workerName = workerName,
        pw_batchSize = (if batchSize \<le> 0 then defaultPostingBatchSize else batchSize),
        pw_backoffTime = (if backoff \<le> 0 then defaultBackoff else backoff)\<rparr>)"

section \<open>Calls\<close>

definition env_step :: "wk \<Rightarrow> wk" where
  "env_step w = (case wk_env w of [] \<Rightarrow> w | f # fs \<Rightarrow> w\<lparr>wk_db := f (wk_db w), wk_env := fs\<rparr>)"

definition cancelled :: "wk \<Rightarrow> bool" where
  "cancelled w \<longleftrightarrow> wk_alive w = Some 0"

definition ctx_Err :: "wk \<Rightarrow> unit result \<times> wk" where
  "ctx_Err w = (case wk_alive w of
     None \<Rightarrow> (Inr (), w)
   | Some 0 \<Rightarrow> (Inl (Driver Ctx_Canceled), w)
   | Some (Suc n) \<Rightarrow> (Inr (), w\<lparr>wk_alive := Some n\<rparr>))"

definition call :: "'a pgm \<Rightarrow> wk \<Rightarrow> 'a result \<times> wk" where
  "call m w =
     (let w1 = env_step w; s = wk_db w1
      in case m (if cancelled w1 then s\<lparr>faults := Lost Ctx_Canceled # faults s\<rparr> else s) of
           (x, t) \<Rightarrow> (x, w1\<lparr>wk_db := t\<rparr>))"

section \<open>The worker\<close>

definition RecordBalanceCorrection :: "wk \<Rightarrow> wk" where
  "RecordBalanceCorrection w = w\<lparr>wk_corrections := Suc (wk_corrections w)\<rparr>"

text \<open>The closure that \<^verbatim>\<open>correctBalance\<close> gives to \<^verbatim>\<open>ReadWrite\<close>; the metric is counted before the commit.\<close>

definition correct_fn :: "posting_worker \<Rightarrow> uuid \<Rightarrow> ctx \<Rightarrow> wk \<Rightarrow> unit result \<times> wk" where
  "correct_fn pw a c =
     bind_r (call (GetPostingsSum c a 0)) (\<lambda>fullSum.
     bind_r (call (ApplyBalanceCorrection c a fullSum)) (\<lambda>_ w.
       (Inr (), if pw_metrics pw then RecordBalanceCorrection w else w)))"

definition correctBalance :: "posting_worker \<Rightarrow> uuid \<Rightarrow> wk \<Rightarrow> unit result \<times> wk" where
  "correctBalance pw a = ReadWrite call call background (correct_fn pw a)"

fun validate_steps :: "nat \<Rightarrow> posting_worker \<Rightarrow> uuid \<Rightarrow> int \<Rightarrow> wk \<Rightarrow> unit result \<times> wk" where
  "validate_steps 0 pw a effectiveMax = correctBalance pw a"
| "validate_steps (Suc k) pw a effectiveMax =
     bind_r ctx_Err (\<lambda>_.
     bind_r (call (GetAccountBalanceSnapshot background a)) (\<lambda>(balance, latestPostingID).
       let eff = (if latestPostingID > effectiveMax then latestPostingID else effectiveMax) in
       bind_r (call (GetPostingsSum background a eff)) (\<lambda>postingsSum.
         if postingsSum = balance then return_r ()
         else bind_r (call (GetAccountBalanceSnapshot background a)) (\<lambda>(_, refreshedLatest).
           if refreshedLatest > eff then validate_steps k pw a refreshedLatest
           else correctBalance pw a))))"

definition ValidateBalance :: "posting_worker \<Rightarrow> uuid \<Rightarrow> int \<Rightarrow> wk \<Rightarrow> unit result \<times> wk" where
  "ValidateBalance pw a batchMaxID = validate_steps maxBalanceVersionSteps pw a batchMaxID"

text \<open>\<^verbatim>\<open>waitBackoff\<close>: false when the context ends during the wait.\<close>

definition waitBackoff :: "posting_worker \<Rightarrow> wk \<Rightarrow> bool \<times> wk" where
  "waitBackoff pw w = (case ctx_Err w of (Inl _, w') \<Rightarrow> (False, w') | (Inr _, w') \<Rightarrow> (True, w'))"

datatype flow = Continue | Stop

definition back_off :: "posting_worker \<Rightarrow> int \<Rightarrow> wk \<Rightarrow> (flow \<times> int) \<times> wk" where
  "back_off pw lastUpper w = (case waitBackoff pw w of (ok, w') \<Rightarrow> ((if ok then Continue else Stop, lastUpper), w'))"

text \<open>The accounts of a batch; \<open>True\<close> when a cancelled context ends the run.\<close>

fun validate_all :: "posting_worker \<Rightarrow> int \<Rightarrow> uuid list \<Rightarrow> wk \<Rightarrow> bool \<times> wk" where
  "validate_all pw upperLimit [] w = (False, w)"
| "validate_all pw upperLimit (a # as) w =
     (case ValidateBalance pw a upperLimit w of
        (Inl err, w') \<Rightarrow> if errors_Is err (Driver Ctx_Canceled) then (True, w') else validate_all pw upperLimit as w'
      | (Inr _, w') \<Rightarrow> validate_all pw upperLimit as w')"

text \<open>One turn of the loop of \<^verbatim>\<open>Run\<close>, with \<^verbatim>\<open>lastCommittedUpper\<close>.\<close>

definition run_turn :: "posting_worker \<Rightarrow> int \<Rightarrow> wk \<Rightarrow> (flow \<times> int) \<times> wk" where
  "run_turn pw lastUpper w =
     (case ctx_Err w of
        (Inl _, w1) \<Rightarrow>
          ((Stop, lastUpper), if lastUpper > 0 then snd (call (UpdateCursorPosition (pw_workerName pw) lastUpper) w1) else w1)
      | (Inr _, w1) \<Rightarrow>
     (case call (GetCursorPosition (pw_workerName pw) (pw_batchSize pw)) w1 of
        (Inl _, w2) \<Rightarrow> back_off pw lastUpper w2
      | (Inr (cursorPosition, upperLimit), w2) \<Rightarrow>
     if cursorPosition \<ge> upperLimit then back_off pw lastUpper w2 else
     (case call (GetActiveAccounts cursorPosition upperLimit) w2 of
        (Inl _, w3) \<Rightarrow> back_off pw lastUpper w3
      | (Inr users, w3) \<Rightarrow>
     (case validate_all pw upperLimit users w3 of
        (True, w4) \<Rightarrow> ((Stop, lastUpper), w4)
      | (False, w4) \<Rightarrow>
     (case call (UpdateCursorPosition (pw_workerName pw) upperLimit) w4 of
        (Inl _, w5) \<Rightarrow> back_off pw lastUpper w5
      | (Inr _, w5) \<Rightarrow> ((Continue, upperLimit), w5))))))"

partial_function (option) run_loop :: "posting_worker \<Rightarrow> int \<Rightarrow> wk \<Rightarrow> wk option" where
  "run_loop pw lastUpper w =
     (case run_turn pw lastUpper w of
        ((Stop, _), w') \<Rightarrow> Some w'
      | ((Continue, lastUpper'), w') \<Rightarrow> run_loop pw lastUpper' w')"

definition Run :: "posting_worker \<Rightarrow> wk \<Rightarrow> wk option" where
  "Run pw w = (if \<not> pw_cursor pw then Some w else run_loop pw 0 w)"

text \<open>The first \<open>n\<close> turns of a run that is not stopped.\<close>

fun run_turns :: "nat \<Rightarrow> posting_worker \<Rightarrow> int \<Rightarrow> wk \<Rightarrow> int \<times> wk" where
  "run_turns 0 pw lastUpper w = (lastUpper, w)"
| "run_turns (Suc n) pw lastUpper w =
     (case run_turn pw lastUpper w of
        ((Stop, lastUpper'), w') \<Rightarrow> (lastUpper', w')
      | ((Continue, lastUpper'), w') \<Rightarrow> run_turns n pw lastUpper' w')"

end
