(* ===== verification/Worker_Facts.thy ===== *)
theory Worker_Facts
  imports Posting_Worker
begin

text \<open>
  What the posting worker's steps do to the server when no other process interferes: reads change
  nothing, a correction replaces one row by what its postings say or changes nothing, and no
  transaction stays open, under every pattern of driver failures and cancellation.
\<close>

section \<open>Reads\<close>

text \<open>A worker that runs alone: no other process acts on the server.\<close>

definition alone :: "wk \<Rightarrow> bool" where
  "alone w \<longleftrightarrow> wk_env w = []"

definition calm :: "wk \<Rightarrow> bool" where
  "calm w \<longleftrightarrow> wk_env w = [] \<and> wk_alive w = None \<and> faults (wk_db w) = []"

text \<open>The server's data up to the fault script.\<close>

definition same_data :: "pg \<Rightarrow> pg \<Rightarrow> bool" where
  "same_data s t \<longleftrightarrow> committed t = committed s \<and> postings_id_seq t = postings_id_seq s \<and> pg_now t = pg_now s
     \<and> open_txs t = open_txs s \<and> next_tx t = next_tx s"

lemma same_data_refl [simp]: "same_data s s"
  by (simp add: same_data_def)

lemma same_data_trans [trans]: "same_data s t \<Longrightarrow> same_data t u \<Longrightarrow> same_data s u"
  by (simp add: same_data_def)

lemma same_db_data: "same_db s t \<Longrightarrow> same_data s t"
  by (simp add: same_db_def same_data_def)

lemma snapshot_same: "GetAccountBalanceSnapshot background a s = (x, t) \<Longrightarrow> same_db s t"
  by (auto simp: GetAccountBalanceSnapshot_def querierFromContext_def background_def q_Exec_def
      split: option.splits elim!: bind_r_cases on_error_cases dest: pool_read_same)

lemma postings_sum_same: "GetPostingsSum background a l s = (x, t) \<Longrightarrow> same_db s t"
  by (auto simp: GetPostingsSum_def querierFromContext_def background_def q_Exec_def
      split: if_splits elim!: bind_r_cases on_error_cases dest: pool_read_same)

definition psum :: "uuid \<Rightarrow> int \<Rightarrow> tables \<Rightarrow> int" where
  "psum a l w = (if l > 0 then sum_postings (\<lambda>p. p_AccountID p = a \<and> p_ID p \<le> l) w else sum_postings (of_account a) w)"

lemma snapshot_quiet:
  assumes "faults s = []"
  shows "GetAccountBalanceSnapshot background a s =
    ((case accounts (committed s) a of None \<Rightarrow> Inl ErrAccountNotFound | Some r \<Rightarrow> Inr (acc_Balance r, acc_LatestPostingID r)), s)"
  using assms
  by (simp add: GetAccountBalanceSnapshot_def querierFromContext_def background_def q_Exec_def pool_read_quiet
      split: option.splits)

lemma postings_sum_quiet:
  assumes "faults s = []" and "bigint (psum a l (committed s))"
  shows "GetPostingsSum background a l s = (Inr (psum a l (committed s)), s)"
  using assms
  by (cases "l > 0") (simp_all add: GetPostingsSum_def querierFromContext_def background_def q_Exec_def pool_read_quiet psum_def)

lemma call_calm: "calm w \<Longrightarrow> call m w = (case m (wk_db w) of (x, t) \<Rightarrow> (x, w\<lparr>wk_db := t\<rparr>))"
  by (simp add: call_def calm_def env_step_def cancelled_def)

lemma call_alone:
  assumes "call m w = (x, w')" and "alone w"
  obtains s t where "same_data (wk_db w) s" "m s = (x, t)" "w' = w\<lparr>wk_db := t\<rparr>"
proof -
  define s where "s = (if cancelled w then (wk_db w)\<lparr>faults := Lost Ctx_Canceled # faults (wk_db w)\<rparr> else wk_db w)"
  obtain y t where m: "m s = (y, t)" by fastforce
  have "same_data (wk_db w) s" by (simp add: s_def same_data_def)
  moreover have "y = x" "w' = w\<lparr>wk_db := t\<rparr>"
    using assms m by (simp_all add: call_def alone_def env_step_def s_def [symmetric])
  ultimately show thesis using m that by blast
qed

lemma ctx_Err_same: "ctx_Err w = (x, w') \<Longrightarrow> wk_db w' = wk_db w \<and> wk_env w' = wk_env w \<and> wk_corrections w' = wk_corrections w"
  by (auto simp: ctx_Err_def split: option.splits nat.splits)

lemma ctx_Err_calm: "calm w \<Longrightarrow> ctx_Err w = (Inr (), w)"
  by (simp add: ctx_Err_def calm_def)

section \<open>A correction\<close>

definition fixed_row :: "int \<Rightarrow> int \<Rightarrow> time \<Rightarrow> account \<Rightarrow> account" where
  "fixed_row v m now r = r\<lparr>acc_Balance := v, acc_LatestPostingID := m, acc_UpdatedAt := now\<rparr>"

definition fix_account :: "uuid \<Rightarrow> time \<Rightarrow> tables \<Rightarrow> tables" where
  "fix_account a now w =
     upd_row a (fixed_row (sum_postings (of_account a) w) (max_posting_id (of_account a) w) now) w"

lemma tx_read_frame: "tx_Exec n (read_stmt g) s = (x, t) \<Longrightarrow> tx_frame n s t"
  by (rule tx_Exec_frame) auto

lemma tx_read_Inr:
  assumes "tx_Exec n (read_stmt g) s = (Inr v, t)"
  obtains w where "tx_view n s = Some w" "v = g w" "tx_view n t = Some w" "postings_id_seq t = postings_id_seq s"
  by (rule tx_Exec_Inr [OF assms]) (auto simp: read_stmt_def intro: that)

lemma sum_in_tx:
  assumes "GetPostingsSum (withTx c n) a 0 s = (x, t)"
  shows "tx_frame n s t"
    and "x = Inr v \<Longrightarrow> tx_view n s = Some w \<Longrightarrow> v = sum_postings (of_account a) w \<and> bigint v
      \<and> tx_view n t = Some w \<and> postings_id_seq t = postings_id_seq s"
proof -
  obtain y where y: "tx_Exec n (read_stmt (sum_postings (of_account a))) s = (y, t)"
    "x = Inr v \<Longrightarrow> y = Inr v \<and> bigint v" for v
    using assms
    by (auto simp: GetPostingsSum_def querierFromContext_def withTx_def q_Exec_def split: if_splits
        elim!: bind_r_cases on_error_cases)
  show "tx_frame n s t" using y(1) by (rule tx_read_frame)
  show "v = sum_postings (of_account a) w \<and> bigint v \<and> tx_view n t = Some w \<and> postings_id_seq t = postings_id_seq s"
    if v: "x = Inr v" and w: "tx_view n s = Some w"
    using y(1) y(2) [OF v] w by (auto elim!: tx_read_Inr)
qed

lemma correction_in_tx:
  assumes "ApplyBalanceCorrection (withTx c n) a v s = (x, t)"
  shows "tx_frame n s t"
    and "x = Inr () \<Longrightarrow> tx_view n s = Some w \<Longrightarrow>
      tx_view n t = Some (upd_row a (fixed_row v (max_posting_id (of_account a) w) (pg_now s)) w)
      \<and> (accounts w a \<noteq> None \<longrightarrow> 0 \<le> v \<and> bigint v) \<and> postings_id_seq t = postings_id_seq s"
proof -
  obtain y where y: "tx_Exec n (correction a v) s = (y, t)" "x = Inr () \<Longrightarrow> \<exists>k. y = Inr k"
    using assms
    by (auto simp: ApplyBalanceCorrection_def UpdateBalanceFromContext_def querierFromContext_def withTx_def q_Exec_def
        elim!: bind_r_cases on_error_cases)
  show "tx_frame n s t" by (rule tx_Exec_frame [OF _ y(1)]) simp
  show "tx_view n t = Some (upd_row a (fixed_row v (max_posting_id (of_account a) w) (pg_now s)) w)
      \<and> (accounts w a \<noteq> None \<longrightarrow> 0 \<le> v \<and> bigint v) \<and> postings_id_seq t = postings_id_seq s"
    if ok: "x = Inr ()" and view: "tx_view n s = Some w"
  proof -
    obtain k where "tx_Exec n (correction a v) s = (Inr k, t)" using y ok by blast
    then show ?thesis
    proof (rule tx_Exec_Inr)
      fix w' eff assume "tx_view n s = Some w'" "correction a v (postings_id_seq s) (pg_now s) w' = (Inr (k, eff), postings_id_seq t)"
        "tx_view n t = Some (eff w')"
      with view show ?thesis
        by (auto simp: correction_def update_account_def fixed_row_def [abs_def] upd_row_def
            split: option.splits if_splits)
    qed
  qed
qed

lemma pool_Begin_BeginTx: "pool_Begin s = (Inr n, t) \<Longrightarrow> BeginTx s = (Inr (Pg_Tx n), t)"
  by (simp add: BeginTx_def)

lemma pool_Begin_Inl: "pool_Begin s = (Inl e, t) \<Longrightarrow> same_data s t"
  by (cases "faults s") (auto simp: pg_defs same_data_def split: fault.splits)

lemma alone_update [simp]:
  "alone (w\<lparr>wk_db := s\<rparr>) = alone w" "alone (RecordBalanceCorrection w) = alone w"
  "wk_db (RecordBalanceCorrection w) = wk_db w" "wk_alive (RecordBalanceCorrection w) = wk_alive w"
  by (simp_all add: alone_def RecordBalanceCorrection_def)

lemma same_data_view: "same_data s t \<Longrightarrow> tx_view n t = tx_view n s"
  by (auto simp: same_data_def tx_view_def split: option.splits tx_state.splits)

definition tx_data :: "nat \<Rightarrow> pg \<Rightarrow> pg \<Rightarrow> bool" where
  "tx_data n s t \<longleftrightarrow> committed t = committed s \<and> pg_now t = pg_now s \<and> next_tx t = next_tx s
     \<and> (\<forall>m. m \<noteq> n \<longrightarrow> open_txs t m = open_txs s m) \<and> postings_id_seq s \<le> postings_id_seq t"

lemma tx_dataI: "same_data s u \<Longrightarrow> tx_frame n u t \<Longrightarrow> tx_data n s t"
  by (auto simp: tx_data_def same_data_def tx_frame_def)

lemma tx_data_trans: "tx_data n s t \<Longrightarrow> tx_data n t u \<Longrightarrow> tx_data n s u"
  by (auto simp: tx_data_def)

lemma correct_fn_alone:
  assumes run: "correct_fn pw a (withTx c n) w = (x, w')" and al: "alone w"
  shows "alone w' \<and> wk_alive w' = wk_alive w \<and> tx_data n (wk_db w) (wk_db w')"
    and "x = Inr () \<Longrightarrow> tx_view n (wk_db w) = Some v \<Longrightarrow>
      tx_view n (wk_db w') = Some (fix_account a (pg_now (wk_db w)) v)
      \<and> (accounts v a \<noteq> None \<longrightarrow> 0 \<le> sum_postings (of_account a) v \<and> bigint (sum_postings (of_account a) v))"
proof -
  have both: "(alone w' \<and> wk_alive w' = wk_alive w \<and> tx_data n (wk_db w) (wk_db w')) \<and>
    (\<forall>v. x = Inr () \<longrightarrow> tx_view n (wk_db w) = Some v \<longrightarrow>
      tx_view n (wk_db w') = Some (fix_account a (pg_now (wk_db w)) v)
      \<and> (accounts v a \<noteq> None \<longrightarrow> 0 \<le> sum_postings (of_account a) v \<and> bigint (sum_postings (of_account a) v)))"
    using run unfolding correct_fn_def
  proof (cases rule: bind_r_cases)
    case (Err e)
    from Err(1) al show ?thesis
    proof (rule call_alone)
      fix s t assume c: "same_data (wk_db w) s" "GetPostingsSum (withTx c n) a 0 s = (Inl e, t)" "w' = w\<lparr>wk_db := t\<rparr>"
      show ?thesis using tx_dataI [OF c(1) sum_in_tx(1) [OF c(2)]] c(3) Err(2) al by simp
    qed
  next
    case (Ok fullSum w1)
    from Ok(1) al obtain s1 t1 where 1: "same_data (wk_db w) s1" "GetPostingsSum (withTx c n) a 0 s1 = (Inr fullSum, t1)"
      "w1 = w\<lparr>wk_db := t1\<rparr>" by (rule call_alone)
    note d1 = tx_dataI [OF 1(1) sum_in_tx(1) [OF 1(2)]]
    obtain y w2 where c2: "call (ApplyBalanceCorrection (withTx c n) a fullSum) w1 = (y, w2)" by fastforce
    moreover have "alone w1" using al 1(3) by simp
    ultimately obtain s2 t2 where 2: "same_data t1 s2" "ApplyBalanceCorrection (withTx c n) a fullSum s2 = (y, t2)"
      "w2 = w1\<lparr>wk_db := t2\<rparr>" using 1(3) by (auto elim: call_alone)
    note d2 = tx_data_trans [OF d1 tx_dataI [OF 2(1) correction_in_tx(1) [OF 2(2)]]]
    have x: "x = y" "w' = (if y = Inr () \<and> pw_metrics pw then RecordBalanceCorrection w2 else w2)"
      using Ok(2) c2 by (auto simp: bind_r_def split: sum.splits prod.splits)
    have "tx_view n t2 = Some (fix_account a (pg_now (wk_db w)) v) \<and>
        (accounts v a \<noteq> None \<longrightarrow> 0 \<le> sum_postings (of_account a) v \<and> bigint (sum_postings (of_account a) v))"
      if "x = Inr ()" "tx_view n (wk_db w) = Some v" for v
    proof -
      have "tx_view n s1 = Some v" using that(2) same_data_view [OF 1(1)] by simp
      note s = sum_in_tx(2) [OF 1(2) refl this]
      have "tx_view n s2 = Some v" using s same_data_view [OF 2(1)] by simp
      from correction_in_tx(2) [OF 2(2) _ this] show ?thesis
        using that(1) x s d1 2(1) by (auto simp: fix_account_def tx_data_def same_data_def)
    qed
    then show ?thesis using d2 al x(2) 1(3) 2(3) by auto
  qed
  then show "alone w' \<and> wk_alive w' = wk_alive w \<and> tx_data n (wk_db w) (wk_db w')"
    and "x = Inr () \<Longrightarrow> tx_view n (wk_db w) = Some v \<Longrightarrow>
      tx_view n (wk_db w') = Some (fix_account a (pg_now (wk_db w)) v)
      \<and> (accounts v a \<noteq> None \<longrightarrow> 0 \<le> sum_postings (of_account a) v \<and> bigint (sum_postings (of_account a) v))"
    by blast+
qed

lemma tx_Commit_data:
  assumes "tx_Commit n s = (x, t)"
  shows "open_txs t = (open_txs s)(n := None) \<and> next_tx t = next_tx s \<and> pg_now t = pg_now s
      \<and> postings_id_seq t = postings_id_seq s
      \<and> (committed t = committed s \<and> (\<exists>e. x = Inl e) \<or> tx_view n s = Some (committed t) \<and> (x = Inr () \<or> (\<exists>d. x = Inl (Driver d))))"
  using assms
  by (cases "faults s"; auto simp: pg_defs tx_view_def
      split: option.splits tx_state.splits fault.splits)

definition corrected :: "uuid \<Rightarrow> pg \<Rightarrow> tables \<Rightarrow> bool" where
  "corrected a s w' \<longleftrightarrow> w' = fix_account a (pg_now s) (committed s)
     \<and> (accounts (committed s) a \<noteq> None \<longrightarrow> 0 \<le> sum_postings (of_account a) (committed s)
          \<and> bigint (sum_postings (of_account a) (committed s)))"

text \<open>What a worker step leaves alone.\<close>

definition wk_frame :: "wk \<Rightarrow> wk \<Rightarrow> bool" where
  "wk_frame w w' \<longleftrightarrow> alone w' \<and> open_txs (wk_db w') = open_txs (wk_db w) \<and> handles_ok (wk_db w')
     \<and> pg_now (wk_db w') = pg_now (wk_db w) \<and> postings_id_seq (wk_db w) \<le> postings_id_seq (wk_db w')"

lemma wk_frame_trans [trans]: "wk_frame w w1 \<Longrightarrow> wk_frame w1 w2 \<Longrightarrow> wk_frame w w2"
  by (auto simp: wk_frame_def)

lemma wk_frame_same:
  "alone w \<Longrightarrow> handles_ok (wk_db w) \<Longrightarrow> same_data (wk_db w) t \<Longrightarrow> wk_frame w (w\<lparr>wk_db := t\<rparr>)"
  by (simp add: wk_frame_def same_data_def handles_ok_def)

lemma call_read_alone:
  assumes "call m w = (x, w')" and "alone w" and "\<And>s y t. m s = (y, t) \<Longrightarrow> same_db s t"
  shows "\<exists>t. w' = w\<lparr>wk_db := t\<rparr> \<and> same_data (wk_db w) t"
  using assms(1,2)
proof (rule call_alone)
  fix s t assume "same_data (wk_db w) s" "m s = (x, t)" "w' = w\<lparr>wk_db := t\<rparr>"
  then show ?thesis using assms(3) same_db_data same_data_trans by blast
qed

text \<open>Transaction \<open>n\<close> is open and holds all the changes since \<open>w\<close>.\<close>

definition in_flight :: "nat \<Rightarrow> wk \<Rightarrow> wk \<Rightarrow> bool" where
  "in_flight n w w2 \<longleftrightarrow> alone w2 \<and> wk_alive w2 = wk_alive w \<and> (open_txs (wk_db w2))(n := None) = open_txs (wk_db w)
     \<and> next_tx (wk_db w2) = Suc (next_tx (wk_db w)) \<and> pg_now (wk_db w2) = pg_now (wk_db w)
     \<and> postings_id_seq (wk_db w) \<le> postings_id_seq (wk_db w2) \<and> committed (wk_db w2) = committed (wk_db w)"

lemma begin_in_flight:
  assumes "call pool_Begin w = (Inr n, w1)" and al: "alone w" and ho: "handles_ok (wk_db w)"
  shows "in_flight n w w1" and "tx_view n (wk_db w1) = Some (committed (wk_db w))"
proof -
  obtain s t where 1: "same_data (wk_db w) s" "pool_Begin s = (Inr n, t)" "w1 = w\<lparr>wk_db := t\<rparr>"
    using assms(1,2) by (rule call_alone)
  note B = BeginTx_Inr [OF pool_Begin_BeginTx [OF 1(2)]]
  have "open_txs (wk_db w) (next_tx s) = None" using ho 1(1) by (simp add: handles_ok_def same_data_def)
  then show "in_flight n w w1" and "tx_view n (wk_db w1) = Some (committed (wk_db w))"
    using B 1 al by (auto simp: in_flight_def same_data_def fun_eq_iff)
qed

lemma in_flight_work:
  assumes "in_flight n w w1" and "alone w2" and "wk_alive w2 = wk_alive w1" and d: "tx_data n (wk_db w1) (wk_db w2)"
  shows "in_flight n w w2"
proof -
  have "(open_txs (wk_db w2))(n := None) = (open_txs (wk_db w1))(n := None)"
    using d by (auto simp: tx_data_def)
  with assms show ?thesis by (simp add: in_flight_def tx_data_def)
qed

lemma in_flight_close:
  assumes "in_flight n w w2" and "handles_ok (wk_db w)" and "same_data (wk_db w2) v"
    and "open_txs u = (open_txs v)(n := None)" "next_tx u = next_tx v" "pg_now u = pg_now v" "postings_id_seq u = postings_id_seq v"
  shows "wk_frame w (w2\<lparr>wk_db := u\<rparr>) \<and> wk_alive (w2\<lparr>wk_db := u\<rparr>) = wk_alive w"
  using assms by (auto simp: in_flight_def wk_frame_def same_data_def handles_ok_def)

lemma rollback_alone:
  assumes "in_flight n w w2" and ho: "handles_ok (wk_db w)" and "call (tx_Rollback n) w2 = (z, w')"
  shows "wk_frame w w' \<and> wk_alive w' = wk_alive w \<and> committed (wk_db w') = committed (wk_db w)"
proof -
  have "alone w2" using assms(1) by (simp add: in_flight_def)
  with assms(3) show ?thesis
  proof (rule call_alone)
    fix v u assume v: "same_data (wk_db w2) v" "tx_Rollback n v = (z, u)" "w' = w2\<lparr>wk_db := u\<rparr>"
    note r = tx_Rollback_frame [OF v(2)]
    have "wk_frame w w' \<and> wk_alive w' = wk_alive w"
      unfolding v(3) by (rule in_flight_close [OF assms(1) ho v(1)]) (use r in \<open>auto simp: closed_frame_def\<close>)
    then show ?thesis using r v(1,3) assms(1) by (auto simp: same_data_def in_flight_def)
  qed
qed

lemma commit_alone:
  assumes "in_flight n w w2" and ho: "handles_ok (wk_db w)" and "call (tx_Commit n) w2 = (z, w')"
    and "tx_view n (wk_db w2) = Some t"
  shows "wk_frame w w' \<and> wk_alive w' = wk_alive w \<and>
    (committed (wk_db w') = committed (wk_db w) \<and> (\<exists>e. z = Inl e)
     \<or> committed (wk_db w') = t \<and> (z = Inr () \<or> (\<exists>d. z = Inl (Driver d))))"
proof -
  have "alone w2" using assms(1) by (simp add: in_flight_def)
  with assms(3) show ?thesis
  proof (rule call_alone)
    fix v u assume v: "same_data (wk_db w2) v" "tx_Commit n v = (z, u)" "w' = w2\<lparr>wk_db := u\<rparr>"
    note r = tx_Commit_data [OF v(2)]
    have "wk_frame w w' \<and> wk_alive w' = wk_alive w"
      unfolding v(3) by (rule in_flight_close [OF assms(1) ho v(1)]) (use r in auto)
    then show ?thesis
      using r v(1,3) assms(1,4) same_data_view [OF v(1), of n] by (auto simp: same_data_def in_flight_def)
  qed
qed

lemma correctBalance_alone:
  assumes run: "correctBalance pw a w = (x, w')" and al: "alone w" and ho: "handles_ok (wk_db w)"
  shows "wk_frame w w' \<and> wk_alive w' = wk_alive w \<and>
    ((\<exists>e. x = Inl e) \<and> committed (wk_db w') = committed (wk_db w)
     \<or> corrected a (wk_db w) (committed (wk_db w')) \<and> (x = Inr () \<or> (\<exists>d. x = Inl (Wrap ''db: commit failed'' (Driver d)))))"
  using run unfolding correctBalance_def ReadWrite_def
proof (cases rule: bind_r_cases)
  case (Err e)
  then obtain e' where "call pool_Begin w = (Inl e', w')" by (auto elim!: on_error_cases)
  then show ?thesis
    using al
  proof (rule call_alone)
    fix s t assume "same_data (wk_db w) s" "pool_Begin s = (Inl e', t)" "w' = w\<lparr>wk_db := t\<rparr>"
    then show ?thesis using Err(2) wk_frame_same [OF al ho] pool_Begin_Inl same_data_trans
      by (fastforce simp: same_data_def)
  qed
next
  case (Ok n w1)
  then have "call pool_Begin w = (Inr n, w1)" by (auto elim!: on_error_cases)
  note b = begin_in_flight [OF this al ho]
  have al1: "alone w1" using b(1) by (simp add: in_flight_def)
  obtain y w2 where f: "correct_fn pw a (withTx background n) w1 = (y, w2)" by fastforce
  note F = correct_fn_alone [OF f al1]
  have fl: "in_flight n w w2" using in_flight_work [OF b(1)] F(1) by blast
  show ?thesis
  proof (cases y)
    case (Inl e)
    with Ok(2) f have x: "x = Inl e" and c: "w' = snd (call (tx_Rollback n) w2)" by auto
    obtain z w3 where "call (tx_Rollback n) w2 = (z, w3)" by fastforce
    with rollback_alone [OF fl ho this] x c show ?thesis by simp
  next
    case (Inr q)
    with Ok(2) f have "on_error (call (tx_Commit n)) (Wrap ''db: commit failed'') w2 = (x, w')" by simp
    then obtain z where c: "call (tx_Commit n) w2 = (z, w')" and x: "x = map_sum (Wrap ''db: commit failed'') id z"
      by (auto elim!: on_error_cases)
    have v2: "tx_view n (wk_db w2) = Some (fix_account a (pg_now (wk_db w)) (committed (wk_db w)))"
      "accounts (committed (wk_db w)) a \<noteq> None \<longrightarrow> 0 \<le> sum_postings (of_account a) (committed (wk_db w))
        \<and> bigint (sum_postings (of_account a) (committed (wk_db w)))"
      using F(2) [OF _ b(2)] Inr b(1) by (simp_all add: in_flight_def)
    from commit_alone [OF fl ho c v2(1)] v2(2) x show ?thesis by (auto simp: corrected_def)
  qed
qed

section \<open>A validation\<close>

text \<open>Computations that change no table, and computations that at most correct one account.\<close>

definition reads :: "(wk \<Rightarrow> 'a result \<times> wk) \<Rightarrow> bool" where
  "reads m \<longleftrightarrow> (\<forall>w x w'. alone w \<and> handles_ok (wk_db w) \<and> m w = (x, w') \<longrightarrow>
     wk_frame w w' \<and> committed (wk_db w') = committed (wk_db w))"

definition maybe_corrected :: "uuid \<Rightarrow> wk \<Rightarrow> wk \<Rightarrow> bool" where
  "maybe_corrected a w w' \<longleftrightarrow> wk_frame w w' \<and>
     (committed (wk_db w') = committed (wk_db w) \<or> corrected a (wk_db w) (committed (wk_db w')))"

definition corrects :: "uuid \<Rightarrow> (wk \<Rightarrow> 'a result \<times> wk) \<Rightarrow> bool" where
  "corrects a m \<longleftrightarrow> (\<forall>w x w'. alone w \<and> handles_ok (wk_db w) \<and> m w = (x, w') \<longrightarrow> maybe_corrected a w w')"

lemma reads_ctx_Err: "reads ctx_Err"
  by (auto simp: reads_def wk_frame_def alone_def dest!: ctx_Err_same)

lemma reads_call: "(\<And>s y t. m s = (y, t) \<Longrightarrow> same_db s t) \<Longrightarrow> reads (call m)"
  unfolding reads_def using call_read_alone [of m] wk_frame_same by (fastforce simp: same_data_def)

lemma reads_snapshot: "reads (call (GetAccountBalanceSnapshot background a))"
  and reads_postings_sum: "reads (call (GetPostingsSum background a l))"
  by (rule reads_call, erule snapshot_same) (rule reads_call, erule postings_sum_same)

lemma corrects_return: "corrects a (return_r v)"
  by (simp add: corrects_def maybe_corrected_def wk_frame_def)

lemma corrects_correctBalance: "corrects a (correctBalance pw a)"
  by (auto simp: corrects_def maybe_corrected_def dest: correctBalance_alone)

lemma corrects_bind:
  assumes "reads m" and f: "\<And>v. corrects a (f v)"
  shows "corrects a (bind_r m f)"
  unfolding corrects_def
proof (intro allI impI, elim conjE)
  fix w x w' assume w: "alone w" "handles_ok (wk_db w)" and "bind_r m f w = (x, w')"
  from this(3) show "maybe_corrected a w w'"
  proof (cases rule: bind_r_cases)
    case (Err e)
    then show ?thesis using assms(1) w by (auto simp: reads_def maybe_corrected_def)
  next
    case (Ok v u)
    then have u: "wk_frame w u" "committed (wk_db u) = committed (wk_db w)" using assms(1) w by (auto simp: reads_def)
    then have "maybe_corrected a u w'" using f [of v] Ok(2) by (auto simp: corrects_def wk_frame_def)
    with u show ?thesis by (auto simp: maybe_corrected_def corrected_def wk_frame_def)
  qed
qed

lemma corrects_validate_steps: "corrects a (validate_steps k pw a l)"
proof (induction k arbitrary: l)
  case (Suc k)
  show ?case
    unfolding validate_steps.simps Let_def
    by (intro corrects_bind reads_ctx_Err reads_snapshot reads_postings_sum)
      (auto split: prod.splits intro!: corrects_bind reads_snapshot reads_postings_sum Suc corrects_return corrects_correctBalance)
qed (simp add: corrects_correctBalance)

lemma ValidateBalance_alone:
  "ValidateBalance pw a l w = (x, w') \<Longrightarrow> alone w \<Longrightarrow> handles_ok (wk_db w) \<Longrightarrow> maybe_corrected a w w'"
  using corrects_validate_steps [of a maxBalanceVersionSteps pw l]
  unfolding ValidateBalance_def corrects_def by blast

section \<open>A worker on a calm server\<close>

text \<open>The account after a validation against the batch limit \<open>l\<close>.\<close>

definition repair :: "int \<Rightarrow> time \<Rightarrow> uuid \<Rightarrow> tables \<Rightarrow> tables" where
  "repair l now a w = (case accounts w a of None \<Rightarrow> w
     | Some r \<Rightarrow> if psum a (max l (acc_LatestPostingID r)) w = acc_Balance r then w else fix_account a now w)"

text \<open>Every sum of postings the worker may read fits in an \<^verbatim>\<open>int64\<close>, and no full sum is negative.\<close>

definition sums_ok :: "tables \<Rightarrow> bool" where
  "sums_ok w \<longleftrightarrow> (\<forall>a l. bigint (psum a l w)) \<and> (\<forall>a. 0 \<le> sum_postings (of_account a) w)"

lemma sums_ok_full: "sums_ok w \<Longrightarrow> bigint (sum_postings (of_account a) w)"
  by (drule sums_ok_def [THEN iffD1], elim conjE, drule spec [of _ a], drule spec [of _ 0]) (simp add: psum_def)

lemma tx_Exec_quiet_eq:
  assumes "faults s = []" and "open_txs s n = Some (Active u)"
    and "f (postings_id_seq s) (pg_now s) (u (committed s)) = (Inr (a, eff), q)"
  shows "tx_Exec n f s = (Inr a, s\<lparr>open_txs := (open_txs s)(n \<mapsto> Active (eff \<circ> u)), postings_id_seq := q\<rparr>)"
  using assms by (simp add: pg_defs)

lemma correction_accepted:
  assumes "bigint v" and "0 \<le> v"
  shows "\<exists>k eff. correction a v q now w = (Inr (k, eff), q)
    \<and> eff w = upd_row a (fixed_row v (max_posting_id (of_account a) w) now) w"
  using assms
  by (cases "accounts w a")
    (auto simp: correction_def update_account_def fixed_row_def [abs_def] upd_row_def)

lemma correctBalance_calm:
  assumes c: "calm w" and ho: "handles_ok (wk_db w)" and ok: "sums_ok (committed (wk_db w))"
  shows "\<exists>w'. correctBalance pw a w = (Inr (), w') \<and> calm w'
    \<and> committed (wk_db w') = fix_account a (pg_now (wk_db w)) (committed (wk_db w))"
proof -
  let ?s = "wk_db w" and ?n = "next_tx (wk_db w)" and ?t = "committed (wk_db w)"
  let ?v = "sum_postings (of_account a) ?t"
  have v: "bigint ?v" "0 \<le> ?v" using ok sums_ok_full by (auto simp: sums_ok_def)
  have fl: "faults ?s = []" using c by (simp add: calm_def)
  define s1 where "s1 = ?s\<lparr>open_txs := (open_txs ?s)(?n \<mapsto> Active id), next_tx := Suc ?n\<rparr>"
  have b: "call pool_Begin w = (Inr ?n, w\<lparr>wk_db := s1\<rparr>)"
    using c fl by (simp add: call_calm pool_Begin_def next_fault_def set_tx_def s1_def)
  have c1: "calm (w\<lparr>wk_db := s1\<rparr>)" using c fl by (simp add: calm_def s1_def)
  have g: "call (GetPostingsSum (Some ?n) a 0) (w\<lparr>wk_db := s1\<rparr>) = (Inr ?v, w\<lparr>wk_db := s1\<rparr>)"
    using fl v c1
    by (simp add: call_calm GetPostingsSum_def querierFromContext_def q_Exec_def read_stmt_def
        tx_Exec_quiet_eq [where u = id and eff = id] s1_def)
  define eff where "eff = upd_row a (fixed_row ?v (max_posting_id (of_account a) ?t) (pg_now ?s))"
  obtain k eff' where corr: "correction a ?v (postings_id_seq ?s) (pg_now ?s) ?t = (Inr (k, eff'), postings_id_seq ?s)"
    and eff': "eff' ?t = eff ?t"
    using correction_accepted [OF v] unfolding eff_def by blast
  define s2 where "s2 = s1\<lparr>open_txs := (open_txs s1)(?n \<mapsto> Active eff')\<rparr>"
  have u: "call (ApplyBalanceCorrection (Some ?n) a ?v) (w\<lparr>wk_db := s1\<rparr>) = (Inr (), w\<lparr>wk_db := s2\<rparr>)"
    using fl c1 corr
    by (simp add: call_calm ApplyBalanceCorrection_def UpdateBalanceFromContext_def querierFromContext_def q_Exec_def
        tx_Exec_quiet_eq [where u = id and eff = eff'] s1_def s2_def)
  let ?w2 = "(if pw_metrics pw then RecordBalanceCorrection (w\<lparr>wk_db := s2\<rparr>) else w\<lparr>wk_db := s2\<rparr>)"
  have c2: "calm ?w2" and db2: "wk_db ?w2 = s2"
    using c fl by (auto simp: calm_def s1_def s2_def RecordBalanceCorrection_def)
  define s3 where "s3 = s2\<lparr>open_txs := (open_txs s2)(?n := None), committed := eff' ?t\<rparr>"
  have cm: "call (tx_Commit ?n) ?w2 = (Inr (), ?w2\<lparr>wk_db := s3\<rparr>)"
    using fl by (simp only: call_calm [OF c2] db2) (simp add: tx_Commit_def next_fault_def set_tx_def s1_def s2_def s3_def)
  have "correctBalance pw a w = (Inr (), ?w2\<lparr>wk_db := s3\<rparr>)"
    using b g u cm by (simp add: correctBalance_def ReadWrite_def correct_fn_def withTx_def)
  moreover have "calm (?w2\<lparr>wk_db := s3\<rparr>)" "committed s3 = fix_account a (pg_now ?s) ?t"
    using c2 fl eff' by (auto simp: calm_def s1_def s2_def s3_def eff_def fix_account_def)
  ultimately show ?thesis by force
qed

lemma repair_frame [simp]:
  "postings (repair l now a w) = postings w" "transactions (repair l now a w) = transactions w"
  "worker_cursors (repair l now a w) = worker_cursors w"
  by (simp_all add: repair_def fix_account_def split: option.splits)

lemma postings_cong:
  "postings w' = postings w \<Longrightarrow> sum_postings P w' = sum_postings P w \<and> max_posting_id P w' = max_posting_id P w \<and> psum a l w' = psum a l w"
  by (simp add: sum_postings_def max_posting_id_def psum_def)

lemma sums_ok_cong: "postings w' = postings w \<Longrightarrow> sums_ok w' \<longleftrightarrow> sums_ok w"
  by (simp add: sums_ok_def psum_def sum_postings_def)

lemma ValidateBalance_calm:
  assumes c: "calm w" and ho: "handles_ok (wk_db w)" and ok: "sums_ok (committed (wk_db w))"
  shows "\<exists>x w'. ValidateBalance pw a l w = (x, w') \<and> calm w' \<and> \<not> (\<exists>e. x = Inl e \<and> errors_Is e (Driver Ctx_Canceled))
    \<and> committed (wk_db w') = repair l (pg_now (wk_db w)) a (committed (wk_db w))
    \<and> (accounts (committed (wk_db w)) a \<noteq> None \<longrightarrow> x = Inr ())"
proof -
  let ?t = "committed (wk_db w)"
  have fl: "faults (wk_db w) = []" using c by (simp add: calm_def)
  have snap: "call (GetAccountBalanceSnapshot background a) w =
      ((case accounts ?t a of None \<Rightarrow> Inl ErrAccountNotFound | Some r \<Rightarrow> Inr (acc_Balance r, acc_LatestPostingID r)), w)"
    by (simp add: call_calm [OF c] snapshot_quiet [OF fl])
  have sm: "call (GetPostingsSum background a e) w = (Inr (psum a e ?t), w)" for e
    using ok by (simp add: call_calm [OF c] postings_sum_quiet [OF fl] sums_ok_def)
  obtain w' where cb: "correctBalance pw a w = (Inr (), w')" "calm w'" "committed (wk_db w') = fix_account a (pg_now (wk_db w)) ?t"
    using correctBalance_calm [OF c ho ok] by blast
  have step: "maxBalanceVersionSteps = Suc 7" by (simp add: maxBalanceVersionSteps_def)
  show ?thesis
    unfolding ValidateBalance_def step validate_steps.simps
    by (cases "accounts ?t a")
      (auto simp: ctx_Err_calm [OF c] snap sm cb c repair_def max_def Let_def split: if_splits)
qed

lemma alone_calm: "calm w \<Longrightarrow> alone w"
  by (simp add: calm_def alone_def)

lemma validate_all_calm:
  assumes "calm w" and "handles_ok (wk_db w)" and "sums_ok (committed (wk_db w))"
  shows "\<exists>w'. validate_all pw l as w = (False, w') \<and> calm w' \<and> wk_frame w w'
    \<and> committed (wk_db w') = fold (repair l (pg_now (wk_db w))) as (committed (wk_db w))"
  using assms
proof (induction as arbitrary: w)
  case Nil
  then show ?case by (simp add: wk_frame_def alone_calm)
next
  case (Cons a as)
  obtain x w1 where v: "ValidateBalance pw a l w = (x, w1)" "calm w1" "\<not> (\<exists>e. x = Inl e \<and> errors_Is e (Driver Ctx_Canceled))"
    "committed (wk_db w1) = repair l (pg_now (wk_db w)) a (committed (wk_db w))"
    using ValidateBalance_calm [OF Cons.prems] by blast
  have f: "wk_frame w w1"
    using ValidateBalance_alone [OF v(1) alone_calm [OF Cons.prems(1)] Cons.prems(2)] by (simp add: maybe_corrected_def)
  then have ho: "handles_ok (wk_db w1)" and now: "pg_now (wk_db w1) = pg_now (wk_db w)" by (simp_all add: wk_frame_def)
  have "sums_ok (committed (wk_db w1))"
    using Cons.prems(3) sums_ok_cong [of "committed (wk_db w1)" "committed (wk_db w)"] by (simp add: v(4))
  from Cons.IH [OF v(2) ho this] obtain w' where "validate_all pw l as w1 = (False, w')" "calm w'" "wk_frame w1 w'"
    "committed (wk_db w') = fold (repair l (pg_now (wk_db w))) as (committed (wk_db w1))" using now by auto
  with v f show ?case by (cases x) (auto intro: wk_frame_trans)
qed

section \<open>A turn of the loop\<close>

definition cursor_of :: "string \<Rightarrow> tables \<Rightarrow> int" where
  "cursor_of name w = (case worker_cursors w name of None \<Rightarrow> 0 | Some p \<Rightarrow> p)"

definition newest :: "tables \<Rightarrow> int" where
  "newest w = max_posting_id (\<lambda>_. True) w"

definition touched :: "int \<Rightarrow> int \<Rightarrow> tables \<Rightarrow> uuid list" where
  "touched c u w = sort (remdups (map p_AccountID (filter (\<lambda>p. p_ID p > c \<and> p_ID p \<le> u) (postings w))))"

definition set_cursor :: "string \<Rightarrow> int \<Rightarrow> tables \<Rightarrow> tables" where
  "set_cursor name p w = w\<lparr>worker_cursors := (worker_cursors w)(name \<mapsto> p)\<rparr>"

definition turn_tables :: "posting_worker \<Rightarrow> time \<Rightarrow> tables \<Rightarrow> tables" where
  "turn_tables pw now w =
     (let c = cursor_of (pw_workerName pw) w; u = min (c + pw_batchSize pw) (newest w)
      in if c \<ge> u then w
         else set_cursor (pw_workerName pw) u (fold (repair u now) (touched c u w) w))"

text \<open>The cursor a worker reads is in range and does not overflow with a batch added.\<close>

definition turn_ok :: "posting_worker \<Rightarrow> wk \<Rightarrow> bool" where
  "turn_ok pw w \<longleftrightarrow> calm w \<and> handles_ok (wk_db w) \<and> sums_ok (committed (wk_db w))
     \<and> 0 < pw_batchSize pw \<and> 0 \<le> cursor_of (pw_workerName pw) (committed (wk_db w))
     \<and> bigint (newest (committed (wk_db w)) + pw_batchSize pw)
     \<and> cursor_of (pw_workerName pw) (committed (wk_db w)) \<le> newest (committed (wk_db w))"

lemma read_cursor_calm:
  assumes "calm w" and "bigint (cursor_of n (committed (wk_db w)) + b)"
  shows "call (GetCursorPosition n b) w = (Inr (cursor_of n (committed (wk_db w)),
     min (cursor_of n (committed (wk_db w)) + b) (newest (committed (wk_db w)))), w)"
  using assms by (simp add: call_calm GetCursorPosition_def calm_def pool_read_quiet cursor_of_def newest_def min_def Let_def)

lemma active_accounts_calm:
  assumes "calm w" and "c < u"
  shows "call (GetActiveAccounts c u) w = (Inr (touched c u (committed (wk_db w))), w)"
  using assms by (simp add: call_calm GetActiveAccounts_def calm_def pool_read_quiet rows_Err_quiet touched_def)

lemma update_cursor_calm:
  assumes "calm w" and "0 \<le> p"
  shows "call (UpdateCursorPosition n p) w =
    (Inr (), w\<lparr>wk_db := (wk_db w)\<lparr>committed := set_cursor n p (committed (wk_db w))\<rparr>\<rparr>)"
  using assms by (simp add: call_calm UpdateCursorPosition_def calm_def pool_Exec_def upsert_cursor_def next_fault_def set_cursor_def)

lemma back_off_calm: "calm w \<Longrightarrow> back_off pw l w = ((Continue, l), w)"
  by (simp add: back_off_def waitBackoff_def ctx_Err_calm)

lemma fold_repair_frame [simp]:
  "postings (fold (repair l now) as w) = postings w" "transactions (fold (repair l now) as w) = transactions w"
  "worker_cursors (fold (repair l now) as w) = worker_cursors w"
  by (induction as arbitrary: w) simp_all

lemma run_turn_calm:
  assumes "turn_ok pw w"
  shows "\<exists>l' w'. run_turn pw l w = ((Continue, l'), w') \<and> turn_ok pw w' \<and> pg_now (wk_db w') = pg_now (wk_db w)
    \<and> committed (wk_db w') = turn_tables pw (pg_now (wk_db w)) (committed (wk_db w))"
proof -
  let ?t = "committed (wk_db w)" and ?n = "pw_workerName pw"
  let ?c = "cursor_of ?n ?t" and ?m = "newest ?t"
  define u where "u = min (?c + pw_batchSize pw) ?m"
  have c: "calm w" and ho: "handles_ok (wk_db w)" and ok: "sums_ok ?t" and c0: "0 \<le> ?c" "0 < pw_batchSize pw" "?c \<le> ?m"
    and big: "bigint (?m + pw_batchSize pw)"
    using assms by (simp_all add: turn_ok_def)
  have "bigint (?c + pw_batchSize pw)" using big c0 by (simp add: bigint_def)
  note rc = read_cursor_calm [OF c this, folded u_def]
  show ?thesis
  proof (cases "?c \<ge> u")
    case True
    then have "run_turn pw l w = ((Continue, l), w)"
      by (simp add: run_turn_def ctx_Err_calm [OF c] rc back_off_calm [OF c])
    with True assms show ?thesis by (simp add: turn_tables_def Let_def u_def)
  next
    case False
    obtain w4 where v: "validate_all pw u (touched ?c u ?t) w = (False, w4)" "calm w4" "wk_frame w w4"
      "committed (wk_db w4) = fold (repair u (pg_now (wk_db w))) (touched ?c u ?t) ?t"
      using validate_all_calm [OF c ho ok] by blast
    have u0: "0 \<le> u" "?c < u" using False c0 by (auto simp: u_def)
    let ?w5 = "w4\<lparr>wk_db := (wk_db w4)\<lparr>committed := set_cursor ?n u (committed (wk_db w4))\<rparr>\<rparr>"
    have run: "run_turn pw l w = ((Continue, u), ?w5)"
      using u0(2) by (simp add: run_turn_def ctx_Err_calm [OF c] rc active_accounts_calm [OF c] v(1) update_cursor_calm [OF v(2) u0(1)])
    have t5: "committed (wk_db ?w5) = turn_tables pw (pg_now (wk_db w)) ?t"
      using False by (simp add: turn_tables_def v(4) Let_def u_def [symmetric])
    have p5: "postings (committed (wk_db ?w5)) = postings ?t" "cursor_of ?n (committed (wk_db ?w5)) = u"
      by (simp_all add: set_cursor_def v(4) cursor_of_def)
    then have "turn_ok pw ?w5"
      using v(2,3) ok sums_ok_cong [OF p5(1)] c0 u0 big postings_cong [OF p5(1), of "\<lambda>_. True"]
      by (auto simp: turn_ok_def calm_def wk_frame_def handles_ok_def newest_def u_def)
    moreover have "pg_now (wk_db ?w5) = pg_now (wk_db w)" using v(3) by (simp add: wk_frame_def)
    ultimately show ?thesis using run t5 by blast
  qed
qed

section \<open>Settled accounts\<close>

definition settled :: "uuid \<Rightarrow> tables \<Rightarrow> bool" where
  "settled a w \<longleftrightarrow> (\<forall>r. accounts w a = Some r \<longrightarrow> acc_Balance r = sum_postings (of_account a) w)"

lemma settled_fix [simp]: "settled a (fix_account a now w)"
  by (auto simp: settled_def fix_account_def accounts_upd_row fixed_row_def)

lemma settled_repair_other: "settled a w \<Longrightarrow> settled a (repair l now b w)"
  by (cases "a = b")
    (auto simp: repair_def settled_def fix_account_def accounts_upd_row fixed_row_def split: option.splits)

lemma psum_full:
  assumes "\<forall>p\<in>set (postings w). p_AccountID p = a \<longrightarrow> p_ID p \<le> l"
  shows "psum a l w = sum_postings (of_account a) w"
proof -
  have "filter (\<lambda>p. p_AccountID p = a \<and> p_ID p \<le> l) (postings w) = filter (of_account a) (postings w)"
    using assms by (intro filter_cong) auto
  then show ?thesis by (simp add: psum_def sum_postings_def)
qed

lemma settled_repair_self:
  assumes "\<forall>p\<in>set (postings w). p_AccountID p = a \<longrightarrow> p_ID p \<le> l"
  shows "settled a (repair l now a w)"
proof -
  have "psum a (max l m) w = sum_postings (of_account a) w" for m
    using assms by (intro psum_full) auto
  then show ?thesis by (auto simp: repair_def settled_def [of a w] split: option.splits)
qed

lemma settled_fold_repair:
  assumes "settled a w \<or> a \<in> set as \<and> (\<forall>p\<in>set (postings w). p_AccountID p = a \<longrightarrow> p_ID p \<le> l)"
  shows "settled a (fold (repair l now) as w)"
  using assms
proof (induction as arbitrary: w)
  case (Cons b as)
  have "settled a (repair l now b w) \<or> a \<in> set as \<and> (\<forall>p\<in>set (postings (repair l now b w)). p_AccountID p = a \<longrightarrow> p_ID p \<le> l)"
    using Cons.prems settled_repair_self [of w a l now] settled_repair_other [of a w l now b] by auto
  then show ?case using Cons.IH by simp
qed simp

definition swept :: "int \<Rightarrow> string \<Rightarrow> tables \<Rightarrow> bool" where
  "swept c0 name w \<longleftrightarrow> (\<forall>a. c0 < max_posting_id (of_account a) w \<and> max_posting_id (of_account a) w \<le> cursor_of name w \<longrightarrow> settled a w)"

lemma max_posting_id_mem:
  assumes "\<forall>p\<in>set (postings w). 0 < p_ID p" and "0 < max_posting_id P w"
  shows "\<exists>p\<in>set (postings w). P p \<and> p_ID p = max_posting_id P w"
proof -
  from fold_max_mem [of "map p_ID (filter P (postings w))" 0] show ?thesis
    using assms by (auto simp: max_posting_id_fold)
qed

lemma max_posting_id_ge:
  assumes "\<forall>p\<in>set (postings w). 0 < p_ID p" and "p \<in> set (postings w)" and "P p"
  shows "p_ID p \<le> max_posting_id P w"
  using assms by (auto simp: max_posting_id_fold intro: fold_max_ge)

lemma settled_set_cursor [simp]: "settled a (set_cursor n c w) \<longleftrightarrow> settled a w"
  by (simp add: settled_def set_cursor_def sum_postings_def)

lemma turn_tables_swept:
  assumes ids: "\<forall>p\<in>set (postings w). 0 < p_ID p" and "swept c0 (pw_workerName pw) w"
    and c0: "c0 \<le> cursor_of (pw_workerName pw) w" "0 \<le> c0"
  shows "swept c0 (pw_workerName pw) (turn_tables pw now w)"
proof -
  let ?c = "cursor_of (pw_workerName pw) w"
  define u where "u = min (?c + pw_batchSize pw) (newest w)"
  define w' where "w' = fold (repair u now) (touched ?c u w) w"
  have m: "max_posting_id P w' = max_posting_id P w" for P
    using postings_cong [of w' w] by (simp add: w'_def)
  show ?thesis
  proof (cases "?c \<ge> u")
    case True
    with assms(2) show ?thesis by (simp add: turn_tables_def u_def [symmetric] Let_def)
  next
    case False
    have "settled a w'" if a: "c0 < max_posting_id (of_account a) w" "max_posting_id (of_account a) w \<le> u" for a
    proof -
      have le: "\<forall>p\<in>set (postings w). p_AccountID p = a \<longrightarrow> p_ID p \<le> u"
        using max_posting_id_ge [OF ids] a(2) by (meson dual_order.trans)
      have "settled a w \<or> a \<in> set (touched ?c u w)"
      proof (cases "max_posting_id (of_account a) w \<le> ?c")
        case True
        then show ?thesis using assms(2) a(1) by (simp add: swept_def)
      next
        case False
        then obtain p where "p \<in> set (postings w)" "p_AccountID p = a" "p_ID p = max_posting_id (of_account a) w"
          using max_posting_id_mem [OF ids, of "of_account a"] a(1) c0 by auto
        with False a(2) show ?thesis by (auto simp: touched_def)
      qed
      with le show ?thesis unfolding w'_def by (intro settled_fold_repair) auto
    qed
    moreover have "turn_tables pw now w = set_cursor (pw_workerName pw) u w'"
      using False by (simp add: turn_tables_def u_def [symmetric] w'_def Let_def)
    moreover have "cursor_of n (set_cursor n u w') = u" "max_posting_id P (set_cursor n u w') = max_posting_id P w" for n P
      using m by (simp_all add: cursor_of_def set_cursor_def max_posting_id_def)
    ultimately show ?thesis by (simp add: swept_def)
  qed
qed

section \<open>Progress of the cursor\<close>

locale batch_cursor =
  fixes turn :: "'s \<Rightarrow> 's" and ok :: "'s \<Rightarrow> bool" and pos lim :: "'s \<Rightarrow> int" and batch :: int
  assumes batch_pos: "ok s \<Longrightarrow> 0 < batch"
    and ok_turn: "ok s \<Longrightarrow> ok (turn s)"
    and lim_turn: "ok s \<Longrightarrow> lim (turn s) = lim s"
    and pos_le: "ok s \<Longrightarrow> pos s \<le> lim s"
    and pos_turn: "ok s \<Longrightarrow> pos (turn s) = min (pos s + batch) (lim s)"
begin

lemma turns:
  assumes "ok s"
  shows "ok ((turn ^^ n) s) \<and> lim ((turn ^^ n) s) = lim s \<and> pos ((turn ^^ n) s) = min (pos s + int n * batch) (lim s)"
proof (induction n)
  case 0
  then show ?case using assms pos_le by simp
next
  case (Suc n)
  then show ?case using batch_pos [OF assms] by (simp add: ok_turn lim_turn pos_turn algebra_simps min_def)
qed

lemma strictly_advances: "ok s \<Longrightarrow> pos s < lim s \<Longrightarrow> pos s < pos (turn s)"
  using batch_pos pos_turn by fastforce

lemma catches_up:
  assumes "ok s" and "lim s - pos s \<le> int n * batch"
  shows "pos ((turn ^^ n) s) = lim s"
  using turns [OF assms(1), of n] assms(2) by simp

end

definition one_turn :: "posting_worker \<Rightarrow> int \<times> wk \<Rightarrow> int \<times> wk" where
  "one_turn pw s = (case run_turn pw (fst s) (snd s) of ((f, l), w) \<Rightarrow> (l, w))"

lemma turn_tables_cursor:
  assumes "0 < pw_batchSize pw" and "cursor_of (pw_workerName pw) w \<le> newest w"
  shows "cursor_of (pw_workerName pw) (turn_tables pw now w) = min (cursor_of (pw_workerName pw) w + pw_batchSize pw) (newest w)"
    and "postings (turn_tables pw now w) = postings w"
  using assms by (auto simp: turn_tables_def Let_def set_cursor_def cursor_of_def)

lemma one_turn_ok:
  assumes "turn_ok pw (snd s)"
  shows "turn_ok pw (snd (one_turn pw s))"
    and "committed (wk_db (snd (one_turn pw s))) = turn_tables pw (pg_now (wk_db (snd s))) (committed (wk_db (snd s)))"
  using run_turn_calm [OF assms, of "fst s"] by (auto simp: one_turn_def)

interpretation sweep: batch_cursor "one_turn pw" "\<lambda>s. turn_ok pw (snd s)"
  "\<lambda>s. cursor_of (pw_workerName pw) (committed (wk_db (snd s)))" "\<lambda>s. newest (committed (wk_db (snd s)))" "pw_batchSize pw"
proof (unfold_locales, goal_cases)
  case (1 s) then show ?case by (simp add: turn_ok_def)
next
  case (2 s) then show ?case by (rule one_turn_ok)
next
  case (3 s)
  then show ?case
    using one_turn_ok(2) [OF 3] postings_cong [OF turn_tables_cursor(2), of pw "committed (wk_db (snd s))"]
    by (simp add: newest_def turn_ok_def)
next
  case (4 s) then show ?case by (simp add: turn_ok_def)
next
  case (5 s) then show ?case by (simp add: one_turn_ok(2) turn_tables_cursor(1) turn_ok_def)
qed

lemma run_turns_funpow:
  assumes "turn_ok pw w"
  shows "run_turns n pw l w = (one_turn pw ^^ n) (l, w)"
  using assms
proof (induction n arbitrary: l w)
  case (Suc n)
  obtain l' w' where "run_turn pw l w = ((Continue, l'), w')" "turn_ok pw w'"
    using run_turn_calm [OF Suc.prems] by blast
  moreover from this have "one_turn pw (l, w) = (l', w')" by (simp add: one_turn_def)
  ultimately show ?case using Suc.IH by (simp add: funpow_swap1)
qed simp

lemma funpow_swept:
  assumes "turn_ok pw (snd s)" and "\<forall>p\<in>set (postings (committed (wk_db (snd s)))). 0 < p_ID p"
    and "c0 = cursor_of (pw_workerName pw) (committed (wk_db (snd s)))"
  shows "swept c0 (pw_workerName pw) (committed (wk_db (snd ((one_turn pw ^^ n) s))))
    \<and> postings (committed (wk_db (snd ((one_turn pw ^^ n) s)))) = postings (committed (wk_db (snd s)))"
proof (induction n)
  case 0
  then show ?case using assms(3) by (auto simp: swept_def)
next
  case (Suc n)
  let ?s = "(one_turn pw ^^ n) s"
  note ok = sweep.turns [OF assms(1), of n]
  have c: "c0 \<le> cursor_of (pw_workerName pw) (committed (wk_db (snd ?s)))" "0 \<le> c0"
    using ok sweep.pos_le [OF assms(1)] sweep.batch_pos [OF assms(1)] assms(1,3) by (auto simp: turn_ok_def)
  have tok: "turn_ok pw (snd ?s)" using ok by blast
  have "committed (wk_db (snd ((one_turn pw ^^ Suc n) s))) = turn_tables pw (pg_now (wk_db (snd ?s))) (committed (wk_db (snd ?s)))"
    using one_turn_ok(2) [OF tok] by simp
  then show ?case
    using Suc assms(2) turn_tables_swept [OF _ _ c] turn_tables_cursor(2) [of pw "committed (wk_db (snd ?s))"] tok
    by (simp add: turn_ok_def)
qed

end
