(* ===== verification/Worker_Laws.thy ===== *)
theory Worker_Laws
  imports Worker_Facts
begin

text \<open>
  The theorems about the posting worker: what a pass over the postings achieves, what a validation may
  change, why concurrent transfers cause no false alarm, that a cancelled worker stops, and two
  behaviours that go wrong: a correction that races with a transfer and the cursor at shutdown.
\<close>

section \<open>Cancellation\<close>

definition alive_le :: "wk \<Rightarrow> wk \<Rightarrow> bool" where
  "alive_le w w' \<longleftrightarrow> (\<forall>n. wk_alive w = Some n \<longrightarrow> (\<exists>m\<le>n. wk_alive w' = Some m))"

lemma alive_le_refl [simp]: "alive_le w w"
  by (simp add: alive_le_def)

lemma alive_le_trans [trans]: "alive_le w u \<Longrightarrow> alive_le u w' \<Longrightarrow> alive_le w w'"
  unfolding alive_le_def by (meson order_trans)

lemma alive_le_eq: "wk_alive w' = wk_alive w \<Longrightarrow> alive_le w w'"
  by (simp add: alive_le_def)

lemma call_alive: "call m w = (x, w') \<Longrightarrow> alive_le w w'"
  by (rule alive_le_eq) (auto simp: call_def env_step_def Let_def split: prod.splits list.splits)

lemma ctx_Err_alive: "ctx_Err w = (x, w') \<Longrightarrow> alive_le w w'"
  by (auto simp: ctx_Err_def alive_le_def split: option.splits nat.splits)

definition aging :: "(wk \<Rightarrow> 'a result \<times> wk) \<Rightarrow> bool" where
  "aging m \<longleftrightarrow> (\<forall>w x w'. m w = (x, w') \<longrightarrow> alive_le w w')"

lemma aging_basic: "aging (call m)" "aging ctx_Err" "aging (return_r v)"
  by (auto simp: aging_def dest: call_alive ctx_Err_alive)

lemma aging_bind:
  assumes "aging m" and f: "\<And>v. aging (f v)"
  shows "aging (bind_r m f)"
proof -
  have "\<forall>v. aging (f v)" using f by blast
  with assms(1) show ?thesis
    unfolding aging_def by (blast elim: bind_r_cases intro: alive_le_trans)
qed

lemma aging_on_error: "aging m \<Longrightarrow> aging (on_error m g)"
  by (auto simp: aging_def elim!: on_error_cases)

lemma aging_correct_fn: "aging (correct_fn pw a c)"
  unfolding correct_fn_def
  by (intro aging_bind aging_basic) (auto simp: aging_def intro: alive_le_eq)

lemma aging_correctBalance: "aging (correctBalance pw a)"
  unfolding correctBalance_def ReadWrite_def
proof (intro aging_bind aging_on_error aging_basic)
  fix n
  show "aging (\<lambda>s. case correct_fn pw a (withTx background n) s of
      (Inl e, s') \<Rightarrow> (Inl e, snd (call (tx_Rollback n) s'))
    | (Inr v, s') \<Rightarrow> on_error (call (tx_Commit n)) (Wrap ''db: commit failed'') s')"
    using aging_correct_fn [of pw a "withTx background n"] aging_on_error [OF aging_basic(1), of "tx_Commit n" "Wrap ''db: commit failed''"]
    unfolding aging_def by (fastforce split: prod.splits sum.splits intro: alive_le_trans call_alive [OF surjective_pairing])
qed

lemma aging_validate_steps: "aging (validate_steps k pw a l)"
proof (induction k arbitrary: l)
  case (Suc k)
  show ?case
    unfolding validate_steps.simps Let_def
    by (intro aging_bind aging_basic)
      (auto split: prod.splits intro!: aging_bind aging_basic Suc aging_correctBalance)
qed (simp add: aging_correctBalance)

lemma validate_all_alive: "validate_all pw l as w = (b, w') \<Longrightarrow> alive_le w w'"
proof (induction as arbitrary: w)
  case (Cons a as)
  obtain x u where v: "ValidateBalance pw a l w = (x, u)" by fastforce
  have "alive_le w u" using v aging_validate_steps unfolding ValidateBalance_def aging_def by blast
  moreover have "u = w' \<or> validate_all pw l as u = (b, w')" using Cons.prems v by (auto split: sum.splits if_splits)
  ultimately show ?case using Cons.IH alive_le_trans by blast
qed simp

lemma back_off_alive: "back_off pw l w = (x, w') \<Longrightarrow> alive_le w w'"
  by (auto simp: back_off_def waitBackoff_def split: prod.splits sum.splits dest: ctx_Err_alive)

lemma run_turn_ages:
  assumes run: "run_turn pw l w = ((Continue, l'), w')" and n: "wk_alive w = Some n"
  shows "\<exists>m<n. wk_alive w' = Some m"
proof (cases n)
  case 0
  with run n show ?thesis by (simp add: run_turn_def ctx_Err_def)
next
  case (Suc k)
  let ?w1 = "w\<lparr>wk_alive := Some k\<rparr>"
  have c: "ctx_Err w = (Inr (), ?w1)" using n Suc by (simp add: ctx_Err_def)
  have "alive_le ?w1 w'"
    using run unfolding run_turn_def c
    by (auto split: prod.splits sum.splits if_splits bool.splits
        dest!: call_alive validate_all_alive back_off_alive) (meson alive_le_trans)+
  then show ?thesis using Suc by (auto simp: alive_le_def)
qed

lemma run_loop_stops: "wk_alive w = Some n \<Longrightarrow> \<exists>w'. run_loop pw l w = Some w'"
proof (induction n arbitrary: l w rule: less_induct)
  case (less n)
  obtain f l' w' where t: "run_turn pw l w = ((f, l'), w')" by (metis surj_pair)
  show ?case
  proof (cases f)
    case Stop
    then show ?thesis using t by (simp add: run_loop.simps)
  next
    case Continue
    with t run_turn_ages less.prems obtain m where "m < n" "wk_alive w' = Some m" by blast
    from less.IH [OF this, of l'] show ?thesis using t Continue by (simp add: run_loop.simps)
  qed
qed

lemma newest_ge:
  assumes ids: "\<forall>p\<in>set (postings t). 0 < p_ID p" and "0 \<le> newest t"
  shows "max_posting_id (of_account a) t \<le> newest t"
proof (cases "0 < max_posting_id (of_account a) t")
  case True
  from max_posting_id_mem [OF ids True] obtain p where p: "p \<in> set (postings t)" "p_ID p = max_posting_id (of_account a) t"
    by blast
  show ?thesis using max_posting_id_ge [OF ids p(1), of "\<lambda>_. True"] p(2) by (simp add: newest_def)
qed (use assms(2) in simp)

section \<open>A sample worker\<close>

definition sample_worker :: posting_worker where
  "sample_worker = \<lparr>pw_cursor = True, pw_metrics = True, pw_workerName = ''w'', pw_batchSize = 1, pw_backoffTime = 1\<rparr>"

text \<open>The sample tables with ten units missing on the first account.\<close>

definition drifted_tables :: tables where
  "drifted_tables = upd_row 1 (\<lambda>r. r\<lparr>acc_Balance := 90\<rparr>) sample_tables"

definition drifted_wk :: wk where
  "drifted_wk = \<lparr>wk_db = sample_db\<lparr>committed := drifted_tables\<rparr>, wk_env = [], wk_alive = None, wk_corrections = 0\<rparr>"

text \<open>A transfer of 30 from the second account to the first, made by another process.\<close>

definition sample_trx :: transaction where
  "sample_trx = new_transaction 13 0 sample_request"

lemma drifted_postings [simp]: "postings drifted_tables = postings sample_tables"
  by (simp add: drifted_tables_def)

lemma drifted_sums_ok: "sums_ok drifted_tables"
proof -
  have "sums_ok sample_tables"
    by (simp add: sums_ok_def psum_def sum_postings_def sample_tables_def bigint_def)
  then show ?thesis using sums_ok_cong [of drifted_tables sample_tables] by simp
qed

lemma drifted_turn_ok: "turn_ok sample_worker drifted_wk"
proof -
  have "newest drifted_tables = 2" "cursor_of ''w'' drifted_tables = 0" by code_simp+
  then show ?thesis
    using drifted_sums_ok
    by (simp add: turn_ok_def calm_def drifted_wk_def sample_worker_def handles_ok_def sample_db_def bigint_def)
qed

section \<open>A validation among other processes\<close>

text \<open>What the reads of the worker return, and what another process commits between two of them.\<close>

lemma snapshot_Inr:
  assumes "GetAccountBalanceSnapshot background a s = (Inr (b, m), t)"
  shows "\<exists>r. accounts (committed s) a = Some r \<and> b = acc_Balance r \<and> m = acc_LatestPostingID r"
  using assms
  by (auto simp: GetAccountBalanceSnapshot_def querierFromContext_def background_def q_Exec_def
      split: option.splits elim!: bind_r_cases on_error_cases dest!: pool_read_Inr)

lemma postings_sum_Inr:
  assumes "GetPostingsSum background a l s = (Inr v, t)"
  shows "v = psum a l (committed s)"
  using assms
  by (auto simp: GetPostingsSum_def querierFromContext_def background_def q_Exec_def psum_def
      split: if_splits elim!: bind_r_cases on_error_cases dest!: pool_read_Inr)

definition acts :: "(tables \<Rightarrow> tables) \<Rightarrow> pg \<Rightarrow> pg" where
  "acts g s = s\<lparr>committed := g (committed s)\<rparr>"

text \<open>No failure is to come and the context is never cancelled.\<close>

definition unfailing :: "wk \<Rightarrow> bool" where
  "unfailing w \<longleftrightarrow> wk_alive w = None \<and> faults (wk_db w) = []"

lemma call_between:
  assumes "call m w = (x, w1)" and "wk_env w = acts g # es" and same: "\<And>s y t. m s = (y, t) \<Longrightarrow> same_db s t"
  obtains s t where "m s = (x, t)" "committed s = g (committed (wk_db w))" "committed t = g (committed (wk_db w))"
    "w1 = w\<lparr>wk_db := t, wk_env := es\<rparr>" "open_txs t = open_txs (wk_db w)" 
    "unfailing w \<Longrightarrow> faults s = []" 
proof -
  define s0 where "s0 = acts g (wk_db w)"
  define s where "s = (if cancelled w then s0\<lparr>faults := Lost Ctx_Canceled # faults s0\<rparr> else s0)"
  obtain y t where m: "m s = (y, t)" by fastforce
  have r: "y = x" "w1 = w\<lparr>wk_db := t, wk_env := es\<rparr>"
    using assms(1,2) m by (auto simp: call_def env_step_def s_def s0_def cancelled_def split: if_splits)
  show thesis
    by (rule that [of s t])
     (use m r same [OF m] in \<open>auto simp: s_def s0_def acts_def same_db_def unfailing_def cancelled_def\<close>)
qed

text \<open>The version up to which an attempt compares.\<close>

definition version :: "uuid \<Rightarrow> int \<Rightarrow> tables \<Rightarrow> int" where
  "version a l t = (case accounts t a of None \<Rightarrow> l | Some r \<Rightarrow> max l (acc_LatestPostingID r))"

text \<open>At a snapshot the books of the account balance up to its version.\<close>

definition in_balance :: "uuid \<Rightarrow> tables \<Rightarrow> bool" where
  "in_balance a t \<longleftrightarrow> (case accounts t a of None \<Rightarrow> False
     | Some r \<Rightarrow> bigint (acc_Balance r) \<and> acc_Balance r = sum_postings (of_account a) t
         \<and> acc_LatestPostingID r = max_posting_id (of_account a) t)
     \<and> (\<forall>p\<in>set (postings t). 0 < p_ID p)"

text \<open>The postings that appeared for the account are all numbered beyond \<open>e\<close>.\<close>

definition still :: "uuid \<Rightarrow> int \<Rightarrow> tables \<Rightarrow> tables \<Rightarrow> bool" where
  "still a e t t' \<longleftrightarrow> take (length (postings t)) (postings t') = postings t
     \<and> (\<forall>p\<in>set (drop (length (postings t)) (postings t')). p_AccountID p = a \<longrightarrow> e < p_ID p)"

text \<open>The work of the other processes lets the account settle within \<open>k\<close> attempts: at each snapshot its
  books balance; then either every posting that appears before the sum is read is numbered beyond the
  compared version, or the version has moved on when the row is read again, and the account settles
  within the attempts that are left.\<close>

fun settles :: "nat \<Rightarrow> uuid \<Rightarrow> int \<Rightarrow> (tables \<Rightarrow> tables) list \<Rightarrow> tables \<Rightarrow> bool" where
  "settles (Suc k) a l (g1 # g2 # gs) t =
     (let t1 = g1 t; t2 = g2 t1; e = version a l t1
      in in_balance a t1 \<and> 0 < e \<and>
         (still a e t1 t2 \<or>
          bigint (psum a e t2) \<and>
          (case gs of [] \<Rightarrow> False
           | g3 # gs' \<Rightarrow> accounts (g3 t2) a \<noteq> None \<and> e < version a 0 (g3 t2) \<and> settles k a (version a 0 (g3 t2)) gs' (g3 t2))))"
| "settles _ a l gs t = False"

lemma in_balance_sum:
  assumes "in_balance a t" and "accounts t a = Some r" and "0 < version a l t"
  shows "psum a (version a l t) t = acc_Balance r"
  using assms max_posting_id_ge [of t _ "of_account a"]
  by (auto simp: in_balance_def version_def le_max_iff_disj intro!: psum_full)

lemma still_sum:
  assumes "still a e t t'" and "0 < e"
  shows "psum a e t' = psum a e t"
proof -
  define ps where "ps = drop (length (postings t)) (postings t')"
  have ps: "postings t' = postings t @ ps" "\<forall>p\<in>set ps. p_AccountID p = a \<longrightarrow> e < p_ID p"
    using assms(1) by (auto simp: still_def ps_def) (metis append_take_drop_id)
  have "filter (\<lambda>p. p_AccountID p = a \<and> p_ID p \<le> e) ps = []"
    using ps(2) by (fastforce simp: filter_empty_conv)
  then show ?thesis using ps(1) assms(2) by (simp add: psum_def sum_postings_def)
qed

text \<open>What a validation that saw no drift leaves behind: the other processes' work and nothing else.\<close>

definition undisturbed :: "(tables \<Rightarrow> tables) list \<Rightarrow> wk \<Rightarrow> wk \<Rightarrow> bool" where
  "undisturbed gs w w' \<longleftrightarrow> wk_corrections w' = wk_corrections w \<and> open_txs (wk_db w') = open_txs (wk_db w)
     \<and> (\<exists>n. committed (wk_db w') = fold (\<lambda>g. g) (take n gs) (committed (wk_db w)) \<and> wk_env w' = map acts (drop n gs))"

lemma undisturbed_refl: "wk_env w = map acts gs \<Longrightarrow> undisturbed gs w w"
  unfolding undisturbed_def by (intro conjI exI [of _ 0]) simp_all

lemma undisturbed_alive: "undisturbed gs w (w'\<lparr>wk_alive := x\<rparr>) = undisturbed gs w w'"
  "undisturbed gs (w\<lparr>wk_alive := x\<rparr>) w' = undisturbed gs w w'"
  by (simp_all add: undisturbed_def)

lemma undisturbed_step:
  assumes "undisturbed gs w1 w'" and "wk_corrections w1 = wk_corrections w"
    and "committed (wk_db w1) = g (committed (wk_db w))" and "open_txs (wk_db w1) = open_txs (wk_db w)"
  shows "undisturbed (g # gs) w w'"
proof -
  obtain n where "committed (wk_db w') = fold (\<lambda>g. g) (take n gs) (committed (wk_db w1))" "wk_env w' = map acts (drop n gs)"
    using assms(1) by (auto simp: undisturbed_def)
  then show ?thesis using assms unfolding undisturbed_def by (intro conjI exI [of _ "Suc n"]) simp_all
qed

text \<open>One read of the worker, after which the rest raises no alarm.\<close>

lemma read_between:
  assumes run: "bind_r (call m) f w = (x, w')" and env: "wk_env w = map acts (g # gs)"
    and same: "\<And>s y t. m s = (y, t) \<Longrightarrow> same_db s t"
    and val: "\<And>s v t. m s = (Inr v, t) \<Longrightarrow> committed s = g (committed (wk_db w)) \<Longrightarrow> P v"
    and quiet: "\<And>s. faults s = [] \<Longrightarrow> committed s = g (committed (wk_db w)) \<Longrightarrow> \<exists>v. m s = (Inr v, s)"
    and rest: "\<And>v w1. P v \<Longrightarrow> f v w1 = (x, w') \<Longrightarrow> wk_env w1 = map acts gs \<Longrightarrow>
      committed (wk_db w1) = g (committed (wk_db w)) \<Longrightarrow> undisturbed gs w1 w' \<and> (unfailing w1 \<longrightarrow> x = Inr ())"
  shows "undisturbed (g # gs) w w' \<and> (unfailing w \<longrightarrow> x = Inr ())"
proof -
  obtain y w1 where c: "call m w = (y, w1)" by fastforce
  have env': "wk_env w = acts g # map acts gs" using env by simp
  obtain s t where b: "m s = (y, t)" "committed s = g (committed (wk_db w))" "committed t = g (committed (wk_db w))"
    "w1 = w\<lparr>wk_db := t, wk_env := map acts gs\<rparr>" "open_txs t = open_txs (wk_db w)" "unfailing w \<Longrightarrow> faults s = []"
    by (rule call_between [OF c env']) (erule same, rule that, assumption+)
  have step: "undisturbed (g # gs) w w'" if "undisturbed gs w1 w'"
    by (rule undisturbed_step [OF that]) (simp_all add: b)
  have u: "(\<exists>v. y = Inr v) \<and> unfailing w1" if "unfailing w"
    using quiet [OF b(6) [OF that] b(2)] b that by (auto simp: unfailing_def)
  show ?thesis
  proof (cases y)
    case (Inl e)
    with run c have "w' = w1" by (simp add: bind_r_def)
    moreover have "undisturbed gs w1 w1" by (rule undisturbed_refl) (simp add: b)
    ultimately show ?thesis using step u Inl by blast
  next
    case (Inr v)
    with run c have "f v w1 = (x, w')" by (simp add: bind_r_def)
    from rest [OF val this] b Inr step u show ?thesis by fastforce
  qed
qed

lemma version_eq: "accounts t a = Some r \<Longrightarrow>
    (if l < acc_LatestPostingID r then acc_LatestPostingID r else l) = version a l t"
  by (simp add: version_def max_def)

lemma validate_settles:
  assumes "settles k a l gs (committed (wk_db w))" and "wk_env w = map acts gs"
    and "validate_steps k pw a l w = (x, w')"
  shows "undisturbed gs w w' \<and> (unfailing w \<longrightarrow> x = Inr ())"
  using assms
proof (induction k arbitrary: l gs w)
  case (Suc k)
  obtain g1 g2 gs' where gs: "gs = g1 # g2 # gs'" using Suc.prems(1) by (auto elim: settles.elims)
  define t1 where "t1 = g1 (committed (wk_db w))"
  define t2 where "t2 = g2 t1"
  define e where "e = version a l t1"
  have set: "in_balance a t1" "0 < e"
    and cont: "still a e t1 t2 \<or> bigint (psum a e t2) \<and>
      (\<exists>g3 gs''. gs' = g3 # gs'' \<and> accounts (g3 t2) a \<noteq> None \<and> e < version a 0 (g3 t2) \<and>
        settles k a (version a 0 (g3 t2)) gs'' (g3 t2))"
    using Suc.prems(1) by (auto simp: gs Let_def t1_def t2_def e_def split: list.splits)
  then obtain r where r: "accounts t1 a = Some r" and big: "bigint (acc_Balance r)" by (auto simp: in_balance_def split: option.splits)
  have sum: "psum a e t1 = acc_Balance r" unfolding e_def by (rule in_balance_sum [OF set(1) r]) (use set(2) e_def in simp)
  then have big2: "bigint (psum a e t2)" using cont still_sum [OF _ set(2)] big by auto
  let ?last = "\<lambda>(_, refreshedLatest). if refreshedLatest > e then validate_steps k pw a refreshedLatest else correctBalance pw a"
  let ?rest = "bind_r (call (GetPostingsSum background a e)) (\<lambda>postingsSum.
         if postingsSum = acc_Balance r then return_r () else bind_r (call (GetAccountBalanceSnapshot background a)) ?last)"
  have third: "undisturbed gs' w2 w' \<and> (unfailing w2 \<longrightarrow> x = Inr ())"
    if run: "bind_r (call (GetAccountBalanceSnapshot background a)) ?last w2 = (x, w')"
      and w2: "wk_env w2 = map acts gs'" "committed (wk_db w2) = t2" and ne: "psum a e t2 \<noteq> acc_Balance r" for w2
  proof -
    from cont ne sum still_sum [OF _ set(2)] obtain g3 gs'' r' where g3: "gs' = g3 # gs''" "accounts (g3 t2) a = Some r'"
      "e < version a 0 (g3 t2)" "settles k a (version a 0 (g3 t2)) gs'' (g3 t2)" by auto
    then have m: "version a 0 (g3 t2) = acc_LatestPostingID r'" using set(2) by (auto simp: version_def)
    show ?thesis
      unfolding g3(1)
    proof (rule read_between [OF run, where P = "\<lambda>(b, m). m = acc_LatestPostingID r'"])
      show "wk_env w2 = map acts (g3 # gs'')" using w2(1) g3(1) by simp
      show "undisturbed gs'' w3 w' \<and> (unfailing w3 \<longrightarrow> x = Inr ())"
        if "case v of (b, m) \<Rightarrow> m = acc_LatestPostingID r'" "?last v w3 = (x, w')" "wk_env w3 = map acts gs''"
          "committed (wk_db w3) = g3 (committed (wk_db w2))" for v w3
        using Suc.IH [of "acc_LatestPostingID r'" gs'' w3] that g3 m w2(2) by (auto split: prod.splits)
    qed (use w2(2) g3(2) in \<open>auto dest: snapshot_same snapshot_Inr simp: snapshot_quiet\<close>)
  qed
  have second: "undisturbed (g2 # gs') w1 w' \<and> (unfailing w1 \<longrightarrow> x = Inr ())"
    if run: "?rest w1 = (x, w')" and w1: "wk_env w1 = map acts (g2 # gs')" "committed (wk_db w1) = t1" for w1
  proof (rule read_between [OF run w1(1), where P = "\<lambda>v. v = psum a e t2"])
    show "undisturbed gs' w2 w' \<and> (unfailing w2 \<longrightarrow> x = Inr ())"
      if "v = psum a e t2" "(if v = acc_Balance r then return_r ()
          else bind_r (call (GetAccountBalanceSnapshot background a)) ?last) w2 = (x, w')"
        "wk_env w2 = map acts gs'" "committed (wk_db w2) = g2 (committed (wk_db w1))" for v w2
      using that third [of w2] w1(2) undisturbed_refl [OF that(3)] by (auto simp: t2_def return_r_def split: if_splits)
  qed (use w1(2) big2 in \<open>auto dest: postings_sum_same postings_sum_Inr simp: postings_sum_quiet t2_def\<close>)
  have first: "undisturbed gs w0 w' \<and> (unfailing w0 \<longrightarrow> x = Inr ())"
    if run: "bind_r (call (GetAccountBalanceSnapshot background a)) (\<lambda>(balance, latestPostingID).
       bind_r (call (GetPostingsSum background a (if latestPostingID > l then latestPostingID else l))) (\<lambda>postingsSum.
         if postingsSum = balance then return_r ()
         else bind_r (call (GetAccountBalanceSnapshot background a)) (\<lambda>(_, refreshedLatest).
           if refreshedLatest > (if latestPostingID > l then latestPostingID else l) then validate_steps k pw a refreshedLatest
           else correctBalance pw a))) w0 = (x, w')"
      and w0: "wk_env w0 = map acts gs" "committed (wk_db w0) = committed (wk_db w)" for w0
    unfolding gs
  proof (rule read_between [OF run, where P = "\<lambda>v. v = (acc_Balance r, acc_LatestPostingID r)"])
    show "wk_env w0 = map acts (g1 # g2 # gs')" using w0(1) gs by simp
    show "undisturbed (g2 # gs') w1 w' \<and> (unfailing w1 \<longrightarrow> x = Inr ())"
      if "v = (acc_Balance r, acc_LatestPostingID r)" "(case v of (balance, latestPostingID) \<Rightarrow>
       bind_r (call (GetPostingsSum background a (if latestPostingID > l then latestPostingID else l))) (\<lambda>postingsSum.
         if postingsSum = balance then return_r ()
         else bind_r (call (GetAccountBalanceSnapshot background a)) (\<lambda>(_, refreshedLatest).
           if refreshedLatest > (if latestPostingID > l then latestPostingID else l) then validate_steps k pw a refreshedLatest
           else correctBalance pw a))) w1 = (x, w')"
        "wk_env w1 = map acts (g2 # gs')" "committed (wk_db w1) = g1 (committed (wk_db w0))" for v w1
      by (rule second [OF that(2) [unfolded that(1) prod.case version_eq [OF r], folded e_def] that(3)])
        (use that(4) w0(2) in \<open>simp add: t1_def\<close>)
  qed (use w0(2) r in \<open>auto dest: snapshot_same snapshot_Inr simp: snapshot_quiet t1_def\<close>)
  obtain y w0 where c: "ctx_Err w = (y, w0)" by fastforce
  then obtain al where w0: "w0 = w\<lparr>wk_alive := al\<rparr>" and al: "unfailing w \<Longrightarrow> y = Inr () \<and> unfailing w0"
    by (cases w) (auto simp: ctx_Err_def unfailing_def split: option.splits nat.splits)
  show ?case
  proof (cases y)
    case (Inl err)
    then have "w' = w0" using Suc.prems(3) c by (simp add: bind_r_def)
    then show ?thesis using Inl al undisturbed_refl [OF Suc.prems(2)] by (auto simp: w0 undisturbed_alive)
  next
    case (Inr u)
    have "undisturbed gs w0 w' \<and> (unfailing w0 \<longrightarrow> x = Inr ())"
      by (rule first) (use Suc.prems(2,3) c Inr w0 in \<open>simp_all add: bind_r_def [of ctx_Err] Let_def\<close>)
    then show ?thesis using al by (auto simp: w0 undisturbed_alive)
  qed
qed simp

lemma call_env:
  assumes "wk_env w = f # es" and "wk_alive w = None" and "m (f (wk_db w)) = (x, t)"
  shows "call m w = (x, w\<lparr>wk_db := t, wk_env := es\<rparr>)"
  using assms by (simp add: call_def env_step_def cancelled_def)

lemma call_env_end:
  assumes "wk_env w = []" and "wk_alive w = None" and "m (wk_db w) = (x, t)"
  shows "call m w = (x, w\<lparr>wk_db := t\<rparr>)"
  using assms by (simp add: call_def env_step_def cancelled_def)

text \<open>The correction with another process's commit between the sum and the update.\<close>

lemma correctBalance_raced:
  assumes env: "wk_env w = [id, id, acts g]" and uf: "unfailing w"
    and v: "v = sum_postings (of_account a) (committed (wk_db w))" "0 \<le> v" "bigint v"
  defines "t' \<equiv> g (committed (wk_db w))"
  shows "\<exists>w'. correctBalance pw a w = (Inr (), w')
    \<and> committed (wk_db w') = upd_row a (fixed_row v (max_posting_id (of_account a) t') (pg_now (wk_db w))) t'
    \<and> wk_corrections w' = wk_corrections w + (if pw_metrics pw then 1 else 0)"
proof -
  let ?s = "wk_db w" and ?n = "next_tx (wk_db w)"
  have fl: "faults ?s = []" and al: "wk_alive w = None" using uf by (simp_all add: unfailing_def)
  define s1 where "s1 = ?s\<lparr>open_txs := (open_txs ?s)(?n \<mapsto> Active id), next_tx := Suc ?n\<rparr>"
  have b: "call pool_Begin w = (Inr ?n, w\<lparr>wk_db := s1, wk_env := [id, acts g]\<rparr>)"
    by (rule call_env [OF env al]) (simp add: fl pool_Begin_def next_fault_def set_tx_def s1_def)
  have sm: "call (GetPostingsSum (Some ?n) a 0) (w\<lparr>wk_db := s1, wk_env := [id, acts g]\<rparr>)
      = (Inr v, w\<lparr>wk_db := s1, wk_env := [acts g]\<rparr>)"
    by (subst call_env [where f = id and es = "[acts g]" and x = "Inr v" and t = s1])
      (use fl v al in \<open>simp_all add: GetPostingsSum_def querierFromContext_def q_Exec_def read_stmt_def
        tx_Exec_quiet_eq [where u = id and eff = id] s1_def\<close>)
  obtain k eff where corr: "correction a v (postings_id_seq ?s) (pg_now ?s) t' = (Inr (k, eff), postings_id_seq ?s)"
    and eff: "eff t' = upd_row a (fixed_row v (max_posting_id (of_account a) t') (pg_now ?s)) t'"
    using correction_accepted [OF v(3,2)] by blast
  define s2 where "s2 = (acts g s1)\<lparr>open_txs := (open_txs s1)(?n \<mapsto> Active eff)\<rparr>"
  have up: "call (ApplyBalanceCorrection (Some ?n) a v) (w\<lparr>wk_db := s1, wk_env := [acts g]\<rparr>)
      = (Inr (), w\<lparr>wk_db := s2, wk_env := []\<rparr>)"
    by (subst call_env [where f = "acts g" and es = "[]" and x = "Inr ()" and t = s2])
      (use fl al corr in \<open>simp_all add: ApplyBalanceCorrection_def UpdateBalanceFromContext_def querierFromContext_def
        q_Exec_def tx_Exec_quiet_eq [where u = id and eff = eff] s1_def s2_def acts_def t'_def\<close>)
  let ?w2 = "(if pw_metrics pw then RecordBalanceCorrection (w\<lparr>wk_db := s2, wk_env := []\<rparr>) else w\<lparr>wk_db := s2, wk_env := []\<rparr>)"
  define s3 where "s3 = s2\<lparr>open_txs := (open_txs s2)(?n := None), committed := eff t'\<rparr>"
  have cm: "call (tx_Commit ?n) ?w2 = (Inr (), ?w2\<lparr>wk_db := s3\<rparr>)"
    by (rule call_env_end)
      (use fl al in \<open>auto simp: RecordBalanceCorrection_def tx_Commit_def next_fault_def set_tx_def s1_def s2_def s3_def acts_def t'_def\<close>)
  have "correctBalance pw a w = (Inr (), ?w2\<lparr>wk_db := s3\<rparr>)"
    using b sm up cm by (simp add: correctBalance_def ReadWrite_def correct_fn_def withTx_def)
  then show ?thesis using eff by (auto simp: s3_def RecordBalanceCorrection_def)
qed

lemma ValidateBalance_raced:
  assumes env: "wk_env w = replicate 5 id @ [acts g]" and uf: "unfailing w"
    and row: "accounts (committed (wk_db w)) a = Some r" and big: "bigint (psum a (version a l (committed (wk_db w))) (committed (wk_db w)))"
    and drift: "psum a (version a l (committed (wk_db w))) (committed (wk_db w)) \<noteq> acc_Balance r"
    and v: "v = sum_postings (of_account a) (committed (wk_db w))" "0 \<le> v" "bigint v"
  defines "t' \<equiv> g (committed (wk_db w))"
  shows "\<exists>w'. ValidateBalance pw a l w = (Inr (), w')
    \<and> committed (wk_db w') = upd_row a (fixed_row v (max_posting_id (of_account a) t') (pg_now (wk_db w))) t'
    \<and> wk_corrections w' = wk_corrections w + (if pw_metrics pw then 1 else 0)"
proof -
  let ?e = "version a l (committed (wk_db w))"
  have fl: "faults (wk_db w) = []" and al: "wk_alive w = None" using uf by (simp_all add: unfailing_def)
  have rep: "replicate 5 id = [id, id, id, id, id::pg \<Rightarrow> pg]" by (simp add: eval_nat_numeral)
  have env5: "wk_env w = [id, id, id, id, id, acts g]" using env rep by simp
  have c1: "call (GetAccountBalanceSnapshot background a) w =
      (Inr (acc_Balance r, acc_LatestPostingID r), w\<lparr>wk_db := wk_db w, wk_env := [id, id, id, id, acts g]\<rparr>)"
    by (rule call_env [OF env5 al]) (simp add: snapshot_quiet [OF fl] row)
  have c2: "call (GetPostingsSum background a ?e) (w\<lparr>wk_db := wk_db w, wk_env := [id, id, id, id, acts g]\<rparr>) =
      (Inr (psum a ?e (committed (wk_db w))), w\<lparr>wk_db := wk_db w, wk_env := [id, id, id, acts g]\<rparr>)"
    by (subst call_env [where f = id]) (simp_all add: postings_sum_quiet [OF fl] big al, simp)
  have c3: "call (GetAccountBalanceSnapshot background a) (w\<lparr>wk_db := wk_db w, wk_env := [id, id, id, acts g]\<rparr>) =
      (Inr (acc_Balance r, acc_LatestPostingID r), w\<lparr>wk_db := wk_db w, wk_env := [id, id, acts g]\<rparr>)"
    by (subst call_env [where f = id]) (simp_all add: snapshot_quiet [OF fl] row al, simp)
  have "\<exists>w'. correctBalance pw a (w\<lparr>wk_db := wk_db w, wk_env := [id, id, acts g]\<rparr>) = (Inr (), w')
    \<and> committed (wk_db w') = upd_row a (fixed_row v (max_posting_id (of_account a) t') (pg_now (wk_db w))) t'
    \<and> wk_corrections w' = wk_corrections w + (if pw_metrics pw then 1 else 0)"
    using correctBalance_raced [of "w\<lparr>wk_db := wk_db w, wk_env := [id, id, acts g]\<rparr>" g v a pw] uf v
    by (simp add: unfailing_def t'_def)
  moreover have "ctx_Err w = (Inr (), w)" using al by (simp add: ctx_Err_def)
  moreover have "acc_LatestPostingID r \<le> ?e" using row by (simp add: version_def)
  moreover have step: "maxBalanceVersionSteps = Suc 7" by (simp add: maxBalanceVersionSteps_def)
  ultimately show ?thesis
    using c1 c2 c3 drift
    unfolding ValidateBalance_def step validate_steps.simps Let_def
    by (simp add: version_eq [OF row])
qed

section \<open>Theorems\<close>

text \<open>C20. A pass of the worker repairs the books. Run alone on a server that answers, with every sum in
  the range of an \<^verbatim>\<open>int64\<close> and none negative, after as many turns as batches are needed the cursor
  stands at the newest posting, every account whose newest posting lies beyond the starting cursor has
  the sum of its postings as its balance, no posting was changed, and no turn ended the run.\<close>

theorem worker_pass_settles:
  assumes ok: "turn_ok pw w" and ids: "\<forall>p\<in>set (postings (committed (wk_db w))). 0 < p_ID p"
    and n: "newest (committed (wk_db w)) - cursor_of (pw_workerName pw) (committed (wk_db w)) \<le> int n * pw_batchSize pw"
    and run: "run_turns n pw l w = (l', w')"
  shows "cursor_of (pw_workerName pw) (committed (wk_db w')) = newest (committed (wk_db w))
    \<and> postings (committed (wk_db w')) = postings (committed (wk_db w))
    \<and> (\<forall>a r. cursor_of (pw_workerName pw) (committed (wk_db w)) < max_posting_id (of_account a) (committed (wk_db w))
          \<and> accounts (committed (wk_db w')) a = Some r
        \<longrightarrow> acc_Balance r = sum_postings (of_account a) (committed (wk_db w')))"
proof -
  let ?t = "committed (wk_db w)" and ?t' = "committed (wk_db w')"
  have w': "(l', w') = (one_turn pw ^^ n) (l, w)" using run run_turns_funpow [OF ok] by simp
  have tok: "turn_ok pw (snd (l, w))" using ok by simp
  have cur: "cursor_of (pw_workerName pw) ?t' = newest ?t"
    using sweep.catches_up [OF tok, of n] n w' by (metis snd_conv)
  have sw: "swept (cursor_of (pw_workerName pw) ?t) (pw_workerName pw) ?t'" and ps: "postings ?t' = postings ?t"
    using funpow_swept [OF tok _ refl, of n] ids w' by (metis snd_conv)+
  have max: "max_posting_id (of_account a) ?t' = max_posting_id (of_account a) ?t" for a
    using postings_cong [OF ps] by blast
  have "max_posting_id (of_account a) ?t \<le> newest ?t" for a
    by (rule newest_ge [OF ids]) (use ok in \<open>simp add: turn_ok_def\<close>)
  then show ?thesis using sw cur ps max by (auto simp: swept_def settled_def)
qed

theorem worker_pass_settles_witness:
  "map_option acc_Balance (accounts drifted_tables 1) = Some 90
   \<and> map_option acc_Balance (accounts (committed (wk_db (snd (run_turns 2 sample_worker 0 drifted_wk)))) 1) = Some 100"
proof -
  let ?w' = "snd (run_turns 2 sample_worker 0 drifted_wk)"
  have e: "newest drifted_tables = 2" "cursor_of ''w'' drifted_tables = 0" "max_posting_id (of_account 1) drifted_tables = 1"
    "sum_postings (of_account 1) sample_tables = 100" "map_option acc_Balance (accounts drifted_tables 1) = Some 90"
    "accounts (committed (wk_db ?w')) 1 \<noteq> None"
    by code_simp+
  have ids: "\<forall>p\<in>set (postings (committed (wk_db drifted_wk))). 0 < p_ID p"
    by (simp add: drifted_wk_def sample_tables_def)
  have "run_turns 2 sample_worker 0 drifted_wk = (fst (run_turns 2 sample_worker 0 drifted_wk), ?w')" by simp
  from worker_pass_settles [OF drifted_turn_ok ids _ this] e
  have p: "postings (committed (wk_db ?w')) = postings sample_tables"
    and b: "\<And>r. accounts (committed (wk_db ?w')) 1 = Some r \<Longrightarrow> acc_Balance r = sum_postings (of_account 1) (committed (wk_db ?w'))"
    by (auto simp: drifted_wk_def sample_worker_def)
  show ?thesis using b e postings_cong [OF p, of "of_account 1"] by auto
qed

text \<open>C21. A validation is safe under every pattern of driver failures and cancellation: run alone, it
  leaves the tables as they were or replaces the row of its account by the sum of its postings and
  their newest id, never a negative or overflowing one, and touches no other row and no other table;
  no database transaction stays open.\<close>

theorem ValidateBalance_safe:
  assumes "ValidateBalance pw a l w = (x, w')" and "wk_env w = []" and "handles_ok (wk_db w)"
  defines "t \<equiv> committed (wk_db w)" and "t' \<equiv> committed (wk_db w')"
  shows "open_txs (wk_db w') = open_txs (wk_db w) \<and> handles_ok (wk_db w')
    \<and> postings t' = postings t \<and> transactions t' = transactions t \<and> worker_cursors t' = worker_cursors t
    \<and> (\<forall>b. b \<noteq> a \<longrightarrow> accounts t' b = accounts t b)
    \<and> (accounts t' a = accounts t a
       \<or> (\<exists>r. accounts t a = Some r \<and> 0 \<le> sum_postings (of_account a) t \<and> bigint (sum_postings (of_account a) t)
            \<and> accounts t' a = Some (r\<lparr>acc_Balance := sum_postings (of_account a) t,
                acc_LatestPostingID := max_posting_id (of_account a) t, acc_UpdatedAt := pg_now (wk_db w)\<rparr>)))"
proof -
  have "alone w" using assms(2) by (simp add: alone_def)
  from ValidateBalance_alone [OF assms(1) this assms(3)] show ?thesis
    unfolding maybe_corrected_def wk_frame_def t_def t'_def
    by (cases "accounts (committed (wk_db w)) a")
      (auto simp: corrected_def fix_account_def accounts_upd_row fixed_row_def)
qed

theorem ValidateBalance_safe_witness:
  "postings (committed (wk_db (snd (ValidateBalance sample_worker 1 2
      (drifted_wk\<lparr>wk_db := (wk_db drifted_wk)\<lparr>faults := [Fine, Fine, Fine, Fine, Fine, Lost Conn_Error]\<rparr>\<rparr>))))) = postings sample_tables"
proof -
  let ?w = "drifted_wk\<lparr>wk_db := (wk_db drifted_wk)\<lparr>faults := [Fine, Fine, Fine, Fine, Fine, Lost Conn_Error]\<rparr>\<rparr>"
  have "wk_env ?w = []" "handles_ok (wk_db ?w)" by (simp_all add: drifted_wk_def sample_db_def handles_ok_def)
  from ValidateBalance_safe [OF prod.collapse [symmetric] this] show ?thesis by (simp add: drifted_wk_def)
qed

text \<open>C22. Concurrent transfers raise no false alarm, under every pattern of driver failures and
  cancellation. Other processes commit work before each read of the worker. When the account settles
  within eight attempts (at each snapshot its books balance, and either what commits before the sum
  is read is numbered beyond the compared version, or the version has moved when the row is read
  again), the validation corrects nothing and counts nothing: the tables at its end are what the
  other processes made of them. Without failures and cancellation it returns no error.\<close>

theorem ValidateBalance_no_false_alarm:
  assumes "wk_env w = map acts gs" and "settles 8 a l gs (committed (wk_db w))"
    and "ValidateBalance pw a l w = (x, w')"
  shows "wk_corrections w' = wk_corrections w \<and> open_txs (wk_db w') = open_txs (wk_db w)
    \<and> (\<exists>n. committed (wk_db w') = fold (\<lambda>g. g) (take n gs) (committed (wk_db w)) \<and> wk_env w' = map acts (drop n gs))
    \<and> (wk_alive w = None \<and> faults (wk_db w) = [] \<longrightarrow> x = Inr ())"
proof -
  have "validate_steps 8 pw a l w = (x, w')"
    using assms(3) by (simp add: ValidateBalance_def maxBalanceVersionSteps_def)
  from validate_settles [OF assms(2,1) this] show ?thesis by (simp add: undisturbed_def unfailing_def)
qed

text \<open>A transfer of 30 from the second account commits late, with a posting numbered below the version
  the worker compares, and a second transfer moves the version on: the first attempt sees a
  difference, the second sees none.\<close>

definition late_transfer :: "tables \<Rightarrow> tables" where
  "late_transfer = transfer_tables sample_trx 2 5"

definition next_transfer :: "tables \<Rightarrow> tables" where
  "next_transfer = transfer_tables (sample_trx\<lparr>t_ID := 14, t_IdempotencyKey := 24, t_Amount := 10\<rparr>) 4 5"

theorem ValidateBalance_no_false_alarm_witness:
  "psum 2 3 (late_transfer sample_tables) \<noteq> 50
   \<and> fst (ValidateBalance sample_worker 2 3
       (drifted_wk\<lparr>wk_db := sample_db, wk_env := map acts [id, late_transfer, next_transfer, id, id]\<rparr>)) = Inr ()
   \<and> wk_corrections (snd (ValidateBalance sample_worker 2 3
       (drifted_wk\<lparr>wk_db := sample_db, wk_env := map acts [id, late_transfer, next_transfer, id, id]\<rparr>))) = 0"
proof -
  have s: "settles 8 2 3 [id, late_transfer, next_transfer, id, id] sample_tables"
    "psum 2 3 (late_transfer sample_tables) \<noteq> 50"
    by code_simp+
  show ?thesis
    using ValidateBalance_no_false_alarm [of "drifted_wk\<lparr>wk_db := sample_db,
        wk_env := map acts [id, late_transfer, next_transfer, id, id]\<rparr>" "[id, late_transfer, next_transfer, id, id]" 2 3 sample_worker, OF _ _ prod.collapse [symmetric]] s
    by (simp add: drifted_wk_def)
qed

text \<open>C23. A correction undoes a concurrent transfer. The worker reads the full sum of the postings and
  then writes it without holding the row. On every account that drifted and whose row stands still
  until then, whatever another process commits between the two statements is overwritten: the
  validation reports success (and counts a correction), the balance is the old sum, the newest posting id is
  the new one, so that the balance misses the amounts of exactly the postings the other process added.\<close>

theorem correction_loses_transfer:
  assumes env: "wk_env w = replicate 5 id @ [acts g]" and uf: "wk_alive w = None" "faults (wk_db w) = []"
  defines "t \<equiv> committed (wk_db w)"
  assumes row: "accounts t a = Some r"
    and drift: "psum a (max l (acc_LatestPostingID r)) t \<noteq> acc_Balance r"
      "bigint (psum a (max l (acc_LatestPostingID r)) t)"
    and full: "0 \<le> sum_postings (of_account a) t" "bigint (sum_postings (of_account a) t)"
    and other: "accounts (g t) a = Some r'" "postings (g t) = postings t @ ps"
  shows "\<exists>w' r''. ValidateBalance pw a l w = (Inr (), w')
    \<and> wk_corrections w' = wk_corrections w + (if pw_metrics pw then 1 else 0)
    \<and> accounts (committed (wk_db w')) a = Some r''
    \<and> acc_Balance r'' = sum_postings (of_account a) t
    \<and> acc_LatestPostingID r'' = max_posting_id (of_account a) (committed (wk_db w'))
    \<and> sum_postings (of_account a) (committed (wk_db w'))
        = acc_Balance r'' + (\<Sum>p\<leftarrow>filter (of_account a) ps. p_Amount p)"
proof -
  have v: "version a l (committed (wk_db w)) = max l (acc_LatestPostingID r)"
    using row by (simp add: version_def t_def)
  have "unfailing w" using uf by (simp add: unfailing_def)
  from ValidateBalance_raced [OF env this row [unfolded t_def] _ _ refl, of l pw] drift full obtain w' where
    w': "ValidateBalance pw a l w = (Inr (), w')" "wk_corrections w' = wk_corrections w + (if pw_metrics pw then 1 else 0)"
    "committed (wk_db w') = upd_row a (fixed_row (sum_postings (of_account a) t) (max_posting_id (of_account a) (g t)) (pg_now (wk_db w))) (g t)"
    by (auto simp: v t_def)
  then have p: "postings (committed (wk_db w')) = postings t @ ps" using other(2) by simp
  then show ?thesis
    using w' other postings_cong [of "committed (wk_db w')" "g t" "of_account a"]
    by (auto simp: accounts_upd_row fixed_row_def sum_postings_def)
qed

theorem correction_loses_transfer_witness:
  "\<exists>w' r. ValidateBalance sample_worker 1 2 (drifted_wk\<lparr>wk_env := replicate 5 id @ [acts late_transfer]\<rparr>) = (Inr (), w')
    \<and> wk_corrections w' = 1 \<and> accounts (committed (wk_db w')) 1 = Some r \<and> acc_Balance r = 100
    \<and> sum_postings (of_account 1) (committed (wk_db w')) = 130"
proof -
  let ?w = "drifted_wk\<lparr>wk_env := replicate 5 id @ [acts late_transfer]\<rparr>"
  obtain r where r: "accounts drifted_tables 1 = Some r" "acc_Balance r = 90" "acc_LatestPostingID r = 1"
    by (simp add: drifted_tables_def sample_tables_def accounts_upd_row)
  have e: "psum 1 2 drifted_tables = 100" "sum_postings (of_account 1) drifted_tables = 100"
    "accounts (late_transfer drifted_tables) 1 \<noteq> None" by code_simp+
  have p: "postings (late_transfer drifted_tables) = postings drifted_tables @ number_postings 2 (transfer_postings sample_trx)"
    by (simp add: late_transfer_def transfer_tables_def)
  have "(\<Sum>p\<leftarrow>filter (of_account 1) (number_postings 2 (transfer_postings sample_trx)). p_Amount p) = 30" by code_simp
  moreover obtain r' where "accounts (late_transfer drifted_tables) 1 = Some r'" using e(3) by auto
  ultimately show ?thesis
    using correction_loses_transfer [of ?w late_transfer 1 r 2 r'
        "number_postings 2 (transfer_postings sample_trx)" sample_worker] r e p
    by (auto simp: drifted_wk_def sample_worker_def bigint_def)
qed

text \<open>C24. A cancelled worker stops: whatever the database and the other processes do, when the context
  ends within finitely many observations, \<^verbatim>\<open>Run\<close> returns.\<close>

theorem Run_stops:
  assumes "wk_alive w = Some n"
  shows "\<exists>w'. Run pw w = Some w'"
  using run_loop_stops [OF assms] by (simp add: Run_def)

theorem Run_stops_witness: "\<exists>w'. Run sample_worker (drifted_wk\<lparr>wk_alive := Some 3\<rparr>) = Some w'"
  by (rule Run_stops [of _ 3]) simp

text \<open>C25. The cursor is not saved at shutdown. The branch taken when the context is done passes that same
  context to \<^verbatim>\<open>UpdateCursorPosition\<close>, so the statement fails and the tables stay as they are.\<close>

theorem shutdown_saves_nothing:
  assumes "wk_alive w = Some 0" and "wk_env w = []"
  shows "\<exists>w'. run_turn pw lastUpper w = ((Stop, lastUpper), w') \<and> committed (wk_db w') = committed (wk_db w)"
  using assms
  by (simp add: run_turn_def ctx_Err_def call_def env_step_def cancelled_def UpdateCursorPosition_def on_error_def
      pool_Exec_def next_fault_def)

theorem shutdown_saves_nothing_witness:
  "\<exists>w'. run_turn sample_worker 2 (drifted_wk\<lparr>wk_alive := Some 0\<rparr>) = ((Stop, 2), w')
     \<and> committed (wk_db w') = drifted_tables"
  using shutdown_saves_nothing [of "drifted_wk\<lparr>wk_alive := Some 0\<rparr>" sample_worker 2] by (simp add: drifted_wk_def)

end
