(* ===== verification/Stats_UC.thy ===== *)
theory Stats_UC
  imports Worker_Laws
begin

text \<open>
  The way of a committed transfer to its readers: \<^verbatim>\<open>Producer.PublishTransaction\<close> and \<^verbatim>\<open>Consumer.Run\<close> of
  \<^verbatim>\<open>internal/infra/kafka\<close>, \<^verbatim>\<open>TransactionCacheProjector\<close> of \<^verbatim>\<open>internal/usecase/transaction_cache.go\<close>,
  which copies each message into the cache, and \<^verbatim>\<open>StatsUseCase.GetTransaction\<close> of
  \<^verbatim>\<open>internal/usecase/stats.go\<close>, which reads the cache first and the database second. The Kafka client is
  a parameter; the locale \<open>kafka_broker\<close> states what its calls do to one partition.
\<close>

section \<open>The Kafka client\<close>

record message =
  msg_Key :: "byte list"
  msg_Value :: string
  msg_Offset :: nat

record 'k kafka =
  k_WriteMessages :: "byte list \<Rightarrow> string \<Rightarrow> 'k \<Rightarrow> error option \<times> 'k"
  k_FetchMessage :: "'k \<Rightarrow> (error + message) \<times> 'k"
  k_CommitMessages :: "message \<Rightarrow> 'k \<Rightarrow> error option \<times> 'k"
  k_ctxErr :: "'k \<Rightarrow> error option"

text \<open>A write may or may not reach the broker, whatever it returns: the gateway's writer is asynchronous
  and reports no failed delivery. The committed offset of a group is the one
  after the last message it committed.\<close>

locale kafka_broker =
  fixes K :: "'k kafka" and log :: "'k \<Rightarrow> message list" and pos off :: "'k \<Rightarrow> nat"
  assumes write_law: "k_WriteMessages K key v k = (e, k') \<Longrightarrow> pos k' = pos k \<and> off k' = off k \<and>
      (log k' = log k @ [\<lparr>msg_Key = key, msg_Value = v, msg_Offset = length (log k)\<rparr>] \<or> log k' = log k)"
    and fetch_law: "k_FetchMessage K k = (x, k') \<Longrightarrow> log k' = log k \<and> off k' = off k \<and>
      (case x of Inr m \<Rightarrow> pos k < length (log k) \<and> m = log k ! pos k \<and> pos k' = Suc (pos k) | Inl e \<Rightarrow> pos k' = pos k)"
    and commit_law: "k_CommitMessages K m k = (e, k') \<Longrightarrow> log k' = log k \<and> pos k' = pos k \<and>
      (off k' = Suc (msg_Offset m) \<or> e \<noteq> None \<and> off k' = off k)"

section \<open>Producer and consumer\<close>

definition PublishTransaction :: "ext \<Rightarrow> 'k kafka \<Rightarrow> transaction \<Rightarrow> 'k \<Rightarrow> unit result \<times> 'k" where
  "PublishTransaction E K tx k =
     (case json_Marshal E tx of
        None \<Rightarrow> (Inl (Wrap ''kafka: marshal transaction'' (Errorf ''json'')), k)
      | Some payload \<Rightarrow>
          (case k_WriteMessages K (uuid_bytes (t_ID tx)) payload k of
             (None, k') \<Rightarrow> (Inr (), k')
           | (Some e, k') \<Rightarrow> (Inl (Wrap ''kafka: publish transaction'' e), k')))"

text \<open>One turn of \<^verbatim>\<open>Consumer.Run\<close>: \<open>Some e\<close> when it returns the error \<open>e\<close>.\<close>

definition consumer_turn ::
  "'k kafka \<Rightarrow> (message \<Rightarrow> 's \<Rightarrow> unit result \<times> 's) \<Rightarrow> 'k \<times> 's \<Rightarrow> error option \<times> 'k \<times> 's" where
  "consumer_turn K handle = (\<lambda>(k, s).
     case k_FetchMessage K k of
       (Inl err, k') \<Rightarrow> (Some (case k_ctxErr K k' of Some ce \<Rightarrow> ce | None \<Rightarrow> err), k', s)
     | (Inr msg, k') \<Rightarrow>
         (case handle msg s of
            (Inl _, s') \<Rightarrow> (None, k', s')
          | (Inr _, s') \<Rightarrow> (case k_CommitMessages K msg k' of (e, k'') \<Rightarrow> (e, k'', s'))))"

partial_function (option) consumer_Run ::
  "'k kafka \<Rightarrow> (message \<Rightarrow> 's \<Rightarrow> unit result \<times> 's) \<Rightarrow> 'k \<times> 's \<Rightarrow> (error \<times> 'k \<times> 's) option" where
  "consumer_Run K handle ks =
     (case consumer_turn K handle ks of
        (Some e, ks') \<Rightarrow> Some (e, ks')
      | (None, ks') \<Rightarrow> consumer_Run K handle ks')"

lemma consumer_Run_inv:
  assumes run: "consumer_Run K h ks = Some y"
    and step: "\<And>ks z ks'. I ks \<Longrightarrow> consumer_turn K h ks = (z, ks') \<Longrightarrow> I ks'" and init: "I ks"
  shows "I (snd y)"
proof -
  let ?P = "\<lambda>K' h' ks y. K' = K \<and> h' = h \<longrightarrow> I ks \<longrightarrow> I (snd y)"
  have "?P K h ks y"
  proof (rule consumer_Run.raw_induct [where P = ?P, OF _ run], intro impI, elim conjE)
    fix f K' h' ks y
    assume IH: "\<And>K' h' ks y. f K' h' ks = Some y \<Longrightarrow> ?P K' h' ks y" and "K' = K" "h' = h" "I ks"
      and body: "(case consumer_turn K' h' ks of (None, ks') \<Rightarrow> f K' h' ks' | (Some e, ks') \<Rightarrow> Some (e, ks')) = Some y"
    then show "I (snd y)"
      using step [of ks] by (auto split: prod.splits option.splits)
  qed
  with init show ?thesis by simp
qed

section \<open>Projector and reader\<close>

definition HandleKafkaMessage :: "ext \<Rightarrow> 'r redis \<Rightarrow> int \<Rightarrow> message \<Rightarrow> 'r \<Rightarrow> unit result \<times> 'r" where
  "HandleKafkaMessage E R ttl msg r =
     (case json_Unmarshal E (msg_Value msg) of
        None \<Rightarrow> (Inl (Wrap ''projector: decode transaction'' (Errorf ''json'')), r)
      | Some tx \<Rightarrow>
          let tx_id = (if t_ID tx = uuid_Nil \<and> length (msg_Key msg) = 16
                       then (case uuid_FromBytes E (msg_Key msg) of
                               None \<Rightarrow> Inl (Wrap ''projector: invalid message key'' (Errorf ''uuid''))
                             | Some i \<Rightarrow> Inr i)
                       else Inr (t_ID tx))
          in case tx_id of
               Inl e \<Rightarrow> (Inl e, r)
             | Inr i \<Rightarrow> if i = uuid_Nil then (Inl (Errorf ''projector: empty transaction id''), r)
                       else SetTransaction E R (Some (tx\<lparr>t_ID := i\<rparr>)) ttl r)"

definition stats_GetTransaction :: "ext \<Rightarrow> 'r redis \<Rightarrow> uuid \<Rightarrow> 'r world \<Rightarrow> transaction result \<times> 'r world" where
  "stats_GetTransaction E R i =
     bind_r (on_cache (Redis_Cache.GetTransaction E R i)) (\<lambda>tx.
       case tx of Some t \<Rightarrow> return_r t | None \<Rightarrow> on_db (GetTransactionByID i))"

section \<open>A reference broker\<close>

record ref_kafka =
  rk_log :: "message list"
  rk_pos :: nat
  rk_off :: nat

definition rk_Write :: "byte list \<Rightarrow> string \<Rightarrow> ref_kafka \<Rightarrow> error option \<times> ref_kafka" where
  "rk_Write key v k = (None, k\<lparr>rk_log := rk_log k @ [\<lparr>msg_Key = key, msg_Value = v, msg_Offset = length (rk_log k)\<rparr>]\<rparr>)"

definition rk_Fetch :: "ref_kafka \<Rightarrow> (error + message) \<times> ref_kafka" where
  "rk_Fetch k = (if rk_pos k < length (rk_log k) then (Inr (rk_log k ! rk_pos k), k\<lparr>rk_pos := Suc (rk_pos k)\<rparr>)
     else (Inl (Driver Ctx_Canceled), k))"

definition rk_Commit :: "message \<Rightarrow> ref_kafka \<Rightarrow> error option \<times> ref_kafka" where
  "rk_Commit m k = (None, k\<lparr>rk_off := Suc (msg_Offset m)\<rparr>)"

definition ref_broker :: "ref_kafka kafka" where
  "ref_broker = \<lparr>k_WriteMessages = rk_Write, k_FetchMessage = rk_Fetch, k_CommitMessages = rk_Commit,
     k_ctxErr = (\<lambda>k. Some (Driver Ctx_Canceled))\<rparr>"

interpretation refk: kafka_broker ref_broker rk_log rk_pos rk_off
  by unfold_locales (auto simp: ref_broker_def rk_Write_def rk_Fetch_def rk_Commit_def split: if_splits)

section \<open>Agreement of the transaction cache with the tables\<close>

text \<open>A cached entry decodes to the transaction of its key as it was committed, up to the precision
  of the stored timestamp.\<close>

definition tx_coherent :: "ext \<Rightarrow> store \<Rightarrow> tables \<Rightarrow> bool" where
  "tx_coherent E m w \<longleftrightarrow> (\<forall>i v d. m (transactionCacheKey E i) = Some (v, d) \<longrightarrow>
     (\<exists>t. json_Unmarshal E v = Some t \<and> t_ID t = i \<and> stored_transaction t \<in> set (transactions w)))"

definition genuine :: "ext \<Rightarrow> tables \<Rightarrow> message list \<Rightarrow> bool" where
  "genuine E w ms \<longleftrightarrow> (\<forall>m\<in>set ms. \<exists>t. json_Unmarshal E (msg_Value m) = Some t \<and> t_ID t \<noteq> uuid_Nil
     \<and> stored_transaction t \<in> set (transactions w))"

lemma tx_coherent_live:
  assumes "tx_coherent E m w" and "live now m (transactionCacheKey E i) = Some v" and "json_Unmarshal E v = Some t"
  shows "t_ID t = i \<and> stored_transaction t \<in> set (transactions w)"
proof -
  obtain d where "m (transactionCacheKey E i) = Some (v, d)"
    using assms(2) by (auto simp: live_def split: option.splits if_splits)
  then obtain t' where "json_Unmarshal E v = Some t'" "t_ID t' = i" "stored_transaction t' \<in> set (transactions w)"
    using assms(1) unfolding tx_coherent_def by blast
  with assms(3) show ?thesis by simp
qed

lemma genuine_publish:
  assumes br: "kafka_broker K log pos off" and "json_laws E" and "genuine E w (log k)"
    and "t_ID t \<noteq> uuid_Nil" "stored_transaction t \<in> set (transactions w)"
    and run: "PublishTransaction E K t k = (x, k')"
  shows "genuine E w (log k')"
  using assms kafka_broker.write_law [OF br, of "uuid_bytes (t_ID t)" _ k]
  by (fastforce simp: PublishTransaction_def genuine_def json_laws_def split: option.splits prod.splits)

context redis_server
begin

lemma HandleKafkaMessage_coherent:
  assumes "HandleKafkaMessage E R ttl msg r = (x, r')" and laws: "uuid_laws E" "json_laws E"
    and co: "tx_coherent E (data r) w" and gen: "genuine E w [msg]"
  shows "tx_coherent E (data r') w"
proof -
  obtain t where t: "json_Unmarshal E (msg_Value msg) = Some t" "t_ID t \<noteq> uuid_Nil" "stored_transaction t \<in> set (transactions w)"
    using gen by (auto simp: genuine_def)
  then have "SetTransaction E R (Some t) ttl r = (x, r')"
    using assms(1) by (simp add: HandleKafkaMessage_def)
  note s = SetTransaction_spec(2) [OF this]
  show ?thesis
  proof (cases "data r' = data r")
    case False
    then obtain b where "json_Marshal E t = Some b" "data r' = ttl_put (transactionCacheKey E (t_ID t)) b ttl (clock r') (data r)"
      using s by blast
    with co laws t show ?thesis by (auto simp: tx_coherent_def ttl_put_def json_laws_def)
  qed (use co in simp)
qed

lemma consumer_turn_coherent:
  assumes br: "kafka_broker K log pos off" and laws: "uuid_laws E" "json_laws E"
    and run: "consumer_turn K (HandleKafkaMessage E R ttl) (k, r) = (e, k', r')"
    and co: "tx_coherent E (data r) w" and gen: "genuine E w (log k)"
  shows "tx_coherent E (data r') w \<and> log k' = log k"
proof -
  obtain f k1 where f: "k_FetchMessage K k = (f, k1)" by fastforce
  note F = kafka_broker.fetch_law [OF br f]
  show ?thesis
  proof (cases f)
    case (Inl err)
    with run f F co show ?thesis by (auto simp: consumer_turn_def split: option.splits)
  next
    case (Inr m)
    obtain y s where h: "HandleKafkaMessage E R ttl m r = (y, s)" by fastforce
    have "genuine E w [m]" using gen F Inr by (auto simp: genuine_def)
    note c = HandleKafkaMessage_coherent [OF h laws co this]
    obtain z k2 where cm: "k_CommitMessages K m k1 = (z, k2)" by fastforce
    show ?thesis
      using run f F Inr h c cm kafka_broker.commit_law [OF br cm]
      by (auto simp: consumer_turn_def split: sum.splits)
  qed
qed

lemma projected_readable:
  assumes h: "HandleKafkaMessage E R ttl \<lparr>msg_Key = key, msg_Value = b, msg_Offset = n\<rparr> r = (Inr (), r1)"
    and m: "json_Marshal E t = Some b" and laws: "json_laws E" "t_ID t \<noteq> uuid_Nil"
    and g: "Redis_Cache.GetTransaction E R (t_ID t) r1 = (Inr y, r2)" and fresh: "clock r2 < clock r1 + ttl"
  shows "y = Some t"
proof -
  have u: "json_Unmarshal E b = Some t" using m laws by (simp add: json_laws_def)
  then have "SetTransaction E R (Some t) ttl r = (Inr (), r1)" using h laws by (simp add: HandleKafkaMessage_def)
  with m have d: "data r1 = ttl_put (transactionCacheKey E (t_ID t)) b ttl (clock r1) (data r)"
    using SetTransaction_spec(3) by fastforce
  then have l: "live (clock r2) (data r1) (transactionCacheKey E (t_ID t)) = Some b"
    using fresh by (simp add: live_def ttl_put_def)
  show ?thesis
    using GetTransaction_spec(3,4) [OF g] l u by (cases y) fastforce+
qed

lemma stats_GetTransaction_spec:
  assumes run: "stats_GetTransaction E R i W = (Inr t, W')"
    and co: "tx_coherent E (data (cache W)) (committed (db W))"
  shows "t_ID t = i \<and> stored_transaction t \<in> set (transactions (committed (db W)))
    \<or> t_ID t = i \<and> t \<in> set (transactions (committed (db W)))"
proof -
  obtain y r where g: "Redis_Cache.GetTransaction E R i (cache W) = (y, r)" by fastforce
  show ?thesis
  proof (cases "\<exists>t'. y = Inr (Some t')")
    case True
    then obtain t' where y: "y = Inr (Some t')" by blast
    with run g have "t' = t" by (simp add: stats_GetTransaction_def on_cache_def)
    with GetTransaction_spec(4) [OF g, of t] y show ?thesis
      using tx_coherent_live [OF co] by blast
  next
    case False
    with run g have "y = Inr None" and q: "on_db (GetTransactionByID i) (W\<lparr>cache := r\<rparr>) = (Inr t, W')"
      by (auto simp: stats_GetTransaction_def on_cache_def bind_r_def split: sum.splits option.splits)
    from q have "find (\<lambda>t. t_ID t = i) (transactions (committed (db W))) = Some t"
      by (auto simp: on_db_def GetTransactionByID_def split: prod.splits option.splits
          elim!: bind_r_cases on_error_cases dest!: pool_read_Inr)
    then show ?thesis by (auto simp: find_Some_iff)
  qed
qed

end

section \<open>Theorems\<close>

text \<open>C26. A reader sees only committed transfers: over any Redis server, while the transaction cache
  agrees with the tables, \<^verbatim>\<open>GetTransaction\<close> answers with the committed transaction of the requested
  id; a cached answer may carry the sub-microsecond part of the timestamp that the table dropped.\<close>

theorem GetTransaction_committed:
  assumes "redis_server R clock data" and "tx_coherent E (data (cache W)) (committed (db W))"
    and "stats_GetTransaction E R i W = (Inr t, W')"
  shows "t_ID t = i \<and> (t \<in> set (transactions (committed (db W))) \<or> stored_transaction t \<in> set (transactions (committed (db W))))"
  using redis_server.stats_GetTransaction_spec [OF assms(1,3,2)] by blast

lemma sample_tx_coherent [simp]: "tx_coherent E (rr_data sample_cache) w"
  by (simp add: tx_coherent_def sample_cache_def)

theorem GetTransaction_committed_witness:
  "\<exists>t. fst (stats_GetTransaction ref_ext ref_client 12 sample_world) = Inr t \<and> t_ID t = 12 \<and> t_Amount t = 50"
proof -
  have "map_sum id t_Amount (fst (stats_GetTransaction ref_ext ref_client 12 sample_world)) = Inr 50" by code_simp
  then obtain t where t: "fst (stats_GetTransaction ref_ext ref_client 12 sample_world) = Inr t" "t_Amount t = 50"
    by (cases "fst (stats_GetTransaction ref_ext ref_client 12 sample_world)") auto
  then have "stats_GetTransaction ref_ext ref_client 12 sample_world = (Inr t, snd (stats_GetTransaction ref_ext ref_client 12 sample_world))"
    by (metis prod.collapse)
  from GetTransaction_committed [OF ref.redis_server_axioms _ this] t show ?thesis by simp
qed

text \<open>The projector keeps the cache honest: over any broker and any Redis server, when every message
  of the topic is the JSON of a committed transfer, then \<^verbatim>\<open>Consumer.Run\<close> with the projector's handler
  leaves the transaction cache in agreement with the tables and the topic as it was, whenever it
  returns, whatever failed on the way.\<close>

theorem consumer_keeps_cache:
  assumes srv: "redis_server R clock data" and br: "kafka_broker K log pos off" and laws: "uuid_laws E" "json_laws E"
    and run: "consumer_Run K (HandleKafkaMessage E R ttl) (k, r) = Some (e, k', r')"
    and co: "tx_coherent E (data r) w" and gen: "genuine E w (log k)"
  shows "tx_coherent E (data r') w \<and> log k' = log k"
proof -
  define I where "I = (\<lambda>ks. tx_coherent E (data (snd ks)) w \<and> log (fst ks) = log k)"
  have "I (snd (e, k', r'))"
  proof (rule consumer_Run_inv [OF run])
    fix ks z ks' assume i: "I ks" and t: "consumer_turn K (HandleKafkaMessage E R ttl) ks = (z, ks')"
    show "I ks'"
      using redis_server.consumer_turn_coherent [OF srv br laws, of ttl "fst ks" "snd ks" z "fst ks'" "snd ks'" w] i t gen
      by (simp add: I_def)
  qed (use co in \<open>simp add: I_def\<close>)
  then show ?thesis by (simp add: I_def)
qed

definition sample_message :: "string \<Rightarrow> nat \<Rightarrow> message" where
  "sample_message v n = \<lparr>msg_Key = [], msg_Value = v, msg_Offset = n\<rparr>"

definition sample_payload :: string where
  "sample_payload = (case ref_Marshal (hd (transactions sample_tables)) of Some b \<Rightarrow> b | None \<Rightarrow> [])"

lemma sample_transaction:
  "t_ID (hd (transactions sample_tables)) = 11" "ref_Marshal (hd (transactions sample_tables)) = Some sample_payload"
  "stored_transaction (hd (transactions sample_tables)) \<in> set (transactions sample_tables)"
  by code_simp+

lemma ref_handle:
  assumes "rr_script r = []" and m: "json_Marshal ref_ext t = Some b" and "t_ID t \<noteq> uuid_Nil"
  shows "HandleKafkaMessage ref_ext ref_client ttl \<lparr>msg_Key = key, msg_Value = b, msg_Offset = n\<rparr> r =
    (Inr (), r\<lparr>rr_data := ttl_put (transactionCacheKey ref_ext (t_ID t)) b ttl (rr_clock r) (rr_data r)\<rparr>)"
proof -
  have "json_Unmarshal ref_ext b = Some t" using m ref_json_laws by (simp add: json_laws_def)
  moreover have "t\<lparr>t_ID := t_ID t\<rparr> = t" by simp
  ultimately show ?thesis
    using assms by (simp add: HandleKafkaMessage_def SetTransaction_def cmd_Err_def ref_client_def rr_write_def rr_tick_def)
qed

lemma sample_handle:
  assumes "rr_script r = []"
  shows "HandleKafkaMessage ref_ext ref_client ttl \<lparr>msg_Key = key, msg_Value = sample_payload, msg_Offset = n\<rparr> r =
    (Inr (), r\<lparr>rr_data := ttl_put (transactionCacheKey ref_ext 11) sample_payload ttl (rr_clock r) (rr_data r)\<rparr>)"
  using ref_handle [OF assms, of "hd (transactions sample_tables)" sample_payload] sample_transaction(1,2)
  by (simp add: ref_ext_def uuid_Nil_def)

text \<open>A consumer of a topic with one message, whose context ends after it.\<close>

definition sample_topic :: ref_kafka where
  "sample_topic = \<lparr>rk_log = [sample_message sample_payload 0], rk_pos = 0, rk_off = 0\<rparr>"

lemma sample_genuine: "genuine ref_ext sample_tables (rk_log sample_topic)"
  using ref_json_laws sample_transaction
  by (auto simp: sample_topic_def genuine_def sample_message_def json_laws_def ref_ext_def uuid_Nil_def)

lemma sample_consumer_run:
  "\<exists>k1 r1. consumer_Run ref_broker (HandleKafkaMessage ref_ext ref_client ttl) (sample_topic, sample_cache) = Some (Driver Ctx_Canceled, k1, r1)
     \<and> k_ctxErr ref_broker k1 \<noteq> None"
proof -
  let ?h = "HandleKafkaMessage ref_ext ref_client ttl"
  obtain y r1 where h: "?h (sample_message sample_payload 0) sample_cache = (y, r1)" by fastforce
  have "\<exists>k1. consumer_turn ref_broker ?h (sample_topic, sample_cache) = (None, k1, r1) \<and> rk_pos k1 = 1 \<and> length (rk_log k1) = 1"
    using h by (cases y) (simp_all add: consumer_turn_def ref_broker_def rk_Fetch_def rk_Commit_def sample_topic_def)
  then obtain k1 where t1: "consumer_turn ref_broker ?h (sample_topic, sample_cache) = (None, k1, r1)" "rk_pos k1 = 1" "length (rk_log k1) = 1"
    by blast
  then have "consumer_turn ref_broker ?h (k1, r1) = (Some (Driver Ctx_Canceled), k1, r1)"
    by (simp add: consumer_turn_def ref_broker_def rk_Fetch_def)
  then have "consumer_Run ref_broker ?h (sample_topic, sample_cache) = Some (Driver Ctx_Canceled, k1, r1)"
    using t1(1) by (simp add: consumer_Run.simps)
  moreover have "k_ctxErr ref_broker k1 \<noteq> None" by (simp add: ref_broker_def)
  ultimately show ?thesis by blast
qed

context kafka_broker
begin

text \<open>A publication that arrived put one message on the topic.\<close>

lemma PublishTransaction_arrived:
  assumes "PublishTransaction E K t k = (Inr (), k')" and "log k' \<noteq> log k"
  shows "\<exists>b. json_Marshal E t = Some b \<and>
    log k' = log k @ [\<lparr>msg_Key = uuid_bytes (t_ID t), msg_Value = b, msg_Offset = length (log k)\<rparr>]"
  using assms write_law by (fastforce simp: PublishTransaction_def split: option.splits prod.splits)

text \<open>A turn that moved the group's offset past a message handled this message.\<close>

lemma consumer_turn_handled:
  assumes run: "consumer_turn K handle (k, s) = (e, k', s')" and at: "pos k = n" "off k \<le> n" "off k' = Suc n"
  shows "n < length (log k) \<and> handle (log k ! n) s = (Inr (), s')"
proof -
  obtain f k1 where f: "k_FetchMessage K k = (f, k1)" by fastforce
  note F = fetch_law [OF f]
  show ?thesis
  proof (cases f)
    case (Inl err)
    with run f F at show ?thesis by (auto simp: consumer_turn_def split: option.splits)
  next
    case (Inr m)
    obtain y s1 where h: "handle m s = (y, s1)" by fastforce
    with run f F Inr at show ?thesis by (cases y) (auto simp: consumer_turn_def split: prod.splits)
  qed
qed

end

text \<open>C28. A published transfer can be read back. When \<^verbatim>\<open>PublishTransaction\<close> succeeds and the write arrives
  at the broker, the topic has grown by one message whose key is the transfer's id; once the consumer
  with the projector's handler, standing at this message, has committed it, then until the entry
  expires \<^verbatim>\<open>GetTransaction\<close> of the statistics answers from the cache with exactly the published
  transaction, whatever the tables hold, on any broker and any Redis server, whenever it answers.\<close>

theorem published_readable:
  assumes srv: "redis_server R clock data" and br: "kafka_broker K topic pos off" and laws: "json_laws E" "t_ID t \<noteq> uuid_Nil"
    and pub: "PublishTransaction E K t k = (Inr (), k1)" and arrived: "topic k1 \<noteq> topic k"
    and at: "topic k2 = topic k1 @ ms" "pos k2 = length (topic k)" "off k2 \<le> length (topic k)"
    and turn: "consumer_turn K (HandleKafkaMessage E R ttl) (k2, r) = (e, k3, r1)" "off k3 = Suc (length (topic k))"
    and read: "stats_GetTransaction E R (t_ID t) W = (Inr t', W')" "cache W = r1" "clock (cache W') < clock r1 + ttl"
  shows "t' = t \<and> map msg_Key (topic k1) = map msg_Key (topic k) @ [uuid_bytes (t_ID t)]"
proof -
  obtain b where b: "json_Marshal E t = Some b"
    "topic k1 = topic k @ [\<lparr>msg_Key = uuid_bytes (t_ID t), msg_Value = b, msg_Offset = length (topic k)\<rparr>]"
    using kafka_broker.PublishTransaction_arrived [OF br pub arrived] by blast
  have "HandleKafkaMessage E R ttl (topic k2 ! length (topic k)) r = (Inr (), r1)"
    using kafka_broker.consumer_turn_handled [OF br turn(1) at(2,3) turn(2)] by blast
  then have h: "HandleKafkaMessage E R ttl \<lparr>msg_Key = uuid_bytes (t_ID t), msg_Value = b, msg_Offset = length (topic k)\<rparr> r = (Inr (), r1)"
    by (simp add: at(1) b(2) nth_append)
  obtain y r2 where g: "Redis_Cache.GetTransaction E R (t_ID t) r1 = (y, r2)" by fastforce
  then obtain v where y: "y = Inr v" and rest: "v = None \<or> (v = Some t' \<and> W' = W\<lparr>cache := r2\<rparr>)" and c: "cache W' = r2"
    using read(1,2)
    by (auto simp: stats_GetTransaction_def on_cache_def on_db_def bind_r_def return_r_def split: sum.splits option.splits prod.splits)
  have "v = Some t"
    using redis_server.projected_readable [OF srv h b(1) laws g [unfolded y]] read(3) c by simp
  with rest b(2) show ?thesis by simp
qed

theorem published_readable_witness:
  "\<exists>k1 k3 r1 W'. PublishTransaction ref_ext ref_broker (hd (transactions sample_tables)) (sample_topic\<lparr>rk_log := []\<rparr>) = (Inr (), k1)
    \<and> consumer_turn ref_broker (HandleKafkaMessage ref_ext ref_client 60) (k1, sample_cache) = (None, k3, r1)
    \<and> fst (stats_GetTransaction ref_ext ref_client 11 (sample_world\<lparr>cache := r1\<rparr>)) = Inr (hd (transactions sample_tables))"
proof -
  let ?t = "hd (transactions sample_tables)" and ?k = "sample_topic\<lparr>rk_log := []\<rparr>"
  define r1 where "r1 = sample_cache\<lparr>rr_data := ttl_put (transactionCacheKey ref_ext 11) sample_payload 60 0 (rr_data sample_cache)\<rparr>"
  define m where "m = \<lparr>msg_Key = uuid_bytes (t_ID ?t), msg_Value = sample_payload, msg_Offset = 0\<rparr>"
  define k1 where "k1 = ?k\<lparr>rk_log := [m]\<rparr>"
  define k3 where "k3 = k1\<lparr>rk_pos := 1, rk_off := 1\<rparr>"
  let ?W = "sample_world\<lparr>cache := r1\<rparr>"
  have m: "json_Marshal ref_ext ?t = Some sample_payload" and i: "t_ID ?t \<noteq> uuid_Nil"
    using sample_transaction by (simp_all add: ref_ext_def uuid_Nil_def)
  have h: "HandleKafkaMessage ref_ext ref_client 60 m sample_cache = (Inr (), r1)"
    using sample_handle [of sample_cache 60] by (simp add: m_def r1_def sample_cache_def)
  have p: "PublishTransaction ref_ext ref_broker ?t ?k = (Inr (), k1)"
    by (simp add: PublishTransaction_def m) (simp add: ref_broker_def rk_Write_def k1_def m_def)
  have c: "consumer_turn ref_broker (HandleKafkaMessage ref_ext ref_client 60) (k1, sample_cache) = (None, k3, r1)"
    using h by (simp add: consumer_turn_def ref_broker_def rk_Fetch_def rk_Commit_def k1_def k3_def sample_topic_def)
      (simp add: m_def)
  have u: "json_Unmarshal ref_ext sample_payload = Some ?t" using m ref_json_laws by (simp add: json_laws_def)
  have "Redis_Cache.GetTransaction ref_ext ref_client (t_ID ?t) r1 = (Inr (Some ?t), r1)"
    using sample_transaction(1) u
    by (simp add: Redis_Cache.GetTransaction_def ref_client_def rr_Get_def rr_tick_def r1_def sample_cache_def live_def ttl_put_def)
  then have g: "stats_GetTransaction ref_ext ref_client (t_ID ?t) ?W = (Inr ?t, ?W)"
    by (simp add: stats_GetTransaction_def on_cache_def)
  have "?t = ?t \<and> map msg_Key (rk_log k1) = map msg_Key (rk_log ?k) @ [uuid_bytes (t_ID ?t)]"
    by (rule published_readable [where ms = "[]", OF ref.redis_server_axioms refk.kafka_broker_axioms ref_json_laws i p _ _ _ _ c _ g])
      (simp_all add: k1_def k3_def sample_topic_def r1_def sample_cache_def)
  with p c g sample_transaction(1) show ?thesis by auto
qed

text \<open>A message whose handling failed is lost when a later one succeeds: the consumer goes on
  without committing it, and the commit of its successor moves the group's offset past it. The first
  message below does not decode; the offset ends at 2 and it is not in the cache.\<close>

theorem consumer_skips_failed:
  defines "h \<equiv> HandleKafkaMessage ref_ext ref_client 60"
    and "k0 \<equiv> \<lparr>rk_log = [sample_message ''x'' 0, sample_message sample_payload 1], rk_pos = 0, rk_off = 0\<rparr>"
  shows "(\<exists>e. fst (h (sample_message ''x'' 0) sample_cache) = Inl e)
    \<and> rk_off (fst (snd (consumer_turn ref_broker h (snd (consumer_turn ref_broker h (k0, sample_cache)))))) = 2"
proof -
  have "json_Unmarshal ref_ext ''x'' = None" by (simp add: ref_ext_def ref_Unmarshal_def ref_Parse_def)
  then have x: "h (sample_message ''x'' 0) sample_cache = (Inl (Wrap ''projector: decode transaction'' (Errorf ''json'')), sample_cache)"
    by (simp add: h_def HandleKafkaMessage_def sample_message_def)
  have y: "\<exists>r. h (sample_message sample_payload 1) sample_cache = (Inr (), r)"
    using sample_handle [of sample_cache 60] by (simp add: h_def sample_message_def sample_cache_def)
  show ?thesis
    using x y by (auto simp: consumer_turn_def k0_def ref_broker_def rk_Fetch_def rk_Commit_def)
      (simp add: sample_message_def)
qed

end
