(* ===== verification/Transport.thy ===== *)
theory Transport
  imports Stats_UC
begin

text \<open>
  The gRPC surface: the handlers of \<^verbatim>\<open>internal/transport/grpc\<close> (decoding of ids, conversion of currency
  codes, mapping of errors to status codes), the idempotency interceptor over an
  \<^verbatim>\<open>idempotencyStorage\<close>, and the metrics interceptor with the names of
  \<^verbatim>\<open>internal/infra/telemetry/metrics.go\<close>. A handler may panic. The locale \<open>idempotency_storage\<close> states what
  the interceptor relies on; the Redis repository satisfies it.
\<close>

section \<open>Statuses and messages\<close>

datatype code = codes_OK | codes_Aborted | codes_InvalidArgument | codes_NotFound
  | codes_FailedPrecondition | codes_Internal

fun code_String :: "code \<Rightarrow> string" where
  "code_String codes_OK = ''OK''"
| "code_String codes_Aborted = ''Aborted''"
| "code_String codes_InvalidArgument = ''InvalidArgument''"
| "code_String codes_NotFound = ''NotFound''"
| "code_String codes_FailedPrecondition = ''FailedPrecondition''"
| "code_String codes_Internal = ''Internal''"

text \<open>A status error: its code, a text, and the error whose text is appended to it, if any.\<close>

datatype status = Status (st_code: code) string "error option"

datatype 'a outcome = Returned "status + 'a" | Panicked

record transfer_request =
  m_IdempotencyKey :: "byte list"
  m_UserFromId :: "byte list"
  m_UserToId :: "byte list"
  m_Amount :: int
  m_Currency :: "32 word"

text \<open>\<^verbatim>\<open>entity.Currency(req.Currency)\<close> keeps the low 16 bits of the message's \<^verbatim>\<open>int32\<close>;
  \<^verbatim>\<open>ledger.Currency(c)\<close> extends the sign.\<close>

definition to_currency :: "32 word \<Rightarrow> currency" where
  "to_currency c = ucast c"

definition of_currency :: "currency \<Rightarrow> 32 word" where
  "of_currency c = scast c"

section \<open>Handlers\<close>

definition transfer_error :: "error \<Rightarrow> status" where
  "transfer_error err =
     (if errors_Is err ErrInsufficientFunds \<or> errors_Is err ErrCurrencyMismatch
        then Status codes_FailedPrecondition '''' (Some err)
      else if errors_Is err ErrAccountNotFound then Status codes_NotFound '''' (Some err)
      else if errors_Is err ErrInvalidAmount \<or> errors_Is err ErrSameAccountTransfer
           \<or> errors_Is err ErrEmptyIdempotencyKey \<or> errors_Is err ErrInvalidCurrency
        then Status codes_InvalidArgument '''' (Some err)
      else Status codes_Internal ''transfer failed: '' (Some err))"

definition Transfer ::
  "transfer_uc \<Rightarrow> ext \<Rightarrow> 'r redis \<Rightarrow> bool \<Rightarrow> transfer_request \<Rightarrow> 'r world \<Rightarrow> (status + byte list) \<times> 'r world" where
  "Transfer uc E R ff req W =
     (case uuid_FromBytes E (m_IdempotencyKey req) of
        None \<Rightarrow> (Inl (Status codes_InvalidArgument ''invalid idempotency_key'' None), W)
      | Some ik \<Rightarrow>
     (case uuid_FromBytes E (m_UserFromId req) of
        None \<Rightarrow> (Inl (Status codes_InvalidArgument ''invalid user_from_id'' None), W)
      | Some fromID \<Rightarrow>
     (case uuid_FromBytes E (m_UserToId req) of
        None \<Rightarrow> (Inl (Status codes_InvalidArgument ''invalid user_to_id'' None), W)
      | Some toID \<Rightarrow>
     (case Transaction uc E R ff \<lparr>req_IdempotencyKey = ik, req_FromAccountID = fromID, req_ToAccountID = toID,
              req_Currency = to_currency (m_Currency req), req_Amount = m_Amount req\<rparr> W of
        (Inl err, W') \<Rightarrow> (Inl (transfer_error err), W')
      | (Inr txID, W') \<Rightarrow> (Inr (uuid_bytes txID), W')))))"

definition h_CreateAccount :: "ext \<Rightarrow> 'r redis \<Rightarrow> nat \<Rightarrow> 32 word \<Rightarrow> 'r world \<Rightarrow> (status + byte list) \<times> 'r world" where
  "h_CreateAccount E R rnd c W =
     (case uc_CreateAccount E R rnd (to_currency c) W of
        (Inl err, W') \<Rightarrow> (Inl (Status codes_Internal ''create account failed: '' (Some err)), W')
      | (Inr i, W') \<Rightarrow> (Inr (uuid_bytes i), W'))"

definition h_GetBalance :: "ext \<Rightarrow> byte list \<Rightarrow> 'r world \<Rightarrow> (status + int \<times> 32 word) \<times> 'r world" where
  "h_GetBalance E accountId W =
     (case uuid_FromBytes E accountId of
        None \<Rightarrow> (Inl (Status codes_InvalidArgument ''invalid account_id'' None), W)
      | Some i \<Rightarrow>
          (case uc_GetBalance i W of
             (Inl err, W') \<Rightarrow>
               (Inl (if errors_Is err ErrAccountNotFound then Status codes_NotFound ''account not found'' None
                     else Status codes_Internal ''get balance failed: '' (Some err)), W')
           | (Inr a, W') \<Rightarrow> (Inr (acc_Balance a, of_currency (acc_Currency a)), W')))"

record transaction_response =
  r_Id :: "byte list"
  r_UserFrom :: "byte list"
  r_UserTo :: "byte list"
  r_Amount :: int
  r_Currency :: "32 word"

definition h_GetTransaction :: "ext \<Rightarrow> 'r redis \<Rightarrow> byte list \<Rightarrow> 'r world \<Rightarrow> (status + transaction_response) \<times> 'r world" where
  "h_GetTransaction E R transactionId W =
     (case uuid_FromBytes E transactionId of
        None \<Rightarrow> (Inl (Status codes_InvalidArgument ''invalid transaction_id'' None), W)
      | Some i \<Rightarrow>
          (case stats_GetTransaction E R i W of
             (Inl err, W') \<Rightarrow>
               (Inl (if errors_Is err ErrTransactionNotFound then Status codes_NotFound ''transaction not found'' None
                     else Status codes_Internal ''get transaction failed'' None), W')
           | (Inr tx, W') \<Rightarrow>
               (Inr \<lparr>r_Id = uuid_bytes (t_ID tx), r_UserFrom = uuid_bytes (t_FromAccountID tx),
                  r_UserTo = uuid_bytes (t_ToAccountID tx), r_Amount = t_Amount tx, r_Currency = of_currency (t_Currency tx)\<rparr>, W')))"

section \<open>The idempotency interceptor\<close>

record 'i idem_storage =
  is_CheckOrLock :: "uuid \<Rightarrow> 'i \<Rightarrow> (bool \<times> string) result \<times> 'i"
  is_UpdateIdempotencyStatus :: "uuid \<Rightarrow> string \<Rightarrow> 'i \<Rightarrow> unit result \<times> 'i"
  is_DeleteIdempotency :: "uuid \<Rightarrow> 'i \<Rightarrow> unit result \<times> 'i"

definition redis_storage :: "ext \<Rightarrow> 'i redis \<Rightarrow> 'i idem_storage" where
  "redis_storage E I = \<lparr>is_CheckOrLock = CheckOrLock E I,
     is_UpdateIdempotencyStatus = UpdateIdempotencyStatus E I, is_DeleteIdempotency = DeleteIdempotency E I\<rparr>"

text \<open>The gateway process: the idempotency store, the world of the handlers, and the status updates
  that run in goroutines after the response.\<close>

record ('i, 'w) gateway =
  gw_idem :: 'i
  gw_world :: 'w
  gw_pending :: "(uuid \<times> string) list"

definition Transfer_FullMethodName :: string where
  "Transfer_FullMethodName = ''/api.ledger.TransactionService/Transfer''"

definition completedStatus :: "ext \<Rightarrow> uuid \<Rightarrow> string" where
  "completedStatus E txID = ''completed:'' @ uuid_String E txID"

definition parseCompleted :: "ext \<Rightarrow> string \<Rightarrow> uuid option" where
  "parseCompleted E st =
     (if \<not> HasPrefix st ''completed:'' then None else uuid_Parse E (TrimPrefix st ''completed:''))"

definition handleDuplicate :: "ext \<Rightarrow> string \<Rightarrow> status + byte list" where
  "handleDuplicate E st =
     (if st = IDEMPOTENCY_IN_PROCESS then Inl (Status codes_Aborted '''' (Some ErrIdempotencyInProgress))
      else case parseCompleted E st of
             Some txID \<Rightarrow> Inr (uuid_bytes txID)
           | None \<Rightarrow> Inl (Status codes_Internal ''unknown idempotency status in cache'' None))"

definition run_handler ::
  "('w \<Rightarrow> byte list outcome \<times> 'w) \<Rightarrow> ('i, 'w) gateway \<Rightarrow> byte list option outcome \<times> ('i, 'w) gateway" where
  "run_handler handler G = (case handler (gw_world G) of (o', W') \<Rightarrow> (map_outcome Some o', G\<lparr>gw_world := W'\<rparr>))"

definition release :: "'i idem_storage \<Rightarrow> uuid \<Rightarrow> ('i, 'w) gateway \<Rightarrow> ('i, 'w) gateway" where
  "release S key G = G\<lparr>gw_idem := snd (is_DeleteIdempotency S key (gw_idem G))\<rparr>"

text \<open>The branch of a claimed key. A recovered panic leaves the results of the function literal at
  their zero values: \<^verbatim>\<open>nil, nil\<close>, here \<open>Inr None\<close>.\<close>

definition claimed_call ::
  "ext \<Rightarrow> 'i idem_storage \<Rightarrow> uuid \<Rightarrow> ('w \<Rightarrow> byte list outcome \<times> 'w) \<Rightarrow> ('i, 'w) gateway \<Rightarrow>
   byte list option outcome \<times> ('i, 'w) gateway" where
  "claimed_call E S key handler G =
     (case handler (gw_world G) of
        (Panicked, W') \<Rightarrow> (Returned (Inr None), release S key (G\<lparr>gw_world := W'\<rparr>))
      | (Returned (Inl e), W') \<Rightarrow> (Returned (Inl e), release S key (G\<lparr>gw_world := W'\<rparr>))
      | (Returned (Inr out), W') \<Rightarrow>
          (case uuid_FromBytes E out of
             None \<Rightarrow> (Returned (Inl (Status codes_Internal ''invalid transaction_id from handler: '' None)),
                      release S key (G\<lparr>gw_world := W'\<rparr>))
           | Some txID \<Rightarrow> (Returned (Inr (Some out)),
                G\<lparr>gw_world := W', gw_pending := gw_pending G @ [(key, completedStatus E txID)]\<rparr>)))"

definition UnaryIdempotencyInterceptor ::
  "ext \<Rightarrow> 'i idem_storage \<Rightarrow> string \<Rightarrow> byte list \<Rightarrow> ('w \<Rightarrow> byte list outcome \<times> 'w) \<Rightarrow> ('i, 'w) gateway \<Rightarrow>
   byte list option outcome \<times> ('i, 'w) gateway" where
  "UnaryIdempotencyInterceptor E S fullMethod rawKey handler G =
     (if fullMethod \<noteq> Transfer_FullMethodName then run_handler handler G
      else case uuid_FromBytes E rawKey of
             None \<Rightarrow> run_handler handler G
           | Some key \<Rightarrow>
               if key = uuid_Nil then run_handler handler G
               else case is_CheckOrLock S key (gw_idem G) of
                      (Inl _, i1) \<Rightarrow> run_handler handler (G\<lparr>gw_idem := i1\<rparr>)
                    | (Inr (False, st), i1) \<Rightarrow> (Returned (map_sum id Some (handleDuplicate E st)), G\<lparr>gw_idem := i1\<rparr>)
                    | (Inr (True, _), i1) \<Rightarrow> claimed_call E S key handler (G\<lparr>gw_idem := i1\<rparr>))"

text \<open>One of the pending goroutines runs.\<close>

definition run_pending :: "'i idem_storage \<Rightarrow> nat \<Rightarrow> ('i, 'w) gateway \<Rightarrow> unit result \<times> ('i, 'w) gateway" where
  "run_pending S n G =
     (case gw_pending G ! n of (k, st) \<Rightarrow>
      case is_UpdateIdempotencyStatus S k st (gw_idem G) of
        (x, i') \<Rightarrow> (x, G\<lparr>gw_idem := i', gw_pending := take n (gw_pending G) @ drop (Suc n) (gw_pending G)\<rparr>))"

section \<open>The metrics interceptor\<close>

definition LastIndex_slash :: "string \<Rightarrow> nat option" where
  "LastIndex_slash s =
     (if CHR ''/'' \<in> set s then Some (length s - 1 - length (takeWhile (\<lambda>c. c \<noteq> CHR ''/'') (rev s))) else None)"

definition grpcRPC :: "string \<Rightarrow> string" where
  "grpcRPC fullMethod =
     (let rest = (if fullMethod \<noteq> '''' then fullMethod else ''unknown'')
      in case LastIndex_slash fullMethod of
           Some i \<Rightarrow> if i < length fullMethod - 1 then drop (i + 1) fullMethod else rest
         | None \<Rightarrow> rest)"

text \<open>The counter \<^verbatim>\<open>requests_total\<close> by RPC and code, and the observations of
  \<^verbatim>\<open>request_duration_seconds\<close>, with the measured duration.\<close>

record grpc_metrics =
  gm_requests :: "string \<times> string \<Rightarrow> nat"
  gm_durations :: "(string \<times> string \<times> int) list"

definition ObserveGRPCRequest :: "string \<Rightarrow> string \<Rightarrow> grpc_metrics \<Rightarrow> grpc_metrics" where
  "ObserveGRPCRequest rpc c M = M\<lparr>gm_requests := (gm_requests M)((rpc, c) := Suc (gm_requests M (rpc, c)))\<rparr>"

definition ObserveGRPCDuration :: "string \<Rightarrow> string \<Rightarrow> int \<Rightarrow> grpc_metrics \<Rightarrow> grpc_metrics" where
  "ObserveGRPCDuration rpc c d M = M\<lparr>gm_durations := gm_durations M @ [(rpc, c, d)]\<rparr>"

definition ObserveTotalRequests :: "string \<Rightarrow> string \<Rightarrow> grpc_metrics \<Rightarrow> grpc_metrics" where
  "ObserveTotalRequests fullMethod c = ObserveGRPCRequest (grpcRPC fullMethod) c"

definition ObserveResponseTime :: "string \<Rightarrow> string \<Rightarrow> int \<Rightarrow> grpc_metrics \<Rightarrow> grpc_metrics" where
  "ObserveResponseTime fullMethod c d = ObserveGRPCDuration (grpcRPC fullMethod) c d"

definition status_code :: "status + 'a \<Rightarrow> string" where
  "status_code x = (case x of Inl st \<Rightarrow> code_String (st_code st) | Inr _ \<Rightarrow> ''OK'')"

text \<open>A panic of the handler passes through before anything is recorded.\<close>

definition UnaryMetricsInterceptor ::
  "string \<Rightarrow> int \<Rightarrow> ('s \<Rightarrow> 'a outcome \<times> 's) \<Rightarrow> 's \<times> grpc_metrics \<Rightarrow> 'a outcome \<times> 's \<times> grpc_metrics" where
  "UnaryMetricsInterceptor fullMethod duration handler = (\<lambda>(s, M).
     case handler s of
       (Panicked, s') \<Rightarrow> (Panicked, s', M)
     | (Returned x, s') \<Rightarrow>
         (Returned x, s', ObserveTotalRequests fullMethod (status_code x)
            (ObserveResponseTime fullMethod (status_code x) duration M)))"

text \<open>The chain of \<^verbatim>\<open>cmd/gateway/main.go\<close> around the handler of a transfer.\<close>

definition gateway_Transfer ::
  "transfer_uc \<Rightarrow> ext \<Rightarrow> 'r redis \<Rightarrow> 'i idem_storage \<Rightarrow> bool \<Rightarrow> int \<Rightarrow> transfer_request \<Rightarrow>
   ('i, 'r world) gateway \<times> grpc_metrics \<Rightarrow> byte list option outcome \<times> ('i, 'r world) gateway \<times> grpc_metrics" where
  "gateway_Transfer uc E R S ff duration req =
     UnaryMetricsInterceptor Transfer_FullMethodName duration
       (UnaryIdempotencyInterceptor E S Transfer_FullMethodName (m_IdempotencyKey req)
          (\<lambda>W. case Transfer uc E R ff req W of (x, W') \<Rightarrow> (Returned x, W')))"

section \<open>What the interceptor relies on\<close>

locale idempotency_storage =
  fixes S :: "'i idem_storage" and entry :: "'i \<Rightarrow> uuid \<Rightarrow> (string \<times> int) option" and now :: "'i \<Rightarrow> int"
  assumes check_law: "is_CheckOrLock S k i = (x, i') \<Longrightarrow> now i \<le> now i' \<and> (\<forall>j. j \<noteq> k \<longrightarrow> entry i' j = entry i j) \<and>
      (case x of
         Inr (True, st) \<Rightarrow> (\<forall>v d. entry i k = Some (v, d) \<longrightarrow> d \<le> now i')
            \<and> entry i' k = Some (IDEMPOTENCY_IN_PROCESS, now i' + idempotencyKeyTTL)
       | Inr (False, st) \<Rightarrow> entry i' k = entry i k \<and> (\<exists>d. entry i k = Some (st, d) \<and> now i' < d)
       | Inl e \<Rightarrow> entry i' k = entry i k \<or> entry i' k = Some (IDEMPOTENCY_IN_PROCESS, now i' + idempotencyKeyTTL))"
    and update_law: "is_UpdateIdempotencyStatus S k st i = (y, i') \<Longrightarrow> now i \<le> now i' \<and> (\<forall>j. j \<noteq> k \<longrightarrow> entry i' j = entry i j) \<and>
      (entry i' k = Some (st, now i' + idempotencyKeyTTL) \<or> y \<noteq> Inr () \<and> entry i' k = entry i k)"
    and delete_law: "is_DeleteIdempotency S k i = (y, i') \<Longrightarrow> now i \<le> now i' \<and> (\<forall>j. j \<noteq> k \<longrightarrow> entry i' j = entry i j) \<and>
      (entry i' k = None \<or> y \<noteq> Inr () \<and> entry i' k = entry i k)"
begin

text \<open>A live entry is answered without the handler, as long as the store answers.\<close>

lemma duplicate_answered:
  assumes run: "UnaryIdempotencyInterceptor E S Transfer_FullMethodName rawKey handler G = (x, G')"
    and key: "uuid_FromBytes E rawKey = Some k" "k \<noteq> uuid_Nil"
    and lock: "is_CheckOrLock S k (gw_idem G) = (Inr c, i1)"
    and live: "entry (gw_idem G) k = Some (st, d)" "now i1 < d"
  shows "x = Returned (map_sum id Some (handleDuplicate E st)) \<and> gw_world G' = gw_world G \<and> gw_pending G' = gw_pending G
    \<and> entry (gw_idem G') k = Some (st, d)"
proof -
  have "\<not> fst c" using check_law [OF lock] live by (cases c) (auto split: bool.splits)
  then obtain st' where c: "c = (False, st')" by (cases c) auto
  with check_law [OF lock] live have "st' = st" "entry i1 k = Some (st, d)" by auto
  with run key lock c show ?thesis by (auto simp: UnaryIdempotencyInterceptor_def)
qed

end

text \<open>The Redis repository is such a storage.\<close>

locale redis_idem = redis_server +
  fixes E :: ext
  assumes uuid_laws: "uuid_laws E"

sublocale redis_idem \<subseteq> redis_storage: idempotency_storage "redis_storage E R" "\<lambda>r k. data r (castKey E k)" clock
proof (unfold_locales, goal_cases)
  case (1 k i x i')
  then show ?case
    using set_nx [of "castKey E k" IDEMPOTENCY_IN_PROCESS idempotencyKeyTTL i] uuid_laws
    by (auto simp: redis_storage_def CheckOrLock_def live_def ttl_put_def
        split: prod.splits sum.splits redis_error.splits option.splits if_splits)
next
  case (2 k st i y i')
  then show ?case
    using set [of "castKey E k" st idempotencyKeyTTL i] uuid_laws
    by (cases y) (auto simp: redis_storage_def UpdateIdempotencyStatus_def cmd_Err_Inl ttl_put_def split: option.splits)
next
  case (3 k i y i')
  then show ?case
    using del [of "castKey E k" i] uuid_laws
    by (cases y) (auto simp: redis_storage_def DeleteIdempotency_def cmd_Err_Inl split: option.splits)
qed

context redis_idem
begin

lemma storage: "idempotency_storage (redis_storage E R) (\<lambda>r k. data r (castKey E k)) clock"
  by (rule redis_storage.idempotency_storage_axioms)

end

interpretation ref_idem: redis_idem ref_client rr_clock rr_data ref_ext
  by unfold_locales simp

end
