(* ===== verification/Transport_Laws.thy ===== *)
theory Transport_Laws
  imports Transport
begin

text \<open>
  The theorems on the gRPC surface: replay, exclusion and release of idempotency keys over any Redis
  server, what a status tells the client, the chain of interceptors, metric names and currency codes.
\<close>

section \<open>Facts\<close>

lemma parseCompleted_completedStatus [simp]: "uuid_laws E \<Longrightarrow> parseCompleted E (completedStatus E u) = Some u"
  unfolding parseCompleted_def completedStatus_def
  by (simp only: HasPrefix_append TrimPrefix_append uuid_laws_def) simp

lemma completed_not_in_process [simp]: "completedStatus E u \<noteq> IDEMPOTENCY_IN_PROCESS"
  by (simp add: completedStatus_def IDEMPOTENCY_IN_PROCESS_def)

lemma handleDuplicate_completed [simp]: "uuid_laws E \<Longrightarrow> handleDuplicate E (completedStatus E u) = Inr (uuid_bytes u)"
  by (simp add: handleDuplicate_def)

lemma uuid_FromBytes_back: "uuid_laws E \<Longrightarrow> uuid_FromBytes E bs = Some u \<Longrightarrow> uuid_bytes u = bs"
  by (auto simp: uuid_laws_def uuid_bytes_uuid_of_bytes split: if_splits)

lemma redis_storage_sel [simp]:
  "is_CheckOrLock (redis_storage E I) = CheckOrLock E I"
  "is_UpdateIdempotencyStatus (redis_storage E I) = UpdateIdempotencyStatus E I"
  "is_DeleteIdempotency (redis_storage E I) = DeleteIdempotency E I"
  by (simp_all add: redis_storage_def)

text \<open>The three ways a transfer passes the interceptor.\<close>

lemma interceptor_cases:
  assumes "UnaryIdempotencyInterceptor E S m rawKey handler G = (x, G')"
  obtains (through) i where "run_handler handler (G\<lparr>gw_idem := i\<rparr>) = (x, G')"
  | (duplicate) i st where "x = Returned (map_sum id Some (handleDuplicate E st))" "G' = G\<lparr>gw_idem := i\<rparr>"
  | (claimed) i k st where "uuid_FromBytes E rawKey = Some k" "is_CheckOrLock S k (gw_idem G) = (Inr (True, st), i)"
      "claimed_call E S k handler (G\<lparr>gw_idem := i\<rparr>) = (x, G')"
  using assms
  by (auto simp: UnaryIdempotencyInterceptor_def split: if_splits option.splits prod.splits sum.splits bool.splits)
    (metis (full_types) gateway.surjective gateway.update_convs(1))+

lemma claimed_world:
  "claimed_call E S k handler G = (x, G') \<Longrightarrow> gw_world G' = snd (handler (gw_world G))"
  by (auto simp: claimed_call_def release_def split: prod.splits outcome.splits sum.splits option.splits)

lemma interceptor_world:
  assumes "UnaryIdempotencyInterceptor E S m rawKey handler G = (x, G')"
  shows "gw_world G' = gw_world G \<or> gw_world G' = snd (handler (gw_world G))"
  using assms
proof (cases rule: interceptor_cases)
  case through
  then show ?thesis by (auto simp: run_handler_def split: prod.splits)
next
  case claimed
  from claimed_world [OF claimed(3)] show ?thesis by simp
qed auto

lemma claimed_Inr:
  assumes "claimed_call E S k handler G = (Returned (Inr (Some out)), G')"
  shows "\<exists>u. uuid_FromBytes E out = Some u \<and> gw_pending G' = gw_pending G @ [(k, completedStatus E u)]"
  using assms by (auto simp: claimed_call_def split: prod.splits outcome.splits sum.splits option.splits)

lemma run_pending_single:
  assumes "gw_pending G = [(k, st)]" and "run_pending S 0 G = (x, G')"
  shows "is_UpdateIdempotencyStatus S k st (gw_idem G) = (x, gw_idem G')"
  using assms by (auto simp: run_pending_def split: prod.splits)

context idempotency_storage
begin

lemma replayed:
  assumes laws: "uuid_laws E" and key: "uuid_FromBytes E rawKey = Some k" "k \<noteq> uuid_Nil"
    and claim: "fst (is_CheckOrLock S k (gw_idem G)) = Inr (True, st)" "gw_pending G = []"
    and first: "UnaryIdempotencyInterceptor E S Transfer_FullMethodName rawKey handler G = (Returned (Inr (Some out)), G1)"
    and pending: "run_pending S 0 G1 = (Inr (), G2)"
    and second: "UnaryIdempotencyInterceptor E S Transfer_FullMethodName rawKey handler' (G2\<lparr>gw_world := W\<rparr>) = (x, G3)"
    and answer: "is_CheckOrLock S k (gw_idem G2) = (Inr c, i2)" "now i2 < now (gw_idem G2) + idempotencyKeyTTL"
  shows "x = Returned (Inr (Some out)) \<and> gw_world G3 = W"
proof -
  obtain i1 where "claimed_call E S k handler (G\<lparr>gw_idem := i1\<rparr>) = (Returned (Inr (Some out)), G1)"
    using first key claim by (cases "is_CheckOrLock S k (gw_idem G)") (auto simp: UnaryIdempotencyInterceptor_def)
  from claimed_Inr [OF this] claim obtain u where u: "uuid_FromBytes E out = Some u"
    and p: "gw_pending G1 = [(k, completedStatus E u)]" by auto
  from update_law [OF run_pending_single [OF p pending]]
  have "entry (gw_idem G2) k = Some (completedStatus E u, now (gw_idem G2) + idempotencyKeyTTL)" by simp
  with duplicate_answered [OF second key] answer uuid_FromBytes_back [OF laws u] laws show ?thesis by simp
qed

text \<open>A failed call gives the key back, and the next request claims it.\<close>

lemma retried:
  assumes key: "uuid_FromBytes E rawKey = Some k" "k \<noteq> uuid_Nil"
    and claim: "is_CheckOrLock S k (gw_idem G) = (Inr (True, st), i1)"
    and run: "UnaryIdempotencyInterceptor E S Transfer_FullMethodName rawKey handler G = (x, G')"
    and fail: "x = Returned (Inl e) \<or> x = Returned (Inr None)" and del: "fst (is_DeleteIdempotency S k i1) = Inr ()"
    and again: "fst (is_CheckOrLock S k (gw_idem G')) = Inr c"
  shows "fst c \<and> entry (gw_idem G') k = None"
proof -
  have cc: "claimed_call E S k handler (G\<lparr>gw_idem := i1\<rparr>) = (x, G')"
    using run key claim by (auto simp: UnaryIdempotencyInterceptor_def)
  then have "gw_idem G' = snd (is_DeleteIdempotency S k i1)"
    using fail by (auto simp: claimed_call_def release_def split: prod.splits outcome.splits sum.splits option.splits)
  with delete_law [of k i1 "Inr ()" "gw_idem G'"] del have "entry (gw_idem G') k = None"
    by (cases "is_DeleteIdempotency S k i1") simp
  moreover from this check_law [of k "gw_idem G'" "Inr c"] again have "fst c"
    by (cases "is_CheckOrLock S k (gw_idem G')"; cases c) (auto split: bool.splits)
  ultimately show ?thesis by simp
qed

text \<open>A request whose key has no entry runs its handler, when the store answers.\<close>

lemma free_key_runs:
  assumes key: "uuid_FromBytes E rawKey = Some k" "k \<noteq> uuid_Nil" and free: "entry (gw_idem G) k = None"
    and answer: "is_CheckOrLock S k (gw_idem G) = (Inr c, i)"
    and run: "UnaryIdempotencyInterceptor E S Transfer_FullMethodName rawKey handler G = (x, G')"
  shows "gw_world G' = snd (handler (gw_world G))"
proof -
  obtain st where "c = (True, st)" using check_law [OF answer] free by (cases c) (auto split: bool.splits)
  then have "claimed_call E S k handler (G\<lparr>gw_idem := i\<rparr>) = (x, G')"
    using run key answer by (simp add: UnaryIdempotencyInterceptor_def)
  from claimed_world [OF this] show ?thesis by simp
qed

text \<open>What a panic leaves: the handler's world, no goroutine, and the entry deleted unless the store failed.\<close>

lemma panicked:
  assumes key: "uuid_FromBytes E rawKey = Some k" "k \<noteq> uuid_Nil"
    and claim: "is_CheckOrLock S k (gw_idem G) = (Inr (True, st), i1)" and panics: "handler (gw_world G) = (Panicked, W')"
    and run: "UnaryIdempotencyInterceptor E S Transfer_FullMethodName rawKey handler G = (x, G')"
  shows "x = Returned (Inr None) \<and> gw_world G' = W' \<and> gw_pending G' = gw_pending G
    \<and> (if fst (is_DeleteIdempotency S k i1) = Inr () then entry (gw_idem G') k = None
       else entry (gw_idem G') k = None \<or> entry (gw_idem G') k = Some (IDEMPOTENCY_IN_PROCESS, now i1 + idempotencyKeyTTL))"
proof -
  obtain y i2 where d: "is_DeleteIdempotency S k i1 = (y, i2)" by fastforce
  have "x = Returned (Inr None) \<and> gw_world G' = W' \<and> gw_pending G' = gw_pending G \<and> gw_idem G' = i2"
    using run key claim panics d by (auto simp: UnaryIdempotencyInterceptor_def claimed_call_def release_def)
  with delete_law [OF d] check_law [OF claim] d show ?thesis by auto
qed

end

lemma redis_idempotency_storage:
  assumes "redis_server I clock data" and "uuid_laws E"
  shows "idempotency_storage (redis_storage E I) (\<lambda>r k. data r (castKey E k)) clock"
proof -
  have "redis_idem I clock data E" using assms by (simp add: redis_idem_def redis_idem_axioms_def)
  then show ?thesis by (rule redis_idem.storage)
qed

lemma not_Panicked:
  assumes "\<And>W. fst (handler W) \<noteq> Panicked"
  shows "fst (UnaryIdempotencyInterceptor E S m rawKey handler G) \<noteq> Panicked"
proof -
  have h: "handler W \<noteq> (Panicked, W')" for W W' using assms [of W] by auto
  have m: "map_outcome f z = Panicked \<longleftrightarrow> z = Panicked" for f z by (cases z) auto
  show ?thesis
    by (auto simp: UnaryIdempotencyInterceptor_def run_handler_def claimed_call_def h m
        split: prod.splits option.splits sum.splits bool.splits outcome.splits)
qed

lemma Transfer_once:
  assumes "Transfer uc E R ff req W = (x, W')" and ho: "handles_ok (db W)"
    and used: "t \<in> set (transactions (committed (db W)))" "uuid_FromBytes E (m_IdempotencyKey req) = Some (t_IdempotencyKey t)"
  shows "committed (db W') = committed (db W) \<and> spawned W' = spawned W"
proof -
  have "committed (db W') = committed (db W) \<and> spawned W' = spawned W"
    if tr: "Transaction uc E R ff r W = (y, W')" and "req_IdempotencyKey r = t_IdempotencyKey t" for r y
  proof -
    have "\<not> transfer_done (new_transaction u (wall W) r) (db W) (db W')" for u
      using used that by (auto simp: transfer_done_def transfer_ok_def)
    then show ?thesis using Transaction_outcome(2) [OF tr ho] unfolding transfer_outcome_def by blast
  qed
  with assms(1) used(2) show ?thesis
    by (force simp: Transfer_def split: option.splits prod.splits sum.splits)
qed

lemma grpcRPC_Transfer: "grpcRPC Transfer_FullMethodName = ''Transfer''"
  by code_simp

section \<open>Samples\<close>

definition sample_call :: transfer_request where
  "sample_call = \<lparr>m_IdempotencyKey = uuid_bytes 23, m_UserFromId = uuid_bytes 2, m_UserToId = uuid_bytes 1,
     m_Amount = 30, m_Currency = 1\<rparr>"

definition sample_handler :: "ref_redis world \<Rightarrow> byte list outcome \<times> ref_redis world" where
  "sample_handler W = (case Transfer sample_uc ref_ext ref_client True sample_call W of (x, W') \<Rightarrow> (Returned x, W'))"

definition idle_store :: "store \<Rightarrow> ref_redis" where
  "idle_store m = \<lparr>rr_clock = 0, rr_data = m, rr_script = []\<rparr>"

definition sample_gateway :: "store \<Rightarrow> (ref_redis, ref_redis world) gateway" where
  "sample_gateway m = \<lparr>gw_idem = idle_store m, gw_world = sample_world, gw_pending = []\<rparr>"

lemma sample_gateway_sel [simp]:
  "gw_idem (sample_gateway m) = idle_store m" "gw_world (sample_gateway m) = sample_world" "gw_pending (sample_gateway m) = []"
  "rr_clock (idle_store m) = 0" "rr_data (idle_store m) = m"
  by (simp_all add: sample_gateway_def idle_store_def)

lemma idle_CheckOrLock [simp]:
  "CheckOrLock E ref_client k (idle_store m) =
     (case live 0 m (castKey E k) of
        None \<Rightarrow> (Inr (True, IDEMPOTENCY_IN_PROCESS), idle_store (ttl_put (castKey E k) IDEMPOTENCY_IN_PROCESS idempotencyKeyTTL 0 m))
      | Some old \<Rightarrow> (Inr (False, old), idle_store m))"
  by (simp add: CheckOrLock_def ref_client_def rr_SetArgs_def rr_tick_def idle_store_def split: option.splits)

lemma idle_Update [simp]:
  "UpdateIdempotencyStatus E ref_client k st (idle_store m) = (Inr (), idle_store (ttl_put (castKey E k) st idempotencyKeyTTL 0 m))"
  by (simp add: UpdateIdempotencyStatus_def ref_client_def rr_write_def rr_tick_def idle_store_def)

lemma idle_Delete [simp]:
  "DeleteIdempotency E ref_client k (idle_store m) = (Inr (), idle_store (m(castKey E k := None)))"
  by (simp add: DeleteIdempotency_def ref_client_def rr_write_def rr_tick_def idle_store_def)

lemma live_empty [simp]: "live t Map.empty k = None"
  by (simp add: live_def)

lemma idempotencyKeyTTL_pos [simp]: "0 < idempotencyKeyTTL"
  by (simp add: idempotencyKeyTTL_def)

lemma sample_call_Transfer:
  "Transfer sample_uc ref_ext ref_client True sample_call sample_world = (Inr (uuid_bytes 13), snd sample_run)"
proof -
  have "\<lparr>req_IdempotencyKey = 23, req_FromAccountID = 2, req_ToAccountID = 1, req_Currency = to_currency 1, req_Amount = 30\<rparr> = sample_request"
    by (simp add: sample_request_def to_currency_def currency_defs)
  then show ?thesis by (simp add: Transfer_def sample_call_def sample_run_eq)
qed

text \<open>The first call claims its key, runs the transfer and leaves the status update to a goroutine.\<close>

definition sample_answered :: "(ref_redis, ref_redis world) gateway" where
  "sample_answered = \<lparr>gw_idem = idle_store (ttl_put (castKey ref_ext 23) IDEMPOTENCY_IN_PROCESS idempotencyKeyTTL 0 Map.empty),
     gw_world = snd sample_run, gw_pending = [(23, completedStatus ref_ext 13)]\<rparr>"

lemma sample_first_call:
  "UnaryIdempotencyInterceptor ref_ext (redis_storage ref_ext ref_client) Transfer_FullMethodName (uuid_bytes 23)
     sample_handler (sample_gateway Map.empty) = (Returned (Inr (Some (uuid_bytes 13))), sample_answered)"
  by (simp add: UnaryIdempotencyInterceptor_def claimed_call_def sample_handler_def sample_call_Transfer
      uuid_Nil_def sample_answered_def sample_gateway_def)

lemma sample_pending:
  "run_pending (redis_storage ref_ext ref_client) 0 sample_answered = (Inr (), sample_answered\<lparr>gw_pending := [],
     gw_idem := idle_store (ttl_put (castKey ref_ext 23) (completedStatus ref_ext 13) idempotencyKeyTTL 0
        (ttl_put (castKey ref_ext 23) IDEMPOTENCY_IN_PROCESS idempotencyKeyTTL 0 Map.empty))\<rparr>)"
  by (simp add: run_pending_def sample_answered_def)

section \<open>Theorems\<close>

text \<open>C29. A repeated request is answered from the store: over any Redis server, when a transfer
  claimed its key and returned a transaction id and its goroutine has stored the outcome, then a request with the
  same key that reaches the store within ten minutes gets the same bytes, and its handler, whatever
  it is, does not run: the world stays as it is.\<close>

theorem duplicate_replays:
  assumes srv: "redis_server I clock data" and laws: "uuid_laws E"
    and key: "uuid_FromBytes E rawKey = Some k" "k \<noteq> uuid_Nil"
    and claim: "fst (CheckOrLock E I k (gw_idem G)) = Inr (True, st)" "gw_pending G = []"
    and first: "UnaryIdempotencyInterceptor E (redis_storage E I) Transfer_FullMethodName rawKey handler G = (Returned (Inr (Some out)), G1)"
    and pending: "run_pending (redis_storage E I) 0 G1 = (Inr (), G2)"
    and second: "UnaryIdempotencyInterceptor E (redis_storage E I) Transfer_FullMethodName rawKey handler' (G2\<lparr>gw_world := W\<rparr>) = (x, G3)"
    and answer: "CheckOrLock E I k (gw_idem G2) = (Inr c, i2)" "clock i2 < clock (gw_idem G2) + idempotencyKeyTTL"
  shows "x = Returned (Inr (Some out)) \<and> gw_world G3 = W"
  using idempotency_storage.replayed [OF redis_idempotency_storage [OF srv laws] laws key _ claim(2) first pending second]
    claim(1) answer by simp

theorem duplicate_replays_witness:
  "\<exists>G2 G3. run_pending (redis_storage ref_ext ref_client) 0 sample_answered = (Inr (), G2)
     \<and> UnaryIdempotencyInterceptor ref_ext (redis_storage ref_ext ref_client) Transfer_FullMethodName (uuid_bytes 23)
         sample_handler G2 = (Returned (Inr (Some (uuid_bytes 13))), G3) \<and> gw_world G3 = snd sample_run"
proof -
  define G2 where "G2 = snd (run_pending (redis_storage ref_ext ref_client) 0 sample_answered)"
  have p: "run_pending (redis_storage ref_ext ref_client) 0 sample_answered = (Inr (), G2)"
    by (simp add: G2_def sample_pending)
  have c: "CheckOrLock ref_ext ref_client 23 (gw_idem G2) = (Inr (False, completedStatus ref_ext 13), gw_idem G2)"
    by (simp add: G2_def sample_pending live_ttl_put)
  have w: "G2\<lparr>gw_world := snd sample_run\<rparr> = G2" unfolding G2_def sample_pending by (simp add: sample_answered_def)
  obtain x G3 where r: "UnaryIdempotencyInterceptor ref_ext (redis_storage ref_ext ref_client) Transfer_FullMethodName
      (uuid_bytes 23) sample_handler (G2\<lparr>gw_world := snd sample_run\<rparr>) = (x, G3)" by fastforce
  have "x = Returned (Inr (Some (uuid_bytes 13))) \<and> gw_world G3 = snd sample_run"
    using duplicate_replays [OF ref.redis_server_axioms ref_uuid_laws _ _ _ _ sample_first_call p r c] by (simp add: uuid_Nil_def)
  with p r w show ?thesis by auto
qed

text \<open>A key in process excludes others: over any Redis server, while the entry of a claimed key is alive and the store
  answers, a second request with the key is refused with \<^verbatim>\<open>Aborted\<close>, its handler does not run, and
  the entry stays.\<close>

theorem in_process_excludes:
  assumes srv: "redis_server I clock data" and laws: "uuid_laws E"
    and key: "uuid_FromBytes E rawKey = Some k" "k \<noteq> uuid_Nil"
    and held: "data (gw_idem G) (castKey E k) = Some (IDEMPOTENCY_IN_PROCESS, d)"
    and answer: "CheckOrLock E I k (gw_idem G) = (Inr c, i1)" "clock i1 < d"
    and run: "UnaryIdempotencyInterceptor E (redis_storage E I) Transfer_FullMethodName rawKey handler G = (x, G')"
  shows "x = Returned (Inl (Status codes_Aborted '''' (Some ErrIdempotencyInProgress))) \<and> gw_world G' = gw_world G
    \<and> data (gw_idem G') (castKey E k) = Some (IDEMPOTENCY_IN_PROCESS, d)"
  using idempotency_storage.duplicate_answered [OF redis_idempotency_storage [OF srv laws] run key _ held answer(2)] answer(1)
  by (simp add: handleDuplicate_def)

theorem in_process_excludes_witness:
  "fst (UnaryIdempotencyInterceptor ref_ext (redis_storage ref_ext ref_client) Transfer_FullMethodName (uuid_bytes 23)
     sample_handler (sample_gateway [castKey ref_ext 23 \<mapsto> (IDEMPOTENCY_IN_PROCESS, 5)]))
   = Returned (Inl (Status codes_Aborted '''' (Some ErrIdempotencyInProgress)))"
proof -
  let ?G = "sample_gateway [castKey ref_ext 23 \<mapsto> (IDEMPOTENCY_IN_PROCESS, 5)]"
  let ?r = "UnaryIdempotencyInterceptor ref_ext (redis_storage ref_ext ref_client) Transfer_FullMethodName (uuid_bytes 23) sample_handler ?G"
  have "CheckOrLock ref_ext ref_client 23 (gw_idem ?G) = (Inr (False, IDEMPOTENCY_IN_PROCESS), gw_idem ?G)"
    by (simp add: live_def)
  from in_process_excludes [OF ref.redis_server_axioms ref_uuid_laws _ _ _ this, of "uuid_bytes 23" 5 sample_handler "fst ?r" "snd ?r"]
  show ?thesis by (simp add: uuid_Nil_def)
qed

text \<open>A failed transfer can be repeated: over any Redis server, when a request that claimed its
  key fails, or its handler panics, and the store takes the deletion, then the key is free and the next request
  with it that the store answers claims it.\<close>

theorem failure_releases:
  assumes srv: "redis_server I clock data" and laws: "uuid_laws E"
    and key: "uuid_FromBytes E rawKey = Some k" "k \<noteq> uuid_Nil"
    and claim: "CheckOrLock E I k (gw_idem G) = (Inr (True, st), i1)"
    and run: "UnaryIdempotencyInterceptor E (redis_storage E I) Transfer_FullMethodName rawKey handler G = (x, G')"
    and fail: "x = Returned (Inl e) \<or> x = Returned (Inr None)" and del: "fst (DeleteIdempotency E I k i1) = Inr ()"
    and again: "fst (CheckOrLock E I k (gw_idem G')) = Inr c"
  shows "fst c \<and> data (gw_idem G') (castKey E k) = None"
  using idempotency_storage.retried [OF redis_idempotency_storage [OF srv laws] key _ run fail, of st i1 c] claim del again
  by simp

definition failing_handler :: "ref_redis world \<Rightarrow> byte list outcome \<times> ref_redis world" where
  "failing_handler W = (Returned (Inl (Status codes_Internal ''transfer failed: '' None)), W)"

theorem failure_releases_witness:
  "rr_data (gw_idem (snd (UnaryIdempotencyInterceptor ref_ext (redis_storage ref_ext ref_client) Transfer_FullMethodName
     (uuid_bytes 23) failing_handler (sample_gateway Map.empty)))) (castKey ref_ext 23) = None"
proof -
  let ?r = "UnaryIdempotencyInterceptor ref_ext (redis_storage ref_ext ref_client) Transfer_FullMethodName
     (uuid_bytes 23) failing_handler (sample_gateway Map.empty)"
  obtain e m where r: "?r = (Returned (Inl e), sample_gateway m)" and m: "m (castKey ref_ext 23) = None"
    by (simp add: UnaryIdempotencyInterceptor_def claimed_call_def failing_handler_def release_def uuid_Nil_def sample_gateway_def)
  from failure_releases [OF ref.redis_server_axioms ref_uuid_laws _ _ _ r, of 23 IDEMPOTENCY_IN_PROCESS] m
  show ?thesis unfolding r by (simp add: uuid_Nil_def live_def)
qed

text \<open>C30. A panic in the handler of a claimed transfer is not reported, over any Redis server: the recovering
  function assigns a variable that is not a result, so the client gets neither a response nor an error
  and the metrics count the call as \<^verbatim>\<open>OK\<close>; what the handler did before it panicked stays done, and
  no goroutine will store an outcome. The key does not stay claimed: it is deleted, and the next
  request with it that the store answers runs its handler; only when the store did not take the
  deletion can the claim survive, and then the next request is refused with \<^verbatim>\<open>Aborted\<close> until it expires.\<close>

theorem panic_unreported:
  assumes srv: "redis_server I clock data" and laws: "uuid_laws E"
    and key: "uuid_FromBytes E rawKey = Some k" "k \<noteq> uuid_Nil"
    and claim: "CheckOrLock E I k (gw_idem G) = (Inr (True, st), i1)"
    and panics: "handler (gw_world G) = (Panicked, W')"
    and run: "UnaryMetricsInterceptor Transfer_FullMethodName d
      (UnaryIdempotencyInterceptor E (redis_storage E I) Transfer_FullMethodName rawKey handler) (G, M) = (x, G', M')"
    and again: "CheckOrLock E I k (gw_idem G') = (Inr c, i3)"
      "UnaryIdempotencyInterceptor E (redis_storage E I) Transfer_FullMethodName rawKey handler' G' = (x2, G2)"
  shows "x = Returned (Inr None) \<and> gw_world G' = W' \<and> gw_pending G' = gw_pending G
    \<and> gm_requests M' = (gm_requests M)((''Transfer'', ''OK'') := Suc (gm_requests M (''Transfer'', ''OK'')))
    \<and> (if fst (DeleteIdempotency E I k i1) = Inr ()
       then data (gw_idem G') (castKey E k) = None \<and> gw_world G2 = snd (handler' W')
       else data (gw_idem G') (castKey E k) = None
         \<or> data (gw_idem G') (castKey E k) = Some (IDEMPOTENCY_IN_PROCESS, clock i1 + idempotencyKeyTTL)
           \<and> (clock i3 < clock i1 + idempotencyKeyTTL \<longrightarrow>
                x2 = Returned (Inl (Status codes_Aborted '''' (Some ErrIdempotencyInProgress))) \<and> gw_world G2 = W'))"
proof -
  note st = redis_idempotency_storage [OF srv laws]
  obtain y where u: "UnaryIdempotencyInterceptor E (redis_storage E I) Transfer_FullMethodName rawKey handler G = (y, G')"
    using run by (auto simp: UnaryMetricsInterceptor_def split: prod.splits outcome.splits)
  have claim': "is_CheckOrLock (redis_storage E I) k (gw_idem G) = (Inr (True, st), i1)" using claim by simp
  note p = idempotency_storage.panicked [OF st key claim' panics u]
  have "x = Returned (Inr None) \<and> gm_requests M' = (gm_requests M)((''Transfer'', ''OK'') := Suc (gm_requests M (''Transfer'', ''OK'')))"
    using run u p
    by (auto simp: UnaryMetricsInterceptor_def status_code_def ObserveTotalRequests_def ObserveResponseTime_def
        ObserveGRPCRequest_def ObserveGRPCDuration_def grpcRPC_Transfer)
  moreover have "gw_world G2 = snd (handler' W')" if "data (gw_idem G') (castKey E k) = None"
    using idempotency_storage.free_key_runs [OF st key _ _ again(2)] that again(1) p by simp
  moreover have "x2 = Returned (Inl (Status codes_Aborted '''' (Some ErrIdempotencyInProgress))) \<and> gw_world G2 = W'"
    if "data (gw_idem G') (castKey E k) = Some (IDEMPOTENCY_IN_PROCESS, clock i1 + idempotencyKeyTTL)"
      "clock i3 < clock i1 + idempotencyKeyTTL"
    using idempotency_storage.duplicate_answered [OF st again(2) key _ that] again(1) p
    by (simp add: handleDuplicate_def)
  ultimately show ?thesis using p by auto
qed

theorem panic_unreported_witness:
  "\<exists>G' M'. UnaryMetricsInterceptor Transfer_FullMethodName 1
      (UnaryIdempotencyInterceptor ref_ext (redis_storage ref_ext ref_client) Transfer_FullMethodName (uuid_bytes 23) (\<lambda>W. (Panicked, snd sample_run)))
      (sample_gateway Map.empty, \<lparr>gm_requests = (\<lambda>_. 0), gm_durations = []\<rparr>) = (Returned (Inr None), G', M')
    \<and> gm_requests M' (''Transfer'', ''OK'') = 1 \<and> gw_world G' = snd sample_run
    \<and> gw_world (snd (UnaryIdempotencyInterceptor ref_ext (redis_storage ref_ext ref_client) Transfer_FullMethodName (uuid_bytes 23)
         (\<lambda>W. (Panicked, sample_world)) G')) = sample_world"
proof -
  let ?U = "UnaryIdempotencyInterceptor ref_ext (redis_storage ref_ext ref_client) Transfer_FullMethodName (uuid_bytes 23)"
  let ?M = "\<lparr>gm_requests = (\<lambda>_. 0), gm_durations = []\<rparr>"
  obtain x G' M' where r: "UnaryMetricsInterceptor Transfer_FullMethodName 1 (?U (\<lambda>W. (Panicked, snd sample_run)))
      (sample_gateway Map.empty, ?M) = (x, G', M')" by (metis surj_pair)
  then obtain m where "gw_idem G' = idle_store m" "m (castKey ref_ext 23) = None"
    by (auto simp: UnaryMetricsInterceptor_def UnaryIdempotencyInterceptor_def claimed_call_def release_def uuid_Nil_def)
  then have c: "CheckOrLock ref_ext ref_client 23 (gw_idem G') = (Inr (True, IDEMPOTENCY_IN_PROCESS),
      idle_store (ttl_put (castKey ref_ext 23) IDEMPOTENCY_IN_PROCESS idempotencyKeyTTL 0 m))"
    by (simp add: live_def)
  obtain x2 G2 where r2: "?U (\<lambda>W. (Panicked, sample_world)) G' = (x2, G2)" by fastforce
  show ?thesis
    using panic_unreported [where k = 23, OF ref.redis_server_axioms ref_uuid_laws _ _ _ _ r c r2] r r2
    by (auto simp: uuid_Nil_def)
qed

text \<open>C31. What the status of a transfer tells the client: \<^verbatim>\<open>OK\<close> carries the bytes of the id of a
  transaction that is now committed with the request's key, accounts and amount; any code but \<^verbatim>\<open>Internal\<close> means that no
  table changed and nothing will be published.\<close>

theorem Transfer_status:
  assumes run: "Transfer uc E R ff req W = (x, W')" and ho: "handles_ok (db W)"
  shows "case x of
      Inr out \<Rightarrow> \<exists>t \<in> set (transactions (committed (db W'))). uuid_bytes (t_ID t) = out \<and> t_Amount t = m_Amount req
        \<and> uuid_FromBytes E (m_IdempotencyKey req) = Some (t_IdempotencyKey t)
        \<and> uuid_FromBytes E (m_UserFromId req) = Some (t_FromAccountID t)
        \<and> uuid_FromBytes E (m_UserToId req) = Some (t_ToAccountID t)
    | Inl st \<Rightarrow> st_code st = codes_Internal \<or> committed (db W') = committed (db W) \<and> spawned W' = spawned W"
proof (cases "\<exists>k f t. uuid_FromBytes E (m_IdempotencyKey req) = Some k \<and> uuid_FromBytes E (m_UserFromId req) = Some f
    \<and> uuid_FromBytes E (m_UserToId req) = Some t")
  case False
  with run show ?thesis by (auto simp: Transfer_def split: option.splits)
next
  case True
  then obtain k f t where ids: "uuid_FromBytes E (m_IdempotencyKey req) = Some k"
    "uuid_FromBytes E (m_UserFromId req) = Some f" "uuid_FromBytes E (m_UserToId req) = Some t" by blast
  let ?req = "\<lparr>req_IdempotencyKey = k, req_FromAccountID = f, req_ToAccountID = t,
              req_Currency = to_currency (m_Currency req), req_Amount = m_Amount req\<rparr>"
  obtain y where tr: "Transaction uc E R ff ?req W = (y, W')"
    and x: "x = (case y of Inl err \<Rightarrow> Inl (transfer_error err) | Inr i \<Rightarrow> Inr (uuid_bytes i))"
    using run ids by (auto simp: Transfer_def split: prod.splits sum.splits)
  have code: "st_code (transfer_error (Driver d)) = codes_Internal" for d by (simp add: transfer_error_def)
  from Transaction_outcome(2) [OF tr ho] show ?thesis
    unfolding transfer_outcome_def transfer_done_def
    by (auto simp: x code ids transfer_tables_def)
qed

theorem Transfer_status_witness:
  "\<exists>t \<in> set (transactions (committed (db (snd sample_run)))). t_ID t = 13 \<and> t_Amount t = 30 \<and> t_IdempotencyKey t = 23"
  using Transfer_status [OF sample_call_Transfer] by (force simp: sample_call_def)

text \<open>The gateway applies a key at most once and counts every request once: when the tables
  hold a transaction of the request's key, a transfer sent through the chain of interceptors, with any
  idempotency store, one that fails included, changes no table and publishes nothing; and the
  chain adds one request and one duration under the method's name and the code of the answer.\<close>

theorem gateway_once:
  assumes run: "gateway_Transfer uc E R S ff d req (G, M) = (x, G', M')" and ho: "handles_ok (db (gw_world G))"
    and used: "t \<in> set (transactions (committed (db (gw_world G))))"
      "uuid_FromBytes E (m_IdempotencyKey req) = Some (t_IdempotencyKey t)"
  shows "committed (db (gw_world G')) = committed (db (gw_world G)) \<and> spawned (gw_world G') = spawned (gw_world G)
    \<and> (\<exists>y. x = Returned y \<and> gm_durations M' = gm_durations M @ [(''Transfer'', status_code y, d)]
        \<and> gm_requests M' = (gm_requests M)((''Transfer'', status_code y) := Suc (gm_requests M (''Transfer'', status_code y))))"
proof -
  let ?h = "\<lambda>W. case Transfer uc E R ff req W of (x, W') \<Rightarrow> (Returned x, W')"
  let ?W = "snd (?h (gw_world G))"
  have np: "fst (UnaryIdempotencyInterceptor E S Transfer_FullMethodName (m_IdempotencyKey req) ?h G) \<noteq> Panicked"
    by (rule not_Panicked) (simp split: prod.splits)
  obtain y where i: "UnaryIdempotencyInterceptor E S Transfer_FullMethodName (m_IdempotencyKey req) ?h G = (Returned y, G')"
      "x = Returned y" "M' = ObserveTotalRequests Transfer_FullMethodName (status_code y)
         (ObserveResponseTime Transfer_FullMethodName (status_code y) d M)"
    using run np by (auto simp: gateway_Transfer_def UnaryMetricsInterceptor_def split: prod.splits outcome.splits)
  have "committed (db ?W) = committed (db (gw_world G)) \<and> spawned ?W = spawned (gw_world G)"
    using Transfer_once [OF prod.collapse [symmetric] ho used, of uc R ff] by (simp add: case_prod_beta)
  with interceptor_world [OF i(1)] i(2,3) show ?thesis
    by (auto simp: ObserveTotalRequests_def ObserveResponseTime_def ObserveGRPCRequest_def ObserveGRPCDuration_def grpcRPC_Transfer)
qed

theorem gateway_once_witness:
  "committed (db (gw_world (fst (snd (gateway_Transfer sample_uc ref_ext ref_client (redis_storage ref_ext ref_client) True 4
      (sample_call\<lparr>m_IdempotencyKey := uuid_bytes 21\<rparr>) (sample_gateway Map.empty, \<lparr>gm_requests = (\<lambda>_. 0), gm_durations = []\<rparr>))))))
   = sample_tables"
proof -
  let ?r = "gateway_Transfer sample_uc ref_ext ref_client (redis_storage ref_ext ref_client) True 4
      (sample_call\<lparr>m_IdempotencyKey := uuid_bytes 21\<rparr>) (sample_gateway Map.empty, \<lparr>gm_requests = (\<lambda>_. 0), gm_durations = []\<rparr>)"
  have "?r = (fst ?r, fst (snd ?r), snd (snd ?r))" by simp
  from gateway_once [OF this, of "hd (transactions sample_tables)"] show ?thesis
    by (simp add: sample_tables_def)
qed

text \<open>The name of a request in the metrics is the last segment of the gRPC method.\<close>

lemma grpcRPC_last:
  assumes "CHR ''/'' \<notin> set name" and "name \<noteq> ''''"
  shows "grpcRPC (service @ CHR ''/'' # name) = name \<and> grpcRPC name = name"
proof -
  have "takeWhile (\<lambda>c. c \<noteq> CHR ''/'') (rev (service @ CHR ''/'' # name)) = rev name"
    using assms(1) by (simp add: takeWhile_append)
  moreover have "0 < length name" using assms(2) by simp
  ultimately show ?thesis
    using assms by (auto simp: grpcRPC_def LastIndex_slash_def)
qed

text \<open>C32. The conversion of a currency code keeps 16 of its 32 bits: exactly the codes congruent to
  1, 2, 3 or 4 modulo \<open>2^16\<close> pass validation, so \<open>65537\<close> is taken for USD; and a stored code is
  answered as it was.\<close>

theorem currency_code_wraps:
  "(IsValid (to_currency c) \<longleftrightarrow> uint c mod 65536 \<in> {1, 2, 3, 4}) \<and> to_currency 65537 = CURRENCY_USD
   \<and> to_currency (of_currency e) = e"
proof -
  have "to_currency c = w \<longleftrightarrow> uint c mod 65536 = uint w" for w
    by (simp add: to_currency_def word_uint_eq_iff unsigned_ucast_eq take_bit_eq_mod)
  then have "IsValid (to_currency c) \<longleftrightarrow> uint c mod 65536 \<in> {1, 2, 3, 4}"
    by (auto simp: IsValid_def currency_defs)
  moreover have "to_currency (of_currency e) = e"
    by (rule bit_word_eqI) (auto simp: to_currency_def of_currency_def bit_simps)
  ultimately show ?thesis by (simp add: to_currency_def currency_defs)
qed

end
