(* ===== verification/Ledger_Frames.thy ===== *)
theory Ledger_Frames
  imports Transport_Laws
begin

text \<open>
  What every operation of the running system keeps: committed transactions and account currencies are
  never lost, the cached transactions are written by the projector only, and on balanced books the
  posting worker changes no balance under any pattern of failures.
\<close>

section \<open>Tables that only grow\<close>

definition grows :: "tables \<Rightarrow> tables \<Rightarrow> bool" where
  "grows w w' \<longleftrightarrow> set (transactions w) \<subseteq> set (transactions w')
     \<and> (\<forall>a r. accounts w a = Some r \<longrightarrow> (\<exists>r'. accounts w' a = Some r' \<and> acc_Currency r' = acc_Currency r))"

lemma grows_refl [simp]: "grows w w"
  by (simp add: grows_def)

lemma grows_trans [trans]: "grows w u \<Longrightarrow> grows u w' \<Longrightarrow> grows w w'"
  unfolding grows_def by (intro conjI) (blast, metis)

lemma grows_upd_row: "(\<And>r. acc_Currency (f r) = acc_Currency r) \<Longrightarrow> grows w (upd_row i f w)"
  by (auto simp: grows_def accounts_upd_row)

lemma grows_add [simp]:
  "grows w (add_transaction t w)" "grows w (add_postings ps w)"
  "accounts w (acc_ID a) = None \<Longrightarrow> grows w (add_account a w)"
  by (auto simp: grows_def)

lemma grows_transfer: "grows w (transfer_tables trx q now w)"
  unfolding transfer_tables_def
  by (rule grows_trans [OF grows_trans [OF grows_trans [OF grows_add(1) grows_add(2)] grows_upd_row] grows_upd_row])
    (simp_all add: move_row_def)

lemma grows_coherent [ledger_mono]: "grows w w' \<Longrightarrow> coherent E m w \<Longrightarrow> coherent E m w'"
  by (rule coherent_mono) (auto simp: grows_def)

lemma grows_tx_coherent [ledger_mono]: "grows w w' \<Longrightarrow> tx_coherent E m w \<Longrightarrow> tx_coherent E m w'"
  unfolding grows_def tx_coherent_def by (meson subsetD)

lemma grows_genuine [ledger_mono]: "grows w w' \<Longrightarrow> genuine E w ms \<Longrightarrow> genuine E w' ms"
  unfolding grows_def genuine_def by (meson subsetD)

lemma Transaction_grows:
  assumes "Transaction uc E R ff req W = (x, W')" and "handles_ok (db W)"
  shows "grows (committed (db W)) (committed (db W'))"
  using Transaction_outcome(2) [OF assms] grows_transfer
  unfolding transfer_outcome_def transfer_done_def by (metis grows_refl)

lemma opened_grows: "opened i c b q now w w' q' \<Longrightarrow> grows w w'"
proof -
  assume o: "opened i c b q now w w' q'"
  then have a: "grows w (add_account (new_account i c now) w)" by (intro grows_add(3)) (simp add: opened_def)
  have "grows u (post_entry p now u)" for p u
    by (auto simp: post_entry_def move_row_def intro!: grows_trans [OF grows_add(2) grows_upd_row])
  then show ?thesis
    using o grows_trans [OF grows_trans [OF a grows_add(1)]] a by (auto simp: opened_def opening_tables_def split: if_splits)
qed

section \<open>The transaction cache\<close>

definition same_tx_cache :: "ext \<Rightarrow> store \<Rightarrow> store \<Rightarrow> bool" where
  "same_tx_cache E m m' \<longleftrightarrow> (\<forall>i. m' (transactionCacheKey E i) = m (transactionCacheKey E i))"

lemma same_tx_cache_refl [simp]: "same_tx_cache E m m"
  by (simp add: same_tx_cache_def)

lemma same_tx_cache_trans [trans]: "same_tx_cache E m n \<Longrightarrow> same_tx_cache E n o' \<Longrightarrow> same_tx_cache E m o'"
  by (simp add: same_tx_cache_def)

lemma same_tx_cache_put [simp]: "same_tx_cache E m (ttl_put (currency_key E a) v ttl now m)"
  by (simp add: same_tx_cache_def ttl_put_def)

lemma same_tx_cache_coherent: "same_tx_cache E m m' \<Longrightarrow> tx_coherent E m w \<Longrightarrow> tx_coherent E m' w"
  by (simp add: same_tx_cache_def tx_coherent_def)

context redis_server
begin

lemma SetAccountCurrency_tx_cache:
  "SetAccountCurrency E R a c ttl r = (x, r') \<Longrightarrow> same_tx_cache E (data r) (data r')"
  using SetAccountCurrency_spec(1) [of E a c ttl r x r'] by auto

lemma resolve_currency_tx_cache:
  "resolve_currency E R m a c W = (x, W') \<Longrightarrow> same_tx_cache E (data (cache W)) (data (cache W'))"
  by (auto simp: resolve_currency_def on_cache_def split: if_splits option.splits prod.splits
      dest: SetAccountCurrency_tx_cache)

lemma validateTransferCurrencies_tx_cache:
  assumes "validateTransferCurrencies E R ff f t c W = (x, W')"
  shows "same_tx_cache E (data (cache W)) (data (cache W'))"
proof -
  obtain cf ct W1 where rc: "read_currencies E R ff f t W = ((cf, ct), W1)" by (metis surj_pair)
  note r = read_currencies_spec(1) [OF rc]
  show ?thesis
    using assms rc r
    by (auto simp: validateTransferCurrencies_def on_db_def Let_def split: prod.splits if_splits
        elim!: bind_r_cases dest!: resolve_currency_tx_cache) (simp_all add: same_tx_cache_def)
qed

lemma Transaction_tx_cache:
  assumes "Transaction uc E R ff req W = (x, W')"
  shows "same_tx_cache E (data (cache W)) (data (cache W'))"
  using assms by (cases rule: Transaction_cache) (auto dest: validateTransferCurrencies_tx_cache)

lemma uc_CreateAccount_tx_cache:
  assumes "uc_CreateAccount E R rnd c W = (x, W')" and "handles_ok (db W)"
  shows "same_tx_cache E (data (cache W)) (data (cache W'))"
proof -
  have "cache W' = cache W \<or> (\<exists>i. cache W' = snd (SetAccountCurrency E R i c currencyTTL (cache W)))"
    using uc_CreateAccount_outcome [OF assms] by blast
  then show ?thesis using SetAccountCurrency_tx_cache [OF surjective_pairing] by auto
qed

lemma HandleKafkaMessage_currencies:
  assumes "HandleKafkaMessage E R ttl msg r = (x, r')" and "coherent E (data r) w"
  shows "coherent E (data r') w"
proof -
  have *: "coherent E (data r') w" if "SetTransaction E R (Some t) ttl r = (x, r')" for t
    using SetTransaction_spec(2) [OF that] coherent_put_other(1) [OF assms(2), of "transactionCacheKey E (t_ID t)"] assms(2)
    by (auto simp: image_iff)
  show ?thesis
    using assms * by (auto simp: HandleKafkaMessage_def Let_def split: option.splits sum.splits if_splits)
qed

lemma consumer_turn_currencies:
  assumes "consumer_turn K (HandleKafkaMessage E R ttl) (k, r) = (e, k', r')" and "coherent E (data r) w"
  shows "coherent E (data r') w"
  using assms
  by (auto simp: consumer_turn_def split: prod.splits sum.splits option.splits dest: HandleKafkaMessage_currencies)

end

section \<open>The posting worker on balanced books\<close>

text \<open>The same transactions, postings and rows, up to the time of the last update and the cursors.\<close>

definition same_row :: "account \<Rightarrow> account \<Rightarrow> bool" where
  "same_row r r' \<longleftrightarrow> acc_ID r' = acc_ID r \<and> acc_Balance r' = acc_Balance r \<and> acc_Currency r' = acc_Currency r
     \<and> acc_LatestPostingID r' = acc_LatestPostingID r"

definition same_money :: "tables \<Rightarrow> tables \<Rightarrow> bool" where
  "same_money w w' \<longleftrightarrow> transactions w' = transactions w \<and> postings w' = postings w
     \<and> (\<forall>a. rel_option same_row (accounts w a) (accounts w' a))"

lemma same_row_option [simp]: "rel_option same_row x x"
  by (cases x) (simp_all add: same_row_def)

lemma same_money_refl [simp]: "same_money w w"
  by (simp add: same_money_def)

lemma same_money_trans [trans]: "same_money w u \<Longrightarrow> same_money u w' \<Longrightarrow> same_money w w'"
  using option.rel_transp [of same_row]
  by (fastforce simp: same_money_def transp_def same_row_def)

lemma same_money_row:
  assumes "same_money w w'"
  shows "accounts w' a = None \<longleftrightarrow> accounts w a = None"
    and "accounts w' a = Some r' \<Longrightarrow> \<exists>r. accounts w a = Some r \<and> same_row r r'"
proof -
  have m: "rel_option same_row (accounts w a) (accounts w' a)" using assms by (simp add: same_money_def)
  show "accounts w' a = None \<longleftrightarrow> accounts w a = None" using m by (cases rule: option.rel_cases) simp_all
  show "\<exists>r. accounts w a = Some r \<and> same_row r r'" if "accounts w' a = Some r'" using m that by (simp add: option_rel_Some2)
qed

lemma same_money_sums:
  assumes "same_money w w'"
  shows "sum_postings P w' = sum_postings P w" and "max_posting_id P w' = max_posting_id P w"
  using assms by (simp_all add: same_money_def sum_postings_def max_posting_id_def)

lemma same_money_keeps:
  assumes "same_money w w'"
  shows "schema_ok q w \<Longrightarrow> schema_ok q w'" and "books_ok w \<Longrightarrow> books_ok w'" and "journal_ok w \<Longrightarrow> journal_ok w'"
    and "grows w w'" and "total_in c w' = total_in c w"
proof -
  note r = same_money_row [OF assms]
  have t: "transactions w' = transactions w" "postings w' = postings w" using assms by (simp_all add: same_money_def)
  show "schema_ok q w \<Longrightarrow> schema_ok q w'"
    unfolding schema_ok_def t r(1) by (auto simp: same_row_def dest!: r(2))
  show "books_ok w \<Longrightarrow> books_ok w'"
    unfolding books_ok_def same_money_sums [OF assms] by (auto simp: same_row_def dest!: r(2))
  show "journal_ok w \<Longrightarrow> journal_ok w'" unfolding journal_ok_def same_money_sums [OF assms] t .
  show "grows w w'" unfolding grows_def t
  proof (intro conjI allI impI subset_refl)
    fix a x assume x: "accounts w a = Some x"
    with r(1) [of a] obtain x' where x': "accounts w' a = Some x'" by auto
    with r(2) [OF x'] x show "\<exists>r'. accounts w' a = Some r' \<and> acc_Currency r' = acc_Currency x" by (simp add: same_row_def)
  qed
  show "total_in c w' = total_in c w" unfolding total_in_def
    by (rule sum.cong) (auto split: option.splits simp: r(1) same_row_def dest!: r(2))
qed

lemma fix_account_same:
  assumes "books_ok w"
  shows "same_money w (fix_account a now w)"
  unfolding same_money_def fix_account_def
proof (intro conjI allI)
  fix b
  show "rel_option same_row (accounts w b) (accounts (upd_row a (fixed_row (sum_postings (of_account a) w)
      (max_posting_id (of_account a) w) now) w) b)"
    using assms by (cases "accounts w b") (auto simp: accounts_upd_row fixed_row_def books_ok_def same_row_def)
qed simp_all

text \<open>A computation of a worker that runs alone and finds balanced books leaves the money alone.\<close>

definition kept :: "wk \<Rightarrow> bool" where
  "kept w \<longleftrightarrow> alone w \<and> handles_ok (wk_db w) \<and> db_ok (wk_db w)"

definition calmly :: "wk \<Rightarrow> wk \<Rightarrow> bool" where
  "calmly w w' \<longleftrightarrow> kept w' \<and> same_money (committed (wk_db w)) (committed (wk_db w'))
     \<and> open_txs (wk_db w') = open_txs (wk_db w)"

lemma calmly_refl [simp]: "kept w \<Longrightarrow> calmly w w"
  by (simp add: calmly_def)

lemma calmly_trans [trans]: "calmly w u \<Longrightarrow> calmly u w' \<Longrightarrow> calmly w w'"
  by (auto simp: calmly_def intro: same_money_trans)

lemma calmly_kept: "calmly w w' \<Longrightarrow> kept w'"
  by (simp add: calmly_def)

lemma calmlyI:
  assumes "kept w" and "wk_frame w w'" and "same_money (committed (wk_db w)) (committed (wk_db w'))"
  shows "calmly w w'"
  using assms same_money_keeps(1,2) [OF assms(3)]
  by (auto simp: calmly_def kept_def wk_frame_def db_ok_def intro: schema_ok_seq_mono)

lemma ctx_Err_calmly: "ctx_Err w = (x, w') \<Longrightarrow> kept w \<Longrightarrow> calmly w w'"
  by (auto simp: calmly_def kept_def alone_def dest!: ctx_Err_same)

lemma call_read_calmly:
  assumes "call m w = (x, w')" and k: "kept w" and same: "\<And>s y t. m s = (y, t) \<Longrightarrow> same_db s t"
  shows "calmly w w'"
proof -
  from k have "alone w" by (simp add: kept_def)
  then obtain t where "w' = w\<lparr>wk_db := t\<rparr>" "same_data (wk_db w) t"
    using call_read_alone [OF assms(1)] same by blast
  with k show ?thesis by (auto simp: calmly_def kept_def alone_def same_data_def handles_ok_def db_ok_def)
qed

lemma ValidateBalance_calmly:
  assumes "ValidateBalance pw a l w = (x, w')" and "kept w"
  shows "calmly w w'"
proof -
  have m: "maybe_corrected a w w'" using ValidateBalance_alone [OF assms(1)] assms(2) by (simp add: kept_def)
  have "books_ok (committed (wk_db w))" using assms(2) by (simp add: kept_def db_ok_def)
  from fix_account_same [OF this] m show ?thesis
    by (intro calmlyI [OF assms(2)]) (auto simp: maybe_corrected_def corrected_def)
qed

lemma validate_all_calmly: "validate_all pw l as w = (b, w') \<Longrightarrow> kept w \<Longrightarrow> calmly w w'"
proof (induction as arbitrary: w)
  case (Cons a as)
  obtain x u where v: "ValidateBalance pw a l w = (x, u)" by fastforce
  note c = ValidateBalance_calmly [OF v Cons.prems(2)]
  have "u = w' \<or> validate_all pw l as u = (b, w')" using Cons.prems(1) v by (auto split: sum.splits if_splits)
  then show ?case using Cons.IH [OF _ calmly_kept [OF c]] c calmly_trans by blast
qed simp

lemma update_cursor_calmly:
  assumes "call (UpdateCursorPosition n p) w = (x, w')" and "kept w"
  shows "calmly w w'"
proof -
  have step: "same_money (committed s) (committed t) \<and> postings_id_seq t = postings_id_seq s \<and> open_txs t = open_txs s \<and> next_tx t = next_tx s"
    if "UpdateCursorPosition n p s = (y, t)" for y s t
    using that by (auto simp: pg_defs UpdateCursorPosition_def upsert_cursor_def same_money_def
        split: list.splits fault.splits prod.splits sum.splits if_splits elim!: on_error_cases)
  from assms(2) have "alone w" by (simp add: kept_def)
  from assms(1) this show ?thesis
  proof (rule call_alone)
    fix s t assume s: "same_data (wk_db w) s" and u: "UpdateCursorPosition n p s = (x, t)" and w': "w' = w\<lparr>wk_db := t\<rparr>"
    show ?thesis
      using step [OF u] s assms(2) same_money_keeps(1,2) [of "committed s" "committed t"]
      by (auto simp: w' calmly_def kept_def alone_def same_data_def handles_ok_def db_ok_def)
  qed
qed

lemma back_off_calmly: "back_off pw l w = (x, w') \<Longrightarrow> kept w \<Longrightarrow> calmly w w'"
  by (auto simp: back_off_def waitBackoff_def split: prod.splits sum.splits dest: ctx_Err_calmly)

lemma cursor_reads_same:
  "GetCursorPosition n b s = (x, t) \<Longrightarrow> same_db s t" "GetActiveAccounts l u s = (y, t) \<Longrightarrow> same_db s t"
  by (auto simp: GetCursorPosition_def GetActiveAccounts_def Let_def split: if_splits
      elim!: bind_r_cases on_error_cases dest!: pool_read_same rows_Err_Pool_same intro: same_db_trans)

lemma run_turn_calmly:
  assumes run: "run_turn pw l w = (x, w')" and k: "kept w"
  shows "calmly w w'"
proof -
  obtain c w1 where c: "ctx_Err w = (c, w1)" by fastforce
  note k1 = ctx_Err_calmly [OF c k]
  obtain g w2 where g: "call (GetCursorPosition (pw_workerName pw) (pw_batchSize pw)) w1 = (g, w2)" by fastforce
  note k2 = calmly_trans [OF k1 call_read_calmly [OF g calmly_kept [OF k1] cursor_reads_same(1)]]
  have upd: "calmly w u'" if "call (UpdateCursorPosition n p) u = (y, u')" "calmly w u" for n p u y u'
    using calmly_trans [OF that(2) update_cursor_calmly [OF that(1) calmly_kept [OF that(2)]]] .
  have wait: "calmly w u'" if "back_off pw l u = (y, u')" "calmly w u" for u y u'
    using calmly_trans [OF that(2) back_off_calmly [OF that(1) calmly_kept [OF that(2)]]] .
  have batch: "calmly w w4" if "call (GetActiveAccounts p q) w2 = (a, w3)" "validate_all pw q as w3 = (b, w4)" for p q a w3 as b w4
  proof -
    note k3 = calmly_trans [OF k2 call_read_calmly [OF that(1) calmly_kept [OF k2] cursor_reads_same(2)]]
    show ?thesis using calmly_trans [OF k3 validate_all_calmly [OF that(2) calmly_kept [OF k3]]] .
  qed
  have accts: "calmly w w3" if "call (GetActiveAccounts p q) w2 = (a, w3)" for p q a w3
    using calmly_trans [OF k2 call_read_calmly [OF that calmly_kept [OF k2] cursor_reads_same(2)]] .
  show ?thesis
    using run c g k1 k2
    by (auto simp: run_turn_def split: sum.splits prod.splits if_splits bool.splits
        dest: wait upd batch accts intro: upd [OF surjective_pairing])
qed

end
