(* ===== verification/Ledger_System.thy ===== *)
theory Ledger_System
  imports Ledger_Frames
begin

text \<open>
  The running system: the gateway with its interceptors, handlers and goroutines, the projector of
  \<^verbatim>\<open>cmd/stats\<close> and the posting worker of \<^verbatim>\<open>cmd/worker\<close> take turns on one PostgreSQL server, one cache, one
  store of idempotency keys and one topic. Every call may meet any pattern of failures. An abstract
  bank, accounts with balances and receipts by idempotency key, is the specification of what the
  clients see; the system refines it.
\<close>

section \<open>The system\<close>

record ('i, 'r, 'k) deployment =
  d_uc :: transfer_uc
  d_ext :: ext
  d_cache :: "'r redis"
  d_idem :: "'i redis"
  d_kafka :: "'k kafka"
  d_worker :: posting_worker
  d_ttl :: int

record ('i, 'r, 'k) ledger =
  lg_gateway :: "('i, 'r world) gateway"
  lg_metrics :: grpc_metrics
  lg_kafka :: 'k

datatype event =
    Ev_Transfer transfer_request "byte list option outcome"
  | Ev_Open "32 word" "byte list outcome"
  | Ev_Balance "byte list" "(int \<times> 32 word) outcome"
  | Ev_Transaction "byte list" "transaction_response outcome"
  | Ev_Background

text \<open>What a call finds: the ids that \<^verbatim>\<open>uuid.NewV7\<close> will give, the clocks of the process and of the server,
  the failures of the driver.\<close>

definition at_call :: "uuid option list \<Rightarrow> time \<Rightarrow> time \<Rightarrow> fault list \<Rightarrow> 'r world \<Rightarrow> 'r world" where
  "at_call us t now fs W = W\<lparr>uuid_source := us, wall := t, db := (db W)\<lparr>pg_now := now, faults := fs\<rparr>\<rparr>"

lemma at_call_sel [simp]:
  "committed (db (at_call us t now fs W)) = committed (db W)" "postings_id_seq (db (at_call us t now fs W)) = postings_id_seq (db W)"
  "open_txs (db (at_call us t now fs W)) = open_txs (db W)" "next_tx (db (at_call us t now fs W)) = next_tx (db W)"
  "pg_now (db (at_call us t now fs W)) = now" "cache (at_call us t now fs W) = cache W"
  "uuid_source (at_call us t now fs W) = us" "spawned (at_call us t now fs W) = spawned W"
  by (simp_all add: at_call_def)

abbreviation CreateAccount_FullMethodName :: string where
  "CreateAccount_FullMethodName \<equiv> ''/api.ledger.AccountService/CreateAccount''"

abbreviation GetBalance_FullMethodName :: string where
  "GetBalance_FullMethodName \<equiv> ''/api.ledger.AccountService/GetBalance''"

abbreviation GetTransaction_FullMethodName :: string where
  "GetTransaction_FullMethodName \<equiv> ''/api.ledger.StatsService/GetTransaction''"

text \<open>The chain around a handler whose method the idempotency interceptor passes through.\<close>

definition serve ::
  "string \<Rightarrow> int \<Rightarrow> ('w \<Rightarrow> (status + 'a) \<times> 'w) \<Rightarrow> ('i, 'w) gateway \<times> grpc_metrics \<Rightarrow>
   'a outcome \<times> ('i, 'w) gateway \<times> grpc_metrics" where
  "serve fullMethod duration handler =
     UnaryMetricsInterceptor fullMethod duration
       (\<lambda>G. case handler (gw_world G) of (x, W') \<Rightarrow> (Returned x, G\<lparr>gw_world := W'\<rparr>))"

definition called :: "uuid option list \<Rightarrow> time \<Rightarrow> time \<Rightarrow> fault list \<Rightarrow> ('i, 'r world) gateway \<Rightarrow> ('i, 'r world) gateway" where
  "called us t now fs G = G\<lparr>gw_world := at_call us t now fs (gw_world G)\<rparr>"

text \<open>One step: an RPC with its answer, or work in the background. A goroutine that publishes a transfer or
  stores the outcome of a key may be delayed, and is lost when the process restarts.\<close>

inductive ledger_step ::
  "('i, 'r, 'k) deployment \<Rightarrow> event \<Rightarrow> ('i, 'r, 'k) ledger \<Rightarrow> ('i, 'r, 'k) ledger \<Rightarrow> bool" for D where
  rpc_Transfer: "bigint (m_Amount req) \<Longrightarrow> Some uuid_Nil \<notin> set us \<Longrightarrow>
     gateway_Transfer (d_uc D) (d_ext D) (d_cache D) (redis_storage (d_ext D) (d_idem D)) ff dur req
       (called us t now fs (lg_gateway L), lg_metrics L) = (x, G', M') \<Longrightarrow>
     ledger_step D (Ev_Transfer req x) L (L\<lparr>lg_gateway := G', lg_metrics := M'\<rparr>)"
| rpc_CreateAccount:
    "serve CreateAccount_FullMethodName dur (h_CreateAccount (d_ext D) (d_cache D) rnd c)
       (called us t now fs (lg_gateway L), lg_metrics L) = (y, G', M') \<Longrightarrow>
     ledger_step D (Ev_Open c y) L (L\<lparr>lg_gateway := G', lg_metrics := M'\<rparr>)"
| rpc_GetBalance:
    "serve GetBalance_FullMethodName dur (h_GetBalance (d_ext D) bs)
       (called us t now fs (lg_gateway L), lg_metrics L) = (z, G', M') \<Longrightarrow>
     ledger_step D (Ev_Balance bs z) L (L\<lparr>lg_gateway := G', lg_metrics := M'\<rparr>)"
| rpc_GetTransaction:
    "serve GetTransaction_FullMethodName dur (h_GetTransaction (d_ext D) (d_cache D) bs)
       (called us t now fs (lg_gateway L), lg_metrics L) = (v, G', M') \<Longrightarrow>
     ledger_step D (Ev_Transaction bs v) L (L\<lparr>lg_gateway := G', lg_metrics := M'\<rparr>)"
| store_status: "n < length (gw_pending (lg_gateway L)) \<Longrightarrow>
     run_pending (redis_storage (d_ext D) (d_idem D)) n (lg_gateway L) = (e, G') \<Longrightarrow>
     ledger_step D Ev_Background L (L\<lparr>lg_gateway := G'\<rparr>)"
| publish: "W = gw_world (lg_gateway L) \<Longrightarrow> n < length (spawned W) \<Longrightarrow>
     PublishTransaction (d_ext D) (d_kafka D) (spawned W ! n) (lg_kafka L) = (e, k') \<Longrightarrow>
     ledger_step D Ev_Background L
       (L\<lparr>lg_kafka := k', lg_gateway := (lg_gateway L)\<lparr>gw_world := W\<lparr>spawned := take n (spawned W) @ drop (Suc n) (spawned W)\<rparr>\<rparr>\<rparr>)"
| consume: "W = gw_world (lg_gateway L) \<Longrightarrow>
     consumer_turn (d_kafka D) (HandleKafkaMessage (d_ext D) (d_cache D) (d_ttl D)) (lg_kafka L, cache W) = (f, k', r') \<Longrightarrow>
     ledger_step D Ev_Background L (L\<lparr>lg_kafka := k', lg_gateway := (lg_gateway L)\<lparr>gw_world := W\<lparr>cache := r'\<rparr>\<rparr>\<rparr>)"
| work: "W = gw_world (lg_gateway L) \<Longrightarrow>
     run_turn (d_worker D) lastUpper \<lparr>wk_db = (db W)\<lparr>pg_now := now, faults := fs\<rparr>, wk_env = [], wk_alive = al, wk_corrections = n\<rparr> = (g, w') \<Longrightarrow>
     ledger_step D Ev_Background L (L\<lparr>lg_gateway := (lg_gateway L)\<lparr>gw_world := W\<lparr>db := wk_db w'\<rparr>\<rparr>\<rparr>)"
| restart: "W = gw_world (lg_gateway L) \<Longrightarrow>
     ledger_step D Ev_Background L (L\<lparr>lg_gateway := (lg_gateway L)\<lparr>gw_pending := [], gw_world := W\<lparr>spawned := []\<rparr>\<rparr>\<rparr>)"

section \<open>Runs and simulations\<close>

fun runs :: "('e \<Rightarrow> 's \<Rightarrow> 's \<Rightarrow> bool) \<Rightarrow> 'e list \<Rightarrow> 's \<Rightarrow> 's \<Rightarrow> bool" where
  "runs step [] s t \<longleftrightarrow> s = t"
| "runs step (e # es) s t \<longleftrightarrow> (\<exists>u. step e s u \<and> runs step es u t)"

lemma runs_append: "runs step (es @ fs) s t \<longleftrightarrow> (\<exists>u. runs step es s u \<and> runs step fs u t)"
  by (induction es arbitrary: s) auto

locale simulation =
  fixes step :: "'e \<Rightarrow> 's \<Rightarrow> 's \<Rightarrow> bool" and spec :: "'e \<Rightarrow> 'a \<Rightarrow> 'a \<Rightarrow> bool" and ok :: "'s \<Rightarrow> bool" and view :: "'s \<Rightarrow> 'a"
  assumes keeps: "step e s t \<Longrightarrow> ok s \<Longrightarrow> ok t"
    and follows: "step e s t \<Longrightarrow> ok s \<Longrightarrow> spec e (view s) (view t)"
begin

lemma runs_ok: "runs step es s t \<Longrightarrow> ok s \<Longrightarrow> ok t"
  by (induction es arbitrary: s) (auto dest: keeps)

lemma runs_follow: "runs step es s t \<Longrightarrow> ok s \<Longrightarrow> runs spec es (view s) (view t)"
  by (induction es arbitrary: s) (auto dest: keeps follows)

end

section \<open>The bank\<close>

record receipt =
  rc_ID :: uuid
  rc_From :: uuid
  rc_To :: uuid
  rc_Amount :: int
  rc_Currency :: currency

record bank =
  b_accounts :: "uuid \<rightharpoonup> currency \<times> int"
  b_receipts :: "uuid \<rightharpoonup> receipt"

definition wire_id :: "byte list \<Rightarrow> uuid option" where
  "wire_id bs = (if length bs = 16 then Some (uuid_of_bytes bs) else None)"

definition issue :: "uuid \<Rightarrow> receipt \<Rightarrow> bank \<Rightarrow> bank" where
  "issue k rc B = B\<lparr>b_receipts := (b_receipts B)(k \<mapsto> rc)\<rparr>"

definition fresh_receipt :: "uuid \<Rightarrow> receipt \<Rightarrow> bank \<Rightarrow> bool" where
  "fresh_receipt k rc B \<longleftrightarrow> b_receipts B k = None \<and> (\<forall>k' rc'. b_receipts B k' = Some rc' \<longrightarrow> rc_ID rc' \<noteq> rc_ID rc)"

text \<open>A transfer as the bank understands it: both accounts hold the currency, the payer has the money.\<close>

definition bank_move :: "uuid \<Rightarrow> receipt \<Rightarrow> bank \<Rightarrow> bank \<Rightarrow> bool" where
  "bank_move k rc B B' \<longleftrightarrow> fresh_receipt k rc B \<and> rc_From rc \<noteq> rc_To rc \<and> 0 < rc_Amount rc \<and> IsValid (rc_Currency rc) \<and>
     (\<exists>x y. b_accounts B (rc_From rc) = Some (rc_Currency rc, x) \<and> b_accounts B (rc_To rc) = Some (rc_Currency rc, y)
        \<and> rc_Amount rc \<le> x \<and> bigint (y + rc_Amount rc)
        \<and> B' = issue k rc (B\<lparr>b_accounts := (b_accounts B)(rc_From rc \<mapsto> (rc_Currency rc, x - rc_Amount rc),
                 rc_To rc \<mapsto> (rc_Currency rc, y + rc_Amount rc))\<rparr>))"

definition bank_open :: "uuid \<Rightarrow> currency \<Rightarrow> bank \<Rightarrow> bank \<Rightarrow> bool" where
  "bank_open i c B B' \<longleftrightarrow> c \<noteq> CURRENCY_UNSPECIFIED \<and> b_accounts B i = None \<and>
     (\<exists>a. 0 \<le> a \<and> a < 100000000 \<and>
       (let B1 = B\<lparr>b_accounts := (b_accounts B)(i \<mapsto> (c, a))\<rparr>
        in if a = 0 then B' = B1
           else \<exists>k rc. fresh_receipt k rc B \<and> rc_From rc = i \<and> rc_To rc = i \<and> rc_Amount rc = a \<and> rc_Currency rc = c
                  \<and> B' = issue k rc B1))"

definition asked :: "transfer_request \<Rightarrow> uuid \<Rightarrow> receipt \<Rightarrow> bool" where
  "asked req k rc \<longleftrightarrow> wire_id (m_IdempotencyKey req) = Some k \<and> wire_id (m_UserFromId req) = Some (rc_From rc)
     \<and> wire_id (m_UserToId req) = Some (rc_To rc) \<and> m_Amount req = rc_Amount rc \<and> to_currency (m_Currency req) = rc_Currency rc"

definition receipt_response :: "receipt \<Rightarrow> transaction_response" where
  "receipt_response rc = \<lparr>r_Id = uuid_bytes (rc_ID rc), r_UserFrom = uuid_bytes (rc_From rc), r_UserTo = uuid_bytes (rc_To rc),
     r_Amount = rc_Amount rc, r_Currency = of_currency (rc_Currency rc)\<rparr>"

definition balance_answer :: "bank \<Rightarrow> byte list \<Rightarrow> status + int \<times> 32 word \<Rightarrow> bool" where
  "balance_answer B bs x = (case x of
       Inr (b, c) \<Rightarrow> \<exists>i cc. wire_id bs = Some i \<and> b_accounts B i = Some (cc, b) \<and> c = of_currency cc
     | Inl st \<Rightarrow> st_code st = codes_NotFound \<longrightarrow> (\<exists>i. wire_id bs = Some i \<and> b_accounts B i = None))"

definition transaction_answer :: "bank \<Rightarrow> byte list \<Rightarrow> status + transaction_response \<Rightarrow> bool" where
  "transaction_answer B bs x = (case x of
       Inr r \<Rightarrow> \<exists>k rc. b_receipts B k = Some rc \<and> uuid_bytes (rc_ID rc) = bs \<and> r = receipt_response rc
     | Inl st \<Rightarrow> st_code st = codes_NotFound \<longrightarrow> (\<forall>k rc. b_receipts B k = Some rc \<longrightarrow> uuid_bytes (rc_ID rc) \<noteq> bs))"

text \<open>What a client may observe. An answer \<^verbatim>\<open>OK\<close> to a transfer stands for the transfer of this request or for
  the receipt of its key; an error leaves the bank alone, or is an internal one whose transfer went
  through. An opening may fail after the account exists.\<close>

inductive bank_step :: "event \<Rightarrow> bank \<Rightarrow> bank \<Rightarrow> bool" where
  moved: "asked req k rc \<Longrightarrow> bank_move k rc B B' \<Longrightarrow> x = Inr (Some (uuid_bytes (rc_ID rc))) \<or> (\<exists>st. x = Inl st \<and> st_code st = codes_Internal) \<Longrightarrow>
     bank_step (Ev_Transfer req (Returned x)) B B'"
| replayed: "wire_id (m_IdempotencyKey req) = Some k \<Longrightarrow> b_receipts B k = Some rc \<Longrightarrow>
     bank_step (Ev_Transfer req (Returned (Inr (Some (uuid_bytes (rc_ID rc)))))) B B"
| refused: "bank_step (Ev_Transfer req (Returned (Inl st))) B B"
| added: "bank_open i (to_currency c) B B' \<Longrightarrow> y = Inr (uuid_bytes i) \<or> (\<exists>st. y = Inl st) \<Longrightarrow>
     bank_step (Ev_Open c (Returned y)) B B'"
| not_added: "bank_step (Ev_Open c (Returned (Inl st))) B B"
| balance_read: "balance_answer B bs z \<Longrightarrow> bank_step (Ev_Balance bs (Returned z)) B B"
| transaction_read: "transaction_answer B bs v \<Longrightarrow> bank_step (Ev_Transaction bs (Returned v)) B B"
| background: "bank_step Ev_Background B B"

inductive_cases bank_step_Transfer: "bank_step (Ev_Transfer req x) B B'"
inductive_cases bank_step_Transaction: "bank_step (Ev_Transaction bs x) B B'"

section \<open>The bank behind the tables\<close>

definition receipt_of :: "transaction \<Rightarrow> receipt" where
  "receipt_of t = \<lparr>rc_ID = t_ID t, rc_From = t_FromAccountID t, rc_To = t_ToAccountID t, rc_Amount = t_Amount t, rc_Currency = t_Currency t\<rparr>"

definition bank_of :: "tables \<Rightarrow> bank" where
  "bank_of w = \<lparr>b_accounts = (\<lambda>a. map_option (\<lambda>r. (acc_Currency r, acc_Balance r)) (accounts w a)),
     b_receipts = (\<lambda>k. map_option receipt_of (find (\<lambda>t. t_IdempotencyKey t = k) (transactions w)))\<rparr>"

definition ledger_tables :: "('i, 'r, 'k) ledger \<Rightarrow> tables" where
  "ledger_tables L = committed (db (gw_world (lg_gateway L)))"

lemma receipt_of_sel [simp]:
  "rc_ID (receipt_of t) = t_ID t" "rc_From (receipt_of t) = t_FromAccountID t" "rc_To (receipt_of t) = t_ToAccountID t"
  "rc_Amount (receipt_of t) = t_Amount t" "rc_Currency (receipt_of t) = t_Currency t"
  "receipt_of (stored_transaction t) = receipt_of t"
  by (simp_all add: receipt_of_def)

lemma find_snoc: "find P (xs @ [y]) = (case find P xs of None \<Rightarrow> if P y then Some y else None | Some x \<Rightarrow> Some x)"
  by (induction xs) auto

lemma bank_of_accounts: "b_accounts (bank_of w) a = map_option (\<lambda>r. (acc_Currency r, acc_Balance r)) (accounts w a)"
  by (simp add: bank_of_def)

lemma find_distinct:
  "distinct (map f xs) \<Longrightarrow> find (\<lambda>x. f x = k) xs = Some y \<longleftrightarrow> y \<in> set xs \<and> f y = k"
  by (induction xs) (auto simp: image_iff)

lemma bank_of_receipts:
  assumes "schema_ok q w"
  shows "b_receipts (bank_of w) k = Some rc \<longleftrightarrow> (\<exists>t\<in>set (transactions w). t_IdempotencyKey t = k \<and> rc = receipt_of t)"
  using assms by (auto simp: bank_of_def schema_ok_def find_distinct)

lemma fresh_receipt_of:
  assumes "schema_ok q w" and "\<forall>t'\<in>set (transactions w). t_ID t' \<noteq> t_ID t \<and> t_IdempotencyKey t' \<noteq> k"
  shows "fresh_receipt k (receipt_of t) (bank_of w)"
  using assms bank_of_receipts [OF assms(1)] unfolding fresh_receipt_def by (metis not_Some_eq receipt_of_sel(1))

lemma receipts_add_transaction:
  assumes "\<forall>t'\<in>set (transactions w). t_IdempotencyKey t' \<noteq> t_IdempotencyKey t" and "transactions w' = transactions w @ [stored_transaction t]"
  shows "b_receipts (bank_of w') = (b_receipts (bank_of w))(t_IdempotencyKey t \<mapsto> receipt_of t)"
proof
  fix k
  have "find (\<lambda>t'. t_IdempotencyKey t' = t_IdempotencyKey t) (transactions w) = None"
    using assms(1) by (simp add: find_None_iff)
  then show "b_receipts (bank_of w') k = ((b_receipts (bank_of w))(t_IdempotencyKey t \<mapsto> receipt_of t)) k"
    using assms(2) by (auto simp: bank_of_def find_snoc split: option.splits)
qed

lemma bank_of_transfer:
  assumes schema: "schema_ok q w" and ok: "transfer_ok trx w" and ne: "t_FromAccountID trx \<noteq> t_ToAccountID trx"
    and rows: "accounts w (t_FromAccountID trx) = Some rf" "accounts w (t_ToAccountID trx) = Some rt"
    and cur: "acc_Currency rf = t_Currency trx" "acc_Currency rt = t_Currency trx" "IsValid (t_Currency trx)"
  shows "bank_move (t_IdempotencyKey trx) (receipt_of trx) (bank_of w) (bank_of (transfer_tables trx q' now w))"
proof -
  have fresh: "\<forall>t'\<in>set (transactions w). t_ID t' \<noteq> t_ID trx \<and> t_IdempotencyKey t' \<noteq> t_IdempotencyKey trx"
    and amt: "0 < t_Amount trx" "t_Amount trx \<le> acc_Balance rf" "bigint (acc_Balance rt + t_Amount trx)"
    using ok rows by (auto simp: transfer_ok_def)
  have r: "b_receipts (bank_of (transfer_tables trx q' now w)) = (b_receipts (bank_of w))(t_IdempotencyKey trx \<mapsto> receipt_of trx)"
    using fresh by (intro receipts_add_transaction) (auto simp: transfer_tables_def)
  have a: "b_accounts (bank_of (transfer_tables trx q' now w)) = (b_accounts (bank_of w))
      (t_FromAccountID trx \<mapsto> (t_Currency trx, acc_Balance rf - t_Amount trx), t_ToAccountID trx \<mapsto> (t_Currency trx, acc_Balance rt + t_Amount trx))"
    using ne rows cur by (auto simp: bank_of_accounts transfer_tables_def accounts_upd_row move_row_def fun_eq_iff)
  show ?thesis
    unfolding bank_move_def
    using fresh_receipt_of [OF schema] fresh ne amt rows cur r a
    by (auto simp: bank_of_accounts issue_def intro: bank.equality)
qed

lemma bank_of_opened:
  assumes schema: "schema_ok Q w" and o: "opened i c b q now w w' q'" and c: "c \<noteq> CURRENCY_UNSPECIFIED" and b: "0 \<le> b" "b < 100000000"
  shows "bank_open i c (bank_of w) (bank_of w')"
proof (cases "b = 0")
  case True
  then have w': "w' = add_account (new_account i c now) w" and "accounts w i = None" using o by (auto simp: opened_def)
  moreover have "bank_of w' = (bank_of w)\<lparr>b_accounts := (b_accounts (bank_of w))(i \<mapsto> (c, 0))\<rparr>"
    unfolding w' by (auto simp: bank_of_def fun_eq_iff)
  ultimately show ?thesis using c by (auto simp: bank_open_def bank_of_accounts Let_def intro!: exI [of _ "0 :: int"])
next
  case False
  with b o obtain trx where trx: "t_FromAccountID trx = i" "t_ToAccountID trx = i" "t_Amount trx = b" "t_Currency trx = c"
      "\<forall>t'\<in>set (transactions w). t_ID t' \<noteq> t_ID trx \<and> t_IdempotencyKey t' \<noteq> t_IdempotencyKey trx"
    and w': "w' = opening_tables i c trx q now w" and n: "accounts w i = None"
    by (auto simp: opened_def)
  have r: "b_receipts (bank_of w') = (b_receipts (bank_of w))(t_IdempotencyKey trx \<mapsto> receipt_of trx)"
    using trx(5) by (intro receipts_add_transaction) (auto simp: w' opening_tables_def post_entry_def)
  have a: "b_accounts (bank_of w') = (b_accounts (bank_of w))(i \<mapsto> (c, b))"
    using trx by (auto simp: w' bank_of_accounts opening_tables_def post_entry_def accounts_upd_row move_row_def fun_eq_iff)
  have "bank_of w' = issue (t_IdempotencyKey trx) (receipt_of trx) ((bank_of w)\<lparr>b_accounts := (b_accounts (bank_of w))(i \<mapsto> (c, b))\<rparr>)"
    using r a by (auto simp: issue_def intro: bank.equality)
  with False b c n trx fresh_receipt_of [OF schema trx(5)] show ?thesis
    unfolding bank_open_def Let_def by (auto simp: bank_of_accounts intro!: exI [of _ b] exI [of _ "t_IdempotencyKey trx"] exI [of _ "receipt_of trx"])
qed

lemma bank_of_same:
  assumes "same_money w w'"
  shows "bank_of w' = bank_of w"
proof -
  have "map_option (\<lambda>r. (acc_Currency r, acc_Balance r)) (accounts w' a) = map_option (\<lambda>r. (acc_Currency r, acc_Balance r)) (accounts w a)" for a
    using same_money_row [OF assms, of a] by (cases "accounts w' a") (auto simp: same_row_def)
  with assms show ?thesis by (simp add: bank_of_def same_money_def)
qed

end
