(* ===== verification/Ledger_Refinement.thy ===== *)
theory Ledger_Refinement
  imports Ledger_System
begin

text \<open>
  The running system keeps its invariant and refines the bank: the lemmas on each step, collected in the
  locale \<open>ledger_services\<close> over any Redis servers and any broker, what follows for whole runs, and a
  reference deployment.
\<close>

section \<open>Receipts in the store of idempotency keys\<close>

definition receipted :: "ext \<Rightarrow> tables \<Rightarrow> uuid \<Rightarrow> string \<Rightarrow> bool" where
  "receipted E w k v \<longleftrightarrow> (\<exists>t\<in>set (transactions w). t_IdempotencyKey t = k \<and> v = completedStatus E (t_ID t))"

text \<open>Every stored outcome, and every outcome still to be stored, names the committed transaction of its key.\<close>

definition idem_ok :: "ext \<Rightarrow> (uuid \<Rightarrow> (string \<times> int) option) \<Rightarrow> (uuid \<times> string) list \<Rightarrow> tables \<Rightarrow> bool" where
  "idem_ok E e P w \<longleftrightarrow> (\<forall>k v d. e k = Some (v, d) \<longrightarrow> v = IDEMPOTENCY_IN_PROCESS \<or> receipted E w k v)
     \<and> (\<forall>(k, v)\<in>set P. receipted E w k v)"

lemma grows_receipted [ledger_mono]: "grows w w' \<Longrightarrow> receipted E w k v \<Longrightarrow> receipted E w' k v"
  by (auto simp: grows_def receipted_def)

lemma grows_idem [ledger_mono]: "grows w w' \<Longrightarrow> idem_ok E e P w \<Longrightarrow> idem_ok E e P w'"
  unfolding idem_ok_def using grows_receipted by blast

lemma idem_ok_upd:
  assumes "idem_ok E e P w" and "\<forall>j. j \<noteq> k \<longrightarrow> e' j = e j"
    and "e' k = e k \<or> e' k = None \<or> (\<exists>v d. e' k = Some (v, d) \<and> (v = IDEMPOTENCY_IN_PROCESS \<or> receipted E w k v))"
  shows "idem_ok E e' P w"
  using assms unfolding idem_ok_def by (metis old.prod.inject option.inject option.distinct(1))

context idempotency_storage
begin

lemma check_idem:
  assumes "is_CheckOrLock S k i = (x, i')" and "idem_ok E (entry i) P w"
  shows "idem_ok E (entry i') P w"
  using check_law [OF assms(1)]
  by (intro idem_ok_upd [OF assms(2), of k]) (auto split: sum.splits bool.splits)

lemma update_idem:
  assumes "is_UpdateIdempotencyStatus S k v i = (x, i')" and "idem_ok E (entry i) P w" and "receipted E w k v"
  shows "idem_ok E (entry i') P w"
  using update_law [OF assms(1)] assms(3) by (intro idem_ok_upd [OF assms(2), of k]) auto

lemma delete_idem:
  assumes "is_DeleteIdempotency S k i = (x, i')" and "idem_ok E (entry i) P w"
  shows "idem_ok E (entry i') P w"
  using delete_law [OF assms(1)] by (intro idem_ok_upd [OF assms(2), of k]) auto

lemma duplicate_receipt:
  assumes "uuid_laws E" and "is_CheckOrLock S k i = (Inr (False, st), i')" and "idem_ok E (entry i) P w"
  shows "(\<exists>e. handleDuplicate E st = Inl e)
    \<or> (\<exists>t\<in>set (transactions w). t_IdempotencyKey t = k \<and> handleDuplicate E st = Inr (uuid_bytes (t_ID t)))"
proof -
  from check_law [OF assms(2)] obtain d where "entry i k = Some (st, d)" by auto
  with assms(3) have "st = IDEMPOTENCY_IN_PROCESS \<or> receipted E w k st" by (auto simp: idem_ok_def)
  then show ?thesis using assms(1) by (auto simp: receipted_def handleDuplicate_def)
qed

text \<open>The handler under a claimed key: the key is released, or its outcome waits to be stored.\<close>

lemma claimed_ok:
  assumes cc: "claimed_call E S k handler G = (x, G')" and laws: "uuid_laws E" and g: "grows w w'"
    and ok: "idem_ok E (entry (gw_idem G)) (gw_pending G) w" and h: "handler (gw_world G) = (Returned y, W')"
    and rc: "\<And>out. y = Inr out \<Longrightarrow> \<exists>t\<in>set (transactions w'). t_IdempotencyKey t = k \<and> out = uuid_bytes (t_ID t)"
  shows "gw_world G' = W' \<and> idem_ok E (entry (gw_idem G')) (gw_pending G') w' \<and> x = Returned (map_sum id Some y)"
proof (cases y)
  case (Inl e)
  obtain z i2 where d: "is_DeleteIdempotency S k (gw_idem G) = (z, i2)" by fastforce
  show ?thesis using grows_idem [OF g delete_idem [OF d ok]] cc h Inl d by (auto simp: claimed_call_def release_def)
next
  case (Inr out)
  from rc [OF this] obtain t where t: "t \<in> set (transactions w')" "t_IdempotencyKey t = k" "out = uuid_bytes (t_ID t)" by blast
  then have G': "G' = G\<lparr>gw_world := W', gw_pending := gw_pending G @ [(k, completedStatus E (t_ID t))]\<rparr>"
    and x: "x = Returned (Inr (Some out))"
    using cc h Inr laws by (auto simp: claimed_call_def)
  have "idem_ok E (entry (gw_idem G)) (gw_pending G @ [(k, completedStatus E (t_ID t))]) w'"
    using grows_idem [OF g ok] t by (auto simp: idem_ok_def receipted_def)
  then show ?thesis using G' x Inr by simp
qed

text \<open>A transfer through the interceptor: answered from the store, or by the handler.\<close>

lemma intercepted:
  assumes run: "UnaryIdempotencyInterceptor E S Transfer_FullMethodName rawKey handler G = (x, G')" and laws: "uuid_laws E"
    and ok: "idem_ok E (entry (gw_idem G)) (gw_pending G) w" and h: "handler (gw_world G) = (Returned y, W')" and g: "grows w w'"
    and rc: "\<And>out. y = Inr out \<Longrightarrow> \<exists>t\<in>set (transactions w'). uuid_FromBytes E rawKey = Some (t_IdempotencyKey t) \<and> out = uuid_bytes (t_ID t)"
  obtains (stored) "gw_world G' = gw_world G" "idem_ok E (entry (gw_idem G')) (gw_pending G') w"
      "(\<exists>st. x = Returned (Inl st)) \<or> (\<exists>t\<in>set (transactions w). uuid_FromBytes E rawKey = Some (t_IdempotencyKey t)
         \<and> x = Returned (Inr (Some (uuid_bytes (t_ID t)))))"
  | (ran) "gw_world G' = W'" "idem_ok E (entry (gw_idem G')) (gw_pending G') w'" "x = Returned (map_sum id Some y)"
proof (cases "\<exists>k. uuid_FromBytes E rawKey = Some k \<and> k \<noteq> uuid_Nil")
  case False
  then have "run_handler handler G = (x, G')" using run by (auto simp: UnaryIdempotencyInterceptor_def split: option.splits if_splits)
  then show thesis using h ran grows_idem [OF g ok] by (cases y) (auto simp: run_handler_def)
next
  case True
  then obtain k where k: "uuid_FromBytes E rawKey = Some k" "k \<noteq> uuid_Nil" by blast
  obtain c i1 where c: "is_CheckOrLock S k (gw_idem G) = (c, i1)" by fastforce
  note ok1 = check_idem [OF c ok]
  consider (err) e where "c = Inl e" | (dup) st where "c = Inr (False, st)" | (got) st where "c = Inr (True, st)"
    by (metis (full_types) obj_sumE surj_pair)
  then show thesis
  proof cases
    case err
    with run k c h have "gw_world G' = W'" "gw_idem G' = i1" "gw_pending G' = gw_pending G" "x = Returned (map_sum id Some y)"
      by (cases y; auto simp: UnaryIdempotencyInterceptor_def run_handler_def)+
    then show thesis using ran grows_idem [OF g ok1] by simp
  next
    case dup
    with run k c have "x = Returned (map_sum id Some (handleDuplicate E st))" "G' = G\<lparr>gw_idem := i1\<rparr>"
      by (auto simp: UnaryIdempotencyInterceptor_def)
    then show thesis using stored ok1 duplicate_receipt [OF laws c [unfolded dup] ok] k by auto blast
  next
    case got
    have "claimed_call E S k handler (G\<lparr>gw_idem := i1\<rparr>) = (x, G')" using run k c got by (simp add: UnaryIdempotencyInterceptor_def)
    from claimed_ok [OF this laws g, of y W'] show thesis using ran ok1 h rc k by auto
  qed
qed

end

section \<open>A transfer\<close>

lemma Transaction_moves:
  assumes srv: "redis_server R clock data" and laws: "uuid_laws E"
    and co: "coherent E (data (cache W)) (committed (db W))"
    and run: "Transaction uc E R ff req W = (x, W')" and ho: "handles_ok (db W)"
  obtains (same) e where "x = Inl e" "committed (db W') = committed (db W)" "spawned W' = spawned W"
  | (moved) u rf rt where "Some u \<in> set (uuid_source W)" "validateRequest req = Inr ()"
      "transfer_done (new_transaction u (wall W) req) (db W) (db W')"
      "accounts (committed (db W)) (req_FromAccountID req) = Some rf" "acc_Currency rf = req_Currency req"
      "accounts (committed (db W)) (req_ToAccountID req) = Some rt" "acc_Currency rt = req_Currency req"
      "x = Inr u \<or> (\<exists>d. x = Inl (Driver d))"
      "set (spawned W') \<subseteq> insert (new_transaction u (wall W) req) (set (spawned W))"
proof -
  from Transaction_outcome(2) [OF run ho, unfolded transfer_outcome_def]
  consider e where "x = Inl e" "committed (db W') = committed (db W)" "spawned W' = spawned W"
    | u where "Some u \<in> set (uuid_source W)" "validateRequest req = Inr ()"
      "transfer_done (new_transaction u (wall W) req) (db W) (db W')" "x = Inr u \<or> (\<exists>d. x = Inl (Driver d))"
      "set (spawned W') \<subseteq> insert (new_transaction u (wall W) req) (set (spawned W))"
    by (auto split: if_splits) blast+
  then show thesis
  proof cases
    case (2 u)
    then have ne: "committed (db W') \<noteq> committed (db W)"
      by (auto simp: transfer_done_def transfer_tables_def dest!: arg_cong [where f = "length \<circ> transactions"])
    show thesis
      using run
    proof (cases rule: Transaction_cache)
      case (invalid e)
      with ne show thesis by simp
    next
      case (checked y W1)
      with ne have "y = Inr ()" by (cases y) auto
      with redis_server.validateTransferCurrencies_spec [OF srv checked(1) laws co] moved [OF 2(1-3) _ _ _ _ 2(4,5)] show thesis by blast
    qed
  qed (use same in blast)
qed

text \<open>The state of the handlers.\<close>

definition world_ok :: "ext \<Rightarrow> ('r \<Rightarrow> store) \<Rightarrow> 'r world \<Rightarrow> bool" where
  "world_ok E data W \<longleftrightarrow> handles_ok (db W) \<and> db_ok (db W) \<and> journal_ok (committed (db W))
     \<and> coherent E (data (cache W)) (committed (db W)) \<and> tx_coherent E (data (cache W)) (committed (db W))
     \<and> (\<forall>t\<in>set (spawned W). t_ID t \<noteq> uuid_Nil \<and> stored_transaction t \<in> set (transactions (committed (db W))))"

lemma world_ok_at_call [simp]: "world_ok E data (at_call us t now fs W) \<longleftrightarrow> world_ok E data W"
  by (simp add: world_ok_def at_call_def handles_ok_def db_ok_def)

definition wire_request :: "uuid \<Rightarrow> uuid \<Rightarrow> uuid \<Rightarrow> transfer_request \<Rightarrow> transaction_request" where
  "wire_request k f t req = \<lparr>req_IdempotencyKey = k, req_FromAccountID = f, req_ToAccountID = t,
     req_Currency = to_currency (m_Currency req), req_Amount = m_Amount req\<rparr>"

lemma Transfer_cases:
  assumes "Transfer uc E R ff req W = (x, W')"
  obtains (malformed) st where "x = Inl st" "W' = W"
  | (decoded) k f t y where "uuid_FromBytes E (m_IdempotencyKey req) = Some k" "uuid_FromBytes E (m_UserFromId req) = Some f"
      "uuid_FromBytes E (m_UserToId req) = Some t" "Transaction uc E R ff (wire_request k f t req) W = (y, W')"
      "x = (case y of Inl err \<Rightarrow> Inl (transfer_error err) | Inr i \<Rightarrow> Inr (uuid_bytes i))"
  using assms by (auto simp: Transfer_def wire_request_def split: option.splits prod.splits sum.splits)

lemma transfer_error_Driver [simp]: "st_code (transfer_error (Driver d)) = codes_Internal"
  by (simp add: transfer_error_def)

lemma wire_id_FromBytes: "uuid_laws E \<Longrightarrow> uuid_FromBytes E bs = wire_id bs"
  by (simp add: uuid_laws_def wire_id_def)

context redis_server
begin

lemma Transaction_keeps_world:
  assumes run: "Transaction uc E R ff req W = (x, W')" and ok: "world_ok E data W" and laws: "uuid_laws E"
    and big: "bigint (req_Amount req)" and src: "Some uuid_Nil \<notin> set (uuid_source W)"
  shows "world_ok E data W' \<and> grows (committed (db W)) (committed (db W'))"
proof -
  from ok have ho: "handles_ok (db W)" and co: "coherent E (data (cache W)) (committed (db W))"
    and tc: "tx_coherent E (data (cache W)) (committed (db W))" by (simp_all add: world_ok_def)
  note g = Transaction_grows [OF run ho]
  have sp: "\<forall>t\<in>set (spawned W'). t_ID t \<noteq> uuid_Nil \<and> stored_transaction t \<in> set (transactions (committed (db W')))"
    using redis_server_axioms laws co run ho
  proof (cases rule: Transaction_moves)
    case (same e)
    with ok show ?thesis by (simp add: world_ok_def)
  next
    case (moved u)
    then have "u \<noteq> uuid_Nil" "stored_transaction (new_transaction u (wall W) req) \<in> set (transactions (committed (db W')))"
      using src by (auto simp: transfer_done_def transfer_tables_def)
    with moved(9) g ok show ?thesis by (auto simp: world_ok_def grows_def)
  qed
  have "tx_coherent E (data (cache W')) (committed (db W'))"
    using same_tx_cache_coherent [OF Transaction_tx_cache [OF run] grows_tx_coherent [OF g tc]] .
  moreover have "handles_ok (db W')" using Transaction_outcome(1) [OF run ho] by (simp add: transfer_frame_def)
  moreover have "db_ok (db W') \<and> journal_ok (committed (db W'))"
    using Transaction_ledger [OF run ho big] ok by (simp add: world_ok_def)
  moreover have "coherent E (data (cache W')) (committed (db W'))"
    using Transaction_totals [OF redis_server_axioms laws co run ho] by simp
  ultimately show ?thesis using sp g by (simp add: world_ok_def)
qed

lemma Transfer_keeps_world:
  assumes run: "Transfer uc E R ff req W = (x, W')" and ok: "world_ok E data W" and laws: "uuid_laws E"
    and big: "bigint (m_Amount req)" and src: "Some uuid_Nil \<notin> set (uuid_source W)"
  shows "world_ok E data W' \<and> grows (committed (db W)) (committed (db W'))"
  using run
proof (cases rule: Transfer_cases)
  case (decoded k f t y)
  from Transaction_keeps_world [OF decoded(4) ok laws _ src] big show ?thesis by (simp add: wire_request_def)
qed (use ok in simp)

text \<open>A transfer is the bank's, or nothing happened.\<close>

lemma Transfer_bank:
  assumes run: "Transfer uc E R ff req W = (x, W')" and ok: "world_ok E data W" and laws: "uuid_laws E"
  obtains (same) st where "x = Inl st" "committed (db W') = committed (db W)"
  | (moved) k rc where "asked req k rc" "bank_move k rc (bank_of (committed (db W))) (bank_of (committed (db W')))"
      "x = Inr (uuid_bytes (rc_ID rc)) \<or> (\<exists>st. x = Inl st \<and> st_code st = codes_Internal)"
      "\<exists>t\<in>set (transactions (committed (db W'))). t_IdempotencyKey t = k \<and> t_ID t = rc_ID rc"
  using run
proof (cases rule: Transfer_cases)
  case malformed
  then show thesis using same by simp
next
  case (decoded k f t y)
  let ?req = "wire_request k f t req"
  from ok have ho: "handles_ok (db W)" and co: "coherent E (data (cache W)) (committed (db W))"
    and sc: "schema_ok (postings_id_seq (db W)) (committed (db W))" by (simp_all add: world_ok_def db_ok_def)
  show thesis
    using redis_server_axioms laws co decoded(4) ho
  proof (cases rule: Transaction_moves)
    case (same e)
    then show thesis using that(1) decoded(5) by simp
  next
    case (moved u rf rt)
    let ?trx = "new_transaction u (wall W) ?req"
    have v: "f \<noteq> t" "IsValid (to_currency (m_Currency req))" using moved(2) by (auto simp: validateRequest_Inr wire_request_def)
    have "bank_move (t_IdempotencyKey ?trx) (receipt_of ?trx) (bank_of (committed (db W))) (bank_of (committed (db W')))"
      using moved v bank_of_transfer [OF sc, of ?trx rf rt] by (simp add: transfer_done_def wire_request_def new_transaction_def)
    moreover have "asked req (t_IdempotencyKey ?trx) (receipt_of ?trx)"
      using decoded(1-3) laws by (simp add: asked_def wire_id_FromBytes wire_request_def new_transaction_def)
    moreover have "\<exists>t\<in>set (transactions (committed (db W'))). t_IdempotencyKey t = t_IdempotencyKey ?trx \<and> t_ID t = t_ID ?trx"
      using moved(3) by (auto simp: transfer_done_def transfer_tables_def intro!: bexI [of _ "stored_transaction ?trx"])
    ultimately show thesis
      using that(2) [of "t_IdempotencyKey ?trx" "receipt_of ?trx"] moved(8) decoded(5) by (auto simp: new_transaction_def)
  qed
qed

end

section \<open>Openings and reads\<close>

lemma world_ok_cache:
  "world_ok E data W \<Longrightarrow> data r = data (cache W) \<Longrightarrow> world_ok E data (W\<lparr>cache := r\<rparr>)"
  by (simp add: world_ok_def)

lemma same_world_ok: "same_world W W' \<Longrightarrow> cache W' = cache W \<Longrightarrow> world_ok E data W \<Longrightarrow> world_ok E data W' \<and> committed (db W') = committed (db W)"
  by (simp add: same_world_def same_db_def world_ok_def handles_ok_def db_ok_def)

context redis_server
begin

lemma CreateAccount_keeps_world:
  assumes run: "uc_CreateAccount E R rnd c W = (x, W')" and ok: "world_ok E data W" and laws: "uuid_laws E"
  shows "world_ok E data W' \<and> grows (committed (db W)) (committed (db W'))"
proof -
  from ok have ho: "handles_ok (db W)" and co: "coherent E (data (cache W)) (committed (db W))"
    and tc: "tx_coherent E (data (cache W)) (committed (db W))"
    and led: "db_ok (db W)" "journal_ok (committed (db W))" by (simp_all add: world_ok_def)
  note o = uc_CreateAccount_outcome [OF run ho]
  have g: "grows (committed (db W)) (committed (db W'))" using o opened_grows by (metis grows_refl)
  moreover have "spawned W' = spawned W" using o by simp
  moreover have "tx_coherent E (data (cache W')) (committed (db W'))"
    using same_tx_cache_coherent [OF uc_CreateAccount_tx_cache [OF run ho] grows_tx_coherent [OF g tc]] .
  moreover have "db_ok (db W') \<and> journal_ok (committed (db W')) \<and> handles_ok (db W')"
    using uc_CreateAccount_ledger [OF run ho led] by simp
  moreover note uc_CreateAccount_coherent [OF redis_server_axioms laws co run ho]
  ultimately show ?thesis using ok by (auto simp: world_ok_def grows_def)
qed

lemma CreateAccount_bank:
  assumes run: "h_CreateAccount E R rnd c W = (x, W')" and ok: "world_ok E data W" and laws: "uuid_laws E"
  shows "world_ok E data W' \<and> grows (committed (db W)) (committed (db W'))
    \<and> bank_step (Ev_Open c (Returned x)) (bank_of (committed (db W))) (bank_of (committed (db W')))"
proof -
  obtain y where uc: "uc_CreateAccount E R rnd (to_currency c) W = (y, W')"
    and x: "x = (case y of Inl e \<Rightarrow> Inl (Status codes_Internal ''create account failed: '' (Some e)) | Inr i \<Rightarrow> Inr (uuid_bytes i))"
    using run by (auto simp: h_CreateAccount_def split: prod.splits sum.splits)
  from ok have ho: "handles_ok (db W)" and sc: "schema_ok (postings_id_seq (db W)) (committed (db W))"
    by (simp_all add: world_ok_def db_ok_def)
  from uc_CreateAccount_outcome [OF uc ho]
  consider (none) e where "y = Inl e" "committed (db W') = committed (db W)"
    | (made) i where "to_currency c \<noteq> CURRENCY_UNSPECIFIED" "opened i (to_currency c) (int (rnd mod 100000000)) (postings_id_seq (db W)) (pg_now (db W))
             (committed (db W)) (committed (db W')) (postings_id_seq (db W'))" "y = Inr i \<or> (\<exists>d. y = Inl (Driver d))"
    by blast
  then have "bank_step (Ev_Open c (Returned x)) (bank_of (committed (db W))) (bank_of (committed (db W')))"
  proof cases
    case none
    then show ?thesis by (auto simp: x intro: bank_step.intros)
  next
    case (made i)
    have "rnd mod 100000000 < 100000000" by (rule mod_less_divisor) simp
    then have "bank_open i (to_currency c) (bank_of (committed (db W))) (bank_of (committed (db W')))"
      by (intro bank_of_opened [OF sc made(2,1)]) simp_all
    then show ?thesis using made(3) by (intro bank_step.added) (auto simp: x)
  qed
  then show ?thesis using CreateAccount_keeps_world [OF uc ok laws] by blast
qed

lemma GetBalance_bank:
  assumes run: "h_GetBalance E bs W = (x, W')" and ok: "world_ok E data W" and laws: "uuid_laws E"
  shows "world_ok E data W' \<and> grows (committed (db W)) (committed (db W'))
    \<and> bank_step (Ev_Balance bs (Returned x)) (bank_of (committed (db W))) (bank_of (committed (db W')))"
proof -
  have "world_ok E data W' \<and> committed (db W') = committed (db W) \<and> balance_answer (bank_of (committed (db W))) bs x"
  proof (cases "uuid_FromBytes E bs")
    case None
    with run ok show ?thesis by (auto simp: h_GetBalance_def balance_answer_def)
  next
    case (Some i)
    obtain y V where u: "uc_GetBalance i W = (y, V)" by fastforce
    note r = uc_GetBalance_spec [of W i, unfolded u, simplified]
    have "cache V = cache W" using u by (auto simp: uc_GetBalance_def on_db_def split: prod.splits)
    with r ok have "world_ok E data V \<and> committed (db V) = committed (db W)" using same_world_ok by blast
    moreover have "wire_id bs = Some i" using Some laws by (simp add: wire_id_FromBytes)
    ultimately show ?thesis
      using run Some u r
      by (cases y) (auto simp: h_GetBalance_def balance_answer_def bank_of_accounts split: if_splits)
  qed
  then show ?thesis by (simp add: bank_step.balance_read)
qed

lemma stats_GetTransaction_cases:
  assumes run: "stats_GetTransaction E R i W = (y, W')" and ok: "world_ok E data W"
  shows "world_ok E data W' \<and> committed (db W') = committed (db W)"
    and "y = Inl e \<Longrightarrow> errors_Is e ErrTransactionNotFound \<Longrightarrow> \<forall>t\<in>set (transactions (committed (db W))). t_ID t \<noteq> i"
proof -
  obtain g r where g: "Redis_Cache.GetTransaction E R i (cache W) = (g, r)" by fastforce
  have c: "world_ok E data (W\<lparr>cache := r\<rparr>)" using world_ok_cache [OF ok] GetTransaction_spec(1) [OF g] by simp
  have ge: "\<not> errors_Is e ErrTransactionNotFound" if "g = Inl e" for e
    using g that by (auto simp: Redis_Cache.GetTransaction_def redis_err_def split: prod.splits sum.splits redis_error.splits option.splits)
  obtain z t where q: "GetTransactionByID i (db W) = (z, t)" by fastforce
  then have t: "same_db (db W) t"
    by (auto simp: GetTransactionByID_def split: option.splits elim!: bind_r_cases on_error_cases dest: pool_read_same)
  have z: "\<forall>t\<in>set (transactions (committed (db W))). t_ID t \<noteq> i" if "z = Inl e" "errors_Is e ErrTransactionNotFound" for e
    using q that
    by (cases "faults (db W)") (auto simp: pg_defs GetTransactionByID_def read_stmt_def bind_r_def on_error_def find_None_iff
        split: option.splits fault.splits)
  have w: "world_ok E data (W\<lparr>cache := r, db := t\<rparr>)"
    using c t by (simp add: world_ok_def same_db_def handles_ok_def db_ok_def)
  show "world_ok E data W' \<and> committed (db W') = committed (db W)"
    using run g q c w t
    by (auto simp: stats_GetTransaction_def on_cache_def on_db_def bind_r_def same_db_def split: sum.splits option.splits)
  show "\<forall>t\<in>set (transactions (committed (db W))). t_ID t \<noteq> i" if "y = Inl e" "errors_Is e ErrTransactionNotFound"
    using run g q that ge z
    by (auto simp: stats_GetTransaction_def on_cache_def on_db_def bind_r_def split: sum.splits option.splits)
qed

lemma GetTransaction_bank:
  assumes run: "h_GetTransaction E R bs W = (x, W')" and ok: "world_ok E data W" and laws: "uuid_laws E"
  shows "world_ok E data W' \<and> grows (committed (db W)) (committed (db W'))
    \<and> bank_step (Ev_Transaction bs (Returned x)) (bank_of (committed (db W))) (bank_of (committed (db W')))"
proof -
  have "world_ok E data W' \<and> committed (db W') = committed (db W) \<and> transaction_answer (bank_of (committed (db W))) bs x"
  proof (cases "uuid_FromBytes E bs")
    case None
    with run ok show ?thesis by (auto simp: h_GetTransaction_def transaction_answer_def)
  next
    case (Some i)
    then have bs: "bs = uuid_bytes i" using uuid_FromBytes_back [OF laws] by simp
    obtain y V where s: "stats_GetTransaction E R i W = (y, V)" by fastforce
    from run Some s have W': "W' = V" by (auto simp: h_GetTransaction_def split: sum.splits)
    have keep: "world_ok E data V \<and> committed (db V) = committed (db W)"
      using stats_GetTransaction_cases(1) [OF s ok] .
    from ok have co: "tx_coherent E (data (cache W)) (committed (db W))"
      and sc: "schema_ok (postings_id_seq (db W)) (committed (db W))" by (simp_all add: world_ok_def db_ok_def)
    note rcs = bank_of_receipts [OF sc]
    show ?thesis
    proof (cases y)
      case (Inl e)
      with run Some s keep stats_GetTransaction_cases(2) [OF s ok, of e] show ?thesis
        by (auto simp: h_GetTransaction_def transaction_answer_def rcs bs split: if_splits) blast
    next
      case (Inr t)
      from stats_GetTransaction_spec [OF s [unfolded Inr] co] obtain t' where t': "t' \<in> set (transactions (committed (db W)))"
        "receipt_of t' = receipt_of t" "t_ID t = i" by (metis receipt_of_sel(6))
      then have "b_receipts (bank_of (committed (db W))) (t_IdempotencyKey t') = Some (receipt_of t)" using rcs by metis
      then have "transaction_answer (bank_of (committed (db W))) bs x"
        using run Some s Inr t'(3)
        by (auto simp: h_GetTransaction_def transaction_answer_def receipt_response_def bs intro!: exI [of _ "t_IdempotencyKey t'"] exI [of _ "receipt_of t"])
      with keep W' show ?thesis by simp
    qed
  qed
  then show ?thesis by (simp add: bank_step.transaction_read)
qed

end

section \<open>The invariant of the system\<close>

definition ledger_ok :: "ext \<Rightarrow> ('r \<Rightarrow> store) \<Rightarrow> ('i \<Rightarrow> store) \<Rightarrow> ('k \<Rightarrow> message list) \<Rightarrow> ('i, 'r, 'k) ledger \<Rightarrow> bool" where
  "ledger_ok E dc di log L \<longleftrightarrow> world_ok E dc (gw_world (lg_gateway L)) \<and> genuine E (ledger_tables L) (log (lg_kafka L))
     \<and> idem_ok E (\<lambda>k. di (gw_idem (lg_gateway L)) (castKey E k)) (gw_pending (lg_gateway L)) (ledger_tables L)"

text \<open>A new ledger: no account, no transaction, no key in either Redis, no message.\<close>

definition ledger_start :: "('r \<Rightarrow> store) \<Rightarrow> ('i \<Rightarrow> store) \<Rightarrow> ('k \<Rightarrow> message list) \<Rightarrow> ('i, 'r, 'k) ledger \<Rightarrow> bool" where
  "ledger_start dc di log L \<longleftrightarrow> (let G = lg_gateway L; W = gw_world G in
     ledger_tables L = \<lparr>accounts = Map.empty, transactions = [], postings = [], worker_cursors = Map.empty\<rparr>
     \<and> postings_id_seq (db W) = 0 \<and> open_txs (db W) = Map.empty \<and> dc (cache W) = Map.empty \<and> di (gw_idem G) = Map.empty
     \<and> spawned W = [] \<and> gw_pending G = [] \<and> log (lg_kafka L) = [])"

lemma ledger_start_ok: "ledger_start dc di log L \<Longrightarrow> ledger_ok E dc di log L"
  by (simp add: ledger_start_def ledger_ok_def ledger_tables_def world_ok_def Let_def handles_ok_def db_ok_def schema_ok_def books_ok_def
      journal_ok_def coherent_def tx_coherent_def genuine_def idem_ok_def)

locale ledger_services =
  fixes D :: "('i, 'r, 'k) deployment"
    and ck :: "'r \<Rightarrow> int" and dc :: "'r \<Rightarrow> store" and ik :: "'i \<Rightarrow> int" and di :: "'i \<Rightarrow> store"
    and log :: "'k \<Rightarrow> message list" and pos off :: "'k \<Rightarrow> nat"
  assumes cache_server: "redis_server (d_cache D) ck dc"
    and idem_server: "redis_server (d_idem D) ik di"
    and broker: "kafka_broker (d_kafka D) log pos off"
    and uuid_laws: "uuid_laws (d_ext D)"
    and json_laws: "json_laws (d_ext D)"
begin

text \<open>A step of the gateway whose tables only grow.\<close>

lemma grown_ok:
  assumes "ledger_ok (d_ext D) dc di log L" and "world_ok (d_ext D) dc (gw_world G')"
    and "grows (ledger_tables L) (committed (db (gw_world G')))"
    and "idem_ok (d_ext D) (\<lambda>k. di (gw_idem G') (castKey (d_ext D) k)) (gw_pending G') (committed (db (gw_world G')))"
  shows "ledger_ok (d_ext D) dc di log (L\<lparr>lg_gateway := G', lg_metrics := M'\<rparr>)"
  using assms by (auto simp: ledger_ok_def ledger_tables_def intro: ledger_mono)

lemma idem_same_gateway:
  assumes "ledger_ok (d_ext D) dc di log L" and "grows (ledger_tables L) w"
  shows "idem_ok (d_ext D) (\<lambda>k. di (gw_idem (lg_gateway L)) (castKey (d_ext D) k)) (gw_pending (lg_gateway L)) w"
  using assms by (auto simp: ledger_ok_def intro: ledger_mono)

lemma replay_follows:
  assumes ok: "world_ok (d_ext D) dc W"
    and x: "(\<exists>st. x = Returned (Inl st)) \<or> (\<exists>t\<in>set (transactions (committed (db W))).
      uuid_FromBytes (d_ext D) (m_IdempotencyKey req) = Some (t_IdempotencyKey t) \<and> x = Returned (Inr (Some (uuid_bytes (t_ID t)))))"
  shows "bank_step (Ev_Transfer req x) (bank_of (committed (db W))) (bank_of (committed (db W)))"
proof -
  have sc: "schema_ok (postings_id_seq (db W)) (committed (db W))" using ok by (simp add: world_ok_def db_ok_def)
  show ?thesis
    using x bank_of_receipts [OF sc]
    by (auto simp: wire_id_FromBytes [OF uuid_laws] intro: bank_step.refused bank_step.replayed [where rc = "receipt_of _", simplified])
qed

lemma handler_follows:
  assumes run: "Transfer (d_uc D) (d_ext D) (d_cache D) ff req W = (y, W')" and ok: "world_ok (d_ext D) dc W"
  shows "bank_step (Ev_Transfer req (Returned (map_sum id Some y))) (bank_of (committed (db W))) (bank_of (committed (db W')))"
    and "y = Inr out \<Longrightarrow> \<exists>t\<in>set (transactions (committed (db W'))). uuid_FromBytes (d_ext D) (m_IdempotencyKey req) = Some (t_IdempotencyKey t)
      \<and> out = uuid_bytes (t_ID t)"
proof -
  show "bank_step (Ev_Transfer req (Returned (map_sum id Some y))) (bank_of (committed (db W))) (bank_of (committed (db W')))"
  proof (rule redis_server.Transfer_bank [OF cache_server run ok uuid_laws], goal_cases)
    case (1 st)
    then show ?case by (simp add: bank_step.refused)
  next
    case (2 k rc)
    show ?case by (rule bank_step.moved [OF 2(1,2)]) (use 2(3) in auto)
  qed
  show "\<exists>t\<in>set (transactions (committed (db W'))). uuid_FromBytes (d_ext D) (m_IdempotencyKey req) = Some (t_IdempotencyKey t)
      \<and> out = uuid_bytes (t_ID t)" if "y = Inr out"
    by (rule redis_server.Transfer_bank [OF cache_server run ok uuid_laws])
      (use that in \<open>auto simp: asked_def wire_id_FromBytes [OF uuid_laws]\<close>)
qed

lemma transfer_follows:
  assumes ok: "ledger_ok (d_ext D) dc di log L" and big: "bigint (m_Amount req)" and src: "Some uuid_Nil \<notin> set us"
    and run: "gateway_Transfer (d_uc D) (d_ext D) (d_cache D) (redis_storage (d_ext D) (d_idem D)) ff dur req
       (called us t now fs (lg_gateway L), lg_metrics L) = (x, G', M')"
  shows "ledger_ok (d_ext D) dc di log (L\<lparr>lg_gateway := G', lg_metrics := M'\<rparr>)
    \<and> bank_step (Ev_Transfer req x) (bank_of (ledger_tables L)) (bank_of (committed (db (gw_world G'))))"
proof -
  let ?E = "d_ext D" and ?w = "ledger_tables L"
  let ?G = "called us t now fs (lg_gateway L)" and ?W = "at_call us t now fs (gw_world (lg_gateway L))"
  let ?h = "\<lambda>W. case Transfer (d_uc D) ?E (d_cache D) ff req W of (x, W') \<Rightarrow> (Returned x, W')"
  have G: "gw_world ?G = ?W" "gw_idem ?G = gw_idem (lg_gateway L)" "gw_pending ?G = gw_pending (lg_gateway L)"
    by (simp_all add: called_def)
  have w: "committed (db ?W) = ?w" by (simp add: ledger_tables_def)
  have wok: "world_ok ?E dc ?W" using ok by (simp add: ledger_ok_def)
  have np: "fst (UnaryIdempotencyInterceptor ?E (redis_storage ?E (d_idem D)) Transfer_FullMethodName (m_IdempotencyKey req) ?h ?G) \<noteq> Panicked"
    by (rule not_Panicked) (simp split: prod.splits)
  then have i: "UnaryIdempotencyInterceptor ?E (redis_storage ?E (d_idem D)) Transfer_FullMethodName (m_IdempotencyKey req) ?h ?G = (x, G')"
    using run by (auto simp: gateway_Transfer_def UnaryMetricsInterceptor_def split: prod.splits outcome.splits)
  obtain y W' where tr: "Transfer (d_uc D) ?E (d_cache D) ff req ?W = (y, W')" by fastforce
  from redis_server.Transfer_keeps_world [OF cache_server tr wok uuid_laws big] src
  have k: "world_ok ?E dc W'" "grows ?w (committed (db W'))" unfolding w by simp_all
  have idem: "idem_ok ?E (\<lambda>k. di (gw_idem ?G) (castKey ?E k)) (gw_pending ?G) ?w" using ok by (simp add: ledger_ok_def G)
  have h: "?h (gw_world ?G) = (Returned y, W')" by (simp add: G tr)
  show ?thesis
  proof (rule idempotency_storage.intercepted [OF redis_idempotency_storage [OF idem_server uuid_laws] i uuid_laws idem h k(2)], goal_cases)
    case (1 out)
    then show ?case using handler_follows(2) [OF tr wok] by blast
  next
    case (2)
    then have "ledger_ok ?E dc di log (L\<lparr>lg_gateway := G', lg_metrics := M'\<rparr>)"
      using ok wok G by (intro grown_ok) (simp_all add: ledger_tables_def)
    then show ?case using 2 replay_follows [OF wok, of x req] G w by simp
  next
    case (3)
    then have "ledger_ok ?E dc di log (L\<lparr>lg_gateway := G', lg_metrics := M'\<rparr>)"
      using ok k by (intro grown_ok) simp_all
    then show ?case using 3 handler_follows(1) [OF tr wok] w by simp
  qed
qed

lemma serve_cases:
  assumes "serve m d h (G, M) = (x, G', M')"
  obtains y W' where "h (gw_world G) = (y, W')" "x = Returned y" "G' = G\<lparr>gw_world := W'\<rparr>"
  using assms by (auto simp: serve_def UnaryMetricsInterceptor_def split: prod.splits outcome.splits)

text \<open>A call that is served on the world as it is.\<close>

lemma served_ok:
  assumes ok: "ledger_ok (d_ext D) dc di log L" and "world_ok (d_ext D) dc W'" and "grows (ledger_tables L) (committed (db W'))"
  shows "ledger_ok (d_ext D) dc di log (L\<lparr>lg_gateway := (called us t now fs (lg_gateway L))\<lparr>gw_world := W'\<rparr>, lg_metrics := M'\<rparr>)"
  using assms idem_same_gateway [OF ok] by (intro grown_ok) (simp_all add: called_def)

lemma called_world:
  assumes "ledger_ok (d_ext D) dc di log L"
  shows "world_ok (d_ext D) dc (gw_world (called us t now fs (lg_gateway L)))"
    and "committed (db (gw_world (called us t now fs (lg_gateway L)))) = ledger_tables L"
  using assms by (simp_all add: called_def ledger_ok_def ledger_tables_def)

lemma served_follows:
  assumes ok: "ledger_ok (d_ext D) dc di log L" and run: "serve m dur h (called us t now fs (lg_gateway L), lg_metrics L) = (y, G', M')"
    and h: "\<And>W x W'. h W = (x, W') \<Longrightarrow> world_ok (d_ext D) dc W \<Longrightarrow> world_ok (d_ext D) dc W' \<and> grows (committed (db W)) (committed (db W'))
      \<and> bank_step (ev (Returned x)) (bank_of (committed (db W))) (bank_of (committed (db W')))"
  shows "ledger_ok (d_ext D) dc di log (L\<lparr>lg_gateway := G', lg_metrics := M'\<rparr>)
    \<and> bank_step (ev y) (bank_of (ledger_tables L)) (bank_of (committed (db (gw_world G'))))"
  using run
proof (rule serve_cases)
  fix z W' assume z: "h (gw_world (called us t now fs (lg_gateway L))) = (z, W')"
    and y: "y = Returned z" and G': "G' = called us t now fs (lg_gateway L)\<lparr>gw_world := W'\<rparr>"
  from h [OF z called_world(1) [OF ok], unfolded called_world(2) [OF ok]] served_ok [OF ok] show ?thesis by (simp add: y G')
qed

lemma status_keeps:
  assumes ok: "ledger_ok (d_ext D) dc di log L" and n: "n < length (gw_pending (lg_gateway L))"
    and run: "run_pending (redis_storage (d_ext D) (d_idem D)) n (lg_gateway L) = (e, G')"
  shows "ledger_ok (d_ext D) dc di log (L\<lparr>lg_gateway := G'\<rparr>) \<and> ledger_tables (L\<lparr>lg_gateway := G'\<rparr>) = ledger_tables L"
proof -
  let ?P = "gw_pending (lg_gateway L)" and ?E = "d_ext D"
  obtain k st where p: "?P ! n = (k, st)" by fastforce
  have idem: "idem_ok ?E (\<lambda>k. di (gw_idem (lg_gateway L)) (castKey ?E k)) ?P (ledger_tables L)" using ok by (simp add: ledger_ok_def)
  have r: "receipted ?E (ledger_tables L) k st" using idem nth_mem [OF n] p by (auto simp: idem_ok_def)
  obtain i' where u: "is_UpdateIdempotencyStatus (redis_storage ?E (d_idem D)) k st (gw_idem (lg_gateway L)) = (e, i')"
    and G': "G' = (lg_gateway L)\<lparr>gw_idem := i', gw_pending := take n ?P @ drop (Suc n) ?P\<rparr>"
    using run p by (auto simp: run_pending_def split: prod.splits)
  from idempotency_storage.update_idem [OF redis_idempotency_storage [OF idem_server uuid_laws] u idem r]
  have "idem_ok ?E (\<lambda>k. di i' (castKey ?E k)) (take n ?P @ drop (Suc n) ?P) (ledger_tables L)"
    by (auto simp: idem_ok_def dest: in_set_takeD in_set_dropD)
  with ok show ?thesis by (simp add: ledger_ok_def ledger_tables_def G')
qed

lemma publish_keeps:
  assumes ok: "ledger_ok (d_ext D) dc di log L" and W: "W = gw_world (lg_gateway L)" and n: "n < length (spawned W)"
    and run: "PublishTransaction (d_ext D) (d_kafka D) (spawned W ! n) (lg_kafka L) = (e, k')"
  shows "ledger_ok (d_ext D) dc di log (L\<lparr>lg_kafka := k', lg_gateway := (lg_gateway L)\<lparr>gw_world := W\<lparr>spawned := take n (spawned W) @ drop (Suc n) (spawned W)\<rparr>\<rparr>\<rparr>)"
proof -
  have "t_ID (spawned W ! n) \<noteq> uuid_Nil" "stored_transaction (spawned W ! n) \<in> set (transactions (ledger_tables L))"
    using ok nth_mem [OF n] W by (auto simp: ledger_ok_def world_ok_def ledger_tables_def)
  then have "genuine (d_ext D) (ledger_tables L) (log k')"
    using genuine_publish [OF broker json_laws _ _ _ run] ok by (simp add: ledger_ok_def)
  with ok W show ?thesis
    by (auto simp: ledger_ok_def ledger_tables_def world_ok_def dest: in_set_takeD in_set_dropD)
qed

lemma consume_keeps:
  assumes ok: "ledger_ok (d_ext D) dc di log L" and W: "W = gw_world (lg_gateway L)"
    and run: "consumer_turn (d_kafka D) (HandleKafkaMessage (d_ext D) (d_cache D) (d_ttl D)) (lg_kafka L, cache W) = (f, k', r')"
  shows "ledger_ok (d_ext D) dc di log (L\<lparr>lg_kafka := k', lg_gateway := (lg_gateway L)\<lparr>gw_world := W\<lparr>cache := r'\<rparr>\<rparr>\<rparr>)"
proof -
  let ?w = "ledger_tables L"
  have w: "tx_coherent (d_ext D) (dc (cache W)) ?w" "coherent (d_ext D) (dc (cache W)) ?w" "genuine (d_ext D) ?w (log (lg_kafka L))"
    using ok W by (simp_all add: ledger_ok_def world_ok_def ledger_tables_def)
  from redis_server.consumer_turn_coherent [OF cache_server broker uuid_laws json_laws run w(1,3)]
    redis_server.consumer_turn_currencies [OF cache_server run w(2)] ok W
  show ?thesis by (simp add: ledger_ok_def world_ok_def ledger_tables_def)
qed

lemma work_keeps:
  assumes ok: "ledger_ok (d_ext D) dc di log L" and W: "W = gw_world (lg_gateway L)"
    and run: "run_turn (d_worker D) l \<lparr>wk_db = (db W)\<lparr>pg_now := now, faults := fs\<rparr>, wk_env = [], wk_alive = al, wk_corrections = n\<rparr> = (g, w')"
  shows "ledger_ok (d_ext D) dc di log (L\<lparr>lg_gateway := (lg_gateway L)\<lparr>gw_world := W\<lparr>db := wk_db w'\<rparr>\<rparr>\<rparr>)
    \<and> bank_of (committed (db W)) = bank_of (committed (wk_db w'))"
proof -
  have k: "kept \<lparr>wk_db = (db W)\<lparr>pg_now := now, faults := fs\<rparr>, wk_env = [], wk_alive = al, wk_corrections = n\<rparr>"
    using ok W by (simp add: kept_def alone_def ledger_ok_def world_ok_def handles_ok_def db_ok_def)
  from run_turn_calmly [OF run this] have m: "same_money (committed (db W)) (committed (wk_db w'))"
    and k': "handles_ok (wk_db w')" "db_ok (wk_db w')" by (simp_all add: calmly_def kept_def)
  note g = same_money_keeps [OF m]
  have "transactions (committed (wk_db w')) = transactions (committed (db W))" using m by (simp add: same_money_def)
  with ok W k' g show ?thesis
    using ledger_mono [OF g(4)] bank_of_same [OF m]
    by (simp add: ledger_ok_def world_ok_def ledger_tables_def)
qed

lemma step_follows:
  assumes "ledger_step D ev L L'" and ok: "ledger_ok (d_ext D) dc di log L"
  shows "ledger_ok (d_ext D) dc di log L' \<and> bank_step ev (bank_of (ledger_tables L)) (bank_of (ledger_tables L'))"
  using assms
proof (cases rule: ledger_step.cases)
  case rpc_Transfer
  then show ?thesis using transfer_follows [OF ok] by (simp add: ledger_tables_def)
next
  case rpc_CreateAccount
  from served_follows [OF ok rpc_CreateAccount(3), where ev = "Ev_Open _", OF redis_server.CreateAccount_bank [OF cache_server _ _ uuid_laws]]
  show ?thesis by (simp add: rpc_CreateAccount(1,2) ledger_tables_def)
next
  case rpc_GetBalance
  from served_follows [OF ok rpc_GetBalance(3), where ev = "Ev_Balance _", OF redis_server.GetBalance_bank [OF cache_server _ _ uuid_laws]]
  show ?thesis by (simp add: rpc_GetBalance(1,2) ledger_tables_def)
next
  case rpc_GetTransaction
  from served_follows [OF ok rpc_GetTransaction(3), where ev = "Ev_Transaction _", OF redis_server.GetTransaction_bank [OF cache_server _ _ uuid_laws]]
  show ?thesis by (simp add: rpc_GetTransaction(1,2) ledger_tables_def)
next
  case store_status
  then show ?thesis using status_keeps [OF ok] by (simp add: bank_step.background)
next
  case publish
  then show ?thesis using publish_keeps [OF ok] by (simp add: ledger_tables_def bank_step.background)
next
  case consume
  then show ?thesis using consume_keeps [OF ok] by (simp add: ledger_tables_def bank_step.background)
next
  case work
  then show ?thesis using work_keeps [OF ok] by (simp add: ledger_tables_def bank_step.background)
next
  case restart
  with ok show ?thesis by (simp add: ledger_ok_def ledger_tables_def world_ok_def idem_ok_def bank_step.background)
qed

end

sublocale ledger_services \<subseteq> bank: simulation "ledger_step D" bank_step "ledger_ok (d_ext D) dc di log" "\<lambda>L. bank_of (ledger_tables L)"
  by unfold_locales (auto dest: step_follows)

section \<open>Receipts last\<close>

lemma bank_step_receipt:
  assumes "bank_step e B B'" and "b_receipts B k = Some rc"
  shows "b_receipts B' k = Some rc"
  using assms
  by (cases rule: bank_step.cases) (auto simp: bank_move_def bank_open_def issue_def fresh_receipt_def Let_def split: if_splits)

lemma runs_receipt: "runs bank_step es B B' \<Longrightarrow> b_receipts B k = Some rc \<Longrightarrow> b_receipts B' k = Some rc"
  by (induction es arbitrary: B) (auto dest: bank_step_receipt)

lemma bank_step_acknowledged:
  assumes "bank_step (Ev_Transfer req (Returned (Inr (Some out)))) B B'"
  shows "\<exists>k rc. wire_id (m_IdempotencyKey req) = Some k \<and> b_receipts B' k = Some rc \<and> out = uuid_bytes (rc_ID rc)
    \<and> (b_receipts B k = None \<longrightarrow> asked req k rc)"
  using assms
  by (rule bank_step_Transfer) (force simp: asked_def bank_move_def issue_def)+

text \<open>An id has one receipt.\<close>

lemma receipt_unique:
  assumes "schema_ok q w" and "b_receipts (bank_of w) k = Some rc" "b_receipts (bank_of w) k' = Some rc'" "rc_ID rc' = rc_ID rc"
  shows "rc' = rc"
proof -
  obtain t t' where "t \<in> set (transactions w)" "rc = receipt_of t" "t' \<in> set (transactions w)" "rc' = receipt_of t'"
    using assms(2,3) bank_of_receipts [OF assms(1)] by blast
  moreover from this assms(1,4) have "t' = t" by (auto simp: schema_ok_def distinct_map inj_on_def)
  ultimately show ?thesis by simp
qed

context ledger_services
begin

lemma acknowledged:
  assumes ok: "ledger_ok (d_ext D) dc di log L1"
    and ack: "ledger_step D (Ev_Transfer req (Returned (Inr (Some out)))) L1 L2"
    and mid: "runs (ledger_step D) es L2 L3" and rd: "ledger_step D (Ev_Transaction out (Returned x)) L3 L4"
  shows "\<exists>t\<in>set (transactions (ledger_tables L2)). uuid_bytes (t_ID t) = out
    \<and> uuid_FromBytes (d_ext D) (m_IdempotencyKey req) = Some (t_IdempotencyKey t)
    \<and> ((\<forall>t'\<in>set (transactions (ledger_tables L1)). t_IdempotencyKey t' \<noteq> t_IdempotencyKey t) \<longrightarrow> asked req (t_IdempotencyKey t) (receipt_of t))
    \<and> (case x of Inr r \<Rightarrow> r = receipt_response (receipt_of t) | Inl st \<Rightarrow> st_code st \<noteq> codes_NotFound)"
proof -
  let ?B = "\<lambda>L. bank_of (ledger_tables L)"
  have ok2: "ledger_ok (d_ext D) dc di log L2" and ok3: "ledger_ok (d_ext D) dc di log L3"
    using step_follows [OF ack ok] bank.runs_ok [OF mid] by blast+
  have sc: "\<exists>q. schema_ok q (ledger_tables L)" if "ledger_ok (d_ext D) dc di log L" for L
    using that by (auto simp: ledger_ok_def world_ok_def db_ok_def ledger_tables_def)
  obtain q1 q2 q3 where q: "schema_ok q1 (ledger_tables L1)" "schema_ok q2 (ledger_tables L2)" "schema_ok q3 (ledger_tables L3)"
    using sc [OF ok] sc [OF ok2] sc [OF ok3] by blast
  obtain k rc where k: "wire_id (m_IdempotencyKey req) = Some k" and rc: "b_receipts (?B L2) k = Some rc"
    and out: "out = uuid_bytes (rc_ID rc)" and new: "b_receipts (?B L1) k = None \<longrightarrow> asked req k rc"
    using bank_step_acknowledged [OF step_follows [OF ack ok, THEN conjunct2]] by metis
  from rc obtain t where t: "t \<in> set (transactions (ledger_tables L2))" "t_IdempotencyKey t = k" "rc = receipt_of t"
    using bank_of_receipts [OF q(2)] by blast
  have rc3: "b_receipts (?B L3) k = Some rc" using runs_receipt [OF bank.runs_follow [OF mid ok2] rc] .
  have ans: "transaction_answer (?B L3) out x"
    using step_follows [OF rd ok3] by (auto elim: bank_step_Transaction)
  have "case x of Inr r \<Rightarrow> r = receipt_response rc | Inl st \<Rightarrow> st_code st \<noteq> codes_NotFound"
    using ans rc3 receipt_unique [OF q(3) rc3] by (auto simp: transaction_answer_def out uuid_bytes_inject split: sum.splits)
  moreover have "asked req k rc" if "\<forall>t'\<in>set (transactions (ledger_tables L1)). t_IdempotencyKey t' \<noteq> k"
    using that bank_of_receipts [OF q(1), of k] new by (cases "b_receipts (?B L1) k") auto
  ultimately show ?thesis
    using t(2,3) k out by (intro bexI [OF _ t(1)]) (auto simp: wire_id_FromBytes [OF uuid_laws])
qed

text \<open>Runs from a new ledger.\<close>

lemma reach_ok: "ledger_start dc di log L0 \<Longrightarrow> runs (ledger_step D) es L0 L \<Longrightarrow> ledger_ok (d_ext D) dc di log L"
  using bank.runs_ok ledger_start_ok by blast

lemma reach_bank:
  "ledger_start dc di log L0 \<Longrightarrow> runs (ledger_step D) es L0 L \<Longrightarrow> runs bank_step es (bank_of (ledger_tables L0)) (bank_of (ledger_tables L))"
  using bank.runs_follow ledger_start_ok by blast

end

section \<open>A reference deployment\<close>

definition ref_deployment :: "(ref_redis, ref_redis, ref_kafka) deployment" where
  "ref_deployment = \<lparr>d_uc = sample_uc, d_ext = ref_ext, d_cache = ref_client, d_idem = ref_client, d_kafka = ref_broker,
     d_worker = sample_worker, d_ttl = 60\<rparr>"

interpretation refd: ledger_services ref_deployment rr_clock rr_data rr_clock rr_data rk_log rk_pos rk_off
  by (rule ledger_services.intro) (simp_all add: ref_deployment_def ref.redis_server_axioms refk.kafka_broker_axioms)

definition empty_topic :: ref_kafka where
  "empty_topic = \<lparr>rk_log = [], rk_pos = 0, rk_off = 0\<rparr>"

definition no_metrics :: grpc_metrics where
  "no_metrics = \<lparr>gm_requests = (\<lambda>_. 0), gm_durations = []\<rparr>"

text \<open>A new ledger, and the sample ledger in service.\<close>

definition new_ledger :: "(ref_redis, ref_redis, ref_kafka) ledger" where
  "new_ledger = \<lparr>lg_gateway = (sample_gateway Map.empty)\<lparr>gw_world := sample_world\<lparr>db := sample_db\<lparr>postings_id_seq := 0,
       committed := \<lparr>accounts = Map.empty, transactions = [], postings = [], worker_cursors = Map.empty\<rparr>\<rparr>\<rparr>\<rparr>,
     lg_metrics = no_metrics, lg_kafka = empty_topic\<rparr>"

definition sample_ledger :: "(ref_redis, ref_redis, ref_kafka) ledger" where
  "sample_ledger = \<lparr>lg_gateway = sample_gateway Map.empty, lg_metrics = no_metrics, lg_kafka = empty_topic\<rparr>"

lemma new_ledger_start: "ledger_start rr_data rr_data rk_log new_ledger"
  by (simp add: ledger_start_def ledger_tables_def new_ledger_def empty_topic_def Let_def sample_db_def sample_world_def sample_cache_def)

lemma sample_ledger_ok: "ledger_ok ref_ext rr_data rr_data rk_log sample_ledger"
  by (simp add: ledger_ok_def world_ok_def ledger_tables_def sample_ledger_def empty_topic_def genuine_def idem_ok_def)
    (simp add: sample_world_def)

lemma sample_ledger_sel [simp]: "lg_gateway sample_ledger = sample_gateway Map.empty" "lg_metrics sample_ledger = no_metrics"
    "lg_kafka sample_ledger = empty_topic" "ledger_tables sample_ledger = sample_tables"
  by (simp_all add: sample_ledger_def ledger_tables_def)

lemma ref_deployment_sel [simp]:
  "d_uc ref_deployment = sample_uc" "d_ext ref_deployment = ref_ext" "d_cache ref_deployment = ref_client"
  "d_idem ref_deployment = ref_client" "d_kafka ref_deployment = ref_broker" "d_worker ref_deployment = sample_worker" "d_ttl ref_deployment = 60"
  by (simp_all add: ref_deployment_def)

text \<open>The sample transfer goes through the chain of the sample ledger.\<close>

definition answered_ledger :: "(ref_redis, ref_redis, ref_kafka) ledger" where
  "answered_ledger = sample_ledger\<lparr>lg_gateway := sample_answered,
     lg_metrics := ObserveTotalRequests Transfer_FullMethodName ''OK'' (ObserveResponseTime Transfer_FullMethodName ''OK'' 4 no_metrics)\<rparr>"

lemma sample_called: "called [Some 13, Some 14, Some 15] 7 5 [] (sample_gateway Map.empty) = sample_gateway Map.empty"
  by (simp add: called_def at_call_def sample_gateway_def sample_world_def sample_db_def)

lemma sample_acknowledged:
  "ledger_step ref_deployment (Ev_Transfer sample_call (Returned (Inr (Some (uuid_bytes 13))))) sample_ledger answered_ledger"
proof -
  have "gateway_Transfer sample_uc ref_ext ref_client (redis_storage ref_ext ref_client) True 4 sample_call
      (called [Some 13, Some 14, Some 15] 7 5 [] (lg_gateway sample_ledger), lg_metrics sample_ledger) =
    (Returned (Inr (Some (uuid_bytes 13))), sample_answered,
     ObserveTotalRequests Transfer_FullMethodName ''OK'' (ObserveResponseTime Transfer_FullMethodName ''OK'' 4 no_metrics))"
    using sample_first_call
    by (simp add: gateway_Transfer_def UnaryMetricsInterceptor_def sample_called sample_handler_def [abs_def] status_code_def sample_call_def)
  moreover have "bigint (m_Amount sample_call)" "Some uuid_Nil \<notin> set [Some 13, Some 14, Some (15 :: uuid)]"
    by (simp_all add: sample_call_def bigint_def uuid_Nil_def)
  ultimately show ?thesis
    unfolding answered_ledger_def using ledger_step.rpc_Transfer [of sample_call _ ref_deployment] by (metis ref_deployment_sel(1-4))
qed

lemma answered_ledger_sel [simp]:
  "lg_gateway answered_ledger = sample_answered" "ledger_tables answered_ledger = committed (db (snd sample_run))"
  by (simp_all add: answered_ledger_def ledger_tables_def sample_answered_def)

lemma sample_read: "\<exists>r L. ledger_step ref_deployment (Ev_Transaction (uuid_bytes 13) (Returned (Inr r))) answered_ledger L \<and> r_Amount r = 30"
proof -
  have "map_sum id t_Amount (fst (stats_GetTransaction ref_ext ref_client 13 (snd sample_run))) = Inr 30" by code_simp
  then obtain t W' where t: "stats_GetTransaction ref_ext ref_client 13 (snd sample_run) = (Inr t, W')" "t_Amount t = 30"
    by (cases "stats_GetTransaction ref_ext ref_client 13 (snd sample_run)"; cases "fst (stats_GetTransaction ref_ext ref_client 13 (snd sample_run))") auto
  let ?W = "snd sample_run"
  have c: "called (uuid_source ?W) (wall ?W) (pg_now (db ?W)) (faults (db ?W)) sample_answered = sample_answered"
    by (simp add: called_def at_call_def sample_answered_def)
  have w: "gw_world sample_answered = ?W" by (simp add: sample_answered_def)
  define r where "r = \<lparr>r_Id = uuid_bytes (t_ID t), r_UserFrom = uuid_bytes (t_FromAccountID t),
      r_UserTo = uuid_bytes (t_ToAccountID t), r_Amount = t_Amount t, r_Currency = of_currency (t_Currency t)\<rparr>"
  have "\<exists>G' M'. serve GetTransaction_FullMethodName 1 (h_GetTransaction ref_ext ref_client (uuid_bytes 13))
      (called (uuid_source ?W) (wall ?W) (pg_now (db ?W)) (faults (db ?W)) (lg_gateway answered_ledger), lg_metrics answered_ledger) = (Returned (Inr r), G', M')"
    using t by (simp add: c serve_def UnaryMetricsInterceptor_def h_GetTransaction_def w r_def)
  then show ?thesis
    using ledger_step.rpc_GetTransaction [of 1 ref_deployment "uuid_bytes 13" _ _ _ _ answered_ledger "Returned (Inr r)"] t(2)
    unfolding ref_deployment_sel by (metis r_def transaction_response.select_convs(4))
qed

lemma sample_open:
  "\<exists>L. ledger_step ref_deployment (Ev_Open 2 (Returned (Inr (uuid_bytes 13)))) new_ledger L"
proof -
  let ?G = "called [Some 13, Some 14, Some 15] 7 5 [] (lg_gateway new_ledger)"
  have "fst (uc_CreateAccount ref_ext ref_client 777 (to_currency 2) (gw_world ?G)) = Inr 13"
    by (rule uc_CreateAccount_quiet [where k = 14 and u = 15 and us = "[]"])
      (simp_all add: new_ledger_def called_def at_call_def to_currency_def currency_defs)
  then have "serve CreateAccount_FullMethodName 1 (h_CreateAccount ref_ext ref_client 777 2) (?G, lg_metrics new_ledger) =
      (Returned (Inr (uuid_bytes 13)), snd (serve CreateAccount_FullMethodName 1 (h_CreateAccount ref_ext ref_client 777 2) (?G, lg_metrics new_ledger)))"
    by (auto simp: serve_def UnaryMetricsInterceptor_def h_CreateAccount_def split: prod.splits sum.splits)
  then show ?thesis
    using ledger_step.rpc_CreateAccount [of 1 ref_deployment 777 2] by (metis prod.collapse ref_deployment_sel(2,3))
qed

end
