(* ===== verification/Transfer_Session.thy ===== *)
theory Transfer_Session
  imports Transfer_UC
begin

text \<open>
  \<open>Transaction\<close> of \<^verbatim>\<open>internal/usecase/transfer.go\<close> cut into its calls: a stage says which call comes next and
  what the function has in its variables, and \<open>session_call\<close> makes that call. Made one after the other
  the calls are the function; \<open>Interleaving\<close> lets other sessions run between them.
\<close>

section \<open>A transfer as a sequence of calls\<close>

datatype stage =
    Arrived transaction_request
  | Beginning transaction_request
  | Naming custom_tx transaction_request
  | Inserting custom_tx transaction
  | Entering custom_tx transaction
  | Moving custom_tx transaction "uuid \<rightharpoonup> int" "balanceOp list"
  | Rolling_Back custom_tx error
  | Answered "uuid result"

definition answer :: "transfer_uc \<Rightarrow> uuid result \<Rightarrow> 'r world \<Rightarrow> stage \<times> 'r world" where
  "answer uc x W = (Answered x, if uc_metrics uc then RecordTransfer (transfer_status x) W else W)"

definition balance_call :: "custom_tx \<Rightarrow> int \<Rightarrow> (uuid \<rightharpoonup> int) \<Rightarrow> balanceOp \<Rightarrow> unit pgm" where
  "balance_call tx amount postingIDs op =
     (let postingID = (case postingIDs (accountID op) of None \<Rightarrow> 0 | Some i \<Rightarrow> i)
      in if isDebit op then DebitBalance tx (accountID op) amount postingID
         else CreditBalance tx (accountID op) amount postingID)"

text \<open>One call of \<^verbatim>\<open>Transaction\<close> and the statements up to the next.\<close>

fun session_call :: "transfer_uc \<Rightarrow> ext \<Rightarrow> 'r redis \<Rightarrow> bool \<Rightarrow> stage \<Rightarrow> 'r world \<Rightarrow> stage \<times> 'r world" where
  "session_call uc E R ff (Arrived req) W =
     (case validateRequest req of
        Inl e \<Rightarrow> answer uc (Inl e) W
      | Inr _ \<Rightarrow>
          (case validateTransferCurrencies E R ff (req_FromAccountID req) (req_ToAccountID req) (req_Currency req) W of
             (Inl e, W') \<Rightarrow> answer uc (Inl e) W'
           | (Inr _, W') \<Rightarrow> (Beginning req, W')))"
| "session_call uc E R ff (Beginning req) W =
     (case on_db BeginTx W of
        (Inl e, W') \<Rightarrow> answer uc (Inl e) W'
      | (Inr tx, W') \<Rightarrow> (Naming tx req, W'))"
| "session_call uc E R ff (Naming tx req) W =
     (case uuid_NewV7 W of
        (Inl e, W') \<Rightarrow> (Rolling_Back tx e, W')
      | (Inr trxID, W') \<Rightarrow> (Inserting tx (new_transaction trxID (wall W') req), W'))"
| "session_call uc E R ff (Inserting tx trx) W =
     (case on_db (CreateTransaction tx trx) W of
        (Inl e, W') \<Rightarrow> (Rolling_Back tx e, W')
      | (Inr _, W') \<Rightarrow> (Entering tx trx, W'))"
| "session_call uc E R ff (Entering tx trx) W =
     (case on_db (CreatePostings tx (transfer_postings trx)) W of
        (Inl e, W') \<Rightarrow> (Rolling_Back tx e, W')
      | (Inr ids, W') \<Rightarrow> (Moving tx trx ids (balance_ops (t_FromAccountID trx) (t_ToAccountID trx)), W'))"
| "session_call uc E R ff (Moving tx trx ids (op # ops)) W =
     (case on_db (balance_call tx (t_Amount trx) ids op) W of
        (Inl e, W') \<Rightarrow> (Rolling_Back tx e, W')
      | (Inr _, W') \<Rightarrow> (Moving tx trx ids ops, W'))"
| "session_call uc E R ff (Moving tx trx ids []) W =
     (case on_db (CommitTx tx) W of
        (Inl e, W') \<Rightarrow> (Rolling_Back tx e, W')
      | (Inr _, W') \<Rightarrow> answer uc (Inr (t_ID trx)) (if uc_publisher uc then W'\<lparr>spawned := spawned W' @ [trx]\<rparr> else W'))"
| "session_call uc E R ff (Rolling_Back tx e) W = answer uc (Inl e) (snd (on_db (RollbackTx tx) W))"
| "session_call uc E R ff (Answered x) W = (Answered x, W)"

fun session_calls :: "transfer_uc \<Rightarrow> ext \<Rightarrow> 'r redis \<Rightarrow> bool \<Rightarrow> nat \<Rightarrow> stage \<Rightarrow> 'r world \<Rightarrow> stage \<times> 'r world" where
  "session_calls uc E R ff 0 st W = (st, W)"
| "session_calls uc E R ff (Suc k) st W =
     (case session_call uc E R ff st W of (st', W') \<Rightarrow> session_calls uc E R ff k st' W')"

text \<open>The end of \<^verbatim>\<open>Transaction\<close> as a function of what ran inside the database transaction.\<close>

definition closing :: "transfer_uc \<Rightarrow> custom_tx \<Rightarrow> (transaction result \<times> 'r world) \<Rightarrow> stage \<times> 'r world" where
  "closing uc tx m = (case m of
     (Inl e, W) \<Rightarrow> answer uc (Inl e) (snd (on_db (RollbackTx tx) W))
   | (Inr trx, W) \<Rightarrow> answer uc (Inr (t_ID trx)) (if uc_publisher uc then W\<lparr>spawned := spawned W @ [trx]\<rparr> else W))"

lemma calls_Answered [simp]: "session_calls uc E R ff k (Answered x) W = (Answered x, W)"
  by (induction k) auto

lemma calls_answer [simp]: "(case answer uc x W of (st, W') \<Rightarrow> session_calls uc E R ff k st W') = answer uc x W"
  by (simp add: answer_def)

lemma on_db_bind_r: "on_db (bind_r m f) = bind_r (on_db m) (\<lambda>a. on_db (f a))"
  by (rule ext) (simp add: on_db_bind)

lemma bind_r_assoc: "bind_r (bind_r m f) g = bind_r m (\<lambda>a. bind_r (f a) g)"
  by (auto simp: bind_r_def fun_eq_iff split: prod.splits sum.splits)

lemma calls_Moving:
  "session_calls uc E R ff (Suc (Suc (length ops + k))) (Moving tx trx ids ops) W =
   closing uc tx (bind_r (on_db (run_ops tx (t_Amount trx) ids ops)) (\<lambda>_. bind_r (on_db (CommitTx tx)) (\<lambda>_. return_r trx)) W)"
proof (induction ops arbitrary: W)
  case Nil
  show ?case
    by (auto simp: closing_def answer_def bind_r_def on_db_def split: prod.splits sum.splits)
next
  case (Cons op ops)
  obtain x W' where c: "on_db (balance_call tx (t_Amount trx) ids op) W = (x, W')" by fastforce
  have "run_ops tx (t_Amount trx) ids (op # ops) =
      bind_r (balance_call tx (t_Amount trx) ids op) (\<lambda>_. run_ops tx (t_Amount trx) ids ops)"
    by (simp add: balance_call_def Let_def)
  then show ?case
    using c Cons.IH [of W'] by (cases x) (simp_all add: on_db_bind_r bind_r_assoc closing_def del: run_ops.simps)
qed

lemma calls_numeral:
  "session_calls uc E R ff (numeral n) st W =
     (case session_call uc E R ff st W of (st', W') \<Rightarrow> session_calls uc E R ff (pred_numeral n) st' W')"
  by (simp add: numeral_eq_Suc)

lemma calls_Rolling_Back_numeral:
  "session_calls uc E R ff (numeral n) (Rolling_Back tx e) W = closing uc tx (Inl e, W)"
  by (simp add: calls_numeral closing_def)

lemma calls_Inserting:
  "session_calls uc E R ff 7 (Inserting tx trx) W =
   closing uc tx (bind_r (on_db (transfer_work tx trx)) (\<lambda>_. bind_r (on_db (CommitTx tx)) (\<lambda>_. return_r trx)) W)"
proof -
  let ?ops = "balance_ops (t_FromAccountID trx) (t_ToAccountID trx)"
  have "length ?ops = 2" by (simp add: balance_ops_def Let_def)
  then have mv: "session_calls uc E R ff 5 (Moving tx trx ids ?ops) W' =
     closing uc tx (bind_r (on_db (run_ops tx (t_Amount trx) ids ?ops)) (\<lambda>_. bind_r (on_db (CommitTx tx)) (\<lambda>_. return_r trx)) W')" for ids W'
    using calls_Moving [of uc E R ff ?ops 1 tx trx ids W'] by (simp add: numeral_eq_Suc)
  obtain x W1 where x: "on_db (CreateTransaction tx trx) W = (x, W1)" by fastforce
  obtain y W2 where y: "on_db (CreatePostings tx (transfer_postings trx)) W1 = (y, W2)" by fastforce
  show ?thesis
    using x y
    by (cases x; cases y)
      (simp_all add: calls_numeral [of _ _ _ _ _ "Inserting _ _"] calls_numeral [of _ _ _ _ _ "Entering _ _"] mv calls_Rolling_Back_numeral
        transfer_work_def on_db_bind_r bind_r_assoc)
qed

lemma solo_calls:
  assumes "Transaction uc E R ff req W = (x, W')"
  shows "session_calls uc E R ff 10 (Arrived req) W = (Answered x, W')"
  using assms
  by (auto simp: calls_numeral [of _ _ _ _ _ "Arrived _"] calls_numeral [of _ _ _ _ _ "Beginning _"] calls_numeral [of _ _ _ _ _ "Naming _ _"]
      calls_Inserting calls_Rolling_Back_numeral Transaction_def transaction_main_def transfer_in_tx_def rollback_on_error_def
      bind_r_def answer_def closing_def Let_def
      split: prod.splits sum.splits)

end
