(* ===== verification/Opening_Session.thy ===== *)
theory Opening_Session
  imports Account_UC Transfer_Session
begin

text \<open>
  \<^verbatim>\<open>CreateAccount\<close> of \<^verbatim>\<open>internal/usecase/account.go\<close> cut into its calls, as \<open>Transfer_Session\<close> does for
  \<^verbatim>\<open>Transaction\<close>. Made one after the other the calls are the function; \<open>Ledger_Calls\<close> mixes them with
  those of other openings and of transfers.
\<close>

section \<open>An opening as a sequence of calls\<close>

text \<open>\<open>Op_Committing\<close> has the transaction and the posting id of the opening balance, if there is one.\<close>

datatype opening_stage =
    Op_Arrived currency nat
  | Op_Beginning account int
  | Op_Inserting custom_tx account int
  | Op_Keying custom_tx account int
  | Op_Naming custom_tx account int uuid
  | Op_Recording custom_tx account transaction
  | Op_Posting custom_tx account transaction
  | Op_Crediting custom_tx account transaction int
  | Op_Committing custom_tx account "(transaction \<times> int) option"
  | Op_Caching account
  | Op_Rolling_Back custom_tx error
  | Op_Answered "uuid result"

fun opening_call :: "ext \<Rightarrow> 'r redis \<Rightarrow> opening_stage \<Rightarrow> 'r world \<Rightarrow> opening_stage \<times> 'r world" where
  "opening_call E R (Op_Arrived c rnd) W =
     (if c = CURRENCY_UNSPECIFIED then (Op_Answered (Inl ErrInvalidCurrency), W)
      else case uuid_NewV7 W of
             (Inl e, W') \<Rightarrow> (Op_Answered (Inl e), W')
           | (Inr i, W') \<Rightarrow> (Op_Beginning (new_account i c (wall W')) (int (rnd mod 100000000)), W'))"
| "opening_call E R (Op_Beginning a b) W =
     (case on_db BeginTx W of
        (Inl e, W') \<Rightarrow> (Op_Answered (Inl e), W')
      | (Inr tx, W') \<Rightarrow> (Op_Inserting tx a b, W'))"
| "opening_call E R (Op_Inserting tx a b) W =
     (case on_db (Postgres.CreateAccount tx a) W of
        (Inl e, W') \<Rightarrow> (Op_Rolling_Back tx e, W')
      | (Inr _, W') \<Rightarrow> (if b > 0 then Op_Keying tx a b else Op_Committing tx a None, W'))"
| "opening_call E R (Op_Keying tx a b) W =
     (case uuid_NewV7 W of
        (Inl e, W') \<Rightarrow> (Op_Rolling_Back tx e, W')
      | (Inr openingKey, W') \<Rightarrow> (Op_Naming tx a b openingKey, W'))"
| "opening_call E R (Op_Naming tx a b openingKey) W =
     (case uuid_NewV7 W of
        (Inl e, W') \<Rightarrow> (Op_Rolling_Back tx e, W')
      | (Inr trxID, W') \<Rightarrow>
          (Op_Recording tx a (opening_transaction trxID openingKey (acc_ID a) b (acc_Currency a) (wall W')), W'))"
| "opening_call E R (Op_Recording tx a trx) W =
     (case on_db (CreateTransaction tx trx) W of
        (Inl e, W') \<Rightarrow> (Op_Rolling_Back tx e, W')
      | (Inr _, W') \<Rightarrow> (Op_Posting tx a trx, W'))"
| "opening_call E R (Op_Posting tx a trx) W =
     (case on_db (CreatePostings tx [opening_posting (t_ID trx) (acc_ID a) (t_Amount trx)]) W of
        (Inl e, W') \<Rightarrow> (Op_Rolling_Back tx e, W')
      | (Inr postingIDs, W') \<Rightarrow>
          (case postingIDs (acc_ID a) of
             None \<Rightarrow> (Op_Rolling_Back tx (Errorf (''create account: missing posting id for '' @ uuid_String E (acc_ID a))), W')
           | Some postingID \<Rightarrow> (Op_Crediting tx a trx postingID, W')))"
| "opening_call E R (Op_Crediting tx a trx postingID) W =
     (case on_db (CreditBalance tx (acc_ID a) (t_Amount trx) postingID) W of
        (Inl e, W') \<Rightarrow> (Op_Rolling_Back tx e, W')
      | (Inr _, W') \<Rightarrow> (Op_Committing tx a (Some (trx, postingID)), W'))"
| "opening_call E R (Op_Committing tx a booked) W =
     (case on_db (CommitTx tx) W of
        (Inl e, W') \<Rightarrow> (Op_Rolling_Back tx e, W')
      | (Inr _, W') \<Rightarrow> (Op_Caching a, W'))"
| "opening_call E R (Op_Caching a) W =
     (Op_Answered (Inr (acc_ID a)), snd (on_cache (SetAccountCurrency E R (acc_ID a) (acc_Currency a) currencyTTL) W))"
| "opening_call E R (Op_Rolling_Back tx e) W = (Op_Answered (Inl e), snd (on_db (RollbackTx tx) W))"
| "opening_call E R (Op_Answered x) W = (Op_Answered x, W)"

fun opening_calls :: "ext \<Rightarrow> 'r redis \<Rightarrow> nat \<Rightarrow> opening_stage \<Rightarrow> 'r world \<Rightarrow> opening_stage \<times> 'r world" where
  "opening_calls E R 0 st W = (st, W)"
| "opening_calls E R (Suc k) st W = (case opening_call E R st W of (st', W') \<Rightarrow> opening_calls E R k st' W')"

lemma opening_calls_Answered [simp]: "opening_calls E R k (Op_Answered x) W = (Op_Answered x, W)"
  by (induction k) auto

lemma opening_calls_numeral:
  "opening_calls E R (numeral n) st W =
     (case opening_call E R st W of (st', W') \<Rightarrow> opening_calls E R (pred_numeral n) st' W')"
  by (simp add: numeral_eq_Suc)

text \<open>The end of the function, given what ran inside the database transaction.\<close>

definition op_closing :: "ext \<Rightarrow> 'r redis \<Rightarrow> custom_tx \<Rightarrow> account \<Rightarrow> unit result \<times> 'r world \<Rightarrow> opening_stage \<times> 'r world" where
  "op_closing E R tx a m = (case m of
     (Inl e, W) \<Rightarrow> (Op_Answered (Inl e), snd (on_db (RollbackTx tx) W))
   | (Inr _, W) \<Rightarrow> (Op_Answered (Inr (acc_ID a)), snd (on_cache (SetAccountCurrency E R (acc_ID a) (acc_Currency a) currencyTTL) W)))"

abbreviation then_commit :: "custom_tx \<Rightarrow> ('r world \<Rightarrow> unit result \<times> 'r world) \<Rightarrow> 'r world \<Rightarrow> unit result \<times> 'r world" where
  "then_commit tx m \<equiv> bind_r m (\<lambda>_. on_db (CommitTx tx))"

lemma op_calls_Rolling_Back: "opening_calls E R (Suc k) (Op_Rolling_Back tx e) W = op_closing E R tx a (Inl e, W)"
  by (simp add: op_closing_def)

lemma op_calls_Committing:
  "opening_calls E R (Suc (Suc k)) (Op_Committing tx a p) W = op_closing E R tx a (on_db (CommitTx tx) W)"
  by (auto simp: op_closing_def split: prod.splits sum.splits)

lemma bind_r_app: "bind_r m f s = (case m s of (Inl e, s') \<Rightarrow> (Inl e, s') | (Inr a, s') \<Rightarrow> f a s')"
  by (simp add: bind_r_def)

lemma on_db_option: "on_db (case z of None \<Rightarrow> m | Some a \<Rightarrow> f a) = (case z of None \<Rightarrow> on_db m | Some a \<Rightarrow> on_db (f a))"
  by (cases z) simp_all

lemma on_db_throw: "on_db (throw e) W = (Inl e, W)"
  by (simp add: on_db_def throw_def)

lemmas opening_work_calls = opening_work_def on_db_bind_r bind_r_assoc bind_r_app on_db_option on_db_throw

lemma op_calls_Recording:
  "opening_calls E R 5 (Op_Recording tx a trx) W = op_closing E R tx a (then_commit tx (on_db (opening_work E tx (acc_ID a) trx)) W)"
  by (auto simp: opening_calls_numeral opening_work_calls op_closing_def split: prod.splits sum.splits option.splits)

lemma op_calls_Inserting:
  "opening_calls E R 8 (Op_Inserting tx a b) W =
     op_closing E R tx a (then_commit tx (bind_r (on_db (Postgres.CreateAccount tx a)) (\<lambda>_. open_balance E tx (acc_ID a) (acc_Currency a) b)) W)"
proof (cases "on_db (Postgres.CreateAccount tx a) W")
  case (Pair x W1)
  show ?thesis
  proof (cases x)
    case (Inl e)
    with Pair show ?thesis by (simp add: opening_calls_numeral bind_r_assoc bind_r_app op_closing_def)
  next
    case (Inr y)
    show ?thesis
    proof (cases "b > 0")
      case True
      have r: "opening_calls E R 5 (Op_Recording tx a trx) V = op_closing E R tx a (then_commit tx (on_db (opening_work E tx (acc_ID a) trx)) V)" for trx V
        by (rule op_calls_Recording)
      show ?thesis
        using Pair Inr True
        by (auto simp: opening_calls_numeral [of _ _ _ "Op_Inserting _ _ _"] opening_calls_numeral [of _ _ _ "Op_Keying _ _ _"]
            opening_calls_numeral [of _ _ _ "Op_Naming _ _ _ _"] opening_calls_numeral [of _ _ _ "Op_Rolling_Back _ _"]
            r open_balance_def bind_r_assoc bind_r_app op_closing_def
            split: prod.splits sum.splits)
    next
      case False
      with Pair Inr show ?thesis
        by (simp add: opening_calls_numeral [of _ _ _ "Op_Inserting _ _ _"] open_balance_def bind_r_assoc bind_r_app return_r_def
            op_calls_Committing [of _ _ 5, simplified])
    qed
  qed
qed

lemma solo_opening:
  "opening_calls E R 10 (Op_Arrived c rnd) W = (case uc_CreateAccount E R rnd c W of (x, W') \<Rightarrow> (Op_Answered x, W'))"
proof -
  have r: "opening_calls E R 8 (Op_Inserting tx (new_account i c t) b) V =
     op_closing E R tx (new_account i c t) (bind_r (create_work E i c b t tx) (\<lambda>_. on_db (CommitTx tx)) V)" for tx i t b V
    by (simp add: op_calls_Inserting create_work_def)
  show ?thesis
  proof (cases "c = CURRENCY_UNSPECIFIED")
    case True
    then show ?thesis by (simp add: opening_calls_numeral uc_CreateAccount_def throw_def)
  next
    case False
    obtain x W1 where u: "uuid_NewV7 W = (x, W1)" by fastforce
    obtain y W2 where b: "on_db BeginTx W1 = (y, W2)" by fastforce
    show ?thesis
      using False u b
      by (cases x; cases y)
        (auto simp: opening_calls_numeral [of _ _ _ "Op_Arrived _ _"] opening_calls_numeral [of _ _ _ "Op_Beginning _ _"] r op_closing_def
          uc_CreateAccount_def in_tx_def Let_def rollback_on_error_def bind_r_app split: prod.splits sum.splits)
  qed
qed

end
