(* ===== verification/Locking.thy ===== *)
theory Locking
  imports Transfer_Laws "HOL-Library.Multiset"
begin

text \<open>
  Concurrent database transactions of the gateway and the worker as sessions that wait for each other.
  An INSERT of a transaction waits for a session that inserted the same id or the same idempotency key;
  an UPDATE of an account waits for the session that holds the row; all are given back at the end of
  the session.
  (The foreign keys take key-share locks, which conflict with neither.) \<open>lock_plan\<close> lists what a job
  of the code takes, in the order of its statements. An INSERT of an id or key that is committed fails with
  a unique violation, for which the code answers \<^verbatim>\<open>ErrIdempotencyConflict\<close> and rolls back; one that
  waited for the entry's owner goes on when the owner rolls back and fails when it commits. The locale
  \<open>ordered_locks\<close> shows that sessions whose plans ascend in one order cannot wait in a circle, and who is
  refused; transfers and corrections are an instance.
\<close>

section \<open>Resources\<close>

datatype resource = Id_Entry uuid | Key_Entry uuid | Account_Row uuid

text \<open>The entries of the two unique indexes of \<^verbatim>\<open>transactions\<close> come before all rows.\<close>

fun kind_of :: "resource \<Rightarrow> nat" where
  "kind_of (Id_Entry i) = 0"
| "kind_of (Key_Entry k) = 1"
| "kind_of (Account_Row a) = 2"

fun id_of :: "resource \<Rightarrow> uuid" where
  "id_of (Id_Entry i) = i"
| "id_of (Key_Entry k) = k"
| "id_of (Account_Row a) = a"

instantiation resource :: linorder
begin

definition less_eq_resource :: "resource \<Rightarrow> resource \<Rightarrow> bool" where
  "less_eq_resource r s \<longleftrightarrow> kind_of r < kind_of s \<or> kind_of r = kind_of s \<and> id_of r \<le> id_of s"

definition less_resource :: "resource \<Rightarrow> resource \<Rightarrow> bool" where
  "less_resource r s \<longleftrightarrow> kind_of r < kind_of s \<or> kind_of r = kind_of s \<and> id_of r < id_of s"

lemma resource_eqI: "kind_of r = kind_of s \<Longrightarrow> id_of r = id_of s \<Longrightarrow> r = s"
  by (cases r; cases s) simp_all

instance
  by standard (auto simp: less_eq_resource_def less_resource_def intro: resource_eqI)

end

lemma less_resource_simps [simp]:
  "Id_Entry i < Key_Entry k" "Id_Entry i < Account_Row a" "Key_Entry k < Account_Row a" "Account_Row a < Account_Row b \<longleftrightarrow> a < b"
  by (auto simp: less_resource_def)

section \<open>Jobs\<close>

datatype job = Transfer_Job transaction | Correction_Job uuid

fun lock_plan :: "job \<Rightarrow> resource list" where
  "lock_plan (Transfer_Job trx) =
     Id_Entry (t_ID trx) # Key_Entry (t_IdempotencyKey trx) # map (Account_Row \<circ> accountID) (balance_ops (t_FromAccountID trx) (t_ToAccountID trx))"
| "lock_plan (Correction_Job a) = [Account_Row a]"

text \<open>A transfer that passed \<^verbatim>\<open>validateRequest\<close> has two accounts.\<close>

fun validated :: "job \<Rightarrow> bool" where
  "validated (Transfer_Job trx) \<longleftrightarrow> t_FromAccountID trx \<noteq> t_ToAccountID trx"
| "validated (Correction_Job a) \<longleftrightarrow> True"

section \<open>Sessions\<close>

text \<open>What a session has yet to take and what it holds; or how it ended: committed, refused by a unique
  index (\<^verbatim>\<open>ErrIdempotencyConflict\<close>, after which the code rolls back), or rolled back after any other
  failure.\<close>

datatype ending = Committed | Refused | Failed

datatype 'r session = Running "'r list" "'r list" | Ended ending

fun held :: "'r session \<Rightarrow> 'r list" where
  "held (Running todo h) = h"
| "held (Ended e) = []"

fun ended :: "'r session \<Rightarrow> bool" where
  "ended (Ended e) \<longleftrightarrow> True"
| "ended (Running todo h) \<longleftrightarrow> False"

fun remaining :: "'r session \<Rightarrow> nat" where
  "remaining (Ended e) = 0"
| "remaining (Running todo h) = Suc (length todo)"

text \<open>The server: its sessions and the committed entries of its unique indexes.\<close>

record 'r lock_server =
  ls_sessions :: "'r session list"
  ls_entries :: "'r set"

definition start :: "('j \<Rightarrow> 'r list) \<Rightarrow> 'r set \<Rightarrow> 'j list \<Rightarrow> 'r lock_server" where
  "start plan D js = \<lparr>ls_sessions = map (\<lambda>j. Running (plan j) []) js, ls_entries = D\<rparr>"

definition end_session :: "nat \<Rightarrow> ending \<Rightarrow> 'r set \<Rightarrow> 'r lock_server \<Rightarrow> 'r lock_server" where
  "end_session i e D S = S\<lparr>ls_sessions := (ls_sessions S)[i := Ended e], ls_entries := ls_entries S \<union> D\<rparr>"

text \<open>The server grants a resource that no session holds, unless it is an index entry that is committed: then
  the INSERT fails and its session rolls back. Or a session commits, and the entries it holds stay.\<close>

inductive advance :: "('r \<Rightarrow> bool) \<Rightarrow> 'r lock_server \<Rightarrow> 'r lock_server \<Rightarrow> bool" for entry :: "'r \<Rightarrow> bool" where
  grant: "i < length (ls_sessions S) \<Longrightarrow> ls_sessions S ! i = Running (r # rs) h \<Longrightarrow>
     \<forall>s\<in>set (ls_sessions S). r \<notin> set (held s) \<Longrightarrow> r \<notin> ls_entries S \<Longrightarrow>
     advance entry S (S\<lparr>ls_sessions := (ls_sessions S)[i := Running rs (h @ [r])]\<rparr>)"
| refuse: "i < length (ls_sessions S) \<Longrightarrow> ls_sessions S ! i = Running (r # rs) h \<Longrightarrow> r \<in> ls_entries S \<Longrightarrow>
     advance entry S (end_session i Refused {} S)"
| commit: "i < length (ls_sessions S) \<Longrightarrow> ls_sessions S ! i = Running [] h \<Longrightarrow>
     advance entry S (end_session i Committed {r \<in> set h. entry r} S)"

text \<open>A session may also fail and roll back at any point.\<close>

inductive lock_step :: "('r \<Rightarrow> bool) \<Rightarrow> 'r lock_server \<Rightarrow> 'r lock_server \<Rightarrow> bool" for entry :: "'r \<Rightarrow> bool" where
  advances: "advance entry S S' \<Longrightarrow> lock_step entry S S'"
| rolled_back: "i < length (ls_sessions S) \<Longrightarrow> ls_sessions S ! i = Running rs h \<Longrightarrow>
     lock_step entry S (end_session i Failed {} S)"

inductive_cases advanceE: "advance entry S S'"
inductive_cases lock_stepE: "lock_step entry S S'"

definition to_do :: "'r lock_server \<Rightarrow> nat" where
  "to_do S = sum_list (map remaining (ls_sessions S))"

lemma remaining_update:
  "i < length ss \<Longrightarrow> remaining s < remaining (ss ! i) \<Longrightarrow>
   sum_list (map remaining (ss[i := s])) < sum_list (map remaining ss)"
proof (induction ss arbitrary: i)
  case (Cons a ss)
  then show ?case by (cases i) auto
qed simp

lemma lock_step_remaining: "lock_step entry S S' \<Longrightarrow> to_do S' < to_do S"
  by (elim lock_stepE advanceE) (auto simp: to_do_def end_session_def intro!: remaining_update)

lemma lock_steps_bound: "(lock_step entry ^^ n) S S' \<Longrightarrow> n + to_do S' \<le> to_do S"
proof (induction n arbitrary: S')
  case (Suc n)
  then obtain u where "(lock_step entry ^^ n) S u" "lock_step entry u S'" by auto
  with Suc.IH lock_step_remaining show ?case by fastforce
qed simp

section \<open>Plans that ascend in one order\<close>

locale ordered_locks =
  fixes plan :: "'j \<Rightarrow> ('r :: linorder) list" and valid :: "'j \<Rightarrow> bool" and entry :: "'r \<Rightarrow> bool"
  assumes ascends: "valid j \<Longrightarrow> sorted_wrt (<) (plan j)"
begin

definition locks_inv :: "'r session list \<Rightarrow> bool" where
  "locks_inv ss \<longleftrightarrow> (\<forall>i<length ss. \<forall>todo h. ss ! i = Running todo h \<longrightarrow> sorted_wrt (<) (h @ todo))"

text \<open>The entries that the committed sessions of the jobs \<open>js\<close> added.\<close>

definition added :: "'j list \<Rightarrow> 'r lock_server \<Rightarrow> 'r set" where
  "added js S = {r. entry r \<and> (\<exists>i<length js. ls_sessions S ! i = Ended Committed \<and> r \<in> set (plan (js ! i)))}"

text \<open>What holds of the jobs \<open>js\<close> on a server that started with the entries \<open>D\<close>: a running session has
  taken the start of its plan; what is held is held once and is not a committed entry; a committed
  session added entries that were not there; a session is refused only for an entry that was there
  or that another session committed.\<close>

definition plans_inv :: "'j list \<Rightarrow> 'r lock_server \<Rightarrow> bool" where
  "plans_inv js S \<longleftrightarrow> (\<forall>i<length js. \<forall>todo h. ls_sessions S ! i = Running todo h \<longrightarrow> h @ todo = plan (js ! i))"

definition held_inv :: "'j list \<Rightarrow> 'r lock_server \<Rightarrow> bool" where
  "held_inv js S \<longleftrightarrow> (\<forall>i<length js. \<forall>r\<in>set (held (ls_sessions S ! i)). r \<notin> ls_entries S
     \<and> (\<forall>j<length js. j \<noteq> i \<longrightarrow> r \<notin> set (held (ls_sessions S ! j))))"

definition once_inv :: "'r set \<Rightarrow> 'j list \<Rightarrow> 'r lock_server \<Rightarrow> bool" where
  "once_inv D js S \<longleftrightarrow> (\<forall>i<length js. ls_sessions S ! i = Ended Committed \<longrightarrow> (\<forall>r\<in>set (plan (js ! i)). entry r \<longrightarrow> r \<notin> D
     \<and> (\<forall>j<length js. j \<noteq> i \<longrightarrow> ls_sessions S ! j = Ended Committed \<longrightarrow> r \<notin> set (plan (js ! j)))))"

definition refused_inv :: "'r set \<Rightarrow> 'j list \<Rightarrow> 'r lock_server \<Rightarrow> bool" where
  "refused_inv D js S \<longleftrightarrow> (\<forall>i<length js. ls_sessions S ! i = Ended Refused \<longrightarrow> (\<exists>r\<in>set (plan (js ! i)). r \<in> D
     \<or> entry r \<and> (\<exists>j<length js. j \<noteq> i \<and> ls_sessions S ! j = Ended Committed \<and> r \<in> set (plan (js ! j)))))"

definition server_inv :: "'r set \<Rightarrow> 'j list \<Rightarrow> 'r lock_server \<Rightarrow> bool" where
  "server_inv D js S \<longleftrightarrow> length (ls_sessions S) = length js \<and> ls_entries S = D \<union> added js S
     \<and> plans_inv js S \<and> held_inv js S \<and> once_inv D js S \<and> refused_inv D js S"

lemma server_inv_start: "server_inv D js (start plan D js)"
  by (auto simp: server_inv_def start_def added_def plans_inv_def held_inv_def once_inv_def refused_inv_def)

lemma addedI:
  "j < length js \<Longrightarrow> ls_sessions S ! j = Ended Committed \<Longrightarrow> r \<in> set (plan (js ! j)) \<Longrightarrow> entry r \<Longrightarrow> r \<in> added js S"
  unfolding added_def by blast

lemma added_update:
  assumes "i < length js" and "length (ls_sessions S) = length js" and "ls_sessions S ! i = Running todo h"
    and "ls_sessions S' = (ls_sessions S)[i := x]"
  shows "added js S' = added js S \<union> (if x = Ended Committed then {r \<in> set (plan (js ! i)). entry r} else {})"
proof -
  have s: "ls_sessions S' ! k = (if k = i then x else ls_sessions S ! k)" if "k < length js" for k
    using assms that by (simp add: nth_list_update)
  have "ls_sessions S ! i \<noteq> Ended Committed" using assms(3) by simp
  then show ?thesis using assms(1) s unfolding added_def by (auto split: if_splits) (metis+)?
qed

text \<open>A step of session \<open>i\<close> that ends or goes on.\<close>

lemma session_update:
  "ls_sessions S' = (ls_sessions S)[i := x] \<Longrightarrow> length (ls_sessions S) = n \<Longrightarrow> k < n \<Longrightarrow>
     ls_sessions S' ! k = (if k = i then x else ls_sessions S ! k)"
  by (auto simp: nth_list_update)

lemma plans_inv_update:
  assumes "plans_inv js S" and "ls_sessions S' = (ls_sessions S)[i := x]" and "length (ls_sessions S) = length js"
    and "\<And>todo h. i < length js \<Longrightarrow> x = Running todo h \<Longrightarrow> h @ todo = plan (js ! i)"
  shows "plans_inv js S'"
  unfolding plans_inv_def
proof (intro allI impI)
  fix k todo h assume k: "k < length js" "ls_sessions S' ! k = Running todo h"
  show "h @ todo = plan (js ! k)"
  proof (cases "k = i")
    case True
    then show ?thesis using assms(4) k session_update [OF assms(2,3) k(1)] by simp
  next
    case False
    then show ?thesis using assms(1) k session_update [OF assms(2,3) k(1)] by (simp add: plans_inv_def)
  qed
qed

lemma held_invI:
  "(\<And>k r. k < length js \<Longrightarrow> r \<in> set (held (ls_sessions S ! k)) \<Longrightarrow> r \<notin> ls_entries S) \<Longrightarrow>
   (\<And>k j r. k < length js \<Longrightarrow> j < length js \<Longrightarrow> j \<noteq> k \<Longrightarrow> r \<in> set (held (ls_sessions S ! k)) \<Longrightarrow>
      r \<notin> set (held (ls_sessions S ! j))) \<Longrightarrow> held_inv js S"
  unfolding held_inv_def by blast

lemma held_invD:
  assumes "held_inv js S" and "k < length js" and "r \<in> set (held (ls_sessions S ! k))"
  shows "r \<notin> ls_entries S" and "j < length js \<Longrightarrow> j \<noteq> k \<Longrightarrow> r \<notin> set (held (ls_sessions S ! j))"
  using assms unfolding held_inv_def by blast+

lemma held_inv_end:
  assumes inv: "held_inv js S" and upd: "ls_sessions S' = (ls_sessions S)[i := Ended e]" "length (ls_sessions S) = length js"
    and ent: "\<And>r. r \<in> ls_entries S' \<Longrightarrow> r \<in> ls_entries S \<or> r \<in> set (held (ls_sessions S ! i))" and i: "i < length js"
  shows "held_inv js S'"
proof (rule held_invI)
  note s = session_update [OF upd]
  show "r \<notin> ls_entries S'" if "k < length js" "r \<in> set (held (ls_sessions S' ! k))" for k r
  proof -
    have "k \<noteq> i" "r \<in> set (held (ls_sessions S ! k))" using that s by (auto split: if_splits)
    with held_invD [OF inv that(1)] ent i show ?thesis by metis
  qed
  show "r \<notin> set (held (ls_sessions S' ! j))"
    if "k < length js" "j < length js" "j \<noteq> k" "r \<in> set (held (ls_sessions S' ! k))" for k j r
    using held_invD(2) [OF inv that(1) _ that(2,3)] that s by (auto split: if_splits)
qed

lemma held_inv_grant:
  assumes inv: "held_inv js S" and upd: "ls_sessions S' = (ls_sessions S)[i := Running rs (h @ [r])]" "length (ls_sessions S) = length js"
    and run: "ls_sessions S ! i = Running (r # rs) h" and ent: "ls_entries S' = ls_entries S"
    and free: "\<forall>s\<in>set (ls_sessions S). r \<notin> set (held s)" "r \<notin> ls_entries S"
  shows "held_inv js S'"
proof (rule held_invI)
  have new: "set (held (ls_sessions S' ! k)) = set (held (ls_sessions S ! k)) \<union> (if k = i then {r} else {})" if "k < length js" for k
    using session_update [OF upd that] run by simp
  have none: "r \<notin> set (held (ls_sessions S ! k))" if "k < length js" for k using free(1) that upd(2) by (metis nth_mem)
  show "x \<notin> ls_entries S'" if "k < length js" "x \<in> set (held (ls_sessions S' ! k))" for k x
    using held_invD(1) [OF inv that(1), of x] that new free(2) ent by (auto split: if_splits)
  show "x \<notin> set (held (ls_sessions S' ! j))"
    if "k < length js" "j < length js" "j \<noteq> k" "x \<in> set (held (ls_sessions S' ! k))" for k j x
    using held_invD(2) [OF inv that(1) _ that(2,3), of x] that new none by (auto split: if_splits)
qed

lemma once_inv_update:
  assumes inv: "once_inv D js S" and upd: "ls_sessions S' = (ls_sessions S)[i := x]" "length (ls_sessions S) = length js"
    and new: "x = Ended Committed \<Longrightarrow> \<forall>r\<in>set (plan (js ! i)). entry r \<longrightarrow> r \<notin> D \<union> added js S"
  shows "once_inv D js S'"
  unfolding once_inv_def
proof (intro allI impI ballI)
  note s = session_update [OF upd]
  fix k r assume k: "k < length js" "ls_sessions S' ! k = Ended Committed" and r: "r \<in> set (plan (js ! k))" "entry r"
  have other: "r \<notin> set (plan (js ! j))" if j: "j < length js" "j \<noteq> k" "ls_sessions S' ! j = Ended Committed" for j
  proof (cases "k = i")
    case True
    then have "x = Ended Committed" "ls_sessions S ! j = Ended Committed" using s [OF k(1)] s [OF j(1)] k(2) j by simp_all
    then show ?thesis using new True r addedI [OF j(1), of S r] by blast
  next
    case False
    then have sk: "ls_sessions S ! k = Ended Committed" using s [OF k(1)] k(2) by simp
    show ?thesis
    proof (cases "j = i")
      case True
      then have "x = Ended Committed" using s [OF j(1)] j(3) by simp
      then show ?thesis using new True r addedI [OF k(1) sk r] by blast
    next
      case False
      then have "ls_sessions S ! j = Ended Committed" using s [OF j(1)] j(3) by simp
      then show ?thesis using inv sk k(1) r j(1,2) unfolding once_inv_def by blast
    qed
  qed
  moreover have "r \<notin> D"
    using s [OF k(1)] k r new inv unfolding once_inv_def by (cases "k = i") auto
  ultimately show "r \<notin> D \<and> (\<forall>j<length js. j \<noteq> k \<longrightarrow> ls_sessions S' ! j = Ended Committed \<longrightarrow> r \<notin> set (plan (js ! j)))"
    by blast
qed

lemma refused_inv_update:
  assumes "refused_inv D js S" and "ls_sessions S' = (ls_sessions S)[i := x]" and "length (ls_sessions S) = length js"
    and run: "ls_sessions S ! i = Running todo h"
    and "x = Ended Refused \<Longrightarrow> \<exists>r\<in>set (plan (js ! i)). r \<in> D \<union> added js S"
  shows "refused_inv D js S'"
  unfolding refused_inv_def
proof (intro allI impI)
  note s = session_update [OF assms(2,3)]
  have keep: "ls_sessions S' ! j = Ended Committed" if "ls_sessions S ! j = Ended Committed" "j < length js" for j
    using run that s by (cases "j = i") auto
  have ne: "ls_sessions S ! i \<noteq> Ended Committed" using run by simp
  fix k assume k: "k < length js" "ls_sessions S' ! k = Ended Refused"
  have "\<exists>r\<in>set (plan (js ! k)). r \<in> D
      \<or> entry r \<and> (\<exists>j<length js. j \<noteq> k \<and> ls_sessions S ! j = Ended Committed \<and> r \<in> set (plan (js ! j)))"
  proof (cases "k = i")
    case True
    with k assms(5) s have "\<exists>r\<in>set (plan (js ! i)). r \<in> D \<union> added js S" by simp
    with ne True show ?thesis unfolding added_def by blast
  next
    case False
    with k s assms(1) show ?thesis unfolding refused_inv_def by auto
  qed
  with keep show "\<exists>r\<in>set (plan (js ! k)). r \<in> D
      \<or> entry r \<and> (\<exists>j<length js. j \<noteq> k \<and> ls_sessions S' ! j = Ended Committed \<and> r \<in> set (plan (js ! j)))"
    by blast
qed

lemma server_inv_grant:
  assumes inv: "server_inv D js S" and i: "i < length (ls_sessions S)" "ls_sessions S ! i = Running (r # rs) h"
    and free: "\<forall>s\<in>set (ls_sessions S). r \<notin> set (held s)" "r \<notin> ls_entries S"
  shows "server_inv D js (S\<lparr>ls_sessions := (ls_sessions S)[i := Running rs (h @ [r])]\<rparr>)"
proof -
  let ?S' = "S\<lparr>ls_sessions := (ls_sessions S)[i := Running rs (h @ [r])]\<rparr>"
  have l: "length (ls_sessions S) = length js" using inv by (simp add: server_inv_def)
  have plan: "h @ r # rs = plan (js ! i)" using inv i l by (simp add: server_inv_def plans_inv_def)
  have s': "ls_sessions ?S' = (ls_sessions S)[i := Running rs (h @ [r])]" by simp
  have "plans_inv js ?S'" by (rule plans_inv_update [OF _ s' l]) (use inv plan in \<open>auto simp: server_inv_def\<close>)
  moreover have "held_inv js ?S'" by (rule held_inv_grant [OF _ s' l i(2) _ free]) (use inv i l in \<open>simp_all add: server_inv_def\<close>)
  moreover have "once_inv D js ?S'" by (rule once_inv_update [OF _ s' l]) (use inv in \<open>simp_all add: server_inv_def\<close>)
  moreover have "refused_inv D js ?S'" by (rule refused_inv_update [OF _ s' l i(2)]) (use inv in \<open>simp_all add: server_inv_def\<close>)
  ultimately show ?thesis
    using inv added_update [OF _ l i(2) s'] i l by (simp add: server_inv_def)
qed

lemma server_inv_end:
  assumes inv: "server_inv D js S" and i: "i < length (ls_sessions S)" "ls_sessions S ! i = Running todo h"
    and E: "e = Committed \<and> todo = [] \<and> X = {r \<in> set h. entry r} \<or> e \<noteq> Committed \<and> X = {}"
    and ref: "e = Refused \<Longrightarrow> \<exists>r\<in>set todo. r \<in> ls_entries S"
  shows "server_inv D js (end_session i e X S)"
proof -
  let ?S' = "end_session i e X S"
  have l: "length (ls_sessions S) = length js" and ent: "ls_entries S = D \<union> added js S"
    using inv by (simp_all add: server_inv_def)
  have plan: "h @ todo = plan (js ! i)" using inv i l by (simp add: server_inv_def plans_inv_def)
  have s': "ls_sessions ?S' = (ls_sessions S)[i := Ended e]" by (simp add: end_session_def)
  have hold: "\<forall>r\<in>set h. r \<notin> D \<union> added js S" using inv i l ent by (auto simp: server_inv_def held_inv_def)
  have "plans_inv js ?S'" by (rule plans_inv_update [OF _ s' l]) (use inv in \<open>auto simp: server_inv_def\<close>)
  moreover have "held_inv js ?S'"
    by (rule held_inv_end [OF _ s' l]) (use inv i l E in \<open>auto simp: server_inv_def end_session_def\<close>)
  moreover have "once_inv D js ?S'"
    by (rule once_inv_update [OF _ s' l]) (use inv E plan hold in \<open>auto simp: server_inv_def\<close>)
  moreover have "refused_inv D js ?S'"
  proof (rule refused_inv_update [OF _ s' l i(2)])
    show "\<exists>r\<in>set (plan (js ! i)). r \<in> D \<union> added js S" if "Ended e = Ended Refused"
      using ref that ent unfolding plan [symmetric] by auto
  qed (use inv in \<open>simp add: server_inv_def\<close>)
  ultimately show ?thesis
    using added_update [OF _ l i(2) s'] i l ent E plan by (auto simp: server_inv_def end_session_def)
qed

lemma server_inv_advance: "advance entry S S' \<Longrightarrow> server_inv D js S \<Longrightarrow> server_inv D js S'"
proof (elim advanceE, goal_cases)
  case (1 i r rs h)
  then show ?case using server_inv_grant by blast
next
  case (2 i r rs h)
  then show ?case using server_inv_end [of D js S i "r # rs" h Refused "{}"] by simp
next
  case (3 i h)
  then show ?case using server_inv_end [of D js S i "[]" h Committed "{r \<in> set h. entry r}"] by simp
qed

lemma server_inv_step: "lock_step entry S S' \<Longrightarrow> server_inv D js S \<Longrightarrow> server_inv D js S'"
proof (elim lock_stepE, goal_cases)
  case 1
  then show ?case using server_inv_advance by blast
next
  case (2 i rs h)
  then show ?case using server_inv_end [of D js S i rs h Failed "{}"] by simp
qed

lemma server_inv_reach: "(lock_step entry ^^ n) (start plan D js) S \<Longrightarrow> server_inv D js S"
proof (induction n arbitrary: S)
  case 0
  then show ?case using server_inv_start by auto
next
  case (Suc n)
  then show ?case using server_inv_step by (metis relpowp_Suc_E)
qed

lemma server_inv_locks: "server_inv D js S \<Longrightarrow> list_all valid js \<Longrightarrow> locks_inv (ls_sessions S)"
  using ascends by (auto simp: locks_inv_def list_all_length server_inv_def plans_inv_def)

text \<open>The session that holds the greatest resource finds all it still needs free.\<close>

lemma unblocked:
  assumes inv: "locks_inv ss" and live: "s \<in> set ss" "\<not> ended s"
  shows "\<exists>i<length ss. \<exists>todo h. ss ! i = Running todo h \<and> (\<forall>s\<in>set ss. set todo \<inter> set (held s) = {})"
proof -
  define H where "H = (\<Union>s\<in>set ss. set (held s))"
  have "\<exists>i<length ss. \<exists>todo h. ss ! i = Running todo h \<and> (\<forall>x\<in>H. \<exists>y\<in>set h. x \<le> y)"
  proof (cases "H = {}")
    case True
    obtain todo h where "s = Running todo h" using live(2) by (cases s rule: ended.cases) auto
    with live True show ?thesis by (metis empty_iff in_set_conv_nth)
  next
    case False
    have f: "finite H" by (simp add: H_def)
    then have "Max H \<in> H" using False by simp
    then obtain s' where "s' \<in> set ss" "Max H \<in> set (held s')" by (auto simp: H_def)
    then obtain i where i: "i < length ss" "Max H \<in> set (held (ss ! i))" by (metis in_set_conv_nth)
    then obtain todo h where "ss ! i = Running todo h" by (cases "ss ! i") auto
    with i f show ?thesis by (intro exI [of _ i]) (auto intro!: bexI [of _ "Max H"])
  qed
  then obtain i todo h where i: "i < length ss" "ss ! i = Running todo h" and top: "\<forall>x\<in>H. \<exists>y\<in>set h. x \<le> y"
    by blast
  have "r \<notin> H" if "r \<in> set todo" for r
  proof
    assume "r \<in> H"
    with top obtain y where "y \<in> set h" "r \<le> y" by blast
    moreover have "y < r" if "y \<in> set h" for y
      using inv i \<open>r \<in> set todo\<close> that by (auto simp: locks_inv_def sorted_wrt_append)
    ultimately show False by fastforce
  qed
  then have "\<forall>s\<in>set ss. set todo \<inter> set (held s) = {}" by (auto simp: H_def)
  with i show ?thesis by blast
qed

lemma progress:
  assumes "locks_inv (ls_sessions S)" and "s \<in> set (ls_sessions S)" "\<not> ended s"
  shows "\<exists>S'. advance entry S S'"
proof -
  from unblocked [OF assms] obtain i todo h where i: "i < length (ls_sessions S)" "ls_sessions S ! i = Running todo h"
    and free: "\<forall>s\<in>set (ls_sessions S). set todo \<inter> set (held s) = {}" by blast
  show ?thesis
  proof (cases todo)
    case Nil
    then show ?thesis using advance.commit [OF i(1)] i(2) by blast
  next
    case (Cons r rs)
    then have "\<forall>s\<in>set (ls_sessions S). r \<notin> set (held s)" using free by auto
    then show ?thesis using advance.grant [OF i(1)] advance.refuse [OF i(1)] i(2) Cons by blast
  qed
qed

lemma advance_fails_none:
  "advance entry S S' \<Longrightarrow> ls_sessions S' ! i = Ended Failed \<Longrightarrow> ls_sessions S ! i = Ended Failed"
  by (elim advanceE) (auto simp: end_session_def nth_list_update split: if_splits)

lemma completes:
  assumes "server_inv D js S" and "list_all valid js"
  shows "\<exists>S'. (advance entry)\<^sup>*\<^sup>* S S' \<and> list_all ended (ls_sessions S') \<and> server_inv D js S'
    \<and> (\<forall>i. ls_sessions S' ! i = Ended Failed \<longrightarrow> ls_sessions S ! i = Ended Failed)"
  using assms(1)
proof (induction "to_do S" arbitrary: S rule: less_induct)
  case less
  show ?case
  proof (cases "list_all ended (ls_sessions S)")
    case True
    with less.prems show ?thesis by blast
  next
    case False
    then obtain S1 where st: "advance entry S S1"
      using progress [OF server_inv_locks [OF less.prems assms(2)]] by (auto simp: list_all_iff)
    from less.hyps [OF lock_step_remaining [OF lock_step.advances [OF st]] server_inv_advance [OF st less.prems]]
    obtain S' where "(advance entry)\<^sup>*\<^sup>* S1 S'" "list_all ended (ls_sessions S')" "server_inv D js S'"
      "\<forall>i. ls_sessions S' ! i = Ended Failed \<longrightarrow> ls_sessions S1 ! i = Ended Failed" by blast
    with st advance_fails_none [OF st] show ?thesis by (meson converse_rtranclp_into_rtranclp)
  qed
qed

end

fun index_entry :: "resource \<Rightarrow> bool" where
  "index_entry (Account_Row a) \<longleftrightarrow> False"
| "index_entry r \<longleftrightarrow> True"

text \<open>The entries of the transactions in the tables.\<close>

definition table_entries :: "tables \<Rightarrow> resource set" where
  "table_entries w = (\<Union>t\<in>set (transactions w). {Id_Entry (t_ID t), Key_Entry (t_IdempotencyKey t)})"

lemma lock_plan_ascends: "validated j \<Longrightarrow> sorted_wrt (<) (lock_plan j)"
  by (cases j) (auto simp: balance_ops_def Let_def)

interpretation row_locks: ordered_locks lock_plan validated index_entry
  by unfold_locales (rule lock_plan_ascends)

lemma remaining_start: "to_do (start lock_plan D js) \<le> 5 * length js"
proof (induction js)
  case (Cons j js)
  then show ?case by (cases j) (auto simp: start_def to_do_def balance_ops_def Let_def)
qed (simp add: start_def to_do_def)

text \<open>Two transactions that cannot both be in the table.\<close>

definition clash :: "transaction \<Rightarrow> transaction \<Rightarrow> bool" where
  "clash t t' \<longleftrightarrow> t_ID t = t_ID t' \<or> t_IdempotencyKey t = t_IdempotencyKey t'"

text \<open>The committed transfers clash neither with the tables nor with each other; only transfers are refused,
  and only for a clash with the tables or with another transfer that committed.\<close>

definition fair_outcome :: "tables \<Rightarrow> job list \<Rightarrow> resource lock_server \<Rightarrow> bool" where
  "fair_outcome w js S \<longleftrightarrow>
     (\<forall>i<length js. \<forall>t. js ! i = Transfer_Job t \<and> ls_sessions S ! i = Ended Committed \<longrightarrow>
        (\<forall>u\<in>set (transactions w). \<not> clash u t)
        \<and> (\<forall>j<length js. \<forall>u. j \<noteq> i \<and> js ! j = Transfer_Job u \<and> ls_sessions S ! j = Ended Committed \<longrightarrow> \<not> clash u t))
   \<and> (\<forall>i<length js. ls_sessions S ! i = Ended Refused \<longrightarrow> (\<exists>t. js ! i = Transfer_Job t
        \<and> ((\<exists>u\<in>set (transactions w). clash u t)
           \<or> (\<exists>j<length js. \<exists>u. j \<noteq> i \<and> js ! j = Transfer_Job u \<and> ls_sessions S ! j = Ended Committed \<and> clash u t))))"

lemma entry_in_plan: "index_entry r \<Longrightarrow> r \<in> set (lock_plan j) \<longleftrightarrow>
    (\<exists>t. j = Transfer_Job t \<and> (r = Id_Entry (t_ID t) \<or> r = Key_Entry (t_IdempotencyKey t)))"
  by (cases j; cases r) (auto simp: balance_ops_def)

lemma clash_plans: "clash u t \<longleftrightarrow> (\<exists>r. index_entry r \<and> r \<in> set (lock_plan (Transfer_Job u)) \<and> r \<in> set (lock_plan (Transfer_Job t)))"
proof
  assume "clash u t"
  then show "\<exists>r. index_entry r \<and> r \<in> set (lock_plan (Transfer_Job u)) \<and> r \<in> set (lock_plan (Transfer_Job t))"
    unfolding clash_def
    by (elim disjE) (rule exI [of _ "Id_Entry (t_ID t)"], simp, rule exI [of _ "Key_Entry (t_IdempotencyKey t)"], simp)
next
  assume "\<exists>r. index_entry r \<and> r \<in> set (lock_plan (Transfer_Job u)) \<and> r \<in> set (lock_plan (Transfer_Job t))"
  then obtain r where "index_entry r" "r \<in> set (lock_plan (Transfer_Job u))" "r \<in> set (lock_plan (Transfer_Job t))" by blast
  then show "clash u t" by (auto simp: entry_in_plan clash_def)
qed

lemma table_entries_plans:
  "r \<in> table_entries w \<longleftrightarrow> index_entry r \<and> (\<exists>u\<in>set (transactions w). r \<in> set (lock_plan (Transfer_Job u)))"
  by (auto simp: table_entries_def entry_in_plan)

lemma clash_table: "(\<exists>u\<in>set (transactions w). clash u t) \<longleftrightarrow> (\<exists>r\<in>set (lock_plan (Transfer_Job t)). r \<in> table_entries w)"
  unfolding clash_plans table_entries_plans by blast

lemma server_fair:
  assumes "row_locks.server_inv (table_entries w) js S"
  shows "fair_outcome w js S"
  unfolding fair_outcome_def
proof (intro conjI allI impI, goal_cases)
  case (1 i t)
  then have "r \<notin> table_entries w" if "r \<in> set (lock_plan (Transfer_Job t))" "index_entry r" for r
    using assms that unfolding row_locks.server_inv_def row_locks.once_inv_def by fastforce
  moreover have "r \<in> table_entries w \<Longrightarrow> index_entry r" for r by (auto simp: table_entries_def)
  ultimately show ?case using clash_table by blast
next
  case (2 i t j u)
  then have "r \<notin> set (lock_plan (Transfer_Job u))" if "r \<in> set (lock_plan (Transfer_Job t))" "index_entry r" for r
    using assms that unfolding row_locks.server_inv_def row_locks.once_inv_def by metis
  then show ?case using clash_plans by blast
next
  case (3 i)
  then obtain r where r: "r \<in> set (lock_plan (js ! i))" "r \<in> table_entries w \<or> index_entry r
      \<and> (\<exists>j<length js. j \<noteq> i \<and> ls_sessions S ! j = Ended Committed \<and> r \<in> set (lock_plan (js ! j)))"
    using assms unfolding row_locks.server_inv_def row_locks.refused_inv_def by blast
  have e: "index_entry r" using r(2) by (auto simp: table_entries_def)
  then obtain t where t: "js ! i = Transfer_Job t" using r(1) entry_in_plan by blast
  from r(2) show ?case
  proof
    assume "r \<in> table_entries w"
    then have "\<exists>u\<in>set (transactions w). clash u t" unfolding clash_table using r(1) [unfolded t] by blast
    with t show ?thesis by blast
  next
    assume "index_entry r \<and> (\<exists>j<length js. j \<noteq> i \<and> ls_sessions S ! j = Ended Committed \<and> r \<in> set (lock_plan (js ! j)))"
    then obtain j where j: "j < length js" "j \<noteq> i" "ls_sessions S ! j = Ended Committed" "r \<in> set (lock_plan (js ! j))" by blast
    then obtain u where u: "js ! j = Transfer_Job u" using e entry_in_plan by blast
    have "clash u t"
      unfolding clash_plans by (rule exI [of _ r]) (use e r(1) [unfolded t] j(4) [unfolded u] in blast)
    with j t u show ?thesis by blast
  qed
qed

lemma fair_once:
  "fair_outcome w js S \<Longrightarrow> i < length js \<Longrightarrow> j < length js \<Longrightarrow> j \<noteq> i \<Longrightarrow> js ! i = Transfer_Job t \<Longrightarrow> js ! j = Transfer_Job u \<Longrightarrow>
     clash u t \<Longrightarrow> \<not> (ls_sessions S ! i = Ended Committed \<and> ls_sessions S ! j = Ended Committed)"
  unfolding fair_outcome_def by blast

text \<open>Without the order two opposite transfers can wait for each other.\<close>

lemma unordered_deadlock:
  assumes "a \<noteq> b"
  shows "\<nexists>S'. advance index_entry \<lparr>ls_sessions = [Running [Account_Row b] [Account_Row a], Running [Account_Row a] [Account_Row b]],
    ls_entries = table_entries w\<rparr> S'"
  using assms by (auto elim!: advanceE simp: less_Suc_eq nth_Cons' table_entries_def)

section \<open>Theorems\<close>


text \<open>Two opposite transfers, a repetition of the first one under a new id, and a correction.\<close>

definition sample_jobs :: "job list" where
  "sample_jobs = [Transfer_Job (new_transaction 13 7 sample_request),
     Transfer_Job (new_transaction 14 7 (sample_request\<lparr>req_IdempotencyKey := 24, req_FromAccountID := 1, req_ToAccountID := 2\<rparr>)),
     Transfer_Job (new_transaction 15 7 sample_request), Correction_Job 1]"


text \<open>Both directions of a pair of accounts lock the rows in one order, the smaller id first, whichever account is
  debited, and \<^verbatim>\<open>Transaction\<close> debits the sender and credits the receiver exactly once.\<close>

lemma balance_ops_order:
  assumes "a \<noteq> b"
  shows "map accountID (balance_ops a b) = map accountID (balance_ops b a) \<and> map accountID (balance_ops a b) = [min a b, max a b]
    \<and> mset (balance_ops a b) = {#\<lparr>accountID = a, isDebit = True\<rparr>, \<lparr>accountID = b, isDebit = False\<rparr>#}"
  using assms by (auto simp: balance_ops_def Let_def min_def max_def)

end
