(* ===== verification/Interleaving.thy ===== *)
theory Interleaving
  imports Transfer_Session Ledger_System Locking
begin

text \<open>
  Many calls of \<open>Transaction\<close> at once, interleaved between any two calls of a repository. A session is
  one of them: its request, the stage it has reached, the locks PostgreSQL holds for it until it ends. A
  statement that must wait for another session's lock is not executed before that session ends. The
  invariant \<open>inter_ok\<close> says what each session may rely on while others run: its rows and index
  entries stay as it found them, its posting ids are nobody else's, and the function that its
  transaction will apply at commit is the part of the transfer it has done so far.
\<close>

section \<open>Open transactions as functions\<close>

lemma tx_Exec_Active:
  assumes "tx_Exec n f s = (Inr a, t)" and "open_txs s n = Some (Active u)"
  obtains eff where "f (postings_id_seq s) (pg_now s) (u (committed s)) = (Inr (a, eff), postings_id_seq t)"
    and "open_txs t n = Some (Active (eff \<circ> u))"
  using assms
  by (cases "faults s") (auto simp: pg_defs split: fault.splits prod.splits sum.splits)

lemma CreateTransaction_Active:
  "CreateTransaction (Pg_Tx n) x s = (Inr y, t) \<Longrightarrow> open_txs s n = Some (Active u) \<Longrightarrow>
   open_txs t n = Some (Active (add_transaction x \<circ> u))"
  by (auto simp: CreateTransaction_def insert_transaction_def split: if_splits
      elim!: on_error_cases tx_Exec_Active)

lemma CreatePostings_Active:
  assumes "CreatePostings (Pg_Tx n) ps s = (Inr ids, t)" and "open_txs s n = Some (Active u)"
    and len: "length ps = 1 \<or> length ps = 2"
  shows "open_txs t n = Some (Active (add_postings (number_postings (postings_id_seq s) ps) \<circ> u))"
proof -
  obtain rows v where x: "tx_Exec n (insert_postings ps) s = (Inr rows, v)"
    and y: "rows_Err (Tx n) v = (Inr (), t)"
    using assms(1) unfolding CreatePostings_def with_cast_Pg if_P [OF len]
    by (auto elim!: on_error_cases bind_r_cases)
  from x assms(2) have "open_txs v n = Some (Active (add_postings (number_postings (postings_id_seq s) ps) \<circ> u))"
    by (auto simp: insert_postings_def Let_def split: if_splits elim!: tx_Exec_Active)
  then show ?thesis using rows_Err_Inr [OF y] by simp
qed

definition op_amount :: "transaction \<Rightarrow> balanceOp \<Rightarrow> int" where
  "op_amount trx op = (if isDebit op then - t_Amount trx else t_Amount trx)"

definition op_row :: "transaction \<Rightarrow> int \<Rightarrow> time \<Rightarrow> balanceOp \<Rightarrow> tables \<Rightarrow> tables" where
  "op_row trx q now op =
     upd_row (accountID op) (move_row (op_amount trx op) (if isDebit op then q + 1 else q + 2) now)"

text \<open>The balance that an executed statement leaves in the row is in range.\<close>

definition op_ok :: "transaction \<Rightarrow> tables \<Rightarrow> balanceOp \<Rightarrow> bool" where
  "op_ok trx w op \<longleftrightarrow> (\<exists>r. accounts w (accountID op) = Some r \<and> (isDebit op \<longrightarrow> t_Amount trx \<le> acc_Balance r)
     \<and> 0 \<le> acc_Balance r + op_amount trx op \<and> bigint (acc_Balance r + op_amount trx op))"

lemma balance_call_Active:
  assumes "balance_call (Pg_Tx n) (t_Amount trx) ids op s = (Inr y, t)" and "open_txs s n = Some (Active u)"
    and "ids (accountID op) = Some (if isDebit op then q + 1 else q + 2)"
  shows "open_txs t n = Some (Active (op_row trx q (pg_now s) op \<circ> u))"
    and "op_ok trx (u (committed s)) op" and "postings_id_seq t = postings_id_seq s"
  using assms
  by (auto simp: Let_def balance_call_def DebitBalance_def CreditBalance_def update_account_def op_row_def op_amount_def op_ok_def
      split: if_splits option.splits elim!: on_error_cases bind_r_cases tx_Exec_Active)

lemma balance_call_frame: "balance_call (Pg_Tx n) a ids op s = (r, t) \<Longrightarrow> tx_frame n s t"
  by (auto simp: balance_call_def Let_def split: if_splits dest: repo_frames)

text \<open>What a session has done to the tables when it has executed the statements \<open>dn\<close> on the balances.\<close>

definition pending :: "transaction \<Rightarrow> int \<Rightarrow> time \<Rightarrow> balanceOp list \<Rightarrow> tables \<Rightarrow> tables" where
  "pending trx q now dn = fold (op_row trx q now) dn \<circ> add_postings (number_postings q (transfer_postings trx)) \<circ> add_transaction trx"

lemma pending_Nil: "pending trx q now [] = add_postings (number_postings q (transfer_postings trx)) \<circ> add_transaction trx"
  by (simp add: pending_def)

lemma pending_snoc: "op_row trx q now op \<circ> pending trx q now dn = pending trx q now (dn @ [op])"
  by (simp add: pending_def fun_eq_iff)

lemma accounts_op_rows: "a \<notin> accountID ` set dn \<Longrightarrow> accounts (fold (op_row trx q now) dn w) a = accounts w a"
  by (induction dn arbitrary: w) (auto simp: op_row_def accounts_upd_row)

lemma accounts_pending: "a \<notin> accountID ` set dn \<Longrightarrow> accounts (pending trx q now dn w) a = accounts w a"
  by (simp add: pending_def accounts_op_rows)

lemma pending_all:
  assumes "t_FromAccountID trx \<noteq> t_ToAccountID trx"
  shows "pending trx q now (balance_ops (t_FromAccountID trx) (t_ToAccountID trx)) = transfer_tables trx q now"
  using assms
  by (auto simp: pending_def transfer_tables_def balance_ops_def Let_def op_row_def op_amount_def fun_eq_iff upd_row_commute)

section \<open>Sessions\<close>

record transfer_session =
  s_req :: transaction_request
  s_began :: time
  s_stage :: stage
  s_held :: "resource list"

text \<open>What the next call of a session must lock. An UPDATE locks the row it matches and an INSERT the
  entries of the unique indexes; a statement that matches no row, or finds its id or key committed,
  waits for nobody.\<close>

definition matches :: "transaction \<Rightarrow> tables \<Rightarrow> balanceOp \<Rightarrow> bool" where
  "matches trx w op = (case accounts w (accountID op) of
     None \<Rightarrow> False
   | Some r \<Rightarrow> isDebit op \<longrightarrow> t_Amount trx \<le> acc_Balance r)"

fun needs :: "stage \<Rightarrow> tables \<Rightarrow> resource list" where
  "needs (Inserting tx trx) w =
     (if \<exists>t'\<in>set (transactions w). t_ID t' = t_ID trx \<or> t_IdempotencyKey t' = t_IdempotencyKey trx then []
      else [Id_Entry (t_ID trx), Key_Entry (t_IdempotencyKey trx)])"
| "needs (Moving tx trx ids (op # ops)) w =
     (if matches trx w op then [Account_Row (accountID op)] else [])"
| "needs st w = []"

fun answered :: "stage \<Rightarrow> bool" where
  "answered (Answered x) \<longleftrightarrow> True"
| "answered st \<longleftrightarrow> False"

definition took :: "tables \<Rightarrow> stage \<Rightarrow> transfer_session \<Rightarrow> transfer_session" where
  "took w st s = s\<lparr>s_stage := st, s_held := (if answered st then [] else s_held s @ needs (s_stage s) w)\<rparr>"

definition arrival :: "transaction_request \<Rightarrow> time \<Rightarrow> transfer_session" where
  "arrival req now = \<lparr>s_req = req, s_began = now, s_stage = Arrived req, s_held = []\<rparr>"

text \<open>One request more, or one call of one session that no other session blocks.\<close>

inductive inter_step ::
  "transfer_uc \<Rightarrow> ext \<Rightarrow> 'r redis \<Rightarrow> 'r world \<times> transfer_session list \<Rightarrow> 'r world \<times> transfer_session list \<Rightarrow> bool" for uc E R where
  arrives: "bigint (req_Amount req) \<Longrightarrow> inter_step uc E R (W, ss) (W, ss @ [arrival req now])"
| calls: "i < length ss \<Longrightarrow> \<not> answered (s_stage (ss ! i)) \<Longrightarrow>
     \<forall>j<length ss. j \<noteq> i \<longrightarrow> set (needs (s_stage (ss ! i)) (committed (db W))) \<inter> set (s_held (ss ! j)) = {} \<Longrightarrow>
     session_call uc E R ff (s_stage (ss ! i)) (at_call us t (s_began (ss ! i)) fs W) = (st', W') \<Longrightarrow>
     inter_step uc E R (W, ss) (W', ss[i := took (committed (db W)) st' (ss ! i)])"

inductive_cases inter_stepE: "inter_step uc E R (W, ss) (W', ss')"

section \<open>What holds of a session\<close>

definition cleared :: "transaction_request \<Rightarrow> tables \<Rightarrow> bool" where
  "cleared req w \<longleftrightarrow> validateRequest req = Inr () \<and> bigint (req_Amount req)
     \<and> (\<exists>rf rt. accounts w (req_FromAccountID req) = Some rf \<and> acc_Currency rf = req_Currency req
          \<and> accounts w (req_ToAccountID req) = Some rt \<and> acc_Currency rt = req_Currency req)"

definition carries :: "transaction_request \<Rightarrow> transaction \<Rightarrow> bool" where
  "carries req trx \<longleftrightarrow> (\<exists>u now. trx = new_transaction u now req)"

text \<open>The transfer's id and key are in the hands of the session, and not in the tables.\<close>

definition claimed :: "resource set \<Rightarrow> transaction \<Rightarrow> tables \<Rightarrow> bool" where
  "claimed H trx w \<longleftrightarrow> Id_Entry (t_ID trx) \<in> H \<and> Key_Entry (t_IdempotencyKey trx) \<in> H
     \<and> (\<forall>t'\<in>set (transactions w). t_ID t' \<noteq> t_ID trx \<and> t_IdempotencyKey t' \<noteq> t_IdempotencyKey trx)"

text \<open>Some of the two balances are moved, in rows the session has locked.\<close>

definition part_moved :: "pg \<Rightarrow> resource set \<Rightarrow> transaction \<Rightarrow> int \<Rightarrow> balanceOp list \<Rightarrow> bool" where
  "part_moved d H trx q dn \<longleftrightarrow> claimed H trx (committed d) \<and> unused_ids (postings_id_seq d) q (committed d)
     \<and> (\<forall>op\<in>set dn. Account_Row (accountID op) \<in> H \<and> op_ok trx (committed d) op)"

definition transfer_ids :: "transaction \<Rightarrow> int \<Rightarrow> (uuid \<rightharpoonup> int)" where
  "transfer_ids trx q = [t_FromAccountID trx \<mapsto> q + 1, t_ToAccountID trx \<mapsto> q + 2]"

abbreviation holds_tx :: "pg \<Rightarrow> custom_tx \<Rightarrow> (tables \<Rightarrow> tables) \<Rightarrow> bool" where
  "holds_tx d tx u \<equiv> (\<exists>n. tx = Pg_Tx n \<and> open_txs d n = Some (Active u))"

fun stage_ok :: "pg \<Rightarrow> transaction_request \<Rightarrow> time \<Rightarrow> resource set \<Rightarrow> stage \<Rightarrow> bool" where
  "stage_ok d req now H (Arrived r) \<longleftrightarrow> r = req"
| "stage_ok d req now H (Beginning r) \<longleftrightarrow> r = req \<and> cleared req (committed d)"
| "stage_ok d req now H (Naming tx r) \<longleftrightarrow> r = req \<and> cleared req (committed d) \<and> holds_tx d tx id"
| "stage_ok d req now H (Inserting tx trx) \<longleftrightarrow> carries req trx \<and> cleared req (committed d) \<and> holds_tx d tx id"
| "stage_ok d req now H (Entering tx trx) \<longleftrightarrow> carries req trx \<and> cleared req (committed d)
     \<and> claimed H trx (committed d) \<and> holds_tx d tx (add_transaction trx)"
| "stage_ok d req now H (Moving tx trx ids ops) \<longleftrightarrow> carries req trx \<and> cleared req (committed d)
     \<and> (\<exists>q dn. balance_ops (t_FromAccountID trx) (t_ToAccountID trx) = dn @ ops \<and> ids = transfer_ids trx q
          \<and> part_moved d H trx q dn \<and> holds_tx d tx (pending trx q now dn))"
| "stage_ok d req now H (Rolling_Back tx e) \<longleftrightarrow> (\<exists>n. tx = Pg_Tx n)"
| "stage_ok d req now H (Answered x) \<longleftrightarrow>
     (\<forall>u. x = Inr u \<longrightarrow> (\<exists>trx. carries req trx \<and> t_ID trx = u \<and> stored_transaction trx \<in> set (transactions (committed d))))"

fun handle_of :: "stage \<Rightarrow> nat option" where
  "handle_of (Naming (Pg_Tx n) r) = Some n"
| "handle_of (Inserting (Pg_Tx n) trx) = Some n"
| "handle_of (Entering (Pg_Tx n) trx) = Some n"
| "handle_of (Moving (Pg_Tx n) trx ids ops) = Some n"
| "handle_of (Rolling_Back (Pg_Tx n) e) = Some n"
| "handle_of st = None"

fun posting_ids :: "stage \<Rightarrow> int set" where
  "posting_ids (Moving tx trx ids ops) = ran ids"
| "posting_ids st = {}"

lemma carries_new [simp]: "carries req (new_transaction u now req)"
  by (auto simp: carries_def)

lemma carries_sel:
  assumes "carries req trx"
  shows "t_FromAccountID trx = req_FromAccountID req" "t_ToAccountID trx = req_ToAccountID req"
    "t_Amount trx = req_Amount req" "t_Currency trx = req_Currency req" "t_IdempotencyKey trx = req_IdempotencyKey req"
  using assms by (auto simp: carries_def)

lemma ran_transfer_ids: "t_FromAccountID trx \<noteq> t_ToAccountID trx \<Longrightarrow> ran (transfer_ids trx q) = {q + 1, q + 2}"
  by (force simp: transfer_ids_def ran_def)

lemma cleared_trx:
  assumes "cleared req w" and "carries req trx"
  shows "t_FromAccountID trx \<noteq> t_ToAccountID trx" "0 < t_Amount trx" "bigint (t_Amount trx)"
  using assms by (auto simp: cleared_def validateRequest_Inr carries_sel)

section \<open>What other sessions may do meanwhile\<close>

text \<open>A change of the committed tables that spares the locks \<open>H\<close> and the posting ids \<open>I\<close> of a session.\<close>

definition spares :: "resource set \<Rightarrow> int set \<Rightarrow> tables \<Rightarrow> tables \<Rightarrow> bool" where
  "spares H I w w' \<longleftrightarrow>
     (\<forall>a r. accounts w a = Some r \<longrightarrow> (\<exists>r'. accounts w' a = Some r' \<and> acc_Currency r' = acc_Currency r))
   \<and> (\<forall>a. Account_Row a \<in> H \<longrightarrow> accounts w' a = accounts w a)
   \<and> set (transactions w) \<subseteq> set (transactions w')
   \<and> (\<forall>t\<in>set (transactions w'). t \<in> set (transactions w) \<or> Id_Entry (t_ID t) \<notin> H \<and> Key_Entry (t_IdempotencyKey t) \<notin> H)
   \<and> (\<forall>p\<in>set (postings w'). p \<in> set (postings w) \<or> p_ID p \<notin> I)"

lemma spares_refl [simp]: "spares H I w w"
  by (auto simp: spares_def)

lemma spares_cleared: "spares H I w w' \<Longrightarrow> cleared req w \<Longrightarrow> cleared req w'"
  unfolding spares_def cleared_def by metis

lemma spares_claimed: "spares H I w w' \<Longrightarrow> claimed H trx w \<Longrightarrow> claimed H trx w'"
  unfolding spares_def claimed_def by metis

lemma spares_part_moved:
  assumes "part_moved d H trx q dn" and "spares H {q + 1, q + 2} (committed d) (committed d')"
    and "postings_id_seq d \<le> postings_id_seq d'"
  shows "part_moved d' H trx q dn"
proof -
  have "unused_ids (postings_id_seq d') q (committed d')"
    using assms unfolding part_moved_def unused_ids_def spares_def by fastforce
  moreover have "op_ok trx (committed d') op" if "op \<in> set dn" for op
    using assms(1,2) that by (fastforce simp: part_moved_def op_ok_def spares_def)
  ultimately show ?thesis
    using assms(1) spares_claimed [OF assms(2)] by (auto simp: part_moved_def)
qed

lemma stage_ok_spared:
  assumes ok: "stage_ok d req now H st" and sp: "spares H (posting_ids st) (committed d) (committed d')"
    and seq: "postings_id_seq d \<le> postings_id_seq d'"
    and tx: "\<And>n. handle_of st = Some n \<Longrightarrow> open_txs d' n = open_txs d n"
  shows "stage_ok d' req now H st"
proof (cases st)
  case (Moving mtx trx ids ops)
  then obtain q dn n where m: "carries req trx" "cleared req (committed d)" "mtx = Pg_Tx n"
      "balance_ops (t_FromAccountID trx) (t_ToAccountID trx) = dn @ ops" "ids = transfer_ids trx q"
      "part_moved d H trx q dn" "open_txs d n = Some (Active (pending trx q now dn))"
    using ok by auto
  have "posting_ids st = {q + 1, q + 2}"
    using Moving m cleared_trx by (simp add: ran_transfer_ids)
  with m sp seq tx Moving spares_cleared [OF sp] show ?thesis
    by (fastforce intro: spares_part_moved)
next
  case (Answered x)
  then show ?thesis using ok sp by (fastforce simp: spares_def)
qed (use ok tx spares_cleared [OF sp] spares_claimed [OF sp] in auto)

section \<open>What a call does\<close>

definition call_frame :: "pg \<Rightarrow> stage \<Rightarrow> pg \<Rightarrow> stage \<Rightarrow> bool" where
  "call_frame d st d' st' \<longleftrightarrow> next_tx d \<le> next_tx d' \<and> postings_id_seq d \<le> postings_id_seq d' \<and> handles_ok d'
     \<and> (\<forall>m<next_tx d. handle_of st \<noteq> Some m \<longrightarrow> open_txs d' m = open_txs d m)
     \<and> (\<forall>n. handle_of st' = Some n \<longrightarrow> n < next_tx d' \<and> (handle_of st = Some n \<or> next_tx d \<le> n))
     \<and> (\<forall>i\<in>posting_ids st'. i \<in> posting_ids st \<or> postings_id_seq d < i)"

definition landed :: "transaction_request \<Rightarrow> time \<Rightarrow> resource set \<Rightarrow> pg \<Rightarrow> stage \<Rightarrow> pg \<Rightarrow> stage \<Rightarrow> bool" where
  "landed req now H d st d' st' \<longleftrightarrow> (\<exists>tx trx q. st = Moving tx trx (transfer_ids trx q) [] \<and> carries req trx \<and> cleared req (committed d)
     \<and> part_moved d H trx q (balance_ops (t_FromAccountID trx) (t_ToAccountID trx))
     \<and> postings_id_seq d' = postings_id_seq d \<and> committed d' = transfer_tables trx q now (committed d)
     \<and> (st' = Answered (Inr (t_ID trx)) \<or> (\<exists>e. st' = Rolling_Back tx e)))"

text \<open>What is shown of every call: \<open>H\<close> are the locks held before it, \<open>H'\<close> those held after it.\<close>

definition call_ok :: "transaction_request \<Rightarrow> time \<Rightarrow> resource set \<Rightarrow> resource set \<Rightarrow> pg \<Rightarrow> stage \<Rightarrow> pg \<Rightarrow> stage \<Rightarrow> bool" where
  "call_ok req now H H' d st d' st' \<longleftrightarrow> call_frame d st d' st' \<and> stage_ok d' req now H' st'
     \<and> (committed d' = committed d \<and> (\<forall>u. st' \<noteq> Answered (Inr u)) \<or> landed req now H d st d' st')"

lemma call_frame_tx:
  assumes "tx_frame n d d'" and "handle_of st = Some n" and "handle_of st' = Some n" and "handles_ok d" and "n < next_tx d"
    and "\<forall>i\<in>posting_ids st'. i \<in> posting_ids st \<or> postings_id_seq d < i"
  shows "call_frame d st d' st'"
  using assms by (auto simp: call_frame_def tx_frame_def handles_ok_def)

lemma call_ok_tx:
  assumes "tx_frame n d d'" and "handle_of st = Some n" and "handle_of st' = Some n" and "handles_ok d" and "n < next_tx d"
    and "\<forall>i\<in>posting_ids st'. i \<in> posting_ids st \<or> postings_id_seq d < i" and "stage_ok d' req now H' st'"
  shows "call_ok req now H H' d st d' st'"
  using assms call_frame_tx [OF assms(1-6)] by (auto simp: call_ok_def tx_frame_def)

lemma rolling_back_ok:
  assumes "tx_frame n d d'" and "handle_of st = Some n" and "handles_ok d" and "n < next_tx d"
  shows "call_ok req now H H' d st d' (Rolling_Back (Pg_Tx n) e)"
  using assms by (intro call_ok_tx) auto

lemma same_db_ok:
  assumes "same_db d d'" and "handle_of st = None" and "handle_of st' = None" and "posting_ids st' = {}" and "handles_ok d"
    and "stage_ok d' req now H' st'" and "\<forall>u. st' \<noteq> Answered (Inr u)"
  shows "call_ok req now H H' d st d' st'"
  using assms by (auto simp: call_ok_def call_frame_def same_db_def handles_ok_def)

lemma answer_cases:
  assumes "answer uc x W = (st', W')"
  shows "st' = Answered x \<and> db W' = db W \<and> cache W' = cache W"
  using assms by (auto simp: answer_def RecordTransfer_def)

lemma open_lt: "handles_ok d \<Longrightarrow> open_txs d n = Some t \<Longrightarrow> n < next_tx d"
  by (rule ccontr) (simp add: handles_ok_def)

lemma Inserting_ok:
  assumes call: "session_call uc E R ff (Inserting tx trx) W = (st', W')" and ok: "stage_ok (db W) req now H (Inserting tx trx)"
    and h: "handles_ok (db W)"
  shows "call_ok req now H (H \<union> set (needs (Inserting tx trx) (committed (db W)))) (db W) (Inserting tx trx) (db W') st'"
proof -
  obtain n where n: "tx = Pg_Tx n" "open_txs (db W) n = Some (Active id)" using ok by auto
  then have lt: "n < next_tx (db W)" using open_lt [OF h] by blast
  obtain x d' where c: "CreateTransaction (Pg_Tx n) trx (db W) = (x, d')" by fastforce
  note fr = CreateTransaction_frame [OF c]
  show ?thesis
  proof (cases x)
    case (Inl e)
    with call c n fr lt h show ?thesis by (auto simp: on_db_def intro!: rolling_back_ok)
  next
    case (Inr y)
    have view: "tx_view n (db W) = Some (committed (db W))" using n by (simp add: tx_view_def)
    note i = CreateTransaction_Inr [OF c [unfolded Inr] view]
    from CreateTransaction_Active [OF c [unfolded Inr] n(2)] have a: "open_txs d' n = Some (Active (add_transaction trx))" by simp
    have "committed d' = committed (db W)" using fr by (simp add: tx_frame_def)
    with i ok a call c n fr lt h Inr show ?thesis
      by (auto simp: on_db_def claimed_def intro!: call_ok_tx)
  qed
qed

lemma Entering_ok:
  assumes call: "session_call uc E R ff (Entering tx trx) W = (st', W')" and ok: "stage_ok (db W) req now H (Entering tx trx)"
    and h: "handles_ok (db W)" and d: "db_ok (db W)"
  shows "call_ok req now H H (db W) (Entering tx trx) (db W') st'"
proof -
  let ?q = "postings_id_seq (db W)"
  obtain n where n: "tx = Pg_Tx n" "open_txs (db W) n = Some (Active (add_transaction trx))" using ok by auto
  then have lt: "n < next_tx (db W)" using open_lt [OF h] by blast
  from ok have ne: "t_FromAccountID trx \<noteq> t_ToAccountID trx" using cleared_trx by auto
  obtain x d' where c: "CreatePostings (Pg_Tx n) (transfer_postings trx) (db W) = (x, d')" by fastforce
  note fr = CreatePostings_frame [OF c]
  show ?thesis
  proof (cases x)
    case (Inl e)
    with call c n fr lt h show ?thesis by (auto simp: on_db_def intro!: rolling_back_ok)
  next
    case (Inr ids)
    have len: "length (transfer_postings trx) = 1 \<or> length (transfer_postings trx) = 2" by (simp add: transfer_postings_def)
    have view: "tx_view n (db W) = Some (add_transaction trx (committed (db W)))" using n by (simp add: tx_view_def)
    note i = CreatePostings_Inr [OF c [unfolded Inr] view len]
    have ids: "ids = transfer_ids trx ?q" using i(2) ne by (simp add: created_ids_transfer transfer_ids_def)
    have a: "open_txs d' n = Some (Active (pending trx ?q now []))"
      using CreatePostings_Active [OF c [unfolded Inr] n(2) len] by (simp add: pending_Nil)
    have w: "committed d' = committed (db W)" using fr by (simp add: tx_frame_def)
    have "part_moved d' H trx ?q []"
      using ok d i(3) w unused_ids_next by (auto simp: part_moved_def db_ok_def transfer_postings_def)
    with ok a w call c n fr lt h Inr ids ne show ?thesis
      by (auto simp: on_db_def ran_transfer_ids intro!: call_ok_tx)
  qed
qed

lemma balance_ops_sel:
  assumes "f \<noteq> g" and "balance_ops f g = dn @ op # ops"
  shows "accountID op = (if isDebit op then f else g)" "accountID op \<notin> accountID ` set dn"
  using assms by (auto simp: balance_ops_def Let_def Cons_eq_append_conv split: if_splits)

lemma op_ok_accounts: "accounts w' (accountID op) = accounts w (accountID op) \<Longrightarrow> op_ok trx w' op \<longleftrightarrow> op_ok trx w op"
  by (simp add: op_ok_def)

lemma op_ok_needs: "op_ok trx w op \<Longrightarrow> Account_Row (accountID op) \<in> set (needs (Moving tx trx ids (op # ops)) w)"
  by (auto simp: op_ok_def matches_def)

lemma part_moved_snoc:
  assumes "part_moved d H trx q dn" and "op_ok trx (committed d) op" and "Account_Row (accountID op) \<in> H'" and "H \<subseteq> H'"
    and "committed d' = committed d" and "postings_id_seq d' = postings_id_seq d"
  shows "part_moved d' H' trx q (dn @ [op])"
  using assms by (auto simp: part_moved_def claimed_def)

lemma Moving_ok:
  assumes call: "session_call uc E R ff (Moving tx trx ids (op # ops)) W = (st', W')"
    and ok: "stage_ok (db W) req now H (Moving tx trx ids (op # ops))" and h: "handles_ok (db W)" and now: "pg_now (db W) = now"
  shows "call_ok req now H (H \<union> set (needs (Moving tx trx ids (op # ops)) (committed (db W)))) (db W) (Moving tx trx ids (op # ops)) (db W') st'"
proof -
  let ?w = "committed (db W)"
  obtain n q dn where n: "tx = Pg_Tx n" "open_txs (db W) n = Some (Active (pending trx q now dn))"
    and m: "carries req trx" "cleared req ?w" "balance_ops (t_FromAccountID trx) (t_ToAccountID trx) = dn @ op # ops"
      "ids = transfer_ids trx q" "part_moved (db W) H trx q dn"
    using ok by auto
  note lt = open_lt [OF h n(2)]
  from m have ne: "t_FromAccountID trx \<noteq> t_ToAccountID trx" using cleared_trx by auto
  note op = balance_ops_sel [OF ne m(3)]
  have id: "ids (accountID op) = Some (if isDebit op then q + 1 else q + 2)"
    using op(1) ne m(4) by (auto simp: transfer_ids_def)
  obtain x d' where c: "balance_call (Pg_Tx n) (t_Amount trx) ids op (db W) = (x, d')" by fastforce
  note fr = balance_call_frame [OF c]
  show ?thesis
  proof (cases x)
    case (Inl e)
    with call c n fr lt h show ?thesis by (auto simp: on_db_def intro!: rolling_back_ok)
  next
    case (Inr y)
    note b = balance_call_Active [OF c [unfolded Inr] n(2) id]
    have opk: "op_ok trx ?w op"
      using b(2) op_ok_accounts [OF accounts_pending [OF op(2)]] by blast
    have w: "committed d' = ?w" using fr by (simp add: tx_frame_def)
    have "part_moved d' (H \<union> set (needs (Moving tx trx ids (op # ops)) ?w)) trx q (dn @ [op])"
      using op_ok_needs [OF opk] b(3) w by (intro part_moved_snoc [OF m(5) opk]) auto
    moreover have "open_txs d' n = Some (Active (pending trx q now (dn @ [op])))"
      using b(1) now by (simp add: pending_snoc)
    moreover have "balance_ops (t_FromAccountID trx) (t_ToAccountID trx) = (dn @ [op]) @ ops" using m(3) by simp
    ultimately have sok: "stage_ok d' req now (H \<union> set (needs (Moving tx trx ids (op # ops)) ?w)) (Moving tx trx ids ops)"
      unfolding stage_ok.simps
      by (intro conjI exI [of _ q] exI [of _ "dn @ [op]"] exI [of _ n]) (use m w n in simp_all)
    have st: "st' = Moving tx trx ids ops" "db W' = d'" using call c n Inr by (auto simp: on_db_def)
    show ?thesis
      unfolding st by (rule call_ok_tx [OF fr _ _ h lt _ sok]) (simp_all add: n)
  qed
qed

lemma Committing_ok:
  assumes call: "session_call uc E R ff (Moving tx trx ids []) W = (st', W')"
    and ok: "stage_ok (db W) req now H (Moving tx trx ids [])" and h: "handles_ok (db W)"
  shows "call_ok req now H H' (db W) (Moving tx trx ids []) (db W') st'"
proof -
  let ?w = "committed (db W)"
  let ?ops = "balance_ops (t_FromAccountID trx) (t_ToAccountID trx)"
  obtain n q where n: "tx = Pg_Tx n" "open_txs (db W) n = Some (Active (pending trx q now ?ops))"
    and m: "carries req trx" "cleared req ?w" "ids = transfer_ids trx q" "part_moved (db W) H trx q ?ops"
    using ok by auto
  from m have ne: "t_FromAccountID trx \<noteq> t_ToAccountID trx" using cleared_trx by auto
  have view: "tx_view n (db W) = Some (transfer_tables trx q now ?w)"
    using n(2) pending_all [OF ne] by (simp add: tx_view_def)
  obtain x d' where c: "tx_Commit n (db W) = (x, d')" by fastforce
  note v = tx_Commit_view [OF c view]
  have land: "landed req now H (db W) (Moving tx trx ids []) d' st'"
    if "committed d' = transfer_tables trx q now ?w" "st' = Answered (Inr (t_ID trx)) \<or> (\<exists>e. st' = Rolling_Back tx e)"
    using v(1) m that unfolding landed_def closed_frame_def by blast
  have rest: "call_frame (db W) (Moving tx trx ids []) d' st'" if "handle_of st' = Some n \<or> handle_of st' = None" "posting_ids st' = {}"
    using v(1) h n(1) that open_lt [OF h n(2)] by (auto simp: call_frame_def closed_frame_def handles_ok_def)
  show ?thesis
  proof (cases x)
    case (Inl e)
    have st: "st' = Rolling_Back tx e" "db W' = d'" using call c n Inl by (auto simp: on_db_def CommitTx_def)
    then show ?thesis
      using rest land v(2) Inl n(1) by (auto simp: call_ok_def)
  next
    case (Inr y)
    then have w: "committed d' = transfer_tables trx q now ?w" using v(2) by auto
    then have "stored_transaction trx \<in> set (transactions (committed d'))" by (simp add: transfer_tables_def)
    then have "stage_ok d' req now H' (Answered (Inr (t_ID trx)))" using m(1) by auto
    moreover have "st' = Answered (Inr (t_ID trx))" "db W' = d'"
      using call c n Inr by (auto simp: on_db_def CommitTx_def dest!: answer_cases)
    ultimately show ?thesis using land [OF w] rest by (simp add: call_ok_def del: stage_ok.simps)
  qed
qed

lemma Rolling_Back_ok:
  assumes call: "session_call uc E R ff (Rolling_Back tx e) W = (st', W')" and ok: "stage_ok (db W) req now H (Rolling_Back tx e)"
    and h: "handles_ok (db W)"
  shows "call_ok req now H H' (db W) (Rolling_Back tx e) (db W') st'"
proof -
  obtain n where n: "tx = Pg_Tx n" using ok by auto
  obtain x d' where r: "tx_Rollback n (db W) = (x, d')" by fastforce
  with call n have "st' = Answered (Inl e)" "db W' = d'"
    by (auto simp: on_db_def RollbackTx_def dest!: answer_cases)
  with tx_Rollback_frame [OF r] n h show ?thesis
    by (auto simp: call_ok_def call_frame_def closed_frame_def handles_ok_def)
qed

lemma Naming_ok:
  assumes call: "session_call uc E R ff (Naming tx r) W = (st', W')" and ok: "stage_ok (db W) req now H (Naming tx r)"
    and h: "handles_ok (db W)"
  shows "call_ok req now H H' (db W) (Naming tx r) (db W') st'"
proof -
  obtain n where n: "tx = Pg_Tx n" "open_txs (db W) n = Some (Active id)" and r: "r = req" "cleared req (committed (db W))"
    using ok by auto
  note lt = open_lt [OF h n(2)]
  obtain x W1 where u: "uuid_NewV7 W = (x, W1)" by fastforce
  note s = uuid_NewV7_spec(1) [OF u]
  show ?thesis
  proof (cases x)
    case (Inl e)
    with call u n s lt h show ?thesis by (auto intro!: rolling_back_ok)
  next
    case (Inr i)
    with call u n s lt h r show ?thesis by (auto intro!: call_ok_tx)
  qed
qed

lemma Beginning_ok:
  assumes call: "session_call uc E R ff (Beginning r) W = (st', W')" and ok: "stage_ok (db W) req now H (Beginning r)"
    and h: "handles_ok (db W)"
  shows "call_ok req now H H' (db W) (Beginning r) (db W') st'"
proof -
  obtain x d' where b: "BeginTx (db W) = (x, d')" by fastforce
  show ?thesis
  proof (cases x)
    case (Inl e)
    have "st' = Answered (Inl e)" "db W' = d'"
      using call b Inl by (auto simp: on_db_def dest!: answer_cases)
    with BeginTx_Inl_same [OF b [unfolded Inl]] h show ?thesis by (auto intro!: same_db_ok)
  next
    case (Inr tx)
    note B = BeginTx_Inr [OF b [unfolded Inr]]
    with call b Inr ok h show ?thesis
      by (auto simp: call_ok_def call_frame_def on_db_def handles_ok_def)
  qed
qed

lemma Arrived_ok:
  assumes srv: "redis_server R clock data" and laws: "uuid_laws E"
    and co: "coherent E (data (cache W)) (committed (db W))"
    and call: "session_call uc E R ff (Arrived r) W = (st', W')" and ok: "stage_ok (db W) req now H (Arrived r)"
    and h: "handles_ok (db W)" and b: "bigint (req_Amount req)"
  shows "call_ok req now H H' (db W) (Arrived r) (db W') st' \<and> coherent E (data (cache W')) (committed (db W))"
proof (cases "validateRequest r")
  case (Inl e)
  with call co h show ?thesis by (auto dest!: answer_cases intro!: same_db_ok)
next
  case (Inr y)
  obtain x W1 where v: "validateTransferCurrencies E R ff (req_FromAccountID r) (req_ToAccountID r) (req_Currency r) W = (x, W1)"
    by fastforce
  note sp = redis_server.validateTransferCurrencies_spec [OF srv v laws co]
  have sd: "same_db (db W) (db W1)" using validateTransferCurrencies_same [OF v] by (simp add: same_world_def)
  show ?thesis
  proof (cases x)
    case (Inl e)
    with call Inr v sp sd h show ?thesis by (auto dest!: answer_cases intro!: same_db_ok)
  next
    case x: (Inr z)
    have "cleared req (committed (db W1))"
      using sp sd Inr x ok b by (auto simp: cleared_def same_db_def)
    with call Inr v sp sd h ok x show ?thesis by (auto intro!: same_db_ok)
  qed
qed

lemma cache_untouched:
  assumes "session_call uc E R ff st W = (st', W')" and "\<forall>r. st \<noteq> Arrived r"
  shows "cache W' = cache W"
  using assms
  by (cases st rule: handle_of.cases; cases "(uc, E, R, ff, st, W)" rule: session_call.cases)
    (auto simp: on_db_def uuid_NewV7_def split: prod.splits sum.splits list.splits option.splits dest!: answer_cases)

text \<open>Every call.\<close>

lemma session_call_ok:
  assumes srv: "redis_server R clock data" and laws: "uuid_laws E"
    and co: "coherent E (data (cache W)) (committed (db W))"
    and call: "session_call uc E R ff st W = (st', W')" and ok: "stage_ok (db W) req now H st"
    and h: "handles_ok (db W)" and d: "db_ok (db W)" and b: "bigint (req_Amount req)" and now: "pg_now (db W) = now"
    and na: "\<not> answered st"
  shows "call_ok req now H (H \<union> set (needs st (committed (db W)))) (db W) st (db W') st'"
    and "coherent E (data (cache W')) (committed (db W))"
proof -
  show "coherent E (data (cache W')) (committed (db W))"
    using Arrived_ok [OF srv laws co] call ok h b co cache_untouched [OF call] by (cases "\<exists>r. st = Arrived r") metis+
  show "call_ok req now H (H \<union> set (needs st (committed (db W)))) (db W) st (db W') st'"
  proof (cases st)
    case (Arrived r)
    then show ?thesis using Arrived_ok [OF srv laws co] call ok h b by auto
  next
    case (Moving tx trx ids ops)
    then show ?thesis using Moving_ok [of uc E R ff tx trx ids _ _ W] Committing_ok [of uc E R ff tx trx ids W] call ok h now
      by (cases ops) auto
  next
    case (Answered x)
    then show ?thesis using na by simp
  next
    case (Entering tx trx)
    from Entering_ok [OF call [unfolded this] ok [unfolded this] h d] Entering show ?thesis by simp
  qed (use call ok h in \<open>simp_all only: Beginning_ok Naming_ok Inserting_ok Rolling_Back_ok\<close>)
qed

section \<open>A commit\<close>

lemma part_moved_transfer_ok:
  assumes "part_moved d H trx q (balance_ops (t_FromAccountID trx) (t_ToAccountID trx))" and "0 < t_Amount trx"
  shows "transfer_ok trx (committed d)"
    and "Account_Row (t_FromAccountID trx) \<in> H" "Account_Row (t_ToAccountID trx) \<in> H"
proof -
  let ?ops = "balance_ops (t_FromAccountID trx) (t_ToAccountID trx)"
  have set: "set ?ops = {\<lparr>accountID = t_FromAccountID trx, isDebit = True\<rparr>, \<lparr>accountID = t_ToAccountID trx, isDebit = False\<rparr>}"
    by (auto simp: balance_ops_def Let_def)
  then show "Account_Row (t_FromAccountID trx) \<in> H" "Account_Row (t_ToAccountID trx) \<in> H"
    using assms(1) by (auto simp: part_moved_def)
  show "transfer_ok trx (committed d)"
    using assms unfolding part_moved_def set by (auto simp: transfer_ok_def claimed_def op_ok_def op_amount_def)
qed

lemma landed_cases:
  assumes "landed req now H d st d' st'" and "db_ok d" and "journal_ok (committed d)"
  obtains trx q where "carries req trx" "committed d' = transfer_tables trx q now (committed d)" "transfer_ok trx (committed d)"
    "posting_ids st = {q + 1, q + 2}" "t_FromAccountID trx \<noteq> t_ToAccountID trx" "cleared req (committed d)"
    "{Id_Entry (t_ID trx), Key_Entry (t_IdempotencyKey trx), Account_Row (t_FromAccountID trx), Account_Row (t_ToAccountID trx)} \<subseteq> H"
    "db_ok d'" "journal_ok (committed d')" "st' = Answered (Inr (t_ID trx)) \<or> (\<exists>tx e. st' = Rolling_Back tx e)"
proof -
  from assms(1) obtain tx trx q where l: "st = Moving tx trx (transfer_ids trx q) []" "carries req trx" "cleared req (committed d)"
      "part_moved d H trx q (balance_ops (t_FromAccountID trx) (t_ToAccountID trx))"
      "postings_id_seq d' = postings_id_seq d" "committed d' = transfer_tables trx q now (committed d)"
      "st' = Answered (Inr (t_ID trx)) \<or> (\<exists>e. st' = Rolling_Back tx e)"
    by (auto simp: landed_def)
  note c = cleared_trx [OF l(3,2)]
  note ok = part_moved_transfer_ok [OF l(4) c(2)]
  have un: "unused_ids (postings_id_seq d) q (committed d)" and cl: "claimed H trx (committed d)"
    using l(4) by (simp_all add: part_moved_def)
  show thesis
  proof (rule that [OF l(2,6) ok(1) _ c(1) l(3)])
    show "posting_ids st = {q + 1, q + 2}" using l(1) c(1) by (simp add: ran_transfer_ids)
    show "{Id_Entry (t_ID trx), Key_Entry (t_IdempotencyKey trx), Account_Row (t_FromAccountID trx), Account_Row (t_ToAccountID trx)} \<subseteq> H"
      using cl ok(2,3) by (simp add: claimed_def)
    show "db_ok d'" "journal_ok (committed d')"
      using assms(2,3) l(5,6) transfer_tables_kept [OF _ un ok(1) c(3,1)] journal_ok_transfer [OF assms(3) _ ok(1) c(3,1)]
      by (auto simp: db_ok_def)
    show "st' = Answered (Inr (t_ID trx)) \<or> (\<exists>tx e. st' = Rolling_Back tx e)" using l(7) by blast
  qed
qed

lemma transfer_spares:
  assumes "t_FromAccountID trx \<noteq> t_ToAccountID trx" and "{q + 1, q + 2} \<inter> I = {}"
    and "{Id_Entry (t_ID trx), Key_Entry (t_IdempotencyKey trx), Account_Row (t_FromAccountID trx), Account_Row (t_ToAccountID trx)} \<inter> H = {}"
  shows "spares H I w (transfer_tables trx q now w)"
  using assms by (auto simp: spares_def transfer_tables_def transfer_postings_def accounts_upd_row add.commute)

lemma landed_bank:
  assumes "landed req now H d st d' st'" and "db_ok d" and "journal_ok (committed d)"
  shows "\<exists>trx. carries req trx \<and> bank_move (req_IdempotencyKey req) (receipt_of trx) (bank_of (committed d)) (bank_of (committed d'))
    \<and> (st' = Answered (Inr (t_ID trx)) \<or> (\<exists>tx e. st' = Rolling_Back tx e))"
proof (rule landed_cases [OF assms])
  fix trx q
  assume c: "carries req trx" "committed d' = transfer_tables trx q now (committed d)" "transfer_ok trx (committed d)"
    "t_FromAccountID trx \<noteq> t_ToAccountID trx" "cleared req (committed d)" "st' = Answered (Inr (t_ID trx)) \<or> (\<exists>tx e. st' = Rolling_Back tx e)"
  from c(5) obtain rf rt where rows: "accounts (committed d) (req_FromAccountID req) = Some rf" "acc_Currency rf = req_Currency req"
      "accounts (committed d) (req_ToAccountID req) = Some rt" "acc_Currency rt = req_Currency req" "IsValid (req_Currency req)"
    by (auto simp: cleared_def validateRequest_Inr)
  have "bank_move (t_IdempotencyKey trx) (receipt_of trx) (bank_of (committed d)) (bank_of (committed d'))"
    unfolding c(2) by (rule bank_of_transfer [OF _ c(3,4), where rf = rf and rt = rt]) (use assms(2) rows carries_sel [OF c(1)] in \<open>auto simp: db_ok_def\<close>)
  with c(1,6) carries_sel(5) [OF c(1)] show ?thesis by auto
qed

section \<open>The invariant\<close>

definition session_ok :: "pg \<Rightarrow> transfer_session \<Rightarrow> bool" where
  "session_ok d s \<longleftrightarrow> stage_ok d (s_req s) (s_began s) (set (s_held s)) (s_stage s) \<and> bigint (req_Amount (s_req s))
     \<and> (\<forall>n. handle_of (s_stage s) = Some n \<longrightarrow> n < next_tx d)"

definition apart :: "transfer_session \<Rightarrow> transfer_session \<Rightarrow> bool" where
  "apart s s' \<longleftrightarrow> set (s_held s) \<inter> set (s_held s') = {} \<and> posting_ids (s_stage s) \<inter> posting_ids (s_stage s') = {}
     \<and> (\<forall>n. handle_of (s_stage s) = Some n \<longrightarrow> handle_of (s_stage s') \<noteq> Some n)"

definition inter_ok :: "ext \<Rightarrow> ('r \<Rightarrow> store) \<Rightarrow> 'r world \<times> transfer_session list \<Rightarrow> bool" where
  "inter_ok E data S = (case S of (W, ss) \<Rightarrow>
     coherent E (data (cache W)) (committed (db W)) \<and> db_ok (db W) \<and> journal_ok (committed (db W)) \<and> handles_ok (db W)
     \<and> (\<forall>i<length ss. session_ok (db W) (ss ! i))
     \<and> (\<forall>i<length ss. \<forall>j<length ss. i \<noteq> j \<longrightarrow> apart (ss ! i) (ss ! j)))"

lemma posting_ids_le: "stage_ok d req now H st \<Longrightarrow> i \<in> posting_ids st \<Longrightarrow> i \<le> postings_id_seq d"
  using cleared_trx by (cases st) (fastforce simp: ran_transfer_ids part_moved_def unused_ids_def)+

text \<open>A session keeps its ground while another one calls.\<close>

lemma session_ok_other:
  assumes s: "session_ok d s" and c: "call_ok req now H H' d st d' st'" and d: "db_ok d" "journal_ok (committed d)"
    and held: "H \<inter> set (s_held s) = {}" and ids: "posting_ids st \<inter> posting_ids (s_stage s) = {}"
    and tx: "\<forall>n. handle_of (s_stage s) = Some n \<longrightarrow> handle_of st \<noteq> Some n"
  shows "session_ok d' s"
proof -
  have "spares (set (s_held s)) (posting_ids (s_stage s)) (committed d) (committed d')"
  proof (cases "committed d' = committed d")
    case False
    then have "landed req now H d st d' st'" using c by (simp add: call_ok_def)
    then show ?thesis using d
    proof (rule landed_cases, goal_cases)
      case (1 trx q)
      show ?case unfolding 1(2) by (rule transfer_spares) (use 1 held ids in auto)
    qed
  qed simp
  with s c tx show ?thesis
    by (auto simp: session_ok_def call_ok_def call_frame_def intro!: stage_ok_spared [of d])
qed

lemma apart_other:
  assumes ap: "apart s s'" and s': "session_ok d s'" and c: "call_ok req now H H' d (s_stage s) d' st'"
    and free: "set (needs (s_stage s) w) \<inter> set (s_held s') = {}"
  shows "apart (took w st' s) s'"
proof -
  have "posting_ids st' \<inter> posting_ids (s_stage s') = {}"
  proof (rule ccontr)
    assume "posting_ids st' \<inter> posting_ids (s_stage s') \<noteq> {}"
    then obtain i where i: "i \<in> posting_ids st'" "i \<in> posting_ids (s_stage s')" by blast
    with c ap have "postings_id_seq d < i" by (auto simp: call_ok_def call_frame_def apart_def)
    with posting_ids_le [OF _ i(2)] s' show False by (force simp: session_ok_def)
  qed
  moreover have "handle_of (s_stage s') \<noteq> Some n" if "handle_of st' = Some n" for n
    using that c ap s' by (force simp: call_ok_def call_frame_def apart_def session_ok_def)
  ultimately show ?thesis using ap free by (auto simp: apart_def took_def)
qed

lemma apart_sym: "apart s s' \<Longrightarrow> apart s' s"
  by (auto simp: apart_def)

lemma apart_update:
  assumes "\<And>j. j < length ss \<Longrightarrow> j \<noteq> i \<Longrightarrow> apart x (ss ! j)"
    and "\<forall>j<length ss. \<forall>k<length ss. j \<noteq> k \<longrightarrow> apart (ss ! j) (ss ! k)" and "i < length ss"
  shows "\<forall>j<length (ss[i := x]). \<forall>k<length (ss[i := x]). j \<noteq> k \<longrightarrow> apart (ss[i := x] ! j) (ss[i := x] ! k)"
  using assms by (auto simp: nth_list_update intro: apart_sym)

lemma stage_ok_cong:
  assumes "committed d' = committed d" "postings_id_seq d' = postings_id_seq d" "open_txs d' = open_txs d"
  shows "stage_ok d' req now H st \<longleftrightarrow> stage_ok d req now H st"
  using assms by (auto intro: stage_ok_spared [of d] stage_ok_spared [of d'])

lemma at_call_ok [simp]:
  "stage_ok (db (at_call us t now fs W)) req now' H st \<longleftrightarrow> stage_ok (db W) req now' H st"
  "handles_ok (db (at_call us t now fs W)) \<longleftrightarrow> handles_ok (db W)" "db_ok (db (at_call us t now fs W)) \<longleftrightarrow> db_ok (db W)"
  "call_ok req now' H H' (db (at_call us t now fs W)) st d' st' \<longleftrightarrow> call_ok req now' H H' (db W) st d' st'"
  by (rule stage_ok_cong) (simp_all add: handles_ok_def db_ok_def call_ok_def call_frame_def landed_def part_moved_def)

text \<open>The locks taken by a call are kept until the session answers.\<close>

lemma session_ok_took:
  assumes "session_ok d s" and "call_ok (s_req s) (s_began s) H (set (s_held s) \<union> set (needs (s_stage s) w)) d (s_stage s) d' st'"
  shows "session_ok d' (took w st' s)"
proof -
  have "stage_ok d' (s_req s) (s_began s) (if answered st' then {} else set (s_held s) \<union> set (needs (s_stage s) w)) st'"
    using assms(2) by (cases st') (auto simp: call_ok_def)
  with assms show ?thesis by (auto simp: session_ok_def took_def call_ok_def call_frame_def split: if_splits)
qed

context redis_server
begin

lemma inter_calls:
  assumes laws: "uuid_laws E" and ok: "inter_ok E data (W, ss)" and i: "i < length ss" and na: "\<not> answered (s_stage (ss ! i))"
    and free: "\<forall>j<length ss. j \<noteq> i \<longrightarrow> set (needs (s_stage (ss ! i)) (committed (db W))) \<inter> set (s_held (ss ! j)) = {}"
    and call: "session_call uc E R ff (s_stage (ss ! i)) (at_call us t (s_began (ss ! i)) fs W) = (st', W')"
  shows "inter_ok E data (W', ss[i := took (committed (db W)) st' (ss ! i)])"
    and "committed (db W') = committed (db W) \<and> (\<forall>u. st' \<noteq> Answered (Inr u))
      \<or> landed (s_req (ss ! i)) (s_began (ss ! i)) (set (s_held (ss ! i))) (db W) (s_stage (ss ! i)) (db W') st'"
proof -
  let ?s = "ss ! i" and ?V = "at_call us t (s_began (ss ! i)) fs W"
  have I: "coherent E (data (cache W)) (committed (db W))" "db_ok (db W)" "journal_ok (committed (db W))" "handles_ok (db W)"
      "\<And>j. j < length ss \<Longrightarrow> session_ok (db W) (ss ! j)" "\<forall>j<length ss. \<forall>k<length ss. j \<noteq> k \<longrightarrow> apart (ss ! j) (ss ! k)"
    using ok by (auto simp: inter_ok_def)
  have ok_s: "stage_ok (db W) (s_req ?s) (s_began ?s) (set (s_held ?s)) (s_stage ?s)" "bigint (req_Amount (s_req ?s))"
    using I(5) [OF i] by (simp_all add: session_ok_def)
  have c: "call_ok (s_req ?s) (s_began ?s) (set (s_held ?s)) (set (s_held ?s) \<union> set (needs (s_stage ?s) (committed (db W))))
      (db W) (s_stage ?s) (db W') st'" and co: "coherent E (data (cache W')) (committed (db W))"
    using session_call_ok [OF redis_server_axioms laws _ call] I(1,2,4) ok_s na by simp_all
  show lands: "committed (db W') = committed (db W) \<and> (\<forall>u. st' \<noteq> Answered (Inr u)) \<or> landed (s_req ?s) (s_began ?s) (set (s_held ?s)) (db W) (s_stage ?s) (db W') st'"
    using c by (simp add: call_ok_def)
  have "coherent E (data (cache W')) (committed (db W')) \<and> db_ok (db W') \<and> journal_ok (committed (db W'))"
    using lands
  proof
    assume "committed (db W') = committed (db W) \<and> (\<forall>u. st' \<noteq> Answered (Inr u))"
    with co I(2,3) c show ?thesis by (auto simp: db_ok_def call_ok_def call_frame_def intro: schema_ok_seq_mono)
  next
    assume "landed (s_req ?s) (s_began ?s) (set (s_held ?s)) (db W) (s_stage ?s) (db W') st'"
    then show ?thesis
      using I(2,3)
    proof (rule landed_cases, goal_cases)
      case (1 trx q)
      have "spares {} {} (committed (db W)) (committed (db W'))"
        unfolding 1(2) by (rule transfer_spares) (use 1 in auto)
      with 1(8,9) show ?case by (auto simp: spares_def intro: coherent_mono [OF co])
    qed
  qed
  moreover have "handles_ok (db W')" using c by (simp add: call_ok_def call_frame_def)
  moreover have "\<forall>j<length (ss[i := took (committed (db W)) st' ?s]). session_ok (db W') (ss[i := took (committed (db W)) st' ?s] ! j)"
  proof -
    have "session_ok (db W') (ss ! j)" if "j < length ss" "j \<noteq> i" for j
    proof -
      have "apart ?s (ss ! j)" using I(6) i that by blast
      then show ?thesis unfolding apart_def by (intro session_ok_other [OF I(5) [OF that(1)] c I(2,3)]) auto
    qed
    then show ?thesis using session_ok_took [OF I(5) [OF i] c] i by (simp add: nth_list_update)
  qed
  moreover have "apart (took (committed (db W)) st' ?s) (ss ! j)" if "j < length ss" "j \<noteq> i" for j
    by (rule apart_other [OF _ I(5) [OF that(1)] c]) (use I(6) i free that in blast)+
  ultimately show "inter_ok E data (W', ss[i := took (committed (db W)) st' ?s])"
    using apart_update [OF _ I(6) i] by (simp add: inter_ok_def)
qed

lemma inter_ok_step:
  assumes "uuid_laws E" and "inter_step uc E R S S'" and "inter_ok E data S"
  shows "inter_ok E data S'"
  using assms(2)
proof cases
  case (arrives req W ss now)
  have "session_ok (db W) (arrival req now)" and "apart (arrival req now) s" for s
    using arrives(3) by (simp_all add: arrival_def session_ok_def apart_def)
  with assms(3) arrives(1,2) show ?thesis
    by (simp add: inter_ok_def nth_append less_Suc_eq all_conj_distrib imp_disjL) (meson apart_sym)
next
  case calls
  with assms(1,3) show ?thesis using inter_calls(1) by blast
qed

end

end
