(* ===== verification/Interleaving_Laws.thy ===== *)
theory Interleaving_Laws
  imports Interleaving
begin

text \<open>
  What follows from the invariant of \<open>Interleaving\<close>. The sessions lock in one order, so that the locale
  \<open>ordered_locks\<close> applies to them and one of them can always go on; every call of every session is at
  most one step of an abstract bank with many clients (locale \<open>transfer_service\<close>, an instance of
  \<open>simulation\<close>); a session that runs alone is a call of \<open>Transaction\<close>.
\<close>

section \<open>Locks\<close>

text \<open>What a session has yet to lock. Before its id is known it holds nothing and waits for nobody.\<close>

fun todo :: "stage \<Rightarrow> resource list" where
  "todo (Inserting tx trx) = lock_plan (Transfer_Job trx)"
| "todo (Entering tx trx) = map (Account_Row \<circ> accountID) (balance_ops (t_FromAccountID trx) (t_ToAccountID trx))"
| "todo (Moving tx trx ids ops) = map (Account_Row \<circ> accountID) ops"
| "todo st = []"

fun early :: "stage \<Rightarrow> bool" where
  "early (Arrived req) \<longleftrightarrow> True"
| "early (Beginning req) \<longleftrightarrow> True"
| "early (Naming tx req) \<longleftrightarrow> True"
| "early (Inserting tx trx) \<longleftrightarrow> True"
| "early st \<longleftrightarrow> False"

text \<open>The session as \<open>unblocked\<close> sees it; how it ended makes no difference there.\<close>

definition lock_session :: "transfer_session \<Rightarrow> resource session" where
  "lock_session s = (if answered (s_stage s) then Ended Committed else Running (todo (s_stage s)) (s_held s))"

definition locks_sorted :: "transfer_session \<Rightarrow> bool" where
  "locks_sorted s \<longleftrightarrow> sorted_wrt (<) (s_held s @ todo (s_stage s)) \<and> (early (s_stage s) \<or> answered (s_stage s) \<longrightarrow> s_held s = [])"

lemma needs_todo: "set (needs st w) \<subseteq> set (todo st)"
  by (cases "(st, w)" rule: needs.cases) auto

lemma call_todo:
  assumes "session_call uc E R ff st W = (st', W')" and "\<not> early st" and "\<not> answered st"
  shows "\<exists>xs. todo st = xs @ todo st' \<and> set (needs st w) \<subseteq> set xs \<and> (needs st w = [] \<or> needs st w = xs) \<and> \<not> early st'
    \<or> todo st' = [] \<and> (\<exists>ys. todo st = needs st w @ ys) \<and> \<not> early st'"
  using assms
  by (cases "(uc, E, R, ff, st, W)" rule: session_call.cases)
    (auto simp: answer_def split: prod.splits sum.splits)

lemma locks_sorted_took:
  assumes "session_call uc E R ff (s_stage s) V = (st', V')" and "locks_sorted s" and ok: "stage_ok d (s_req s) now H (s_stage s)"
    and na: "\<not> answered (s_stage s)"
  shows "locks_sorted (took w st' s)"
proof (cases "early (s_stage s)")
  case True
  then have h: "s_held s = []" using assms(2) by (simp add: locks_sorted_def)
  have plan: "t_FromAccountID trx \<noteq> t_ToAccountID trx \<Longrightarrow> sorted_wrt (<) (lock_plan (Transfer_Job trx))" for trx
    using lock_plan_ascends [of "Transfer_Job trx"] by simp
  show ?thesis
  proof (cases "s_stage s")
    case (Inserting tx trx)
    then have ne: "t_FromAccountID trx \<noteq> t_ToAccountID trx" using ok cleared_trx by auto
    from assms(1) Inserting have "st' = Entering tx trx \<or> (\<exists>e. st' = Rolling_Back tx e)"
      by (auto split: prod.splits sum.splits)
    with Inserting plan [OF ne] h show ?thesis by (auto simp: locks_sorted_def took_def)
  next
    case (Naming tx r)
    from assms(1) Naming have "(\<exists>u now. st' = Inserting tx (new_transaction u now r)) \<or> (\<exists>e. st' = Rolling_Back tx e)"
      by (auto split: prod.splits sum.splits)
    moreover have "sorted_wrt (<) (lock_plan (Transfer_Job (new_transaction u now r)))" for u now
      by (rule plan) (use ok Naming in \<open>auto simp: cleared_def validateRequest_Inr\<close>)
    ultimately show ?thesis using Naming h by (auto simp: locks_sorted_def took_def)
  qed (use True assms(1) h in \<open>auto simp: locks_sorted_def took_def answer_def split: prod.splits sum.splits\<close>)
next
  case False
  have st: "sorted_wrt (<) (s_held s @ todo (s_stage s))" using assms(2) by (simp add: locks_sorted_def)
  from call_todo [OF assms(1) False na, of w] show ?thesis
    using st by (auto simp: locks_sorted_def took_def sorted_wrt_append)
qed

section \<open>Progress\<close>

text \<open>How many calls a session still makes at most.\<close>

fun calls_left :: "stage \<Rightarrow> nat" where
  "calls_left (Arrived req) = 9"
| "calls_left (Beginning req) = 8"
| "calls_left (Naming tx req) = 7"
| "calls_left (Inserting tx trx) = 6"
| "calls_left (Entering tx trx) = 5"
| "calls_left (Moving tx trx ids ops) = 2 + length ops"
| "calls_left (Rolling_Back tx e) = 1"
| "calls_left (Answered x) = 0"

definition total_left :: "transfer_session list \<Rightarrow> nat" where
  "total_left ss = sum_list (map (calls_left \<circ> s_stage) ss)"

lemma call_left:
  assumes "session_call uc E R ff st W = (st', W')" and "\<not> answered st"
  shows "calls_left st' < calls_left st"
proof -
  have "length (balance_ops f g) = 2" for f g by (simp add: balance_ops_def Let_def)
  with assms show ?thesis
    by (cases "(uc, E, R, ff, st, W)" rule: session_call.cases)
      (auto simp: answer_def split: prod.splits sum.splits)
qed

lemma total_left_update:
  "i < length ss \<Longrightarrow> calls_left (s_stage s) < calls_left (s_stage (ss ! i)) \<Longrightarrow> total_left (ss[i := s]) < total_left ss"
proof (induction ss arbitrary: i)
  case (Cons a ss)
  then show ?case by (cases i) (auto simp: total_left_def)
qed simp

section \<open>The bank that serves many clients at once\<close>

text \<open>Every client's request and the answer it has got. A transfer takes effect in one step between the
  request and the answer, and the answer \<^verbatim>\<open>OK\<close> comes with it; an unreported one is followed by an error.\<close>

type_synonym client = "transaction_request \<times> uuid result option"

definition wanted :: "transaction_request \<Rightarrow> receipt \<Rightarrow> bool" where
  "wanted req rc \<longleftrightarrow> rc_From rc = req_FromAccountID req \<and> rc_To rc = req_ToAccountID req
     \<and> rc_Amount rc = req_Amount req \<and> rc_Currency rc = req_Currency req"

inductive bank_serves :: "unit \<Rightarrow> bank \<times> client list \<Rightarrow> bank \<times> client list \<Rightarrow> bool" where
  asks: "bank_serves e (B, cs) (B, cs @ [(req, None)])"
| waits: "bank_serves e (B, cs) (B, cs)"
| refuses: "i < length cs \<Longrightarrow> cs ! i = (req, None) \<Longrightarrow> bank_serves e (B, cs) (B, cs[i := (req, Some (Inl err))])"
| moves: "i < length cs \<Longrightarrow> cs ! i = (req, None) \<Longrightarrow> wanted req rc \<Longrightarrow> bank_move (req_IdempotencyKey req) rc B B' \<Longrightarrow>
     bank_serves e (B, cs) (B', cs[i := (req, Some (Inr (rc_ID rc)))])"
| moves_unreported: "i < length cs \<Longrightarrow> cs ! i = (req, None) \<Longrightarrow> wanted req rc \<Longrightarrow> bank_move (req_IdempotencyKey req) rc B B' \<Longrightarrow>
     bank_serves e (B, cs) (B', cs)"

fun reply :: "stage \<Rightarrow> uuid result option" where
  "reply (Answered x) = Some x"
| "reply st = None"

definition client_view :: "'r world \<times> transfer_session list \<Rightarrow> bank \<times> client list" where
  "client_view S = (case S of (W, ss) \<Rightarrow> (bank_of (committed (db W)), map (\<lambda>s. (s_req s, reply (s_stage s))) ss))"

lemma reply_None: "reply st = None \<longleftrightarrow> \<not> answered st"
  by (cases st) auto

lemma reply_Some: "reply st = Some x \<longleftrightarrow> st = Answered x"
  by (cases st) auto

lemma took_sel [simp]: "s_req (took w st s) = s_req s" "s_stage (took w st s) = st" "s_began (took w st s) = s_began s"
  by (simp_all add: took_def)

text \<open>The contract of the transfers over any Redis server.\<close>

locale transfer_service = redis_server R clock data for R :: "'r redis" and clock data +
  fixes E :: ext and uc :: transfer_uc
  assumes uuids: "uuid_laws E"
begin

definition running_ok :: "'r world \<times> transfer_session list \<Rightarrow> bool" where
  "running_ok S \<longleftrightarrow> inter_ok E data S \<and> (\<forall>s\<in>set (snd S). locks_sorted s)"

lemma running_step:
  assumes "inter_step uc E R S S'" and "running_ok S"
  shows "running_ok S'"
proof -
  have ok: "inter_ok E data S" "\<forall>s\<in>set (snd S). locks_sorted s" using assms(2) by (simp_all add: running_ok_def)
  from assms(1) have "\<forall>s\<in>set (snd S'). locks_sorted s"
  proof cases
    case (arrives req W ss now)
    with ok(2) show ?thesis by (auto simp: arrival_def locks_sorted_def)
  next
    case (calls i ss W ff us t fs st' W')
    have "session_ok (db W) (ss ! i)" using ok(1) calls(1,3) by (simp add: inter_ok_def)
    then have st: "stage_ok (db W) (s_req (ss ! i)) (s_began (ss ! i)) (set (s_held (ss ! i))) (s_stage (ss ! i))"
      by (simp add: session_ok_def)
    have "locks_sorted (ss ! i)" using ok(2) calls(1,3) by simp
    from locks_sorted_took [OF calls(6) this st calls(4)]
    have "locks_sorted (took (committed (db W)) st' (ss ! i))" .
    moreover have "s = took (committed (db W)) st' (ss ! i) \<or> s \<in> set ss" if "s \<in> set (snd S')" for s
      using that calls(2) set_update_subset_insert [of ss i "took (committed (db W)) st' (ss ! i)"] by (metis insertE snd_conv subsetD)
    ultimately show ?thesis using ok(2) calls(1) by (metis snd_conv)
  qed
  then show ?thesis using inter_ok_step [OF uuids assms(1) ok(1)] by (simp add: running_ok_def)
qed

lemma step_serves:
  assumes "inter_step uc E R S S'" and "running_ok S"
  shows "bank_serves e (client_view S) (client_view S')"
  using assms(1)
proof cases
  case (arrives req W ss now)
  then show ?thesis by (auto simp: client_view_def arrival_def intro: bank_serves.asks)
next
  case (calls i ss W ff us t fs st' W')
  let ?cs = "map (\<lambda>s. (s_req s, reply (s_stage s))) ss"
  have ok: "inter_ok E data (W, ss)" using assms(2) calls(1) by (simp add: running_ok_def)
  then have d: "db_ok (db W)" "journal_ok (committed (db W))" by (simp_all add: inter_ok_def)
  have i: "i < length ?cs" "?cs ! i = (s_req (ss ! i), None)" using calls(3,4) by (simp_all add: reply_None)
  have view: "client_view S = (bank_of (committed (db W)), ?cs)"
      "client_view S' = (bank_of (committed (db W')), ?cs[i := (s_req (ss ! i), reply st')])"
    using calls(1,2) by (simp_all add: client_view_def map_update)
  have same: "?cs[i := (s_req (ss ! i), None)] = ?cs" using i list_update_id [of ?cs i] by simp
  consider (still) "committed (db W') = committed (db W)" "\<forall>u. st' \<noteq> Answered (Inr u)"
    | (lands) "landed (s_req (ss ! i)) (s_began (ss ! i)) (set (s_held (ss ! i))) (db W) (s_stage (ss ! i)) (db W') st'"
    using inter_calls(2) [OF uuids ok calls(3,4,5,6)] by blast
  then show ?thesis
  proof cases
    case still
    show ?thesis
    proof (cases "reply st'")
      case None
      then show ?thesis using still view same bank_serves.waits by simp
    next
      case (Some x)
      then obtain err where "x = Inl err" using still(2) by (cases x) (auto simp: reply_Some)
      with Some still view bank_serves.refuses [OF i] show ?thesis by simp
    qed
  next
    case lands
    from landed_bank [OF lands d] obtain trx where t: "carries (s_req (ss ! i)) trx"
      "bank_move (req_IdempotencyKey (s_req (ss ! i))) (receipt_of trx) (bank_of (committed (db W))) (bank_of (committed (db W')))"
      "st' = Answered (Inr (t_ID trx)) \<or> (\<exists>tx e. st' = Rolling_Back tx e)" by blast
    have "wanted (s_req (ss ! i)) (receipt_of trx)" using carries_sel [OF t(1)] by (simp add: wanted_def)
    note m = bank_serves.moves [OF i this t(2)] bank_serves.moves_unreported [OF i this t(2)]
    from t(3) show ?thesis using m view same by auto
  qed
qed

end

sublocale transfer_service \<subseteq> clients: simulation "\<lambda>_. inter_step uc E R" bank_serves running_ok client_view
  by unfold_locales (auto dest: running_step step_serves)

section \<open>No session is stuck\<close>

context transfer_service
begin

text \<open>Of the sessions that have not answered, one can make its next call, whatever the driver does.\<close>

lemma some_free:
  assumes ok: "running_ok (W, ss)" and live: "s \<in> set ss" "\<not> answered (s_stage s)"
  shows "\<exists>i<length ss. \<not> answered (s_stage (ss ! i)) \<and> (\<forall>j<length ss. set (needs (s_stage (ss ! i)) (committed (db W))) \<inter> set (s_held (ss ! j)) = {})"
proof -
  let ?ls = "map lock_session ss"
  have sorted: "locks_sorted (ss ! j)" if "j < length ss" for j using ok that by (simp add: running_ok_def)
  have "row_locks.locks_inv ?ls"
    unfolding row_locks.locks_inv_def
  proof (intro allI impI)
    fix j rs h assume "j < length ?ls" "?ls ! j = Running rs h"
    with sorted [of j] show "sorted_wrt (<) (h @ rs)" by (simp add: lock_session_def locks_sorted_def split: if_splits)
  qed
  moreover have "lock_session s \<in> set ?ls" "\<not> ended (lock_session s)"
    using live by (auto simp: lock_session_def)
  ultimately have "\<exists>i<length ?ls. \<exists>rs h. ?ls ! i = Running rs h \<and> (\<forall>l\<in>set ?ls. set rs \<inter> set (held l) = {})"
    by (rule row_locks.unblocked)
  then obtain i rs h where i: "i < length ss" "lock_session (ss ! i) = Running rs h"
    and free: "\<forall>l\<in>set ?ls. set rs \<inter> set (held l) = {}" by auto
  then have na: "\<not> answered (s_stage (ss ! i))" and rs: "rs = todo (s_stage (ss ! i))"
    by (auto simp: lock_session_def split: if_splits)
  have "set (needs (s_stage (ss ! i)) (committed (db W))) \<inter> set (s_held (ss ! j)) = {}" if "j < length ss" for j
  proof (cases "answered (s_stage (ss ! j))")
    case True
    then show ?thesis using sorted [OF that] by (simp add: locks_sorted_def)
  next
    case False
    then have "held (lock_session (ss ! j)) = s_held (ss ! j)" by (simp add: lock_session_def)
    moreover have "set rs \<inter> set (held (lock_session (ss ! j))) = {}" using free that by simp
    ultimately show ?thesis using needs_todo [of "s_stage (ss ! i)" "committed (db W)"] rs by auto
  qed
  with i(1) na show ?thesis by blast
qed

lemma some_call:
  assumes ok: "running_ok (W, ss)" and live: "s \<in> set ss" "\<not> answered (s_stage s)"
  shows "\<exists>i W' st'. i < length ss \<and> \<not> answered (s_stage (ss ! i)) \<and> calls_left st' < calls_left (s_stage (ss ! i))
    \<and> inter_step uc E R (W, ss) (W', ss[i := took (committed (db W)) st' (ss ! i)])"
proof -
  from some_free [OF ok live] obtain i where i: "i < length ss" "\<not> answered (s_stage (ss ! i))"
    and free: "\<forall>j<length ss. j \<noteq> i \<longrightarrow> set (needs (s_stage (ss ! i)) (committed (db W))) \<inter> set (s_held (ss ! j)) = {}" by blast
  obtain st' W' where c: "session_call uc E R True (s_stage (ss ! i)) (at_call [] 0 (s_began (ss ! i)) [] W) = (st', W')"
    by fastforce
  from inter_step.calls [OF i free c] call_left [OF c i(2)] i show ?thesis by blast
qed

end

section \<open>Runs\<close>

context transfer_service
begin

lemma all_answered:
  assumes "running_ok (W, ss)"
  shows "\<exists>es W' ss'. runs (\<lambda>_ :: unit. inter_step uc E R) es (W, ss) (W', ss') \<and> length es \<le> total_left ss
    \<and> list_all (answered \<circ> s_stage) ss' \<and> map s_req ss' = map s_req ss"
  using assms
proof (induction "total_left ss" arbitrary: W ss rule: less_induct)
  case less
  show ?case
  proof (cases "list_all (answered \<circ> s_stage) ss")
    case True
    then show ?thesis by (intro exI [of _ "[]"]) auto
  next
    case False
    then obtain s where "s \<in> set ss" "\<not> answered (s_stage s)" by (auto simp: list_all_iff)
    from some_call [OF less.prems this] obtain i W1 st1 where c: "i < length ss" "calls_left st1 < calls_left (s_stage (ss ! i))"
      and st: "inter_step uc E R (W, ss) (W1, ss[i := took (committed (db W)) st1 (ss ! i)])" (is "inter_step _ _ _ _ (_, ?ss1)") by blast
    have lt: "total_left ?ss1 < total_left ss" using c by (intro total_left_update) simp_all
    have reqs: "map s_req ?ss1 = map s_req ss" using c(1) by (simp add: map_update list_update_same_conv)
    from less.hyps [OF lt running_step [OF st less.prems]] obtain es W' ss' where
      "runs (\<lambda>_ :: unit. inter_step uc E R) es (W1, ?ss1) (W', ss')" "length es \<le> total_left ?ss1"
      "list_all (answered \<circ> s_stage) ss'" "map s_req ss' = map s_req ?ss1" by blast
    with st lt reqs show ?thesis
      by (intro exI [of _ "() # es"] exI [of _ W'] exI [of _ ss']) auto
  qed
qed

lemma step_total:
  assumes "inter_step uc E R S S'" and "running_ok S"
  shows "total_in c (committed (db (fst S'))) = total_in c (committed (db (fst S)))"
  using assms(1)
proof cases
  case (calls i ss W ff us t fs st' W')
  have ok: "inter_ok E data (W, ss)" using assms(2) calls(1) by (simp add: running_ok_def)
  then have d: "db_ok (db W)" "journal_ok (committed (db W))" by (simp_all add: inter_ok_def)
  consider "committed (db W') = committed (db W)"
    | "landed (s_req (ss ! i)) (s_began (ss ! i)) (set (s_held (ss ! i))) (db W) (s_stage (ss ! i)) (db W') st'"
    using inter_calls(2) [OF uuids ok calls(3,4,5,6)] by blast
  then have "total_in c (committed (db W')) = total_in c (committed (db W))"
  proof cases
    case 2
    then show ?thesis using d
    proof (rule landed_cases, goal_cases)
      case (1 trx q)
      from 1(6) obtain rf rt where "accounts (committed (db W)) (t_FromAccountID trx) = Some rf"
        "accounts (committed (db W)) (t_ToAccountID trx) = Some rt" "acc_Currency rf = acc_Currency rt"
        by (auto simp: cleared_def carries_sel [OF 1(1)])
      then show ?case unfolding 1(2) by (rule transfer_tables_total [OF 1(5)])
    qed
  qed simp
  then show ?thesis using calls(1,2) by simp
qed simp

lemma runs_total:
  "runs (\<lambda>_ :: unit. inter_step uc E R) es S S' \<Longrightarrow> running_ok S \<Longrightarrow>
   total_in c (committed (db (fst S'))) = total_in c (committed (db (fst S)))"
proof (induction es arbitrary: S)
  case (Cons e es)
  then obtain U where "inter_step uc E R S U" "runs (\<lambda>_ :: unit. inter_step uc E R) es U S'" by auto
  with Cons step_total running_step show ?case by metis
qed simp

end

section \<open>A call that runs alone\<close>

lemma cast_now:
  assumes "with_cast tx f s = (y, t)" and "\<And>n. with_cast (Pg_Tx n) f s = (y, t) \<Longrightarrow> tx_frame n s t"
  shows "pg_now t = pg_now s"
  using assms by (cases tx) (auto simp: with_cast_def castTx_def tx_frame_def)

lemma BeginTx_now: "BeginTx s = (x, t) \<Longrightarrow> pg_now t = pg_now s"
  using BeginTx_Inl_same [of s _ t] BeginTx_Inr(4) [of s _ t] by (cases x) (auto simp: same_db_def)

lemma CreateTransaction_now: "CreateTransaction tx trx s = (y, t) \<Longrightarrow> pg_now t = pg_now s"
  unfolding CreateTransaction_def by (erule cast_now) (rule CreateTransaction_frame [unfolded CreateTransaction_def])

lemma CreatePostings_now: "CreatePostings tx ps s = (y, t) \<Longrightarrow> pg_now t = pg_now s"
  unfolding CreatePostings_def by (erule cast_now) (rule CreatePostings_frame [unfolded CreatePostings_def])

lemma balance_call_now: "balance_call tx a ids op s = (y, t) \<Longrightarrow> pg_now t = pg_now s"
  unfolding balance_call_def Let_def DebitBalance_def CreditBalance_def
  by (cases "isDebit op"; simp only: if_True if_False; erule cast_now)
    (erule DebitBalance_frame [unfolded DebitBalance_def] CreditBalance_frame [unfolded CreditBalance_def])+

lemma closing_now:
  "CommitTx tx s = (y, t) \<Longrightarrow> pg_now t = pg_now s" "RollbackTx tx s = (y, t) \<Longrightarrow> pg_now t = pg_now s"
  by (cases tx; cases "faults s"; auto simp: CommitTx_def RollbackTx_def with_cast_def castTx_def pg_defs
      split: option.splits tx_state.splits fault.splits)+

lemmas repo_now = BeginTx_now CreateTransaction_now CreatePostings_now balance_call_now closing_now

lemma validate_now: "validateTransferCurrencies E R ff f t c W = (x, W') \<Longrightarrow> pg_now (db W') = pg_now (db W)"
  using validateTransferCurrencies_same by (fastforce simp: same_world_def same_db_def)

lemma session_call_now:
  assumes "session_call uc E R ff st W = (st', W')"
  shows "pg_now (db W') = pg_now (db W)"
proof (cases "\<exists>tx e. st = Rolling_Back tx e")
  case True
  then obtain tx e where st: "st = Rolling_Back tx e" by blast
  obtain y t where "RollbackTx tx (db W) = (y, t)" by fastforce
  with assms st repo_now(6) [OF this] show ?thesis by (auto simp: on_db_def dest!: answer_cases)
next
  case False
  with assms show ?thesis
    by (cases "(uc, E, R, ff, st, W)" rule: session_call.cases)
      (auto simp: on_db_def uuid_NewV7_spec(1) split: sum.splits prod.splits dest!: answer_cases dest: repo_now validate_now)
qed

lemma at_call_id: "at_call (uuid_source W) (wall W) (pg_now (db W)) (faults (db W)) W = W"
  by (simp add: at_call_def)

text \<open>The calls of one session that runs alone are steps of the interleaving.\<close>

lemma solo_runs:
  "session_calls uc E R ff k (s_stage s) W = (st', W') \<Longrightarrow> s_began s = pg_now (db W) \<Longrightarrow>
   \<exists>es s'. runs (\<lambda>_ :: unit. inter_step uc E R) es (W, [s]) (W', [s']) \<and> length es \<le> k \<and> s_stage s' = st' \<and> s_req s' = s_req s"
proof (induction k arbitrary: s W)
  case 0
  then show ?case by (intro exI [of _ "[]"] exI [of _ s]) auto
next
  case (Suc k)
  show ?case
  proof (cases "answered (s_stage s)")
    case True
    then obtain x where "s_stage s = Answered x" by (cases "s_stage s") auto
    with Suc.prems show ?thesis by (intro exI [of _ "[]"] exI [of _ s]) auto
  next
    case False
    obtain st1 W1 where c: "session_call uc E R ff (s_stage s) W = (st1, W1)" by fastforce
    let ?s = "took (committed (db W)) st1 s"
    have "session_call uc E R ff (s_stage ([s] ! 0)) (at_call (uuid_source W) (wall W) (s_began ([s] ! 0)) (faults (db W)) W) = (st1, W1)"
      using c Suc.prems(2) at_call_id [of W] by simp
    from inter_step.calls [OF _ _ _ this] False have st: "inter_step uc E R (W, [s]) (W1, [?s])" by simp
    have "session_calls uc E R ff k (s_stage ?s) W1 = (st', W')" using c Suc.prems(1) by simp
    from Suc.IH [OF this] Suc.prems(2) session_call_now [OF c] obtain es s' where
      "runs (\<lambda>_ :: unit. inter_step uc E R) es (W1, [?s]) (W', [s'])" "length es \<le> k" "s_stage s' = st'" "s_req s' = s_req s" by auto
    with st show ?thesis by (intro exI [of _ "() # es"] exI [of _ s']) auto
  qed
qed

lemma Transaction_runs:
  assumes "Transaction uc E R ff req W = (x, W')" and "bigint (req_Amount req)"
  shows "\<exists>es s. runs (\<lambda>_ :: unit. inter_step uc E R) es (W, []) (W', [s]) \<and> s_req s = req \<and> s_stage s = Answered x"
proof -
  have "session_calls uc E R ff 10 (s_stage (arrival req (pg_now (db W)))) W = (Answered x, W')"
    using solo_calls [OF assms(1)] by (simp add: arrival_def)
  from solo_runs [OF this] obtain es s where
    "runs (\<lambda>_ :: unit. inter_step uc E R) es (W, [arrival req (pg_now (db W))]) (W', [s])" "s_req s = req" "s_stage s = Answered x"
    by (auto simp: arrival_def)
  then show ?thesis
    using inter_step.arrives [OF assms(2), of uc E R W "[]" "pg_now (db W)"] by (intro exI [of _ "() # es"] exI [of _ s]) auto
qed

lemma inter_step_left:
  assumes "inter_step uc E R S S'"
  shows "length (snd S) \<le> length (snd S') \<and> (length (snd S') = length (snd S) \<longrightarrow> total_left (snd S') < total_left (snd S))"
  using assms
proof cases
  case (calls i ss W ff us t fs st' W')
  then show ?thesis using total_left_update [OF calls(3)] call_left [OF calls(6,4)] by simp
qed simp

lemma runs_left:
  "runs (\<lambda>_ :: unit. inter_step uc E R) es S S' \<Longrightarrow>
   length (snd S) \<le> length (snd S') \<and> (length (snd S') = length (snd S) \<longrightarrow> length es + total_left (snd S') \<le> total_left (snd S))"
proof (induction es arbitrary: S)
  case (Cons e es)
  then obtain U where "inter_step uc E R S U" "runs (\<lambda>_ :: unit. inter_step uc E R) es U S'" by auto
  with Cons.IH inter_step_left show ?case by (smt (verit) add_Suc le_antisym le_trans length_Cons less_eq_Suc_le not_less_eq_eq)
qed simp

lemma session_left: "session_ok d s \<Longrightarrow> calls_left (s_stage s) \<le> 9"
proof (cases "s_stage s")
  case (Moving tx trx ids ops)
  assume "session_ok d s"
  then obtain dn where "balance_ops (t_FromAccountID trx) (t_ToAccountID trx) = dn @ ops"
    using Moving by (auto simp: session_ok_def)
  from arg_cong [OF this, of length] Moving show ?thesis by (simp add: balance_ops_def Let_def split: if_splits)
qed simp_all

section \<open>A service in use\<close>

definition service_start :: "ext \<Rightarrow> ('r \<Rightarrow> store) \<Rightarrow> 'r world \<Rightarrow> bool" where
  "service_start E data W \<longleftrightarrow> coherent E (data (cache W)) (committed (db W)) \<and> db_ok (db W)
     \<and> journal_ok (committed (db W)) \<and> handles_ok (db W)"

text \<open>Every answer \<^verbatim>\<open>OK\<close> stands for a committed transaction of its request.\<close>

definition recorded :: "tables \<Rightarrow> transfer_session \<Rightarrow> bool" where
  "recorded w s \<longleftrightarrow> (\<forall>u. s_stage s = Answered (Inr u) \<longrightarrow>
     (\<exists>t\<in>set (transactions w). t_ID t = u \<and> t_IdempotencyKey t = req_IdempotencyKey (s_req s) \<and> wanted (s_req s) (receipt_of t)))"

lemma session_ok_recorded:
  assumes "session_ok d s"
  shows "recorded (committed d) s"
  unfolding recorded_def
proof (intro allI impI)
  fix u assume "s_stage s = Answered (Inr u)"
  with assms obtain trx where "carries (s_req s) trx" "t_ID trx = u" "stored_transaction trx \<in> set (transactions (committed d))"
    by (auto simp: session_ok_def)
  then show "\<exists>t\<in>set (transactions (committed d)). t_ID t = u \<and> t_IdempotencyKey t = req_IdempotencyKey (s_req s) \<and> wanted (s_req s) (receipt_of t)"
    by (intro bexI [of _ "stored_transaction trx"]) (auto simp: carries_sel wanted_def)
qed

context transfer_service
begin

lemma service_start_ok: "service_start E data W \<Longrightarrow> running_ok (W, [])"
  by (simp add: service_start_def running_ok_def inter_ok_def)

lemma left_bound: "running_ok (W, ss) \<Longrightarrow> total_left ss \<le> 9 * length ss"
proof -
  assume "running_ok (W, ss)"
  then have "\<forall>s\<in>set ss. calls_left (s_stage s) \<le> 9"
    using session_left by (fastforce simp: running_ok_def inter_ok_def in_set_conv_nth)
  then show ?thesis by (induction ss) (auto simp: total_left_def)
qed

lemma sound:
  assumes "service_start E data W" and "runs (\<lambda>_ :: unit. inter_step uc E R) es (W, []) (W', ss)"
  shows "db_ok (db W') \<and> journal_ok (committed (db W')) \<and> coherent E (data (cache W')) (committed (db W'))
    \<and> (\<forall>c. total_in c (committed (db W')) = total_in c (committed (db W))) \<and> (\<forall>s\<in>set ss. recorded (committed (db W')) s)"
proof -
  have "running_ok (W', ss)" using clients.runs_ok [OF assms(2) service_start_ok [OF assms(1)]] .
  then show ?thesis
    using runs_total [OF assms(2) service_start_ok [OF assms(1)]] session_ok_recorded
    by (auto simp: running_ok_def inter_ok_def in_set_conv_nth)
qed

lemma clients_follow:
  "service_start E data W \<Longrightarrow> runs (\<lambda>_. inter_step uc E R) es (W, []) S \<Longrightarrow>
   runs bank_serves es (bank_of (committed (db W)), []) (client_view S)"
  using clients.runs_follow [OF _ service_start_ok] by (fastforce simp: client_view_def)

lemma finishes:
  assumes "service_start E data W" and "runs (\<lambda>_ :: unit. inter_step uc E R) es (W, []) (W1, ss1)"
  shows "(\<exists>fs W2 ss2. runs (\<lambda>_ :: unit. inter_step uc E R) fs (W1, ss1) (W2, ss2) \<and> list_all (answered \<circ> s_stage) ss2 \<and> map s_req ss2 = map s_req ss1)
    \<and> (\<forall>fs W2 ss2. runs (\<lambda>_ :: unit. inter_step uc E R) fs (W1, ss1) (W2, ss2) \<longrightarrow> length ss2 = length ss1 \<longrightarrow> length fs \<le> 9 * length ss1)"
proof -
  have ok: "running_ok (W1, ss1)" using clients.runs_ok [OF assms(2) service_start_ok [OF assms(1)]] .
  have "length fs \<le> 9 * length ss1"
    if "runs (\<lambda>_ :: unit. inter_step uc E R) fs (W1, ss1) (W2, ss2)" "length ss2 = length ss1" for fs W2 ss2
    using runs_left [OF that(1)] that(2) left_bound [OF ok] by simp
  then show ?thesis using all_answered [OF ok] by blast
qed

end

lemma transfer_serviceI: "redis_server R clock data \<Longrightarrow> uuid_laws E \<Longrightarrow> transfer_service R clock data E"
  by (simp add: transfer_service_def transfer_service_axioms_def)

interpretation ref_service: transfer_service ref_client rr_clock rr_data ref_ext sample_uc
  by unfold_locales (rule ref_uuid_laws)

lemma sample_service_start: "service_start ref_ext rr_data sample_world"
  by (simp add: service_start_def)

lemma sample_service_run:
  obtains es s where "runs (\<lambda>_ :: unit. inter_step sample_uc ref_ext ref_client) es (sample_world, []) (snd sample_run, [s])"
    and "s_req s = sample_request" "s_stage s = Answered (Inr 13)"
  using Transaction_runs [OF sample_run_eq] by (auto simp: sample_request_def bigint_def)

section \<open>Theorems\<close>

text \<open>C8. \<^verbatim>\<open>Transaction\<close> is the sequence of its calls: validation, \<^verbatim>\<open>BeginTx\<close>, \<^verbatim>\<open>uuid.NewV7\<close>, the two
  INSERTs, the two UPDATEs, \<^verbatim>\<open>CommitTx\<close> and, after an error, \<^verbatim>\<open>RollbackTx\<close>. Made one after the other, with
  nobody in between, at most ten of them give the result and the state of \<^verbatim>\<open>Transaction\<close>, under every
  pattern of failures.\<close>

theorem Transaction_calls:
  "session_calls uc E R ff 10 (Arrived req) W = (case Transaction uc E R ff req W of (x, W') \<Rightarrow> (Answered x, W'))"
  using solo_calls [of uc E R ff req W] by (auto split: prod.split)

text \<open>Transfers interleaved statement by statement keep the ledger sound. Any number of requests arrive at
  any time; the calls of their sessions alternate in any order that the row and index locks of
  PostgreSQL allow, each call may fail before or after the server acts, posting ids are drawn from
  the sequence in one order and committed in another. At every moment the constraints hold, every
  balance is the sum of its postings and the newest of them is its \<^verbatim>\<open>latest_posting_id\<close>, the journal is in
  double entry, the money in each currency is what it was, the cache agrees with the tables, and
  every \<^verbatim>\<open>OK\<close> stands for a committed transaction of its request.\<close>

theorem interleaved_sound:
  assumes "redis_server R clock data" and "uuid_laws E" and "service_start E data W"
    and "runs (\<lambda>_ :: unit. inter_step uc E R) es (W, []) (W', ss)"
  shows "db_ok (db W') \<and> journal_ok (committed (db W')) \<and> coherent E (data (cache W')) (committed (db W'))
    \<and> (\<forall>c. total_in c (committed (db W')) = total_in c (committed (db W))) \<and> (\<forall>s\<in>set ss. recorded (committed (db W')) s)"
  by (rule transfer_service.sound [OF transfer_serviceI [OF assms(1,2)] assms(3,4)])

theorem interleaved_sound_witness:
  "books_ok (committed (db (snd sample_run))) \<and> total_in CURRENCY_USD (committed (db (snd sample_run))) = total_in CURRENCY_USD sample_tables"
proof (rule sample_service_run)
  fix es s
  assume "runs (\<lambda>_ :: unit. inter_step sample_uc ref_ext ref_client) es (sample_world, []) (snd sample_run, [s])"
  from interleaved_sound [OF ref.redis_server_axioms ref_uuid_laws sample_service_start this]
  show ?thesis by (simp add: db_ok_def)
qed

text \<open>Interleaved transfers are linearizable: what the clients see, every request with its answer, is what
  they could see of a bank that serves one transfer at a time. Each transfer takes effect in one step
  between its request and its answer, with cover and under a key not used before; the answer \<^verbatim>\<open>OK\<close> carries
  the id of the receipt; an error leaves the bank alone, or follows a transfer whose acknowledgement was
  lost. The committed tables represent the bank after every statement.\<close>

theorem interleaved_refines_bank:
  assumes "redis_server R clock data" and "uuid_laws E" and "service_start E data W"
    and "runs (\<lambda>_. inter_step uc E R) es (W, []) S"
  shows "runs bank_serves es (bank_of (committed (db W)), []) (client_view S)"
  by (rule transfer_service.clients_follow [OF transfer_serviceI [OF assms(1,2)] assms(3,4)])

theorem interleaved_refines_bank_witness:
  "\<exists>es. runs bank_serves es (bank_of sample_tables, []) (bank_of (committed (db (snd sample_run))), [(sample_request, Some (Inr 13))])"
proof (rule sample_service_run)
  fix es s
  assume r: "runs (\<lambda>_ :: unit. inter_step sample_uc ref_ext ref_client) es (sample_world, []) (snd sample_run, [s])"
    and s: "s_req s = sample_request" "s_stage s = Answered (Inr 13)"
  from interleaved_refines_bank [OF ref.redis_server_axioms ref_uuid_laws sample_service_start r] s
  show ?thesis by (auto simp: client_view_def)
qed

text \<open>Interleaved transfers finish: from every state that a run reaches all sessions can be brought to an
  answer without a further request, and whatever the order, no more than nine calls per session are
  made before the next request arrives. No session waits in a circle, since every session locks its
  index entries first and then the rows in the order of the account ids.\<close>

theorem interleaved_finish:
  assumes "redis_server R clock data" and "uuid_laws E" and "service_start E data W"
    and "runs (\<lambda>_ :: unit. inter_step uc E R) es (W, []) (W1, ss1)"
  shows "(\<exists>fs W2 ss2. runs (\<lambda>_ :: unit. inter_step uc E R) fs (W1, ss1) (W2, ss2) \<and> list_all (answered \<circ> s_stage) ss2 \<and> map s_req ss2 = map s_req ss1)
    \<and> (\<forall>fs W2 ss2. runs (\<lambda>_ :: unit. inter_step uc E R) fs (W1, ss1) (W2, ss2) \<longrightarrow> length ss2 = length ss1 \<longrightarrow> length fs \<le> 9 * length ss1)"
  by (rule transfer_service.finishes [OF transfer_serviceI [OF assms(1,2)] assms(3,4)])

theorem interleaved_finish_witness:
  "\<exists>fs W2 ss2. runs (\<lambda>_ :: unit. inter_step sample_uc ref_ext ref_client) fs
       (sample_world, [arrival sample_request 5, arrival (sample_request\<lparr>req_FromAccountID := 1, req_ToAccountID := 2\<rparr>) 6]) (W2, ss2)
     \<and> list_all (answered \<circ> s_stage) ss2 \<and> length ss2 = 2"
proof -
  let ?ss = "[arrival sample_request 5, arrival (sample_request\<lparr>req_FromAccountID := 1, req_ToAccountID := 2\<rparr>) 6]"
  have b: "bigint (req_Amount sample_request)" "bigint (req_Amount (sample_request\<lparr>req_FromAccountID := 1, req_ToAccountID := 2\<rparr>))"
    by (simp_all add: sample_request_def bigint_def)
  have "runs (\<lambda>_ :: unit. inter_step sample_uc ref_ext ref_client) [(), ()] (sample_world, []) (sample_world, ?ss)"
    using inter_step.arrives [OF b(1), of sample_uc ref_ext ref_client sample_world "[]" 5]
      inter_step.arrives [OF b(2), of sample_uc ref_ext ref_client sample_world "[arrival sample_request 5]" 6] by auto
  from interleaved_finish [OF ref.redis_server_axioms ref_uuid_laws sample_service_start this]
  obtain fs W2 ss2 where f: "runs (\<lambda>_ :: unit. inter_step sample_uc ref_ext ref_client) fs (sample_world, ?ss) (W2, ss2)"
      "list_all (answered \<circ> s_stage) ss2" "map s_req ss2 = map s_req ?ss" by blast
  from arg_cong [OF f(3), of length] have "length ss2 = 2" by simp
  with f(1,2) show ?thesis by blast
qed

end
