(* ===== verification/Opening_Calls.thy ===== *)
theory Opening_Calls
  imports Opening_Session Interleaving_Laws
begin

text \<open>
  Transfers and openings of accounts at once, interleaved between any two calls of a repository. The sessions of
  \<open>Interleaving\<close> keep their invariant; an opening has one of its own, of the same form: what it holds, the posting
  id it drew, and the function that its transaction will apply at commit. A session of one kind
  changes the tables only in ways that spare the others (\<open>passes_by\<close>).
\<close>

section \<open>An opening's transaction as a function\<close>

lemma CreateAccount_Active:
  "Postgres.CreateAccount (Pg_Tx n) a s = (Inr y, t) \<Longrightarrow> open_txs s n = Some (Active u) \<Longrightarrow>
   open_txs t n = Some (Active (add_account (a\<lparr>acc_UpdatedAt := pg_now s\<rparr>) \<circ> u))"
  by (auto simp: Postgres.CreateAccount_def insert_account_def split: if_splits
      elim!: on_error_cases tx_Exec_Active)

lemma CreditBalance_Active:
  assumes "CreditBalance (Pg_Tx n) i amount pid s = (Inr y, t)" and "open_txs s n = Some (Active u)"
  shows "open_txs t n = Some (Active (upd_row i (move_row amount pid (pg_now s)) \<circ> u))"
    and "postings_id_seq t = postings_id_seq s"
  using assms
  by (auto simp: CreditBalance_def update_account_def split: if_splits option.splits elim!: on_error_cases bind_r_cases tx_Exec_Active)

section \<open>What holds of an opening\<close>

record opening_session =
  o_currency :: currency
  o_began :: time
  o_stage :: opening_stage
  o_held :: "resource list"

text \<open>The account to be inserted and the transaction of its opening balance.\<close>

definition plain :: "currency \<Rightarrow> account \<Rightarrow> bool" where
  "plain c a \<longleftrightarrow> c \<noteq> CURRENCY_UNSPECIFIED \<and> (\<exists>i t. a = new_account i c t)"

definition opens_with :: "account \<Rightarrow> transaction \<Rightarrow> bool" where
  "opens_with a trx \<longleftrightarrow> t_FromAccountID trx = acc_ID a \<and> t_ToAccountID trx = acc_ID a \<and> t_Currency trx = acc_Currency a
     \<and> 0 < t_Amount trx \<and> t_Amount trx < 100000000"

text \<open>The id of the new account is in the hands of the session: its row and its index entry are one resource.\<close>

definition mine :: "resource set \<Rightarrow> account \<Rightarrow> tables \<Rightarrow> bool" where
  "mine H a w \<longleftrightarrow> Account_Row (acc_ID a) \<in> H \<and> accounts w (acc_ID a) = None"

definition unused_id :: "int \<Rightarrow> int \<Rightarrow> tables \<Rightarrow> bool" where
  "unused_id Q pid w \<longleftrightarrow> 0 < pid \<and> pid \<le> Q \<and> (\<forall>p\<in>set (postings w). p_ID p \<noteq> pid)"

abbreviation adds :: "account \<Rightarrow> time \<Rightarrow> tables \<Rightarrow> tables" where
  "adds a now \<equiv> add_account (new_account (acc_ID a) (acc_Currency a) now)"

fun opening_ok :: "pg \<Rightarrow> currency \<Rightarrow> time \<Rightarrow> resource set \<Rightarrow> opening_stage \<Rightarrow> bool" where
  "opening_ok d c now H (Op_Arrived c' rnd) \<longleftrightarrow> c' = c"
| "opening_ok d c now H (Op_Beginning a b) \<longleftrightarrow> plain c a \<and> 0 \<le> b \<and> b < 100000000"
| "opening_ok d c now H (Op_Inserting tx a b) \<longleftrightarrow> plain c a \<and> 0 \<le> b \<and> b < 100000000 \<and> holds_tx d tx id"
| "opening_ok d c now H (Op_Keying tx a b) \<longleftrightarrow> plain c a \<and> 0 < b \<and> b < 100000000 \<and> mine H a (committed d) \<and> holds_tx d tx (adds a now)"
| "opening_ok d c now H (Op_Naming tx a b k) \<longleftrightarrow> plain c a \<and> 0 < b \<and> b < 100000000 \<and> mine H a (committed d) \<and> holds_tx d tx (adds a now)"
| "opening_ok d c now H (Op_Recording tx a trx) \<longleftrightarrow> plain c a \<and> opens_with a trx \<and> mine H a (committed d) \<and> holds_tx d tx (adds a now)"
| "opening_ok d c now H (Op_Posting tx a trx) \<longleftrightarrow> plain c a \<and> opens_with a trx \<and> mine H a (committed d) \<and> claimed H trx (committed d)
     \<and> holds_tx d tx (add_transaction trx \<circ> adds a now)"
| "opening_ok d c now H (Op_Crediting tx a trx pid) \<longleftrightarrow> plain c a \<and> opens_with a trx \<and> mine H a (committed d) \<and> claimed H trx (committed d)
     \<and> unused_id (postings_id_seq d) pid (committed d) \<and> holds_tx d tx (add_postings [opening_entry trx pid] \<circ> add_transaction trx \<circ> adds a now)"
| "opening_ok d c now H (Op_Committing tx a None) \<longleftrightarrow> plain c a \<and> mine H a (committed d) \<and> holds_tx d tx (adds a now)"
| "opening_ok d c now H (Op_Committing tx a (Some (trx, pid))) \<longleftrightarrow> plain c a \<and> opens_with a trx \<and> mine H a (committed d) \<and> claimed H trx (committed d)
     \<and> unused_id (postings_id_seq d) pid (committed d) \<and> holds_tx d tx (opening_tables (acc_ID a) (acc_Currency a) trx (pid - 1) now)"
| "opening_ok d c now H (Op_Caching a) \<longleftrightarrow> (\<exists>r. accounts (committed d) (acc_ID a) = Some r \<and> acc_Currency r = c) \<and> acc_Currency a = c"
| "opening_ok d c now H (Op_Rolling_Back tx e) \<longleftrightarrow> (\<exists>n. tx = Pg_Tx n)"
| "opening_ok d c now H (Op_Answered x) \<longleftrightarrow> (\<forall>i. x = Inr i \<longrightarrow> (\<exists>r. accounts (committed d) i = Some r \<and> acc_Currency r = c))"

fun op_handle :: "opening_stage \<Rightarrow> nat option" where
  "op_handle (Op_Inserting (Pg_Tx n) a b) = Some n"
| "op_handle (Op_Keying (Pg_Tx n) a b) = Some n"
| "op_handle (Op_Naming (Pg_Tx n) a b k) = Some n"
| "op_handle (Op_Recording (Pg_Tx n) a trx) = Some n"
| "op_handle (Op_Posting (Pg_Tx n) a trx) = Some n"
| "op_handle (Op_Crediting (Pg_Tx n) a trx pid) = Some n"
| "op_handle (Op_Committing (Pg_Tx n) a p) = Some n"
| "op_handle (Op_Rolling_Back (Pg_Tx n) e) = Some n"
| "op_handle st = None"

fun op_ids :: "opening_stage \<Rightarrow> int set" where
  "op_ids (Op_Crediting tx a trx pid) = {pid}"
| "op_ids (Op_Committing tx a (Some (trx, pid))) = {pid}"
| "op_ids st = {}"

text \<open>An INSERT waits for a session that inserted the same key; one that finds its key committed fails at once.\<close>

fun op_needs :: "opening_stage \<Rightarrow> tables \<Rightarrow> resource list" where
  "op_needs (Op_Inserting tx a b) w = (if accounts w (acc_ID a) = None then [Account_Row (acc_ID a)] else [])"
| "op_needs (Op_Recording tx a trx) w =
     (if \<exists>t'\<in>set (transactions w). t_ID t' = t_ID trx \<or> t_IdempotencyKey t' = t_IdempotencyKey trx then []
      else [Id_Entry (t_ID trx), Key_Entry (t_IdempotencyKey trx)])"
| "op_needs st w = []"

text \<open>The server has ended the transaction, and with it the locks.\<close>

fun op_released :: "opening_stage \<Rightarrow> bool" where
  "op_released (Op_Caching a) \<longleftrightarrow> True"
| "op_released (Op_Answered x) \<longleftrightarrow> True"
| "op_released st \<longleftrightarrow> False"

fun op_answered :: "opening_stage \<Rightarrow> bool" where
  "op_answered (Op_Answered x) \<longleftrightarrow> True"
| "op_answered st \<longleftrightarrow> False"

definition op_took :: "tables \<Rightarrow> opening_stage \<Rightarrow> opening_session \<Rightarrow> opening_session" where
  "op_took w st o' = o'\<lparr>o_stage := st, o_held := (if op_released st then [] else o_held o' @ op_needs (o_stage o') w)\<rparr>"

definition op_arrival :: "currency \<Rightarrow> nat \<Rightarrow> time \<Rightarrow> opening_session" where
  "op_arrival c rnd now = \<lparr>o_currency = c, o_began = now, o_stage = Op_Arrived c rnd, o_held = []\<rparr>"

lemma spares_mine: "spares H I w w' \<Longrightarrow> mine H a w \<Longrightarrow> mine H a w'"
  by (simp add: spares_def mine_def)

lemma spares_unused: "spares H I w w' \<Longrightarrow> unused_id Q pid w \<Longrightarrow> pid \<in> I \<Longrightarrow> Q \<le> Q' \<Longrightarrow> unused_id Q' pid w'"
  unfolding spares_def unused_id_def by (metis order_trans)

lemma spares_row: "spares H I w w' \<Longrightarrow> \<exists>r. accounts w i = Some r \<and> acc_Currency r = c \<Longrightarrow> \<exists>r. accounts w' i = Some r \<and> acc_Currency r = c"
  unfolding spares_def by metis

lemma opening_ok_spared:
  assumes ok: "opening_ok d c now H st" and sp: "spares H (op_ids st) (committed d) (committed d')"
    and seq: "postings_id_seq d \<le> postings_id_seq d'"
    and tx: "\<And>n. op_handle st = Some n \<Longrightarrow> open_txs d' n = open_txs d n"
  shows "opening_ok d' c now H st"
proof -
  note keep = spares_mine [OF sp] spares_claimed [OF sp] spares_unused [OF sp _ _ seq] spares_row [OF sp]
  show ?thesis
    using ok tx keep by (cases "(d, c, now, H, st)" rule: opening_ok.cases) auto
qed

section \<open>What a call of an opening does\<close>

definition op_frame :: "pg \<Rightarrow> opening_stage \<Rightarrow> pg \<Rightarrow> opening_stage \<Rightarrow> bool" where
  "op_frame d st d' st' \<longleftrightarrow> next_tx d \<le> next_tx d' \<and> postings_id_seq d \<le> postings_id_seq d' \<and> handles_ok d'
     \<and> (\<forall>m<next_tx d. op_handle st \<noteq> Some m \<longrightarrow> open_txs d' m = open_txs d m)
     \<and> (\<forall>n. op_handle st' = Some n \<longrightarrow> n < next_tx d' \<and> (op_handle st = Some n \<or> next_tx d \<le> n))
     \<and> (\<forall>i\<in>op_ids st'. i \<in> op_ids st \<or> postings_id_seq d < i)"

definition op_landed :: "currency \<Rightarrow> time \<Rightarrow> resource set \<Rightarrow> pg \<Rightarrow> opening_stage \<Rightarrow> pg \<Rightarrow> opening_stage \<Rightarrow> bool" where
  "op_landed c now H d st d' st' \<longleftrightarrow> (\<exists>tx a p. st = Op_Committing tx a p \<and> opening_ok d c now H st \<and> postings_id_seq d' = postings_id_seq d
     \<and> committed d' = (case p of None \<Rightarrow> adds a now (committed d)
         | Some (trx, pid) \<Rightarrow> opening_tables (acc_ID a) (acc_Currency a) trx (pid - 1) now (committed d))
     \<and> (st' = Op_Caching a \<or> (\<exists>e. st' = Op_Rolling_Back tx e)))"

definition op_call_ok :: "currency \<Rightarrow> time \<Rightarrow> resource set \<Rightarrow> resource set \<Rightarrow> pg \<Rightarrow> opening_stage \<Rightarrow> pg \<Rightarrow> opening_stage \<Rightarrow> bool" where
  "op_call_ok c now H H' d st d' st' \<longleftrightarrow> op_frame d st d' st' \<and> opening_ok d' c now H' st'
     \<and> (committed d' = committed d \<and> (\<forall>a. st' \<noteq> Op_Caching a) \<or> op_landed c now H d st d' st')"

lemma op_call_ok_tx:
  assumes "tx_frame n d d'" and "op_handle st = Some n" and "op_handle st' = Some n" and "handles_ok d" and "n < next_tx d"
    and "\<forall>i\<in>op_ids st'. i \<in> op_ids st \<or> postings_id_seq d < i" and "opening_ok d' c now H' st'"
  shows "op_call_ok c now H H' d st d' st'"
  using assms by (auto simp: op_call_ok_def op_frame_def tx_frame_def handles_ok_def)

lemma op_rolling_back_ok:
  assumes "tx_frame n d d'" and "op_handle st = Some n" and "handles_ok d" and "n < next_tx d"
  shows "op_call_ok c now H H' d st d' (Op_Rolling_Back (Pg_Tx n) e)"
  using assms by (intro op_call_ok_tx) auto

lemma op_same_db:
  assumes "db W' = db W" and "op_handle st = op_handle st'" and "op_ids st' = {}" and "handles_ok (db W)" and "opening_ok (db W) c now H' st'"
    and "\<And>n. op_handle st = Some n \<Longrightarrow> n < next_tx (db W)" and "\<forall>a. st' \<noteq> Op_Caching a"
  shows "op_call_ok c now H H' (db W) st (db W') st'"
  using assms by (auto simp: op_call_ok_def op_frame_def)

lemma op_Inserting_ok:
  assumes call: "opening_call E R (Op_Inserting tx a b) W = (st', W')" and ok: "opening_ok (db W) c now H (Op_Inserting tx a b)"
    and h: "handles_ok (db W)" and now: "pg_now (db W) = now"
  shows "op_call_ok c now H (H \<union> set (op_needs (Op_Inserting tx a b) (committed (db W)))) (db W) (Op_Inserting tx a b) (db W') st'"
proof -
  obtain n where n: "tx = Pg_Tx n" "open_txs (db W) n = Some (Active id)" using ok by auto
  then have lt: "n < next_tx (db W)" using open_lt [OF h] by blast
  obtain x d' where ca: "Postgres.CreateAccount (Pg_Tx n) a (db W) = (x, d')" by fastforce
  note fr = CreateAccount_frame [OF ca]
  show ?thesis
  proof (cases x)
    case (Inl e)
    with call ca n fr lt h show ?thesis by (auto simp: on_db_def intro!: op_rolling_back_ok)
  next
    case (Inr y)
    have view: "tx_view n (db W) = Some (committed (db W))" using n by (simp add: tx_view_def)
    note i = CreateAccount_Inr [OF ca [unfolded Inr] view]
    have "a\<lparr>acc_UpdatedAt := now\<rparr> = new_account (acc_ID a) (acc_Currency a) now" using ok by (auto simp: plain_def new_account_def)
    then have a: "open_txs d' n = Some (Active (adds a now))"
      using CreateAccount_Active [OF ca [unfolded Inr] n(2)] now by simp
    have "committed d' = committed (db W)" using fr by (simp add: tx_frame_def)
    with i ok a call ca n fr lt h Inr show ?thesis
      by (cases "0 < b") (auto simp: on_db_def mine_def intro!: op_call_ok_tx)
  qed
qed

lemma op_Recording_ok:
  assumes call: "opening_call E R (Op_Recording tx a trx) W = (st', W')" and ok: "opening_ok (db W) c now H (Op_Recording tx a trx)"
    and h: "handles_ok (db W)"
  shows "op_call_ok c now H (H \<union> set (op_needs (Op_Recording tx a trx) (committed (db W)))) (db W) (Op_Recording tx a trx) (db W') st'"
proof -
  obtain n where n: "tx = Pg_Tx n" "open_txs (db W) n = Some (Active (adds a now))" using ok by auto
  then have lt: "n < next_tx (db W)" using open_lt [OF h] by blast
  obtain x d' where ct: "CreateTransaction (Pg_Tx n) trx (db W) = (x, d')" by fastforce
  note fr = CreateTransaction_frame [OF ct]
  show ?thesis
  proof (cases x)
    case (Inl e)
    with call ct n fr lt h show ?thesis by (auto simp: on_db_def intro!: op_rolling_back_ok)
  next
    case (Inr y)
    have view: "tx_view n (db W) = Some (adds a now (committed (db W)))" using n by (simp add: tx_view_def)
    note i = CreateTransaction_Inr [OF ct [unfolded Inr] view]
    note act = CreateTransaction_Active [OF ct [unfolded Inr] n(2)]
    have w: "committed d' = committed (db W)" using fr by (simp add: tx_frame_def)
    have st: "st' = Op_Posting tx a trx" "db W' = d'" using call ct n Inr by (auto simp: on_db_def)
    have "opening_ok d' c now (H \<union> set (op_needs (Op_Recording tx a trx) (committed (db W)))) st'"
      using ok act i w n by (auto simp: st mine_def claimed_def comp_def)
    then show ?thesis unfolding st by (intro op_call_ok_tx [OF fr _ _ h lt]) (simp_all add: n)
  qed
qed

lemma op_Posting_ok:
  assumes call: "opening_call E R (Op_Posting tx a trx) W = (st', W')" and ok: "opening_ok (db W) c now H (Op_Posting tx a trx)"
    and h: "handles_ok (db W)" and d: "db_ok (db W)"
  shows "op_call_ok c now H H (db W) (Op_Posting tx a trx) (db W') st'"
proof -
  let ?q = "postings_id_seq (db W)" and ?w = "committed (db W)" and ?ps = "[opening_posting (t_ID trx) (acc_ID a) (t_Amount trx)]"
  obtain n where n: "tx = Pg_Tx n" "open_txs (db W) n = Some (Active (add_transaction trx \<circ> adds a now))" using ok by auto
  then have lt: "n < next_tx (db W)" using open_lt [OF h] by blast
  obtain x d' where cp: "CreatePostings (Pg_Tx n) ?ps (db W) = (x, d')" by fastforce
  note fr = CreatePostings_frame [OF cp]
  show ?thesis
  proof (cases x)
    case (Inl e)
    with call cp n fr lt h show ?thesis by (auto simp: on_db_def intro!: op_rolling_back_ok)
  next
    case (Inr ids)
    have len: "length ?ps = 1 \<or> length ?ps = 2" by simp
    have view: "tx_view n (db W) = Some (add_transaction trx (adds a now ?w))" using n by (simp add: tx_view_def)
    note i = CreatePostings_Inr [OF cp [unfolded Inr] view len]
    have ids: "ids (acc_ID a) = Some (?q + 1)" using i(2) by (simp add: created_ids_def opening_posting_def)
    have e: "number_postings ?q ?ps = [opening_entry trx (?q + 1)]"
      using ok by (simp add: opening_entry_def opens_with_def)
    note act = CreatePostings_Active [OF cp [unfolded Inr] n(2) len, unfolded e]
    have w: "committed d' = ?w" using fr by (simp add: tx_frame_def)
    have "unused_id (?q + 1) (?q + 1) ?w" using d by (fastforce simp: db_ok_def unused_id_def dest: schema_ok_posting_ids)
    moreover have "postings_id_seq d' = ?q + 1" using i(3) by simp
    moreover have st: "st' = Op_Crediting tx a trx (?q + 1)" "db W' = d'" using call cp n Inr ids by (auto simp: on_db_def)
    ultimately have "opening_ok d' c now H st'"
      using ok act w n by (auto simp: comp_def)
    then show ?thesis unfolding st by (intro op_call_ok_tx [OF fr _ _ h lt]) (simp_all add: n)
  qed
qed

lemma op_Crediting_ok:
  assumes call: "opening_call E R (Op_Crediting tx a trx pid) W = (st', W')" and ok: "opening_ok (db W) c now H (Op_Crediting tx a trx pid)"
    and h: "handles_ok (db W)" and now: "pg_now (db W) = now"
  shows "op_call_ok c now H H (db W) (Op_Crediting tx a trx pid) (db W') st'"
proof -
  obtain n where n: "tx = Pg_Tx n" "open_txs (db W) n = Some (Active (add_postings [opening_entry trx pid] \<circ> add_transaction trx \<circ> adds a now))"
    using ok by auto
  note lt = open_lt [OF h n(2)]
  obtain x d' where cb: "CreditBalance (Pg_Tx n) (acc_ID a) (t_Amount trx) pid (db W) = (x, d')" by fastforce
  note fr = CreditBalance_frame [OF cb]
  show ?thesis
  proof (cases x)
    case (Inl e)
    with call cb n fr lt h show ?thesis by (auto simp: on_db_def intro!: op_rolling_back_ok)
  next
    case (Inr y)
    note act = CreditBalance_Active [OF cb [unfolded Inr] n(2)]
    have "upd_row (acc_ID a) (move_row (t_Amount trx) pid (pg_now (db W))) \<circ> (add_postings [opening_entry trx pid] \<circ> add_transaction trx \<circ> adds a now)
        = opening_tables (acc_ID a) (acc_Currency a) trx (pid - 1) now"
      using ok now by (simp add: fun_eq_iff opening_tables_def post_entry_def opens_with_def)
    moreover have "committed d' = committed (db W)" using fr by (simp add: tx_frame_def)
    moreover have st: "st' = Op_Committing tx a (Some (trx, pid))" "db W' = d'" using call cb n Inr by (auto simp: on_db_def)
    ultimately have "opening_ok d' c now H st'" using ok act n by simp
    then show ?thesis unfolding st by (intro op_call_ok_tx [OF fr _ _ h lt]) (simp_all add: n)
  qed
qed

lemma op_Committing_ok:
  assumes call: "opening_call E R (Op_Committing tx a p) W = (st', W')" and ok: "opening_ok (db W) c now H (Op_Committing tx a p)"
    and h: "handles_ok (db W)"
  shows "op_call_ok c now H H' (db W) (Op_Committing tx a p) (db W') st'"
proof -
  let ?w = "committed (db W)"
  let ?f = "case p of None \<Rightarrow> adds a now | Some (trx, pid) \<Rightarrow> opening_tables (acc_ID a) (acc_Currency a) trx (pid - 1) now"
  obtain n where n: "tx = Pg_Tx n" "open_txs (db W) n = Some (Active ?f)"
    using ok by (cases "(db W, c, now, H, Op_Committing tx a p)" rule: opening_ok.cases) auto
  have view: "tx_view n (db W) = Some (?f ?w)" using n(2) by (simp add: tx_view_def)
  obtain x d' where cm: "tx_Commit n (db W) = (x, d')" by fastforce
  note v = tx_Commit_view [OF cm view]
  have "plain c a" using ok by (cases p) auto
  then have cur: "acc_Currency a = c" by (auto simp: plain_def)
  have land: "op_landed c now H (db W) (Op_Committing tx a p) d' st'"
    if "committed d' = ?f ?w" "st' = Op_Caching a \<or> (\<exists>e. st' = Op_Rolling_Back tx e)"
    using v(1) ok that unfolding op_landed_def closed_frame_def by (auto split: option.splits)
  have rest: "op_frame (db W) (Op_Committing tx a p) d' st'" if "op_handle st' = Some n \<or> op_handle st' = None" "op_ids st' = {}"
    using v(1) h n(1) that open_lt [OF h n(2)] by (auto simp: op_frame_def closed_frame_def handles_ok_def)
  show ?thesis
  proof (cases x)
    case (Inl e)
    have st: "st' = Op_Rolling_Back tx e" "db W' = d'" using call cm n Inl by (auto simp: on_db_def CommitTx_def)
    then show ?thesis using rest land v(2) Inl n(1) by (auto simp: op_call_ok_def)
  next
    case (Inr y)
    then have w: "committed d' = ?f ?w" using v(2) by auto
    have "\<exists>r. accounts (?f ?w) (acc_ID a) = Some r \<and> acc_Currency r = c"
      using cur by (auto simp: opening_tables_def post_entry_def accounts_upd_row move_row_def split: option.splits)
    moreover have st: "st' = Op_Caching a" "db W' = d'" using call cm n Inr by (auto simp: on_db_def CommitTx_def)
    ultimately have "opening_ok d' c now H' (Op_Caching a)" using cur by (simp only: w opening_ok.simps)
    then show ?thesis using land [OF w] rest st by (simp add: op_call_ok_def del: opening_ok.simps)
  qed
qed

lemma op_Rolling_Back_ok:
  assumes call: "opening_call E R (Op_Rolling_Back tx e) W = (st', W')" and ok: "opening_ok (db W) c now H (Op_Rolling_Back tx e)"
    and h: "handles_ok (db W)"
  shows "op_call_ok c now H H' (db W) (Op_Rolling_Back tx e) (db W') st'"
proof -
  obtain n where n: "tx = Pg_Tx n" using ok by auto
  obtain x d' where r: "tx_Rollback n (db W) = (x, d')" by fastforce
  with call n have "st' = Op_Answered (Inl e)" "db W' = d'" by (auto simp: on_db_def RollbackTx_def)
  with tx_Rollback_frame [OF r] n h show ?thesis
    by (auto simp: op_call_ok_def op_frame_def closed_frame_def handles_ok_def)
qed

lemma op_naming_ok:
  assumes u: "uuid_NewV7 W = (x, W')" and st: "st = Op_Keying (Pg_Tx n) a b \<or> st = Op_Naming (Pg_Tx n) a b k"
    and lt: "n < next_tx (db W)" and h: "handles_ok (db W)"
    and st': "case x of Inl e \<Rightarrow> st' = Op_Rolling_Back (Pg_Tx n) e
      | Inr i \<Rightarrow> op_handle st' = Some n \<and> op_ids st' = {} \<and> opening_ok (db W) c now H' st' \<and> (\<forall>a. st' \<noteq> Op_Caching a)"
  shows "op_call_ok c now H H' (db W) st (db W') st'"
  using uuid_NewV7_spec(1) [OF u] st lt h st'
  by (intro op_same_db) (auto split: sum.splits)

lemma op_Naming_ok:
  assumes call: "opening_call E R st W = (st', W')" and ok: "opening_ok (db W) c now H st" and h: "handles_ok (db W)"
    and st: "st = Op_Keying tx a b \<or> st = Op_Naming tx a b k"
  shows "op_call_ok c now H H (db W) st (db W') st'"
proof -
  obtain n where n: "tx = Pg_Tx n" "open_txs (db W) n = Some (Active (adds a now))" using ok st by auto
  note lt = open_lt [OF h n(2)]
  obtain x W1 where u: "uuid_NewV7 W = (x, W1)" by fastforce
  have "W' = W1" using call st u by (auto split: sum.splits)
  then show ?thesis
    using call st u ok n
    by (intro op_naming_ok [OF _ _ lt h, of x W' st a b k]) (auto simp: opens_with_def opening_transaction_def split: sum.splits)
qed

lemma op_Beginning_ok:
  assumes call: "opening_call E R (Op_Beginning a b) W = (st', W')" and ok: "opening_ok (db W) c now H (Op_Beginning a b)"
    and h: "handles_ok (db W)"
  shows "op_call_ok c now H H' (db W) (Op_Beginning a b) (db W') st'"
proof -
  obtain x d' where b: "BeginTx (db W) = (x, d')" by fastforce
  show ?thesis
  proof (cases x)
    case (Inl e)
    have "st' = Op_Answered (Inl e)" "db W' = d'" using call b Inl by (auto simp: on_db_def)
    with BeginTx_Inl_same [OF b [unfolded Inl]] h show ?thesis
      by (auto simp: op_call_ok_def op_frame_def same_db_def handles_ok_def)
  next
    case (Inr tx)
    note B = BeginTx_Inr [OF b [unfolded Inr]]
    with call b Inr ok h show ?thesis
      by (auto simp: op_call_ok_def op_frame_def on_db_def handles_ok_def)
  qed
qed

lemma plain_new: "c \<noteq> CURRENCY_UNSPECIFIED \<Longrightarrow> plain c (new_account i c t)"
  unfolding plain_def by blast

lemma op_Arrived_ok:
  assumes call: "opening_call E R (Op_Arrived c' rnd) W = (st', W')" and ok: "opening_ok (db W) c now H (Op_Arrived c' rnd)"
    and h: "handles_ok (db W)"
  shows "op_call_ok c now H H' (db W) (Op_Arrived c' rnd) (db W') st'"
proof (cases "c' = CURRENCY_UNSPECIFIED")
  case True
  with call h show ?thesis by (intro op_same_db) auto
next
  case False
  obtain x W1 where u: "uuid_NewV7 W = (x, W1)" by fastforce
  have st: "W' = W1" "st' = (case x of Inl e \<Rightarrow> Op_Answered (Inl e) | Inr i \<Rightarrow> Op_Beginning (new_account i c' (wall W1)) (int (rnd mod 100000000)))"
    using call u False by (auto split: sum.splits)
  have b: "int (rnd mod 100000000) < 100000000" using mod_less_divisor [of 100000000 rnd] by simp
  have ok': "opening_ok (db W) c now H' st'"
    using b ok False plain_new by (cases x) (simp_all add: st)
  show ?thesis
    by (rule op_same_db [OF _ _ _ h ok']) (use uuid_NewV7_spec(1) [OF u] in \<open>auto simp: st split: sum.splits\<close>)
qed

lemma op_Caching_ok:
  assumes call: "opening_call E R (Op_Caching a) W = (st', W')" and ok: "opening_ok (db W) c now H (Op_Caching a)"
    and h: "handles_ok (db W)"
  shows "op_call_ok c now H H' (db W) (Op_Caching a) (db W') st'"
  using call ok h by (intro op_same_db) (auto simp: on_cache_def split: prod.splits)

lemma op_cache_untouched:
  assumes "opening_call E R st W = (st', W')" and "\<forall>a. st \<noteq> Op_Caching a"
  shows "cache W' = cache W"
  using assms
  by (cases "(E, R, st, W)" rule: opening_call.cases)
    (auto simp: on_db_def uuid_NewV7_def split: prod.splits sum.splits list.splits option.splits if_splits)

text \<open>Every call.\<close>

lemma opening_call_ok:
  assumes srv: "redis_server R clock data" and laws: "uuid_laws E"
    and co: "coherent E (data (cache W)) (committed (db W))"
    and call: "opening_call E R st W = (st', W')" and ok: "opening_ok (db W) c now H st"
    and h: "handles_ok (db W)" and d: "db_ok (db W)" and now: "pg_now (db W) = now" and na: "\<not> op_answered st"
  shows "op_call_ok c now H (H \<union> set (op_needs st (committed (db W)))) (db W) st (db W') st'"
    and "coherent E (data (cache W')) (committed (db W))"
proof -
  show "op_call_ok c now H (H \<union> set (op_needs st (committed (db W)))) (db W) st (db W') st'"
  proof (cases st)
    case (Op_Keying tx a b)
    then show ?thesis using op_Naming_ok [OF call ok h, of tx a b] by simp
  next
    case (Op_Naming tx a b k)
    then show ?thesis using op_Naming_ok [OF call ok h, of tx a b k] by simp
  next
    case (Op_Posting tx a trx)
    then show ?thesis using op_Posting_ok [OF _ _ h d] call ok by simp
  next
    case (Op_Crediting tx a trx pid)
    then show ?thesis using op_Crediting_ok [OF _ _ h now] call ok by simp
  next
    case (Op_Answered x)
    then show ?thesis using na by simp
  qed (use call ok h now in \<open>simp_all only: op_Arrived_ok op_Beginning_ok op_Inserting_ok op_Recording_ok op_Committing_ok op_Rolling_Back_ok op_Caching_ok\<close>)
  show "coherent E (data (cache W')) (committed (db W))"
  proof (cases "\<exists>a. st = Op_Caching a")
    case False
    then show ?thesis using op_cache_untouched [OF call] co by simp
  next
    case True
    then obtain a where a: "st = Op_Caching a" by blast
    then obtain r where r: "accounts (committed (db W)) (acc_ID a) = Some r" "acc_Currency r = acc_Currency a" using ok by auto
    obtain y m where s: "SetAccountCurrency E R (acc_ID a) (acc_Currency a) currencyTTL (cache W) = (y, m)" by fastforce
    have "cache W' = m" using call a s by (auto simp: on_cache_def)
    then show ?thesis
      using redis_server.SetAccountCurrency_spec(1) [OF srv s] coherent_put [OF laws co r(1)] co r(2) by auto
  qed
qed

section \<open>A commit\<close>

lemma op_landed_opened:
  assumes "op_landed c now H d st d' st'"
  obtains a b q q' where "opened (acc_ID a) c b q now (committed d) (committed d') q'" "0 \<le> b" "b < 100000000" "c \<noteq> CURRENCY_UNSPECIFIED" "0 \<le> q"
    "0 < b \<Longrightarrow> q + 1 \<le> postings_id_seq d \<and> (\<forall>p\<in>set (postings (committed d)). p_ID p \<noteq> q + 1)"
    "postings_id_seq d' = postings_id_seq d" "st' = Op_Caching a \<or> (\<exists>tx e. st' = Op_Rolling_Back tx e)"
proof -
  from assms obtain tx a p where l: "st = Op_Committing tx a p" "opening_ok d c now H st" "postings_id_seq d' = postings_id_seq d"
      "committed d' = (case p of None \<Rightarrow> adds a now (committed d) | Some (trx, pid) \<Rightarrow> opening_tables (acc_ID a) (acc_Currency a) trx (pid - 1) now (committed d))"
      "st' = Op_Caching a \<or> (\<exists>e. st' = Op_Rolling_Back tx e)"
    by (auto simp: op_landed_def)
  have c: "plain c a" "mine H a (committed d)" using l(1,2) by (cases p; auto)+
  then have cur: "acc_Currency a = c" "c \<noteq> CURRENCY_UNSPECIFIED" by (auto simp: plain_def)
  show thesis
  proof (cases p)
    case None
    with l(4) c cur have "opened (acc_ID a) c 0 0 now (committed d) (committed d') 0" by (simp add: opened_def mine_def)
    then show thesis by (rule that) (use l(3,5) cur in auto)
  next
    case (Some tp)
    then obtain trx pid where p: "p = Some (trx, pid)" by (cases tp) auto
    then have o: "opens_with a trx" "claimed H trx (committed d)" "unused_id (postings_id_seq d) pid (committed d)" using l(1,2) by auto
    then have "opened (acc_ID a) c (t_Amount trx) (pid - 1) now (committed d) (committed d') pid"
      using l(4) p c cur by (auto simp: opened_def mine_def opens_with_def claimed_def)
    then show thesis by (rule that) (use l(3,5) cur o in \<open>auto simp: opens_with_def unused_id_def\<close>)
  qed
qed

lemma op_landed_kept:
  assumes "op_landed c now H d st d' st'" and "db_ok d" and "journal_ok (committed d)"
  shows "db_ok d' \<and> journal_ok (committed d') \<and> grows (committed d) (committed d')
    \<and> (\<exists>i. bank_open i c (bank_of (committed d)) (bank_of (committed d')) \<and> (\<forall>a. st' = Op_Caching a \<longrightarrow> acc_ID a = i))"
  using assms(1)
proof (rule op_landed_opened)
  fix a b q q'
  assume o: "opened (acc_ID a) c b q now (committed d) (committed d') q'" "0 \<le> b" "b < 100000000" "c \<noteq> CURRENCY_UNSPECIFIED" "0 \<le> q"
    and free: "0 < b \<Longrightarrow> q + 1 \<le> postings_id_seq d \<and> (\<forall>p\<in>set (postings (committed d)). p_ID p \<noteq> q + 1)"
    and s: "postings_id_seq d' = postings_id_seq d" "st' = Op_Caching a \<or> (\<exists>tx e. st' = Op_Rolling_Back tx e)"
  have d: "0 \<le> postings_id_seq d" "schema_ok (postings_id_seq d) (committed d)" "books_ok (committed d)" using assms(2) by (simp_all add: db_ok_def)
  have "bigint b" using o(2,3) by (simp add: bigint_def)
  from opened_kept [OF o(1,5) d(2,3) assms(3) this free] have "db_ok d' \<and> journal_ok (committed d')"
    using d(1) s(1) by (simp add: db_ok_def)
  moreover note bank_of_opened [OF d(2) o(1,4,2,3)] opened_grows [OF o(1)]
  ultimately show ?thesis using s(2) by auto
qed

section \<open>Sessions that pass each other\<close>

text \<open>Locks, posting ids and transaction of a session.\<close>

type_synonym foot = "resource set \<times> int set \<times> nat option"

definition foot_of :: "transfer_session \<Rightarrow> foot" where
  "foot_of s = (set (s_held s), posting_ids (s_stage s), handle_of (s_stage s))"

definition op_foot :: "opening_session \<Rightarrow> foot" where
  "op_foot o' = (set (o_held o'), op_ids (o_stage o'), op_handle (o_stage o'))"

definition clear :: "foot \<Rightarrow> foot \<Rightarrow> bool" where
  "clear f g \<longleftrightarrow> (case f of (H, I, h) \<Rightarrow> case g of (H', I', h') \<Rightarrow> H \<inter> H' = {} \<and> I \<inter> I' = {} \<and> (\<forall>n. h = Some n \<longrightarrow> h' \<noteq> Some n))"

text \<open>A change of the database by the session with this footprint.\<close>

definition passes_by :: "pg \<Rightarrow> foot \<Rightarrow> pg \<Rightarrow> bool" where
  "passes_by d f d' \<longleftrightarrow> (case f of (H, I, h) \<Rightarrow> next_tx d \<le> next_tx d' \<and> postings_id_seq d \<le> postings_id_seq d'
     \<and> (\<forall>m<next_tx d. h \<noteq> Some m \<longrightarrow> open_txs d' m = open_txs d m)
     \<and> (\<forall>H' I'. H \<inter> H' = {} \<longrightarrow> I \<inter> I' = {} \<longrightarrow> spares H' I' (committed d) (committed d')))"

definition below :: "pg \<Rightarrow> foot \<Rightarrow> bool" where
  "below d f \<longleftrightarrow> (case f of (H, I, h) \<Rightarrow> (\<forall>i\<in>I. i \<le> postings_id_seq d) \<and> (\<forall>n. h = Some n \<longrightarrow> n < next_tx d))"

text \<open>The footprint after a call that locked \<open>N\<close>.\<close>

definition grown :: "pg \<Rightarrow> resource set \<Rightarrow> foot \<Rightarrow> foot \<Rightarrow> bool" where
  "grown d N f f' \<longleftrightarrow> (case f of (H, I, h) \<Rightarrow> case f' of (H', I', h') \<Rightarrow> H' \<subseteq> H \<union> N \<and> (\<forall>i\<in>I'. i \<in> I \<or> postings_id_seq d < i)
     \<and> (\<forall>n. h' = Some n \<longrightarrow> h = Some n \<or> next_tx d \<le> n))"

lemma clear_sym: "clear f g \<Longrightarrow> clear g f"
  by (auto simp: clear_def split: prod.splits)

lemma clear_grown: "clear f g \<Longrightarrow> grown d N f f' \<Longrightarrow> below d g \<Longrightarrow> N \<inter> fst g = {} \<Longrightarrow> clear f' g"
  by (force simp: clear_def grown_def below_def split: prod.splits)

lemma apart_clear: "apart s s' \<longleftrightarrow> clear (foot_of s) (foot_of s')"
  by (simp add: apart_def clear_def foot_of_def)

lemma session_passed:
  assumes "session_ok d s" and "passes_by d f d'" and "clear f (foot_of s)"
  shows "session_ok d' s"
  using assms
  by (auto simp: session_ok_def passes_by_def clear_def foot_of_def split: prod.splits intro!: stage_ok_spared [of d])

definition opening_fine :: "pg \<Rightarrow> opening_session \<Rightarrow> bool" where
  "opening_fine d o' \<longleftrightarrow> opening_ok d (o_currency o') (o_began o') (set (o_held o')) (o_stage o') \<and> (\<forall>n. op_handle (o_stage o') = Some n \<longrightarrow> n < next_tx d)"

lemma opening_passed:
  assumes "opening_fine d o'" and "passes_by d f d'" and "clear f (op_foot o')"
  shows "opening_fine d' o'"
  using assms
  by (auto simp: opening_fine_def passes_by_def clear_def op_foot_def split: prod.splits intro!: opening_ok_spared [of d])

lemma session_below: "session_ok d s \<Longrightarrow> below d (foot_of s)"
  using posting_ids_le by (fastforce simp: below_def foot_of_def session_ok_def)

lemma op_ids_le: "opening_ok d c now H st \<Longrightarrow> i \<in> op_ids st \<Longrightarrow> i \<le> postings_id_seq d"
  by (cases "(d, c, now, H, st)" rule: opening_ok.cases) (auto simp: unused_id_def)

lemma opening_below: "opening_fine d o' \<Longrightarrow> below d (op_foot o')"
  using op_ids_le by (fastforce simp: below_def op_foot_def opening_fine_def)

lemma transfer_passes:
  assumes c: "call_ok req now H H' d st d' st'" and d: "db_ok d" "journal_ok (committed d)"
  shows "passes_by d (H, posting_ids st, handle_of st) d'"
proof -
  have "spares H' I' (committed d) (committed d')" if "H \<inter> H' = {}" "posting_ids st \<inter> I' = {}" for H' I'
  proof (cases "committed d' = committed d")
    case False
    then have "landed req now H d st d' st'" using c by (simp add: call_ok_def)
    then show ?thesis using d
    proof (rule landed_cases, goal_cases)
      case (1 trx q)
      show ?case unfolding 1(2) by (rule transfer_spares) (use 1 that in auto)
    qed
  qed simp
  with c show ?thesis by (simp add: passes_by_def call_ok_def call_frame_def)
qed

lemma opening_spares:
  assumes "op_landed c now H d st d' st'" and "H \<inter> H' = {}" and "op_ids st \<inter> I' = {}"
  shows "spares H' I' (committed d) (committed d')"
proof -
  from assms(1) obtain tx a p where l: "st = Op_Committing tx a p" "opening_ok d c now H st"
      "committed d' = (case p of None \<Rightarrow> adds a now (committed d) | Some (trx, pid) \<Rightarrow> opening_tables (acc_ID a) (acc_Currency a) trx (pid - 1) now (committed d))"
    by (auto simp: op_landed_def)
  have m: "mine H a (committed d)" using l(1,2) by (cases p) auto
  show ?thesis
  proof (cases p)
    case None
    with l m assms(2) show ?thesis by (auto simp: spares_def mine_def)
  next
    case (Some tp)
    then obtain trx pid where p: "p = Some (trx, pid)" by (cases tp) auto
    then have "opens_with a trx" "claimed H trx (committed d)" "pid \<notin> I'" using l(1,2) assms(3) by auto
    with m assms(2) show ?thesis
      by (auto simp: l(3) p spares_def mine_def claimed_def opens_with_def opening_tables_def post_entry_def accounts_upd_row)
  qed
qed

lemma opening_passes: "op_call_ok c now H H' d st d' st' \<Longrightarrow> passes_by d (H, op_ids st, op_handle st) d'"
  using opening_spares by (fastforce simp: passes_by_def op_call_ok_def op_frame_def)

lemma opening_fine_took:
  assumes "opening_fine d o'" and "op_call_ok (o_currency o') (o_began o') (set (o_held o')) (set (o_held o') \<union> set (op_needs (o_stage o') w)) d (o_stage o') d' st'"
  shows "opening_fine d' (op_took w st' o')" and "grown d (set (op_needs (o_stage o') w)) (op_foot o') (op_foot (op_took w st' o'))"
proof -
  have "opening_ok d' (o_currency o') (o_began o') (if op_released st' then {} else set (o_held o') \<union> set (op_needs (o_stage o') w)) st'"
    using assms(2) by (cases st') (auto simp: op_call_ok_def)
  with assms show "opening_fine d' (op_took w st' o')" and "grown d (set (op_needs (o_stage o') w)) (op_foot o') (op_foot (op_took w st' o'))"
    by (auto simp: opening_fine_def op_took_def op_call_ok_def op_frame_def grown_def op_foot_def split: if_splits)
qed

lemma transfer_grown:
  assumes "call_ok req now H H' d (s_stage s) d' st'"
  shows "grown d (set (needs (s_stage s) w)) (foot_of s) (foot_of (took w st' s))"
  using assms by (auto simp: grown_def foot_of_def took_def call_ok_def call_frame_def)

end
