(* ===== verification/Ledger_Calls.thy ===== *)
theory Ledger_Calls
  imports Opening_Calls
begin

text \<open>
  Transfers and openings of accounts in one service: any number of calls of \<open>Transaction\<close> and of \<open>CreateAccount\<close>
  interleaved between any two calls of a repository (\<open>service_step\<close>), and the invariant \<open>service_ok\<close>: no session of
  either kind disturbs another.
\<close>

section \<open>The service\<close>

type_synonym 'r service = "'r world \<times> transfer_session list \<times> opening_session list"

definition unheld :: "resource list \<Rightarrow> resource list list \<Rightarrow> bool" where
  "unheld rs hs \<longleftrightarrow> list_all (\<lambda>h. set rs \<inter> set h = {}) hs"

definition others :: "nat \<Rightarrow> 'a list \<Rightarrow> 'a list" where
  "others i xs = nths xs (- {i})"

text \<open>One request more, or one call of one session that no other session blocks.\<close>

inductive service_step :: "transfer_uc \<Rightarrow> ext \<Rightarrow> 'r redis \<Rightarrow> 'r service \<Rightarrow> 'r service \<Rightarrow> bool" for uc E R where
  transfer_arrives: "bigint (req_Amount req) \<Longrightarrow> service_step uc E R (W, ss, ops) (W, ss @ [arrival req now], ops)"
| opening_arrives: "service_step uc E R (W, ss, ops) (W, ss, ops @ [op_arrival c rnd now])"
| transfer_calls: "i < length ss \<Longrightarrow> \<not> answered (s_stage (ss ! i)) \<Longrightarrow>
     unheld (needs (s_stage (ss ! i)) (committed (db W))) (map s_held (others i ss) @ map o_held ops) \<Longrightarrow>
     session_call uc E R ff (s_stage (ss ! i)) (at_call us t (s_began (ss ! i)) fs W) = (st', W') \<Longrightarrow>
     service_step uc E R (W, ss, ops) (W', ss[i := took (committed (db W)) st' (ss ! i)], ops)"
| opening_calls: "j < length ops \<Longrightarrow> \<not> op_answered (o_stage (ops ! j)) \<Longrightarrow>
     unheld (op_needs (o_stage (ops ! j)) (committed (db W))) (map s_held ss @ map o_held (others j ops)) \<Longrightarrow>
     opening_call E R (o_stage (ops ! j)) (at_call us t (o_began (ops ! j)) fs W) = (op', W') \<Longrightarrow>
     service_step uc E R (W, ss, ops) (W', ss, ops[j := op_took (committed (db W)) op' (ops ! j)])"

lemma unheld_append: "unheld rs (hs @ hs') \<longleftrightarrow> unheld rs hs \<and> unheld rs hs'"
  by (simp add: unheld_def)

lemma unheld_map: "unheld rs (map f xs) \<longleftrightarrow> (\<forall>x\<in>set xs. set rs \<inter> set (f x) = {})"
  by (auto simp: unheld_def list_all_iff)

lemma unheld_others: "unheld rs (map f (others i xs)) \<longleftrightarrow> (\<forall>j<length xs. j \<noteq> i \<longrightarrow> set rs \<inter> set (f (xs ! j)) = {})"
  by (auto simp: unheld_map others_def set_nths)

lemma at_call_opening [simp]:
  "opening_ok (db (at_call us t now' fs W)) c now H st \<longleftrightarrow> opening_ok (db W) c now H st"
  "op_call_ok c now H H' (db (at_call us t now' fs W)) st d' st' \<longleftrightarrow> op_call_ok c now H H' (db W) st d' st'"
proof -
  show o: "opening_ok (db (at_call us t now' fs W)) c now H st \<longleftrightarrow> opening_ok (db W) c now H st" for st
    using opening_ok_spared [of "db W" c now H st "db (at_call us t now' fs W)"]
      opening_ok_spared [of "db (at_call us t now' fs W)" c now H st "db W"] by auto
  show "op_call_ok c now H H' (db (at_call us t now' fs W)) st d' st' \<longleftrightarrow> op_call_ok c now H H' (db W) st d' st'"
    by (simp add: op_call_ok_def op_frame_def op_landed_def o cong: option.case_cong prod.case_cong)
qed

section \<open>The invariant\<close>

definition openings_clear :: "opening_session list \<Rightarrow> bool" where
  "openings_clear ops \<longleftrightarrow> (\<forall>j<length ops. \<forall>k<length ops. j \<noteq> k \<longrightarrow> clear (op_foot (ops ! j)) (op_foot (ops ! k)))"

lemma openings_clear_update:
  assumes "openings_clear ops" and "\<And>k. k < length ops \<Longrightarrow> k \<noteq> j \<Longrightarrow> clear (op_foot x) (op_foot (ops ! k))"
  shows "openings_clear (ops[j := x])"
  unfolding openings_clear_def
proof (intro allI impI)
  fix k l assume "k < length (ops[j := x])" "l < length (ops[j := x])" "k \<noteq> l"
  with assms clear_sym [OF assms(2)] show "clear (op_foot (ops[j := x] ! k)) (op_foot (ops[j := x] ! l))"
    by (cases "k = j"; cases "l = j") (simp_all add: openings_clear_def)
qed

lemma arrivals_clear [simp]: "clear f (op_foot (op_arrival c rnd now))" "clear (op_foot (op_arrival c rnd now)) f"
  "clear (foot_of (arrival req now)) f" "clear f (foot_of (arrival req now))"
  by (auto simp: clear_def op_foot_def op_arrival_def foot_of_def arrival_def split: prod.splits)

lemma opening_fine_arrival: "opening_fine d (op_arrival c rnd now)"
  by (simp add: opening_fine_def op_arrival_def)

lemma openings_clear_snoc: "openings_clear ops \<Longrightarrow> openings_clear (ops @ [op_arrival c rnd now])"
  by (auto simp: openings_clear_def nth_append less_Suc_eq)

lemma in_update: "x \<in> set (xs[i := y]) \<Longrightarrow> x = y \<or> (\<exists>k<length xs. k \<noteq> i \<and> x = xs ! k)"
  unfolding in_set_conv_nth by (metis length_list_update nth_list_update_eq nth_list_update_neq)

context transfer_service
begin

definition service_ok :: "'r service \<Rightarrow> bool" where
  "service_ok S \<longleftrightarrow> (case S of (W, ss, ops) \<Rightarrow> running_ok (W, ss) \<and> (\<forall>p\<in>set ops. opening_fine (db W) p)
     \<and> openings_clear ops \<and> (\<forall>s\<in>set ss. \<forall>p\<in>set ops. clear (foot_of s) (op_foot p)))"

text \<open>A call of a transfer.\<close>

lemma transfer_calls_ok:
  assumes ok: "service_ok (W, ss, ops)" and i: "i < length ss" and na: "\<not> answered (s_stage (ss ! i))"
    and free: "unheld (needs (s_stage (ss ! i)) (committed (db W))) (map s_held (others i ss) @ map o_held ops)"
    and call: "session_call uc E R ff (s_stage (ss ! i)) (at_call us t (s_began (ss ! i)) fs W) = (st', W')"
  shows "inter_step uc E R (W, ss) (W', ss[i := took (committed (db W)) st' (ss ! i)])"
    and "service_ok (W', ss[i := took (committed (db W)) st' (ss ! i)], ops)"
    and "committed (db W') = committed (db W)
      \<or> landed (s_req (ss ! i)) (s_began (ss ! i)) (set (s_held (ss ! i))) (db W) (s_stage (ss ! i)) (db W') st'"
proof -
  let ?s = "ss ! i" and ?w = "committed (db W)"
  have free1: "\<forall>j<length ss. j \<noteq> i \<longrightarrow> set (needs (s_stage ?s) ?w) \<inter> set (s_held (ss ! j)) = {}"
    and free2: "\<And>p. p \<in> set ops \<Longrightarrow> set (needs (s_stage ?s) ?w) \<inter> set (o_held p) = {}"
    using free unfolding unheld_append unheld_others by (simp_all add: unheld_map)
  show step: "inter_step uc E R (W, ss) (W', ss[i := took ?w st' ?s])"
    by (rule inter_step.calls [OF i na free1 call])
  have run: "running_ok (W, ss)" using ok by (simp add: service_ok_def)
  then have I: "coherent E (data (cache W)) ?w" "db_ok (db W)" "journal_ok ?w" "handles_ok (db W)" "session_ok (db W) ?s"
    using i by (auto simp: running_ok_def inter_ok_def)
  have c: "call_ok (s_req ?s) (s_began ?s) (set (s_held ?s)) (set (s_held ?s) \<union> set (needs (s_stage ?s) ?w)) (db W) (s_stage ?s) (db W') st'"
    using session_call_ok(1) [OF redis_server_axioms uuids _ call] I na by (simp add: session_ok_def)
  show "committed (db W') = ?w \<or> landed (s_req ?s) (s_began ?s) (set (s_held ?s)) (db W) (s_stage ?s) (db W') st'"
    using c by (auto simp: call_ok_def)
  have pass: "passes_by (db W) (foot_of ?s) (db W')" using transfer_passes [OF c I(2,3)] by (simp add: foot_of_def)
  have cl: "clear (foot_of s) (op_foot p)" if "s \<in> set ss" "p \<in> set ops" for s p using ok that by (auto simp: service_ok_def)
  have fine: "opening_fine (db W) p" if "p \<in> set ops" for p using ok that by (simp add: service_ok_def)
  have new: "clear (foot_of (took ?w st' ?s)) (op_foot p)" if "p \<in> set ops" for p
    by (rule clear_grown [OF cl [OF nth_mem [OF i] that] transfer_grown [OF c] opening_below [OF fine [OF that]]])
      (use free2 [OF that] in \<open>simp add: op_foot_def\<close>)
  have "clear (foot_of s) (op_foot p)" if "s \<in> set (ss[i := took ?w st' ?s])" "p \<in> set ops" for s p
    using in_update [OF that(1)] new [OF that(2)] cl that(2) by auto
  moreover have "opening_fine (db W') p" if "p \<in> set ops" for p
    by (rule opening_passed [OF fine [OF that] pass cl [OF nth_mem [OF i] that]])
  ultimately show "service_ok (W', ss[i := took ?w st' ?s], ops)"
    using running_step [OF step run] ok by (simp add: service_ok_def)
qed

text \<open>A call of an opening.\<close>

lemma opening_calls_ok:
  assumes ok: "service_ok (W, ss, ops)" and j: "j < length ops" and na: "\<not> op_answered (o_stage (ops ! j))"
    and free: "unheld (op_needs (o_stage (ops ! j)) (committed (db W))) (map s_held ss @ map o_held (others j ops))"
    and call: "opening_call E R (o_stage (ops ! j)) (at_call us t (o_began (ops ! j)) fs W) = (op', W')"
  shows "service_ok (W', ss, ops[j := op_took (committed (db W)) op' (ops ! j)])"
    and "committed (db W') = committed (db W) \<and> (\<forall>a. op' \<noteq> Op_Caching a)
      \<or> op_landed (o_currency (ops ! j)) (o_began (ops ! j)) (set (o_held (ops ! j))) (db W) (o_stage (ops ! j)) (db W') op'"
proof -
  let ?p = "ops ! j" and ?w = "committed (db W)"
  have free1: "\<And>s. s \<in> set ss \<Longrightarrow> set (op_needs (o_stage ?p) ?w) \<inter> set (s_held s) = {}"
    and free2: "\<forall>k<length ops. k \<noteq> j \<longrightarrow> set (op_needs (o_stage ?p) ?w) \<inter> set (o_held (ops ! k)) = {}"
    using free unfolding unheld_append unheld_others by (simp_all add: unheld_map)
  have run: "running_ok (W, ss)" using ok by (simp add: service_ok_def)
  then have I: "coherent E (data (cache W)) ?w" "db_ok (db W)" "journal_ok ?w" "handles_ok (db W)"
      "\<And>s. s \<in> set ss \<Longrightarrow> session_ok (db W) s"
    by (auto simp: running_ok_def inter_ok_def in_set_conv_nth)
  have fine: "opening_fine (db W) p" if "p \<in> set ops" for p using ok that by (simp add: service_ok_def)
  have cl: "clear (foot_of s) (op_foot p)" if "s \<in> set ss" "p \<in> set ops" for s p using ok that by (auto simp: service_ok_def)
  have ok_p: "opening_ok (db W) (o_currency ?p) (o_began ?p) (set (o_held ?p)) (o_stage ?p)"
    using fine [OF nth_mem [OF j]] by (simp add: opening_fine_def)
  have c: "op_call_ok (o_currency ?p) (o_began ?p) (set (o_held ?p)) (set (o_held ?p) \<union> set (op_needs (o_stage ?p) ?w)) (db W) (o_stage ?p) (db W') op'"
    and co: "coherent E (data (cache W')) ?w"
    using opening_call_ok [OF redis_server_axioms uuids _ call] I ok_p na by simp_all
  show lands: "committed (db W') = ?w \<and> (\<forall>a. op' \<noteq> Op_Caching a)
      \<or> op_landed (o_currency ?p) (o_began ?p) (set (o_held ?p)) (db W) (o_stage ?p) (db W') op'"
    using c by (simp add: op_call_ok_def)
  have pass: "passes_by (db W) (op_foot ?p) (db W')" using opening_passes [OF c] by (simp add: op_foot_def)
  have hand: "handles_ok (db W')" "postings_id_seq (db W) \<le> postings_id_seq (db W')" using c by (simp_all add: op_call_ok_def op_frame_def)
  have kept: "db_ok (db W') \<and> journal_ok (committed (db W')) \<and> grows ?w (committed (db W'))"
    using lands
  proof
    assume "committed (db W') = ?w \<and> (\<forall>a. op' \<noteq> Op_Caching a)"
    then show ?thesis using I(2,3) hand(2) by (auto simp: db_ok_def intro: schema_ok_seq_mono)
  qed (use op_landed_kept I(2,3) in blast)
  have run': "running_ok (W', ss)"
    using run kept hand(1) grows_coherent [OF _ co] session_passed [OF I(5) pass clear_sym [OF cl [OF _ nth_mem [OF j]]]]
    by (auto simp: running_ok_def inter_ok_def)
  note took = opening_fine_took [OF fine [OF nth_mem [OF j]] c]
  have "clear (op_foot (op_took ?w op' ?p)) (op_foot (ops ! k))" if "k < length ops" "k \<noteq> j" for k
    by (rule clear_grown [OF _ took(2) opening_below [OF fine [OF nth_mem [OF that(1)]]]])
      (use ok free2 that j in \<open>auto simp: service_ok_def openings_clear_def op_foot_def\<close>)
  then have "openings_clear (ops[j := op_took ?w op' ?p])" using ok by (intro openings_clear_update) (auto simp: service_ok_def)
  moreover have new: "clear (foot_of s) (op_foot (op_took ?w op' ?p))" if "s \<in> set ss" for s
    by (rule clear_sym, rule clear_grown [OF clear_sym [OF cl [OF that nth_mem [OF j]]] took(2) session_below [OF I(5) [OF that]]])
      (use free1 [OF that] in \<open>simp add: foot_of_def\<close>)
  have "clear (foot_of s) (op_foot p)" if "s \<in> set ss" "p \<in> set (ops[j := op_took ?w op' ?p])" for s p
    using in_update [OF that(2)] new [OF that(1)] cl that(1) by auto
  moreover have "opening_fine (db W') p" if "p \<in> set (ops[j := op_took ?w op' ?p])" for p
    using in_update [OF that] took(1) opening_passed [OF fine pass] ok j by (auto simp: service_ok_def openings_clear_def)
  ultimately show "service_ok (W', ss, ops[j := op_took ?w op' ?p])"
    using run' by (simp add: service_ok_def)
qed

lemma service_ok_step:
  assumes "service_step uc E R S S'" and "service_ok S"
  shows "service_ok S'"
  using assms(1)
proof cases
  case (transfer_arrives req W ss ops now)
  have "running_ok (W, ss @ [arrival req now])"
    using assms(2) transfer_arrives(1,3) running_step [OF inter_step.arrives, of req W ss now] by (simp add: service_ok_def)
  with assms(2) transfer_arrives(1,2) show ?thesis by (auto simp: service_ok_def)
next
  case (opening_arrives W ss ops c rnd now)
  with assms(2) show ?thesis
    using openings_clear_snoc [of ops c rnd now] opening_fine_arrival [of "db W" c rnd now] by (auto simp: service_ok_def)
next
  case (transfer_calls i ss W ops ff us t fs st' W')
  with assms(2) transfer_calls_ok(2) show ?thesis by simp
next
  case (opening_calls j ops W ss us t fs op' W')
  with assms(2) opening_calls_ok(1) show ?thesis by simp
qed

end

end
