(* ===== verification/Ledger_Calls_Laws.thy ===== *)
theory Ledger_Calls_Laws
  imports Ledger_Calls
begin

text \<open>
  What is shown of concurrent transfers and openings: a simulation into the bank that also opens accounts
  (\<open>office_step\<close>), where the money of the ledger comes from (\<open>minted\<close>), and that no session is stuck
  (\<open>some_service_call\<close>). An opening that runs alone is a call of \<open>CreateAccount\<close>.
\<close>

section \<open>The bank that also opens accounts\<close>

text \<open>Next to the clients stand the applicants: the currency each asks for and the answer it has got. An account
  comes into being in one step between the two; its opening balance is the bank's choice.\<close>

type_synonym applicant = "currency \<times> uuid result option"

inductive office_step :: "unit \<Rightarrow> bank \<times> client list \<times> applicant list \<Rightarrow> bank \<times> client list \<times> applicant list \<Rightarrow> bool" where
  serves: "bank_serves e (B, cs) (B', cs') \<Longrightarrow> office_step e (B, cs, ps) (B', cs', ps)"
| applies: "office_step e (B, cs, ps) (B, cs, ps @ [(c, None)])"
| declines: "j < length ps \<Longrightarrow> ps ! j = (c, None) \<Longrightarrow> office_step e (B, cs, ps) (B, cs, ps[j := (c, Some (Inl err))])"
| founds: "j < length ps \<Longrightarrow> ps ! j = (c, None) \<Longrightarrow> bank_open i c B B' \<Longrightarrow>
     office_step e (B, cs, ps) (B', cs, ps[j := (c, Some (Inr i))])"
| founds_unreported: "j < length ps \<Longrightarrow> ps ! j = (c, None) \<Longrightarrow> bank_open i c B B' \<Longrightarrow> office_step e (B, cs, ps) (B', cs, ps)"

text \<open>The answer is settled with the commit, before the currency is cached.\<close>

fun op_reply :: "opening_stage \<Rightarrow> uuid result option" where
  "op_reply (Op_Caching a) = Some (Inr (acc_ID a))"
| "op_reply (Op_Answered x) = Some x"
| "op_reply st = None"

definition office_view :: "'r service \<Rightarrow> bank \<times> client list \<times> applicant list" where
  "office_view S = (case S of (W, ss, ops) \<Rightarrow> (bank_of (committed (db W)),
     map (\<lambda>s. (s_req s, reply (s_stage s))) ss, map (\<lambda>p. (o_currency p, op_reply (o_stage p))) ops))"

lemma op_took_sel [simp]: "o_currency (op_took w st p) = o_currency p" "o_stage (op_took w st p) = st" "o_began (op_took w st p) = o_began p"
  by (simp_all add: op_took_def)

lemma op_reply_kept:
  assumes "opening_call E R st W = (st', W')" and "op_reply st = Some x"
  shows "op_reply st' = Some x"
  using assms by (cases st) auto

lemma op_reply_new:
  assumes "opening_call E R st W = (st', W')" and "op_reply st = None" and "op_reply st' = Some (Inr i)"
  shows "\<exists>a. st' = Op_Caching a"
  using assms
  by (cases "(E, R, st, W)" rule: opening_call.cases) (auto split: prod.splits sum.splits option.splits if_splits)

context transfer_service
begin

lemma opening_step_office:
  assumes ok: "service_ok (W, ss, ops)" and j: "j < length ops" and na: "\<not> op_answered (o_stage (ops ! j))"
    and free: "unheld (op_needs (o_stage (ops ! j)) (committed (db W))) (map s_held ss @ map o_held (others j ops))"
    and call: "opening_call E R (o_stage (ops ! j)) (at_call us t (o_began (ops ! j)) fs W) = (op', W')"
  shows "office_step e (office_view (W, ss, ops)) (office_view (W', ss, ops[j := op_took (committed (db W)) op' (ops ! j)]))"
proof -
  let ?p = "ops ! j" and ?w = "committed (db W)"
  let ?cs = "map (\<lambda>s. (s_req s, reply (s_stage s))) ss" and ?ps = "map (\<lambda>p. (o_currency p, op_reply (o_stage p))) ops"
  have d: "db_ok (db W)" "journal_ok ?w" using ok by (simp_all add: service_ok_def running_ok_def inter_ok_def)
  have view: "office_view (W, ss, ops) = (bank_of ?w, ?cs, ?ps)"
      "office_view (W', ss, ops[j := op_took ?w op' ?p]) = (bank_of (committed (db W')), ?cs, ?ps[j := (o_currency ?p, op_reply op')])"
    by (simp_all add: office_view_def map_update)
  have same: "?ps[j := (o_currency ?p, op_reply (o_stage ?p))] = ?ps" using list_update_id [of ?ps j] j by simp
  have idle: "office_step e (bank_of ?w, ?cs, ?ps) (bank_of ?w, ?cs, ?ps)" by (rule office_step.serves [OF bank_serves.waits])
  note lands = opening_calls_ok(2) [OF ok j na free call]
  show ?thesis
  proof (cases "op_reply (o_stage ?p)")
    case (Some x)
    then obtain a where "o_stage ?p = Op_Caching a" using na by (cases "o_stage ?p") auto
    with lands have "committed (db W') = ?w" by (auto simp: op_landed_def)
    then show ?thesis using view same idle Some op_reply_kept [OF call Some] by simp
  next
    case None
    have ps: "j < length ?ps" "?ps ! j = (o_currency ?p, None)" using j None by simp_all
    from lands show ?thesis
    proof
      assume still: "committed (db W') = ?w \<and> (\<forall>a. op' \<noteq> Op_Caching a)"
      show ?thesis
      proof (cases "op_reply op'")
        case none: None
        then show ?thesis using view same idle still None by simp
      next
        case (Some x)
        then obtain err where "x = Inl err" using op_reply_new [OF call None] still by (cases x) auto
        with Some still view office_step.declines [OF ps] show ?thesis by simp
      qed
    next
      assume l: "op_landed (o_currency ?p) (o_began ?p) (set (o_held ?p)) (db W) (o_stage ?p) (db W') op'"
      from op_landed_kept [OF l d] obtain i where i: "bank_open i (o_currency ?p) (bank_of ?w) (bank_of (committed (db W')))"
        "\<forall>a. op' = Op_Caching a \<longrightarrow> acc_ID a = i" by blast
      have "(\<exists>a. op' = Op_Caching a) \<or> (\<exists>tx e. op' = Op_Rolling_Back tx e)" using l by (auto simp: op_landed_def)
      then show ?thesis
        using view same None i(2) office_step.founds [OF ps i(1), of e ?cs] office_step.founds_unreported [OF ps i(1), of e ?cs] by auto
    qed
  qed
qed

lemma service_step_office:
  assumes "service_step uc E R S S'" and "service_ok S"
  shows "office_step e (office_view S) (office_view S')"
  using assms(1)
proof cases
  case (transfer_arrives req W ss ops now)
  then show ?thesis by (auto simp: office_view_def arrival_def intro!: office_step.serves bank_serves.asks)
next
  case (opening_arrives W ss ops c rnd now)
  then show ?thesis by (auto simp: office_view_def op_arrival_def intro!: office_step.applies)
next
  case (transfer_calls i ss W ops ff us t fs st' W')
  note ok = assms(2) [unfolded transfer_calls(1)]
  from ok have run: "running_ok (W, ss)" by (simp add: service_ok_def)
  from step_serves [OF transfer_calls_ok(1) [OF ok transfer_calls(3-6)] run, of e] transfer_calls(1,2)
  show ?thesis by (auto simp: office_view_def client_view_def intro!: office_step.serves)
next
  case (opening_calls j ops W ss us t fs op' W')
  with assms(2) opening_step_office show ?thesis by simp
qed

end

sublocale transfer_service \<subseteq> office: simulation "\<lambda>_. service_step uc E R" office_step service_ok office_view
  by unfold_locales (auto dest: service_ok_step service_step_office)

section \<open>Where money comes from\<close>

text \<open>What the opening transactions have paid into the accounts of a currency.\<close>

definition minted :: "currency \<Rightarrow> tables \<Rightarrow> int" where
  "minted c w = (\<Sum>t\<leftarrow>transactions w. if t_FromAccountID t = t_ToAccountID t \<and> t_Currency t = c then t_Amount t else 0)"

lemma minted_opened:
  assumes "opened i c b q now w w' q'" and "0 \<le> b"
  shows "minted c' w' = minted c' w + (if c' = c then b else 0)"
  using assms by (auto simp: opened_def opening_tables_def post_entry_def minted_def split: if_splits)

lemma minted_transfer: "t_FromAccountID trx \<noteq> t_ToAccountID trx \<Longrightarrow> minted c (transfer_tables trx q now w) = minted c w"
  by (simp add: transfer_tables_def minted_def)

context transfer_service
begin

definition surplus :: "currency \<Rightarrow> 'r service \<Rightarrow> int" where
  "surplus c S = total_in c (committed (db (fst S))) - minted c (committed (db (fst S)))"

lemma service_step_surplus:
  assumes "service_step uc E R S S'" and "service_ok S"
  shows "surplus c S' = surplus c S"
  using assms(1)
proof cases
  case (transfer_calls i ss W ops ff us t fs st' W')
  note ok = assms(2) [unfolded transfer_calls(1)]
  from ok have run: "running_ok (W, ss)" by (simp add: service_ok_def)
  note step = transfer_calls_ok(1) [OF ok transfer_calls(3-6)]
  have d: "db_ok (db W)" "journal_ok (committed (db W))" using run by (simp_all add: running_ok_def inter_ok_def)
  from transfer_calls_ok(3) [OF ok transfer_calls(3-6)] have "minted c (committed (db W')) = minted c (committed (db W))"
  proof
    assume "landed (s_req (ss ! i)) (s_began (ss ! i)) (set (s_held (ss ! i))) (db W) (s_stage (ss ! i)) (db W') st'"
    then show ?thesis using d by (rule landed_cases) (simp add: minted_transfer)
  qed simp
  then show ?thesis using step_total [OF step run, of c] transfer_calls(1,2) by (simp add: surplus_def)
next
  case (opening_calls j ops W ss us t fs op' W')
  note ok = assms(2) [unfolded opening_calls(1)]
  from opening_calls_ok(2) [OF ok opening_calls(3-6)] show ?thesis
  proof
    assume "op_landed (o_currency (ops ! j)) (o_began (ops ! j)) (set (o_held (ops ! j))) (db W) (o_stage (ops ! j)) (db W') op'"
    then show ?thesis
      by (rule op_landed_opened) (use opening_calls(1,2) in \<open>auto simp: surplus_def opened_total minted_opened\<close>)
  qed (use opening_calls(1,2) in \<open>simp add: surplus_def\<close>)
qed (simp_all add: surplus_def)

end

section \<open>No session is stuck\<close>

text \<open>An opening locks the row of its new account, which nobody else sees, and then the two index entries of its
  transaction; from there on it waits for nobody.\<close>

definition op_locks :: "opening_session \<Rightarrow> bool" where
  "op_locks p = (case o_stage p of
     Op_Arrived c rnd \<Rightarrow> o_held p = []
   | Op_Beginning a b \<Rightarrow> o_held p = []
   | Op_Inserting tx a b \<Rightarrow> o_held p = []
   | Op_Keying tx a b \<Rightarrow> set (o_held p) \<subseteq> {Account_Row (acc_ID a)}
   | Op_Naming tx a b k \<Rightarrow> set (o_held p) \<subseteq> {Account_Row (acc_ID a)}
   | Op_Recording tx a trx \<Rightarrow> set (o_held p) \<subseteq> {Account_Row (acc_ID a)}
   | Op_Answered x \<Rightarrow> o_held p = []
   | _ \<Rightarrow> True)"

fun op_left :: "opening_stage \<Rightarrow> nat" where
  "op_left (Op_Arrived c rnd) = 10"
| "op_left (Op_Beginning a b) = 9"
| "op_left (Op_Inserting tx a b) = 8"
| "op_left (Op_Keying tx a b) = 7"
| "op_left (Op_Naming tx a b k) = 6"
| "op_left (Op_Recording tx a trx) = 5"
| "op_left (Op_Posting tx a trx) = 4"
| "op_left (Op_Crediting tx a trx pid) = 3"
| "op_left (Op_Committing tx a p) = 2"
| "op_left (Op_Caching a) = 1"
| "op_left (Op_Rolling_Back tx e) = 1"
| "op_left (Op_Answered x) = 0"

lemma op_call_left:
  "opening_call E R st W = (st', W') \<Longrightarrow> \<not> op_answered st \<Longrightarrow> op_left st' < op_left st"
  by (cases "(E, R, st, W)" rule: opening_call.cases) (auto split: prod.splits sum.splits option.splits if_splits)

lemma op_locks_took:
  assumes "opening_call E R (o_stage p) V = (st', V')" and "op_locks p" and "\<not> op_answered (o_stage p)"
  shows "op_locks (op_took w st' p)"
  using assms
  by (cases "(E, R, o_stage p, V)" rule: opening_call.cases)
    (auto simp: op_locks_def op_took_def split: prod.splits sum.splits option.splits if_splits)

lemma op_left_le: "op_left st \<le> 10"
  by (cases st) simp_all

definition service_left :: "'r service \<Rightarrow> nat" where
  "service_left S = (case S of (W, ss, ops) \<Rightarrow> total_left ss + sum_list (map (op_left \<circ> o_stage) ops))"

lemma op_left_update:
  "j < length ops \<Longrightarrow> op_left (o_stage p) < op_left (o_stage (ops ! j)) \<Longrightarrow>
   sum_list (map (op_left \<circ> o_stage) (ops[j := p])) < sum_list (map (op_left \<circ> o_stage) ops)"
proof (induction ops arbitrary: j)
  case (Cons a ops)
  then show ?case by (cases j) auto
qed simp

definition requests :: "'r service \<Rightarrow> nat" where
  "requests S = (case S of (W, ss, ops) \<Rightarrow> length ss + length ops)"

lemma service_step_left:
  assumes "service_step uc E R S S'"
  shows "requests S \<le> requests S' \<and> (requests S' = requests S \<longrightarrow> service_left S' < service_left S)"
  using assms
proof cases
  case (transfer_calls i ss W ops ff us t fs st' W')
  then show ?thesis
    using total_left_update [OF transfer_calls(3)] call_left [OF transfer_calls(6,4)] by (simp add: requests_def service_left_def)
next
  case (opening_calls j ops W ss us t fs op' W')
  then show ?thesis
    using op_left_update [OF opening_calls(3)] op_call_left [OF opening_calls(6,4)] by (simp add: requests_def service_left_def)
qed (simp_all add: requests_def)

lemma service_runs_left:
  "runs (\<lambda>_ :: unit. service_step uc E R) es S S' \<Longrightarrow>
   requests S \<le> requests S' \<and> (requests S' = requests S \<longrightarrow> length es + service_left S' \<le> service_left S)"
proof (induction es arbitrary: S)
  case (Cons e es)
  then obtain U where "service_step uc E R S U" "runs (\<lambda>_ :: unit. service_step uc E R) es U S'" by auto
  with Cons.IH service_step_left show ?case
    by (smt (verit) add_Suc le_antisym le_trans length_Cons less_eq_Suc_le not_less_eq_eq)
qed simp

definition all_served :: "'r service \<Rightarrow> bool" where
  "all_served S = (case S of (W, ss, ops) \<Rightarrow> list_all (answered \<circ> s_stage) ss \<and> list_all (op_answered \<circ> o_stage) ops)"

definition asked_for :: "'r service \<Rightarrow> transaction_request list \<times> currency list" where
  "asked_for S = (case S of (W, ss, ops) \<Rightarrow> (map s_req ss, map o_currency ops))"

text \<open>A live opening that has something to wait for holds at most the row of an account that does not exist yet.\<close>

definition unborn :: "tables \<Rightarrow> resource \<Rightarrow> bool" where
  "unborn w r \<longleftrightarrow> (\<exists>a. r = Account_Row a \<and> accounts w a = None)"

lemma waiting_opening:
  assumes "op_locks p" and "opening_fine d p" and "op_answered (o_stage p) \<or> op_needs (o_stage p) (committed d) \<noteq> []"
  shows "\<forall>r\<in>set (o_held p). unborn (committed d) r"
  using assms by (cases "o_stage p") (auto simp: op_locks_def opening_fine_def unborn_def mine_def)

lemma needs_not_unborn: "r \<in> set (needs st w) \<Longrightarrow> \<not> unborn w r"
  by (cases "(st, w)" rule: needs.cases) (auto simp: unborn_def matches_def split: if_splits option.splits)

context transfer_service
begin

lemma some_opening:
  assumes ok: "service_ok (W, ss, ops)" and locks: "list_all op_locks ops"
    and idle: "\<And>s. s \<in> set ss \<Longrightarrow> answered (s_stage s)"
    and wait: "\<And>p. p \<in> set ops \<Longrightarrow> op_answered (o_stage p) \<or> op_needs (o_stage p) (committed (db W)) \<noteq> []"
    and live: "p \<in> set ops" "\<not> op_answered (o_stage p)"
  shows "\<exists>j<length ops. \<not> op_answered (o_stage (ops ! j))
    \<and> unheld (op_needs (o_stage (ops ! j)) (committed (db W))) (map s_held ss @ map o_held (others j ops))"
proof -
  let ?w = "committed (db W)"
  have held: "s_held s = []" if "s \<in> set ss" for s
    using ok idle [OF that] that by (auto simp: service_ok_def running_ok_def locks_sorted_def)
  have priv: "unborn ?w r" if "q \<in> set ops" "r \<in> set (o_held q)" for q r
    using waiting_opening [OF _ _ wait [OF that(1)]] locks ok that by (auto simp: list_all_iff service_ok_def)
  have stages: "(\<exists>tx a b. o_stage q = Op_Inserting tx a b) \<or> (\<exists>tx a trx. o_stage q = Op_Recording tx a trx)"
    if "q \<in> set ops" "\<not> op_answered (o_stage q)" for q
    using wait [OF that(1)] that(2) by (cases "o_stage q") auto
  show ?thesis
  proof (cases "\<exists>q\<in>set ops. \<exists>tx a trx. o_stage q = Op_Recording tx a trx")
    case True
    then obtain j tx a trx where j: "j < length ops" "o_stage (ops ! j) = Op_Recording tx a trx" by (auto simp: in_set_conv_nth)
    have "set (op_needs (o_stage (ops ! j)) ?w) \<inter> set (o_held q) = {}" if "q \<in> set ops" for q
      using priv [OF that] j(2) by (auto simp: unborn_def)
    then have "unheld (op_needs (o_stage (ops ! j)) ?w) (map s_held ss @ map o_held (others j ops))"
      using held unfolding unheld_append unheld_others by (simp add: unheld_map)
    then show ?thesis using j by (intro exI [of _ j]) simp
  next
    case False
    then have none: "o_held q = []" if "q \<in> set ops" for q
      using stages [OF that] locks that by (cases "o_stage q") (fastforce simp: op_locks_def list_all_iff)+
    from live obtain j where j: "j < length ops" "\<not> op_answered (o_stage (ops ! j))" by (auto simp: in_set_conv_nth)
    have "unheld (op_needs (o_stage (ops ! j)) ?w) (map s_held ss @ map o_held (others j ops))"
      using held none unfolding unheld_append unheld_others by (simp add: unheld_map)
    then show ?thesis using j by blast
  qed
qed

lemma some_service_call:
  assumes ok: "service_ok S" and locks: "list_all op_locks (snd (snd S))" and live: "\<not> all_served S"
  shows "\<exists>S'. service_step uc E R S S' \<and> service_left S' < service_left S \<and> asked_for S' = asked_for S \<and> list_all op_locks (snd (snd S'))"
proof -
  obtain W ss ops where S: "S = (W, ss, ops)" by (cases S) auto
  let ?w = "committed (db W)"
  have calls: ?thesis if j: "j < length ops" "\<not> op_answered (o_stage (ops ! j))"
    "unheld (op_needs (o_stage (ops ! j)) ?w) (map s_held ss @ map o_held (others j ops))" for j
  proof -
    obtain op' W' where c: "opening_call E R (o_stage (ops ! j)) (at_call [] 0 (o_began (ops ! j)) [] W) = (op', W')" by fastforce
    have "list_all op_locks (ops[j := op_took ?w op' (ops ! j)])"
      using locks op_locks_took [OF c _ j(2)] j(1) in_update [of _ ops j] unfolding S list_all_iff by fastforce
    with service_step.opening_calls [OF j c, of uc] op_call_left [OF c j(2)] op_left_update [OF j(1), of "op_took ?w op' (ops ! j)"] show ?thesis
      unfolding S by (intro exI [of _ "(W', ss, ops[j := op_took ?w op' (ops ! j)])"])
        (simp add: service_left_def asked_for_def map_update list_update_same_conv j(1))
  qed
  show ?thesis
  proof (cases "\<exists>p\<in>set ops. \<not> op_answered (o_stage p) \<and> op_needs (o_stage p) ?w = []")
    case True
    then obtain j where j: "j < length ops" "\<not> op_answered (o_stage (ops ! j))" "op_needs (o_stage (ops ! j)) ?w = []" by (auto simp: in_set_conv_nth)
    show ?thesis by (rule calls [OF j(1,2)]) (simp add: j(3) unheld_def list_all_iff)
  next
    case False
    then have wait: "op_answered (o_stage p) \<or> op_needs (o_stage p) ?w \<noteq> []" if "p \<in> set ops" for p using that by blast
    show ?thesis
    proof (cases "\<exists>s\<in>set ss. \<not> answered (s_stage s)")
      case True
      then obtain s where s: "s \<in> set ss" "\<not> answered (s_stage s)" by blast
      have "running_ok (W, ss)" using ok S by (simp add: service_ok_def)
      from some_free [OF this s] obtain i where i: "i < length ss" "\<not> answered (s_stage (ss ! i))"
        "\<forall>j<length ss. set (needs (s_stage (ss ! i)) ?w) \<inter> set (s_held (ss ! j)) = {}" by blast
      have "set (needs (s_stage (ss ! i)) ?w) \<inter> set (o_held p) = {}" if "p \<in> set ops" for p
        using waiting_opening [OF _ _ wait [OF that]] needs_not_unborn locks ok that S by (fastforce simp: list_all_iff service_ok_def)
      with i(3) have free: "unheld (needs (s_stage (ss ! i)) ?w) (map s_held (others i ss) @ map o_held ops)"
        unfolding unheld_append unheld_others by (simp add: unheld_map)
      obtain st' W' where c: "session_call uc E R True (s_stage (ss ! i)) (at_call [] 0 (s_began (ss ! i)) [] W) = (st', W')" by fastforce
      from service_step.transfer_calls [OF i(1,2) free c] total_left_update [OF i(1)] call_left [OF c i(2)] locks show ?thesis
        unfolding S by (intro exI [of _ "(W', ss[i := took ?w st' (ss ! i)], ops)"])
          (simp add: service_left_def asked_for_def map_update list_update_same_conv i(1))
    next
      case False
      with live obtain p where p: "p \<in> set ops" "\<not> op_answered (o_stage p)" by (auto simp: S all_served_def list_all_iff)
      have "\<exists>j<length ops. \<not> op_answered (o_stage (ops ! j))
        \<and> unheld (op_needs (o_stage (ops ! j)) ?w) (map s_held ss @ map o_held (others j ops))"
        by (rule some_opening [OF _ _ _ wait p]) (use ok locks S False in auto)
      then show ?thesis using calls by blast
    qed
  qed
qed

end

section \<open>Runs\<close>

definition service_opens :: "ext \<Rightarrow> ('r \<Rightarrow> store) \<Rightarrow> 'r service \<Rightarrow> bool" where
  "service_opens E data S = (case S of (W, ss, ops) \<Rightarrow> service_start E data W \<and> ss = [] \<and> ops = [])"

text \<open>Every answer \<^verbatim>\<open>OK\<close> to an opening stands for a committed account in its currency.\<close>

definition founded :: "tables \<Rightarrow> opening_session \<Rightarrow> bool" where
  "founded w p \<longleftrightarrow> (\<forall>i. o_stage p = Op_Answered (Inr i) \<longrightarrow> (\<exists>r. accounts w i = Some r \<and> acc_Currency r = o_currency p))"

lemma opening_fine_founded: "opening_fine d p \<Longrightarrow> founded (committed d) p"
  by (auto simp: opening_fine_def founded_def)

lemma service_step_locks:
  assumes "service_step uc E R S S'" and "list_all op_locks (snd (snd S))"
  shows "list_all op_locks (snd (snd S'))"
  using assms(1)
proof cases
  case (opening_calls j ops W ss us t fs op' W')
  with assms(2) op_locks_took [OF opening_calls(6) _ opening_calls(4)] in_update [of _ ops j] show ?thesis
    unfolding list_all_iff by fastforce
qed (use assms(2) in \<open>auto simp: op_arrival_def op_locks_def\<close>)

context transfer_service
begin

lemma opens_ok: "service_opens E data S \<Longrightarrow> service_ok S"
  using service_start_ok by (auto simp: service_opens_def service_ok_def openings_clear_def)

lemma runs_locks:
  "runs (\<lambda>_ :: unit. service_step uc E R) es S S' \<Longrightarrow> list_all op_locks (snd (snd S)) \<Longrightarrow> list_all op_locks (snd (snd S'))"
  by (induction es arbitrary: S) (auto dest: service_step_locks)

lemma runs_surplus:
  "runs (\<lambda>_ :: unit. service_step uc E R) es S S' \<Longrightarrow> service_ok S \<Longrightarrow> surplus c S' = surplus c S"
proof (induction es arbitrary: S)
  case (Cons e es)
  then obtain U where "service_step uc E R S U" "runs (\<lambda>_ :: unit. service_step uc E R) es U S'" by auto
  with Cons service_step_surplus service_ok_step show ?case by metis
qed simp

lemma service_sound:
  assumes "service_start E data W" and "runs (\<lambda>_ :: unit. service_step uc E R) es (W, [], []) (W', ss, ops)"
  shows "db_ok (db W') \<and> journal_ok (committed (db W')) \<and> coherent E (data (cache W')) (committed (db W'))
    \<and> (\<forall>c. total_in c (committed (db W')) - minted c (committed (db W')) = total_in c (committed (db W)) - minted c (committed (db W)))
    \<and> (\<forall>s\<in>set ss. recorded (committed (db W')) s) \<and> (\<forall>p\<in>set ops. founded (committed (db W')) p)"
proof -
  have ok: "service_ok (W, [], [])" using opens_ok assms(1) by (simp add: service_opens_def)
  have "service_ok (W', ss, ops)" using office.runs_ok [OF assms(2) ok] .
  then have r: "running_ok (W', ss)" "\<forall>p\<in>set ops. opening_fine (db W') p" by (simp_all add: service_ok_def)
  have "surplus c (W', ss, ops) = surplus c (W, [], [])" for c by (rule runs_surplus [OF assms(2) ok])
  with r session_ok_recorded opening_fine_founded show ?thesis
    by (auto simp: running_ok_def inter_ok_def in_set_conv_nth surplus_def)
qed

lemma office_follows:
  assumes "service_start E data W" and "runs (\<lambda>_. service_step uc E R) es (W, [], []) S"
  shows "runs office_step es (bank_of (committed (db W)), [], []) (office_view S)"
  using office.runs_follow [OF assms(2) opens_ok] assms(1) by (simp add: service_opens_def office_view_def)

lemma all_get_served:
  "service_ok S \<Longrightarrow> list_all op_locks (snd (snd S)) \<Longrightarrow>
   \<exists>es S'. runs (\<lambda>_ :: unit. service_step uc E R) es S S' \<and> all_served S' \<and> asked_for S' = asked_for S"
proof (induction "service_left S" arbitrary: S rule: less_induct)
  case less
  show ?case
  proof (cases "all_served S")
    case True
    then show ?thesis by (intro exI [of _ "[]"] exI [of _ S]) simp
  next
    case False
    from some_service_call [OF less.prems False] obtain U where U: "service_step uc E R S U" "service_left U < service_left S"
      "asked_for U = asked_for S" "list_all op_locks (snd (snd U))" by blast
    from less.hyps [OF U(2) service_ok_step [OF U(1) less.prems(1)] U(4)] obtain es S' where
      r: "runs (\<lambda>_ :: unit. service_step uc E R) es U S'" "all_served S'" "asked_for S' = asked_for U" by blast
    have "runs (\<lambda>_ :: unit. service_step uc E R) (() # es) S S'" unfolding runs.simps using U(1) r(1) by blast
    with r(2,3) U(3) show ?thesis by metis
  qed
qed

lemma service_finishes:
  assumes "service_start E data W" and "runs (\<lambda>_ :: unit. service_step uc E R) es (W, [], []) S"
  shows "(\<exists>fs T. runs (\<lambda>_ :: unit. service_step uc E R) fs S T \<and> all_served T \<and> asked_for T = asked_for S)
    \<and> (\<forall>fs T. runs (\<lambda>_ :: unit. service_step uc E R) fs S T \<longrightarrow> requests T = requests S \<longrightarrow> length fs \<le> 10 * requests S)"
proof -
  have ok: "service_ok S" using office.runs_ok [OF assms(2) opens_ok] assms(1) by (simp add: service_opens_def)
  have "list_all op_locks (snd (snd S))" using runs_locks [OF assms(2)] by simp
  from all_get_served [OF ok this] have 1: "\<exists>fs T. runs (\<lambda>_ :: unit. service_step uc E R) fs S T \<and> all_served T \<and> asked_for T = asked_for S" .
  obtain W1 ss ops where S: "S = (W1, ss, ops)" by (cases S) auto
  have "total_left ss \<le> 9 * length ss" using left_bound ok S by (auto simp: service_ok_def)
  moreover have "sum_list (map (op_left \<circ> o_stage) ops) \<le> 10 * length ops"
    using op_left_le by (induction ops) (simp_all add: add_mono)
  ultimately have "service_left S \<le> 10 * requests S" by (simp add: S service_left_def requests_def)
  then have "length fs \<le> 10 * requests S" if "runs (\<lambda>_ :: unit. service_step uc E R) fs S T" "requests T = requests S" for fs T
    using service_runs_left [OF that(1)] that(2) by simp
  with 1 show ?thesis by blast
qed

end

section \<open>An opening that runs alone\<close>

lemma account_now:
  "Postgres.CreateAccount tx a s = (y, t) \<Longrightarrow> pg_now t = pg_now s" "CreditBalance tx i m k s = (y, t) \<Longrightarrow> pg_now t = pg_now s"
  unfolding Postgres.CreateAccount_def CreditBalance_def
  by (erule cast_now, erule CreateAccount_frame [unfolded Postgres.CreateAccount_def] CreditBalance_frame [unfolded CreditBalance_def])+

lemma opening_call_now:
  assumes "opening_call E R st W = (st', W')"
  shows "pg_now (db W') = pg_now (db W)"
  using assms
  by (cases "(E, R, st, W)" rule: opening_call.cases)
    (auto simp: on_db_def on_cache_def uuid_NewV7_spec(1) split: sum.splits prod.splits option.splits if_splits dest: repo_now account_now)

lemma solo_opening_runs:
  "opening_calls E R k (o_stage p) W = (st', W') \<Longrightarrow> o_began p = pg_now (db W) \<Longrightarrow>
   \<exists>es p'. runs (\<lambda>_ :: unit. service_step uc E R) es (W, [], [p]) (W', [], [p']) \<and> o_stage p' = st' \<and> o_currency p' = o_currency p"
proof (induction k arbitrary: p W)
  case 0
  then show ?case by (intro exI [of _ "[]"] exI [of _ p]) auto
next
  case (Suc k)
  show ?case
  proof (cases "op_answered (o_stage p)")
    case True
    then obtain x where "o_stage p = Op_Answered x" by (cases "o_stage p") auto
    with Suc.prems show ?thesis by (intro exI [of _ "[]"] exI [of _ p]) auto
  next
    case False
    obtain st1 W1 where c: "opening_call E R (o_stage p) W = (st1, W1)" by fastforce
    let ?p = "op_took (committed (db W)) st1 p"
    have "opening_call E R (o_stage ([p] ! 0)) (at_call (uuid_source W) (wall W) (o_began ([p] ! 0)) (faults (db W)) W) = (st1, W1)"
      using c Suc.prems(2) at_call_id [of W] by simp
    from service_step.opening_calls [OF _ _ _ this, of "[]" uc] False
    have st: "service_step uc E R (W, [], [p]) (W1, [], [?p])" by (simp add: others_def unheld_def)
    have "opening_calls E R k (o_stage ?p) W1 = (st', W')" using c Suc.prems(1) by simp
    from Suc.IH [OF this] Suc.prems(2) opening_call_now [OF c] obtain es p' where
      r: "runs (\<lambda>_ :: unit. service_step uc E R) es (W1, [], [?p]) (W', [], [p'])" "o_stage p' = st'" "o_currency p' = o_currency p" by auto
    have "runs (\<lambda>_ :: unit. service_step uc E R) (() # es) (W, [], [p]) (W', [], [p'])" unfolding runs.simps using st r(1) by blast
    with r(2,3) show ?thesis by blast
  qed
qed

lemma CreateAccount_runs:
  assumes "uc_CreateAccount E R rnd c W = (x, W')"
  shows "\<exists>es p. runs (\<lambda>_ :: unit. service_step uc E R) es (W, [], []) (W', [], [p]) \<and> o_currency p = c \<and> o_stage p = Op_Answered x"
proof -
  let ?p = "op_arrival c rnd (pg_now (db W))"
  have "opening_calls E R 10 (o_stage ?p) W = (Op_Answered x, W')" using solo_opening [of E R c rnd W] assms by (simp add: op_arrival_def)
  from solo_opening_runs [OF this, of uc] obtain es p where
    r: "runs (\<lambda>_ :: unit. service_step uc E R) es (W, [], [?p]) (W', [], [p])" "o_stage p = Op_Answered x" "o_currency p = c"
    by (force simp: op_arrival_def)
  have "runs (\<lambda>_ :: unit. service_step uc E R) (() # es) (W, [], []) (W', [], [p])"
    unfolding runs.simps using service_step.opening_arrives [of uc E R W "[]" "[]" c rnd "pg_now (db W)"] r(1) by fastforce
  with r(2,3) show ?thesis by blast
qed

lemma sample_opening_run:
  obtains es p where "runs (\<lambda>_ :: unit. service_step sample_uc ref_ext ref_client) es (sample_world, [], []) (snd sample_opening, [], [p])"
    and "o_currency p = CURRENCY_EUR" "o_stage p = Op_Answered (Inr 13)"
  using CreateAccount_runs [OF sample_opening_eq] by blast

section \<open>Theorems\<close>

text \<open>C5. Concurrent transfers and openings are linearizable: what clients and applicants see, every request
  with its answer, is what they could see of a bank that does one thing at a time, however the statements of
  their sessions alternate. Every transfer and every new account takes effect in one step between the request
  and the answer; \<^verbatim>\<open>OK\<close> carries the id of the receipt or of the account; an error leaves the bank alone, or
  follows a commit whose acknowledgement was lost. The committed tables represent the bank after every
  statement.\<close>

theorem concurrent_refines_bank:
  assumes "redis_server R clock data" and "uuid_laws E" and "service_start E data W"
    and "runs (\<lambda>_. service_step uc E R) es (W, [], []) S"
  shows "runs office_step es (bank_of (committed (db W)), [], []) (office_view S)"
  by (rule transfer_service.office_follows [OF transfer_serviceI [OF assms(1,2)] assms(3,4)])

theorem concurrent_refines_bank_witness:
  "\<exists>es. runs office_step es (bank_of sample_tables, [], []) (bank_of (committed (db (snd sample_opening))), [], [(CURRENCY_EUR, Some (Inr 13))])"
proof (rule sample_opening_run)
  fix es p
  assume r: "runs (\<lambda>_ :: unit. service_step sample_uc ref_ext ref_client) es (sample_world, [], []) (snd sample_opening, [], [p])"
    and p: "o_currency p = CURRENCY_EUR" "o_stage p = Op_Answered (Inr 13)"
  from concurrent_refines_bank [OF ref.redis_server_axioms ref_uuid_laws sample_service_start r] p
  show ?thesis by (auto simp: office_view_def)
qed

text \<open>C6. Transfers and openings interleaved statement by statement keep the ledger sound. Any number of requests of
  both kinds arrive at any time; the calls of their sessions alternate in any order that the locks of PostgreSQL
  allow, each may fail before or after the server acts, and posting ids are drawn in one order and committed in
  another. At every moment the constraints hold, every balance is the sum of its postings and the newest of them
  is its \<^verbatim>\<open>latest_posting_id\<close>, the journal is in double entry, the cache agrees with the tables; the money in
  a currency has grown by the opening balances recorded since, and by nothing else; every \<^verbatim>\<open>OK\<close> stands for
  a committed transaction of its request or a committed account in its currency.\<close>

theorem concurrent_sound:
  assumes "redis_server R clock data" and "uuid_laws E" and "service_start E data W"
    and "runs (\<lambda>_ :: unit. service_step uc E R) es (W, [], []) (W', ss, ops)"
  shows "db_ok (db W') \<and> journal_ok (committed (db W')) \<and> coherent E (data (cache W')) (committed (db W'))
    \<and> (\<forall>c. total_in c (committed (db W')) - minted c (committed (db W')) = total_in c (committed (db W)) - minted c (committed (db W)))
    \<and> (\<forall>s\<in>set ss. recorded (committed (db W')) s) \<and> (\<forall>p\<in>set ops. founded (committed (db W')) p)"
  by (rule transfer_service.service_sound [OF transfer_serviceI [OF assms(1,2)] assms(3,4)])

theorem concurrent_sound_witness:
  "books_ok (committed (db (snd sample_opening))) \<and> (\<exists>r. accounts (committed (db (snd sample_opening))) 13 = Some r \<and> acc_Currency r = CURRENCY_EUR)"
proof (rule sample_opening_run)
  fix es p
  assume r: "runs (\<lambda>_ :: unit. service_step sample_uc ref_ext ref_client) es (sample_world, [], []) (snd sample_opening, [], [p])"
    and p: "o_currency p = CURRENCY_EUR" "o_stage p = Op_Answered (Inr 13)"
  from concurrent_sound [OF ref.redis_server_axioms ref_uuid_laws sample_service_start r] p
  show ?thesis by (simp add: db_ok_def founded_def)
qed

text \<open>C7. No session is stuck: from every state that concurrent transfers and openings reach, all of them can be
  brought to an answer without a further request, and whatever the order, no more than ten calls for each
  request are made before the next one arrives. A transfer locks its index entries and then existing rows in the
  order of their ids; an opening locks a row that nobody else sees and then the index entries, and from there on
  waits for nobody.\<close>

theorem concurrent_finish:
  assumes "redis_server R clock data" and "uuid_laws E" and "service_start E data W"
    and "runs (\<lambda>_ :: unit. service_step uc E R) es (W, [], []) S"
  shows "(\<exists>fs T. runs (\<lambda>_ :: unit. service_step uc E R) fs S T \<and> all_served T \<and> asked_for T = asked_for S)
    \<and> (\<forall>fs T. runs (\<lambda>_ :: unit. service_step uc E R) fs S T \<longrightarrow> requests T = requests S \<longrightarrow> length fs \<le> 10 * requests S)"
  by (rule transfer_service.service_finishes [OF transfer_serviceI [OF assms(1,2)] assms(3,4)])

theorem concurrent_finish_witness:
  "\<exists>fs T. runs (\<lambda>_ :: unit. service_step sample_uc ref_ext ref_client) fs
       (sample_world, [arrival sample_request 5], [op_arrival CURRENCY_EUR 777 6]) T \<and> all_served T \<and> asked_for T = ([sample_request], [CURRENCY_EUR])"
proof -
  have b: "bigint (req_Amount sample_request)" by (simp add: sample_request_def bigint_def)
  have "runs (\<lambda>_ :: unit. service_step sample_uc ref_ext ref_client) [(), ()] (sample_world, [], [])
      (sample_world, [arrival sample_request 5], [op_arrival CURRENCY_EUR 777 6])"
    using service_step.transfer_arrives [OF b, of sample_uc ref_ext ref_client sample_world "[]" "[]" 5]
      service_step.opening_arrives [of sample_uc ref_ext ref_client sample_world "[arrival sample_request 5]" "[]" CURRENCY_EUR 777 6]
    by fastforce
  from concurrent_finish [OF ref.redis_server_axioms ref_uuid_laws sample_service_start this]
  obtain fs T where "runs (\<lambda>_ :: unit. service_step sample_uc ref_ext ref_client) fs
      (sample_world, [arrival sample_request 5], [op_arrival CURRENCY_EUR 777 6]) T" "all_served T"
      "asked_for T = asked_for (sample_world, [arrival sample_request 5], [op_arrival CURRENCY_EUR 777 6])" by blast
  then show ?thesis by (intro exI [of _ fs] exI [of _ T]) (simp add: asked_for_def arrival_def op_arrival_def)
qed

text \<open>\<^verbatim>\<open>CreateAccount\<close> is the sequence of its calls, made one after the other with nobody in between.\<close>

theorem CreateAccount_calls:
  "opening_calls E R 10 (Op_Arrived c rnd) W = (case uc_CreateAccount E R rnd c W of (x, W') \<Rightarrow> (Op_Answered x, W'))"
  by (rule solo_opening)

end
