(* ===== verification/Gateway_Calls.thy ===== *)
theory Gateway_Calls
  imports Interleaving_Laws Ledger_Refinement
begin

text \<open>
  Many calls of the RPC \<^verbatim>\<open>Transfer\<close> at once in one gateway process, each through the idempotency
  interceptor. The interceptor is cut where it calls the handler: \<open>admit\<close> is what it does before,
  \<open>settle\<close> what it does after; \<open>transfer_open\<close> and \<open>transfer_close\<close> are the same for the handler around
  \<^verbatim>\<open>Transaction\<close>. Between any two calls of the store or of a repository other calls go on; the transfers
  themselves are the sessions of \<open>Interleaving\<close>. The abstract bank remembers the receipt of a key and
  gives it again.
\<close>

section \<open>The interceptor before and after the handler\<close>

datatype admission =
    Through
  | Claimed uuid
  | Duplicate "status + byte list"

definition admit ::
  "ext \<Rightarrow> 'i idem_storage \<Rightarrow> string \<Rightarrow> byte list \<Rightarrow> 'i \<Rightarrow> admission \<times> 'i" where
  "admit E S fullMethod rawKey i =
     (if fullMethod \<noteq> Transfer_FullMethodName then (Through, i)
      else case uuid_FromBytes E rawKey of
             None \<Rightarrow> (Through, i)
           | Some key \<Rightarrow>
               if key = uuid_Nil then (Through, i)
               else case is_CheckOrLock S key i of
                      (Inl _, i1) \<Rightarrow> (Through, i1)
                    | (Inr (False, st), i1) \<Rightarrow> (Duplicate (handleDuplicate E st), i1)
                    | (Inr (True, _), i1) \<Rightarrow> (Claimed key, i1))"

text \<open>The statements after the handler: for a claimed key a release, or a goroutine that will store the
  outcome. The goroutines that the call starts are the third component.\<close>

definition settle ::
  "ext \<Rightarrow> 'i idem_storage \<Rightarrow> uuid option \<Rightarrow> byte list outcome \<Rightarrow> 'i \<Rightarrow> byte list option outcome \<times> 'i \<times> (uuid \<times> string) list" where
  "settle E S claim y i =
     (case claim of
        None \<Rightarrow> (map_outcome Some y, i, [])
      | Some key \<Rightarrow>
          let released = snd (is_DeleteIdempotency S key i)
          in case y of
               Panicked \<Rightarrow> (Returned (Inr None), released, [])
             | Returned (Inl e) \<Rightarrow> (Returned (Inl e), released, [])
             | Returned (Inr out) \<Rightarrow>
                 (case uuid_FromBytes E out of
                    None \<Rightarrow> (Returned (Inl (Status codes_Internal ''invalid transaction_id from handler: '' None)), released, [])
                  | Some txID \<Rightarrow> (Returned (Inr (Some out)), i, [(key, completedStatus E txID)])))"

definition around ::
  "ext \<Rightarrow> 'i idem_storage \<Rightarrow> uuid option \<Rightarrow> ('w \<Rightarrow> byte list outcome \<times> 'w) \<Rightarrow> ('i, 'w) gateway \<Rightarrow>
   byte list option outcome \<times> ('i, 'w) gateway" where
  "around E S claim handler G =
     (case handler (gw_world G) of (y, W') \<Rightarrow>
      case settle E S claim y (gw_idem G) of (x, i', ps) \<Rightarrow>
        (x, G\<lparr>gw_idem := i', gw_world := W', gw_pending := gw_pending G @ ps\<rparr>))"

section \<open>The handler before and after the use case\<close>

definition transfer_open :: "ext \<Rightarrow> transfer_request \<Rightarrow> status + transaction_request" where
  "transfer_open E req =
     (case uuid_FromBytes E (m_IdempotencyKey req) of
        None \<Rightarrow> Inl (Status codes_InvalidArgument ''invalid idempotency_key'' None)
      | Some ik \<Rightarrow>
     (case uuid_FromBytes E (m_UserFromId req) of
        None \<Rightarrow> Inl (Status codes_InvalidArgument ''invalid user_from_id'' None)
      | Some fromID \<Rightarrow>
     (case uuid_FromBytes E (m_UserToId req) of
        None \<Rightarrow> Inl (Status codes_InvalidArgument ''invalid user_to_id'' None)
      | Some toID \<Rightarrow> Inr \<lparr>req_IdempotencyKey = ik, req_FromAccountID = fromID, req_ToAccountID = toID,
              req_Currency = to_currency (m_Currency req), req_Amount = m_Amount req\<rparr>)))"

definition transfer_close :: "uuid result \<Rightarrow> status + byte list" where
  "transfer_close x = (case x of Inl err \<Rightarrow> Inl (transfer_error err) | Inr txID \<Rightarrow> Inr (uuid_bytes txID))"

text \<open>Put together again they are the functions of the code.\<close>

lemma interceptor_parts:
  "UnaryIdempotencyInterceptor E S m rawKey handler G =
     (case admit E S m rawKey (gw_idem G) of
        (Duplicate x, i1) \<Rightarrow> (Returned (map_sum id Some x), G\<lparr>gw_idem := i1\<rparr>)
      | (Through, i1) \<Rightarrow> around E S None handler (G\<lparr>gw_idem := i1\<rparr>)
      | (Claimed key, i1) \<Rightarrow> around E S (Some key) handler (G\<lparr>gw_idem := i1\<rparr>))"
  by (auto simp: UnaryIdempotencyInterceptor_def admit_def around_def settle_def claimed_call_def run_handler_def release_def Let_def
      split: option.splits prod.splits sum.splits bool.splits outcome.splits)

lemma Transfer_parts:
  "Transfer uc E R ff req W =
     (case transfer_open E req of
        Inl st \<Rightarrow> (Inl st, W)
      | Inr r \<Rightarrow> (case Transaction uc E R ff r W of (x, W') \<Rightarrow> (transfer_close x, W')))"
  by (auto simp: Transfer_def transfer_open_def transfer_close_def split: option.splits prod.splits sum.splits)

section \<open>Calls in progress\<close>

text \<open>Where a call is: it has been received; its handler runs as the session of this number; the handler has
  returned; it has been answered; it was lost with the process. A claim is a key and the store's time
  when it was granted, which the code does not keep.\<close>

datatype progress =
    Calling
  | Working "(uuid \<times> int) option" nat
  | Leaving "(uuid \<times> int) option" "status + byte list"
  | Replied "status + byte list option"
  | Broken

record transfer_call =
  gc_req :: transfer_request
  gc_at :: progress

record ('i, 'r) front =
  fr_idem :: 'i
  fr_world :: "'r world"
  fr_sessions :: "transfer_session list"
  fr_calls :: "transfer_call list"
  fr_pending :: "(uuid \<times> string) list"

definition started ::
  "ext \<Rightarrow> time \<Rightarrow> transfer_request \<Rightarrow> (uuid \<times> int) option \<Rightarrow>
   transfer_session list \<Rightarrow> progress \<times> transfer_session list" where
  "started E now req c ss =
     (case transfer_open E req of
        Inl st \<Rightarrow> (Leaving c (Inl st), ss)
      | Inr r \<Rightarrow> (Working c (length ss), ss @ [arrival r now]))"

definition admitted ::
  "ext \<Rightarrow> int \<Rightarrow> time \<Rightarrow> transfer_request \<Rightarrow> admission \<Rightarrow>
   transfer_session list \<Rightarrow> progress \<times> transfer_session list" where
  "admitted E granted now req a ss =
     (case a of
        Duplicate x \<Rightarrow> (Replied (map_sum id Some x), ss)
      | Through \<Rightarrow> started E now req None ss
      | Claimed key \<Rightarrow> started E now req (Some (key, granted)) ss)"

definition at_stage :: "nat \<Rightarrow> progress \<Rightarrow> transfer_call list \<Rightarrow> transfer_call list" where
  "at_stage i p cs = cs[i := (cs ! i)\<lparr>gc_at := p\<rparr>]"

text \<open>A crash ends all calls of the process and the goroutines it has started; the server aborts their
  transactions; what is committed or stored stays.\<close>

definition lost_call :: "transfer_call \<Rightarrow> transfer_call" where
  "lost_call c = (case gc_at c of Replied x \<Rightarrow> c | _ \<Rightarrow> c\<lparr>gc_at := Broken\<rparr>)"

definition crashed :: "('i, 'r) front \<Rightarrow> ('i, 'r) front" where
  "crashed F = F\<lparr>fr_world := (fr_world F)\<lparr>db := (db (fr_world F))\<lparr>open_txs := Map.empty\<rparr>, spawned := []\<rparr>,
     fr_sessions := [], fr_calls := map lost_call (fr_calls F), fr_pending := []\<rparr>"

datatype gate_event = Ev_Request transfer_request | Ev_Call | Ev_Crash

inductive gate_step ::
  "transfer_uc \<Rightarrow> ext \<Rightarrow> 'r redis \<Rightarrow> 'i idem_storage \<Rightarrow> ('i \<Rightarrow> int) \<Rightarrow> gate_event \<Rightarrow> ('i, 'r) front \<Rightarrow> ('i, 'r) front \<Rightarrow> bool"
  for uc E R S clk where
  receives: "bigint (m_Amount req) \<Longrightarrow>
     gate_step uc E R S clk (Ev_Request req) F (F\<lparr>fr_calls := fr_calls F @ [\<lparr>gc_req = req, gc_at = Calling\<rparr>]\<rparr>)"
| admits: "i < length (fr_calls F) \<Longrightarrow> gc_at (fr_calls F ! i) = Calling \<Longrightarrow>
     admit E S Transfer_FullMethodName (m_IdempotencyKey (gc_req (fr_calls F ! i))) (fr_idem F) = (a, i1) \<Longrightarrow>
     admitted E (clk i1) now (gc_req (fr_calls F ! i)) a (fr_sessions F) = (p, ss) \<Longrightarrow>
     gate_step uc E R S clk Ev_Call F (F\<lparr>fr_idem := i1, fr_sessions := ss, fr_calls := at_stage i p (fr_calls F)\<rparr>)"
| works: "inter_step uc E R (fr_world F, fr_sessions F) (W', ss) \<Longrightarrow> length ss = length (fr_sessions F) \<Longrightarrow>
     gate_step uc E R S clk Ev_Call F (F\<lparr>fr_world := W', fr_sessions := ss\<rparr>)"
| returns: "i < length (fr_calls F) \<Longrightarrow> gc_at (fr_calls F ! i) = Working c n \<Longrightarrow> s_stage (fr_sessions F ! n) = Answered x \<Longrightarrow>
     gate_step uc E R S clk Ev_Call F (F\<lparr>fr_calls := at_stage i (Leaving c (transfer_close x)) (fr_calls F)\<rparr>)"
| leaves: "i < length (fr_calls F) \<Longrightarrow> gc_at (fr_calls F ! i) = Leaving c y \<Longrightarrow>
     settle E S (map_option fst c) (Returned y) (fr_idem F) = (Returned z, i1, ps) \<Longrightarrow>
     gate_step uc E R S clk Ev_Call F
       (F\<lparr>fr_idem := i1, fr_calls := at_stage i (Replied z) (fr_calls F), fr_pending := fr_pending F @ ps\<rparr>)"
| stores: "n < length (fr_pending F) \<Longrightarrow> fr_pending F ! n = (k, st) \<Longrightarrow> is_UpdateIdempotencyStatus S k st (fr_idem F) = (e, i1) \<Longrightarrow>
     gate_step uc E R S clk Ev_Call F (F\<lparr>fr_idem := i1, fr_pending := take n (fr_pending F) @ drop (Suc n) (fr_pending F)\<rparr>)"
| crashes: "gate_step uc E R S clk Ev_Crash F (crashed F)"

section \<open>The bank that gives a receipt again\<close>

type_synonym caller = "transfer_request \<times> (status + byte list option) option"

text \<open>A transfer takes effect before its request is answered, at most once for a key. The answer \<^verbatim>\<open>OK\<close> is the
  receipt of the key. A request may stay without an answer.\<close>

inductive gate_serves :: "gate_event \<Rightarrow> bank \<times> caller list \<Rightarrow> bank \<times> caller list \<Rightarrow> bool" where
  asks: "gate_serves (Ev_Request req) (B, cs) (B, cs @ [(req, None)])"
| waits: "e = Ev_Call \<or> e = Ev_Crash \<Longrightarrow> gate_serves e (B, cs) (B, cs)"
| moves: "(req, None) \<in> set cs \<Longrightarrow> asked req k rc \<Longrightarrow> bank_move k rc B B' \<Longrightarrow> gate_serves Ev_Call (B, cs) (B', cs)"
| refuses: "i < length cs \<Longrightarrow> cs ! i = (req, None) \<Longrightarrow> gate_serves Ev_Call (B, cs) (B, cs[i := (req, Some (Inl st))])"
| gives: "i < length cs \<Longrightarrow> cs ! i = (req, None) \<Longrightarrow> wire_id (m_IdempotencyKey req) = Some k \<Longrightarrow> b_receipts B k = Some rc \<Longrightarrow>
     gate_serves Ev_Call (B, cs) (B, cs[i := (req, Some (Inr (Some (uuid_bytes (rc_ID rc)))))])"

fun caller_of :: "transfer_call \<Rightarrow> caller" where
  "caller_of \<lparr>gc_req = req, gc_at = Replied x\<rparr> = (req, Some x)"
| "caller_of c = (gc_req c, None)"

definition front_view :: "('i, 'r) front \<Rightarrow> bank \<times> caller list" where
  "front_view F = (bank_of (committed (db (fr_world F))), map caller_of (fr_calls F))"

section \<open>What holds of the calls\<close>

definition vouched :: "ext \<Rightarrow> tables \<Rightarrow> transfer_request \<Rightarrow> byte list \<Rightarrow> bool" where
  "vouched E w req out \<longleftrightarrow> (\<exists>t\<in>set (transactions w). uuid_FromBytes E (m_IdempotencyKey req) = Some (t_IdempotencyKey t)
     \<and> out = uuid_bytes (t_ID t))"

definition keyed :: "ext \<Rightarrow> transfer_request \<Rightarrow> (uuid \<times> int) option \<Rightarrow> bool" where
  "keyed E req c \<longleftrightarrow> (\<forall>k t. c = Some (k, t) \<longrightarrow> uuid_FromBytes E (m_IdempotencyKey req) = Some k)"

fun progress_ok ::
  "ext \<Rightarrow> tables \<Rightarrow> transfer_session list \<Rightarrow> transfer_request \<Rightarrow> progress \<Rightarrow> bool" where
  "progress_ok E w ss req (Working c n) \<longleftrightarrow> n < length ss \<and> transfer_open E req = Inr (s_req (ss ! n)) \<and> keyed E req c"
| "progress_ok E w ss req (Leaving c y) \<longleftrightarrow> keyed E req c \<and> (\<forall>out. y = Inr out \<longrightarrow> vouched E w req out)"
| "progress_ok E w ss req (Replied x) \<longleftrightarrow> (\<forall>o'. x = Inr o' \<longrightarrow> (\<exists>out. o' = Some out \<and> vouched E w req out))"
| "progress_ok E w ss req Calling \<longleftrightarrow> bigint (m_Amount req)"
| "progress_ok E w ss req Broken \<longleftrightarrow> True"

text \<open>Every session that has not answered is the handler of one call, and of only one.\<close>

definition works_for :: "progress \<Rightarrow> nat \<Rightarrow> bool" where
  "works_for p n \<longleftrightarrow> (\<exists>c. p = Working c n)"

definition owners_ok :: "transfer_session list \<Rightarrow> transfer_call list \<Rightarrow> bool" where
  "owners_ok ss cs \<longleftrightarrow> (\<forall>n<length ss. \<not> answered (s_stage (ss ! n)) \<longrightarrow> (\<exists>i<length cs. works_for (gc_at (cs ! i)) n))
     \<and> (\<forall>i<length cs. \<forall>j<length cs. \<forall>n. works_for (gc_at (cs ! i)) n \<longrightarrow> works_for (gc_at (cs ! j)) n \<longrightarrow> i = j)"

lemma vouched_mono [ledger_mono]: "grows w w' \<Longrightarrow> vouched E w req out \<Longrightarrow> vouched E w' req out"
  by (auto simp: grows_def vouched_def)

lemma progress_ok_mono:
  assumes "progress_ok E w ss req p" and "grows w w'" and "\<And>n. n < length ss \<Longrightarrow> n < length ss' \<and> s_req (ss' ! n) = s_req (ss ! n)"
  shows "progress_ok E w' ss' req p"
  using assms vouched_mono by (cases p) fastforce+

lemma works_for_simps [simp]:
  "works_for (Working c n) m \<longleftrightarrow> m = n" "\<not> works_for Calling m" "\<not> works_for (Leaving c y) m" "\<not> works_for (Replied x) m" "\<not> works_for Broken m"
  by (auto simp: works_for_def)

lemma works_for_bound: "progress_ok E w ss req p \<Longrightarrow> works_for p n \<Longrightarrow> n < length ss"
  by (auto simp: works_for_def)

lemma length_at_stage [simp]: "length (at_stage i p cs) = length cs"
  by (simp add: at_stage_def)

lemma at_stage_nth [simp]: "j < length cs \<Longrightarrow> at_stage i p cs ! j = (if j = i then (cs ! i)\<lparr>gc_at := p\<rparr> else cs ! j)"
  by (simp add: at_stage_def)

lemma at_stage_reqs [simp]: "map gc_req (at_stage i p cs) = map gc_req cs"
  by (cases "i < length cs") (simp_all add: at_stage_def map_update list_update_same_conv list_update_beyond)

lemma set_at_stage: "c \<in> set (at_stage i p cs) \<Longrightarrow> i < length cs \<Longrightarrow> c = (cs ! i)\<lparr>gc_at := p\<rparr> \<or> c \<in> set cs"
  unfolding at_stage_def by (metis insertE set_update_subset_insert subsetD)

lemma caller_of_gc: "caller_of c = (gc_req c, case gc_at c of Replied x \<Rightarrow> Some x | _ \<Rightarrow> None)"
  by (cases c rule: caller_of.cases) auto

lemma callers_at_stage:
  "i < length cs \<Longrightarrow> map caller_of (at_stage i p cs) = (map caller_of cs)[i := caller_of ((cs ! i)\<lparr>gc_at := p\<rparr>)]"
  by (simp add: at_stage_def map_update)

lemma callers_same:
  "i < length cs \<Longrightarrow> caller_of ((cs ! i)\<lparr>gc_at := p\<rparr>) = caller_of (cs ! i) \<Longrightarrow> map caller_of (at_stage i p cs) = map caller_of cs"
  by (simp add: callers_at_stage list_update_same_conv)

lemma caller_lost [simp]: "caller_of (lost_call c) = caller_of c" "gc_req (lost_call c) = gc_req c"
  by (cases "gc_at c"; simp add: caller_of_gc lost_call_def)+

lemma owners_ok_at_stage:
  assumes "owners_ok ss cs" and i: "i < length cs" and new: "\<not> (\<exists>n. works_for p n)"
    and old: "\<And>n. works_for (gc_at (cs ! i)) n \<Longrightarrow> answered (s_stage (ss ! n))"
  shows "owners_ok ss (at_stage i p cs)"
  unfolding owners_ok_def
proof (intro conjI allI impI)
  fix n assume "n < length ss" "\<not> answered (s_stage (ss ! n))"
  with assms(1) obtain j where j: "j < length cs" "works_for (gc_at (cs ! j)) n" by (auto simp: owners_ok_def)
  with old \<open>\<not> answered _\<close> have "j \<noteq> i" by blast
  with j show "\<exists>j<length (at_stage i p cs). works_for (gc_at (at_stage i p cs ! j)) n" by (intro exI [of _ j]) simp
qed (use assms in \<open>auto simp: owners_ok_def split: if_splits\<close>)

lemma owners_ok_start:
  assumes ow: "owners_ok ss cs" and i: "i < length cs" "\<not> (\<exists>n. works_for (gc_at (cs ! i)) n)"
    and bound: "\<And>c n. c \<in> set cs \<Longrightarrow> works_for (gc_at c) n \<Longrightarrow> n < length ss"
  shows "owners_ok (ss @ [s]) (at_stage i (Working c (length ss)) cs)"
  unfolding owners_ok_def
proof (intro conjI allI impI)
  fix n assume n: "n < length (ss @ [s])" "\<not> answered (s_stage ((ss @ [s]) ! n))"
  let ?cs = "at_stage i (Working c (length ss)) cs"
  show "\<exists>j<length ?cs. works_for (gc_at (?cs ! j)) n"
  proof (cases "n = length ss")
    case True
    then show ?thesis using i(1) by (intro exI [of _ i]) simp
  next
    case False
    with n ow obtain j where j: "j < length cs" "works_for (gc_at (cs ! j)) n"
      by (auto simp: owners_ok_def nth_append less_Suc_eq)
    with i(2) have "j \<noteq> i" by blast
    with j show ?thesis by (intro exI [of _ j]) simp
  qed
next
  fix j k n
  assume "j < length (at_stage i (Working c (length ss)) cs)" "k < length (at_stage i (Working c (length ss)) cs)"
    "works_for (gc_at (at_stage i (Working c (length ss)) cs ! j)) n" "works_for (gc_at (at_stage i (Working c (length ss)) cs ! k)) n"
  moreover have "works_for (gc_at (cs ! j)) n \<Longrightarrow> j < length cs \<Longrightarrow> n < length ss" for j n using bound nth_mem by blast
  ultimately show "j = k" using ow by (fastforce simp: owners_ok_def split: if_splits)
qed

lemma transfer_open_asks:
  assumes "uuid_laws E" and "transfer_open E req = Inr r" and "wanted r rc"
  shows "asked req (req_IdempotencyKey r) rc" and "uuid_FromBytes E (m_IdempotencyKey req) = Some (req_IdempotencyKey r)"
  using assms by (auto simp: transfer_open_def asked_def wanted_def wire_id_FromBytes split: option.splits)

lemma transfer_open_amount: "transfer_open E req = Inr r \<Longrightarrow> req_Amount r = m_Amount req"
  by (auto simp: transfer_open_def split: option.splits)

text \<open>A step of a session, when no session is added.\<close>

lemma inter_step_sessions:
  assumes "inter_step uc E R (W, ss) (W', ss')" and "length ss' = length ss" and "n < length ss"
  shows "s_req (ss' ! n) = s_req (ss ! n)" and "\<not> answered (s_stage (ss' ! n)) \<Longrightarrow> \<not> answered (s_stage (ss ! n))"
  using assms by (auto elim!: inter_stepE simp: nth_list_update split: if_splits)

lemma vouched_receipt:
  assumes "uuid_laws E" and "schema_ok q w" and "vouched E w req out"
  shows "\<exists>k rc. wire_id (m_IdempotencyKey req) = Some k \<and> b_receipts (bank_of w) k = Some rc \<and> out = uuid_bytes (rc_ID rc)"
proof -
  from assms(3) obtain t where t: "t \<in> set (transactions w)" "uuid_FromBytes E (m_IdempotencyKey req) = Some (t_IdempotencyKey t)"
    "out = uuid_bytes (t_ID t)" by (auto simp: vouched_def)
  then have "b_receipts (bank_of w) (t_IdempotencyKey t) = Some (receipt_of t)" using bank_of_receipts [OF assms(2)] by blast
  with t show ?thesis by (auto simp: wire_id_FromBytes [OF assms(1)])
qed

section \<open>The invariant\<close>

locale transfer_front = transfer_service R clock data E uc + idempotency_storage S entry now
  for R :: "'r redis" and clock data E uc and S :: "'i idem_storage" and entry now
begin

definition front_ok :: "('i, 'r) front \<Rightarrow> bool" where
  "front_ok F \<longleftrightarrow> running_ok (fr_world F, fr_sessions F)
     \<and> idem_ok E (entry (fr_idem F)) (fr_pending F) (committed (db (fr_world F)))
     \<and> (\<forall>c\<in>set (fr_calls F). progress_ok E (committed (db (fr_world F))) (fr_sessions F) (gc_req c) (gc_at c))
     \<and> owners_ok (fr_sessions F) (fr_calls F)"

lemma front_okD:
  assumes "front_ok F"
  shows "running_ok (fr_world F, fr_sessions F)"
    and "idem_ok E (entry (fr_idem F)) (fr_pending F) (committed (db (fr_world F)))"
    and "i < length (fr_calls F) \<Longrightarrow> progress_ok E (committed (db (fr_world F))) (fr_sessions F) (gc_req (fr_calls F ! i)) (gc_at (fr_calls F ! i))"
    and "c \<in> set (fr_calls F) \<Longrightarrow> progress_ok E (committed (db (fr_world F))) (fr_sessions F) (gc_req c) (gc_at c)"
    and "owners_ok (fr_sessions F) (fr_calls F)"
  using assms by (auto simp: front_ok_def)

lemma step_grows:
  assumes "inter_step uc E R (W, ss) (W', ss')" and "running_ok (W, ss)"
  shows "grows (committed (db W)) (committed (db W'))"
  using assms(1)
proof (rule inter_stepE)
  fix i ff us t fs st'
  assume c: "i < length ss" "\<not> answered (s_stage (ss ! i))"
    "\<forall>j<length ss. j \<noteq> i \<longrightarrow> set (needs (s_stage (ss ! i)) (committed (db W))) \<inter> set (s_held (ss ! j)) = {}"
    "session_call uc E R ff (s_stage (ss ! i)) (at_call us t (s_began (ss ! i)) fs W) = (st', W')"
  have ok: "inter_ok E data (W, ss)" using assms(2) by (simp add: running_ok_def)
  then have d: "db_ok (db W)" "journal_ok (committed (db W))" by (simp_all add: inter_ok_def)
  from inter_calls(2) [OF uuids ok c] show ?thesis
    using grows_transfer by (auto elim!: landed_cases [OF _ d])
qed simp

text \<open>A step that changes one call, and perhaps the store.\<close>

lemma front_ok_at_stage:
  assumes ok: "front_ok F" and i: "i < length (fr_calls F)" and p: "progress_ok E (committed (db (fr_world F))) (fr_sessions F) (gc_req (fr_calls F ! i)) p"
    and new: "\<not> (\<exists>n. works_for p n)" and old: "\<And>n. works_for (gc_at (fr_calls F ! i)) n \<Longrightarrow> answered (s_stage (fr_sessions F ! n))"
    and idem: "idem_ok E (entry i1) P (committed (db (fr_world F)))"
  shows "front_ok (F\<lparr>fr_idem := i1, fr_calls := at_stage i p (fr_calls F), fr_pending := P\<rparr>)"
proof -
  have "progress_ok E (committed (db (fr_world F))) (fr_sessions F) (gc_req c) (gc_at c)" if "c \<in> set (at_stage i p (fr_calls F))" for c
    using set_at_stage [OF that i] p front_okD(4) [OF ok] by auto
  then show ?thesis
    using front_okD(1) [OF ok] idem owners_ok_at_stage [OF front_okD(5) [OF ok] i new old] by (simp add: front_ok_def)
qed

text \<open>What a request finds when it enters: an answer for it, or its handler may run.\<close>

lemma admit_ok:
  assumes "admit E S m raw i = (a, i1)" and "idem_ok E (entry i) P w"
  shows "idem_ok E (entry i1) P w"
    and "a = Claimed k \<Longrightarrow> uuid_FromBytes E raw = Some k"
    and "a = Duplicate (Inr out) \<Longrightarrow> \<exists>t\<in>set (transactions w). uuid_FromBytes E raw = Some (t_IdempotencyKey t) \<and> out = uuid_bytes (t_ID t)"
proof -
  consider "i1 = i" "a = Through" | k x where "uuid_FromBytes E raw = Some k" "is_CheckOrLock S k i = (x, i1)"
      "a = (case x of Inl _ \<Rightarrow> Through | Inr (False, st) \<Rightarrow> Duplicate (handleDuplicate E st) | Inr (True, _) \<Rightarrow> Claimed k)"
    using assms(1) by (fastforce simp: admit_def split: if_splits option.splits prod.splits sum.splits bool.splits)
  then have "idem_ok E (entry i1) P w \<and> (a = Claimed k \<longrightarrow> uuid_FromBytes E raw = Some k) \<and>
    (a = Duplicate (Inr out) \<longrightarrow> (\<exists>t\<in>set (transactions w). uuid_FromBytes E raw = Some (t_IdempotencyKey t) \<and> out = uuid_bytes (t_ID t)))"
  proof cases
    case (2 k' x)
    show ?thesis
      using check_idem [OF 2(2) assms(2)] 2 duplicate_receipt [OF uuids, of k' i _ i1 P w] assms(2)
      by (fastforce split: sum.splits prod.splits bool.splits)
  qed (use assms(2) in auto)
  then show "idem_ok E (entry i1) P w" and "a = Claimed k \<Longrightarrow> uuid_FromBytes E raw = Some k"
    and "a = Duplicate (Inr out) \<Longrightarrow> \<exists>t\<in>set (transactions w). uuid_FromBytes E raw = Some (t_IdempotencyKey t) \<and> out = uuid_bytes (t_ID t)"
    by blast+
qed

text \<open>What the interceptor does after the handler.\<close>

lemma settle_ok:
  assumes s: "settle E S (map_option fst c) (Returned y) i = (Returned z, i1, ps)" and idem: "idem_ok E (entry i) P w"
    and c: "keyed E req c" and v: "\<And>out. y = Inr out \<Longrightarrow> vouched E w req out"
  shows "idem_ok E (entry i1) (P @ ps) w" and "z = map_sum id Some y"
proof -
  have "idem_ok E (entry i1) (P @ ps) w \<and> z = map_sum id Some y"
  proof (cases c)
    case None
    then show ?thesis using s idem by (cases y) (auto simp: settle_def)
  next
    case (Some kt)
    then obtain k t where k: "c = Some (k, t)" "uuid_FromBytes E (m_IdempotencyKey req) = Some k" using c by (cases kt) (auto simp: keyed_def)
    show ?thesis
    proof (cases y)
      case (Inl e)
      then show ?thesis using s k delete_idem [OF prod.collapse [symmetric] idem, of k] by (auto simp: settle_def Let_def)
    next
      case (Inr out)
      with v obtain tr where tr: "tr \<in> set (transactions w)" "t_IdempotencyKey tr = k" "out = uuid_bytes (t_ID tr)" using k by (auto simp: vouched_def)
      then have e: "z = Inr (Some out)" "i1 = i" "ps = [(k, completedStatus E (t_ID tr))]"
        using s k Inr uuids by (auto simp: settle_def Let_def)
      have "receipted E w k (completedStatus E (t_ID tr))" using tr by (auto simp: receipted_def)
      with idem show ?thesis unfolding e Inr by (simp add: idem_ok_def)
    qed
  qed
  then show "idem_ok E (entry i1) (P @ ps) w" and "z = map_sum id Some y" by simp_all
qed

end

context transfer_front
begin

lemma started_ok:
  assumes ok: "front_ok F" and i: "i < length (fr_calls F)" "gc_at (fr_calls F ! i) = Calling"
    and st: "started E now' (gc_req (fr_calls F ! i)) c (fr_sessions F) = (p, ss)" and c: "keyed E (gc_req (fr_calls F ! i)) c"
    and idem: "idem_ok E (entry i1) (fr_pending F) (committed (db (fr_world F)))"
  shows "front_ok (F\<lparr>fr_idem := i1, fr_sessions := ss, fr_calls := at_stage i p (fr_calls F)\<rparr>)"
proof (cases "transfer_open E (gc_req (fr_calls F ! i))")
  case (Inl e)
  then have "p = Leaving c (Inl e)" "ss = fr_sessions F" using st by (simp_all add: started_def)
  then show ?thesis using front_ok_at_stage [OF ok i(1) _ _ _ idem, of p] i(2) c by simp
next
  case (Inr r)
  let ?w = "committed (db (fr_world F))" and ?n = "length (fr_sessions F)"
  have p: "p = Working c ?n" "ss = fr_sessions F @ [arrival r now']" using st Inr by (simp_all add: started_def)
  have b: "bigint (req_Amount r)" using front_okD(3) [OF ok i(1)] i(2) transfer_open_amount [OF Inr] by simp
  have run: "running_ok (fr_world F, ss)"
    using running_step [OF inter_step.arrives [OF b] front_okD(1) [OF ok]] p(2) by simp
  have "progress_ok E ?w ss (gc_req c') (gc_at c')" if "c' \<in> set (at_stage i p (fr_calls F))" for c'
    using set_at_stage [OF that i(1)]
  proof
    assume "c' = (fr_calls F ! i)\<lparr>gc_at := p\<rparr>"
    then show ?thesis using Inr c by (simp add: p arrival_def)
  next
    assume "c' \<in> set (fr_calls F)"
    from front_okD(4) [OF ok this] show ?thesis by (rule progress_ok_mono) (simp_all add: p(2) nth_append)
  qed
  moreover have "owners_ok ss (at_stage i p (fr_calls F))"
    unfolding p using i front_okD(4) [OF ok]
    by (intro owners_ok_start [OF front_okD(5) [OF ok]]) (auto dest: works_for_bound)
  ultimately show ?thesis using run idem by (simp add: front_ok_def)
qed

lemma admitted_ok:
  assumes ok: "front_ok F" and i: "i < length (fr_calls F)" "gc_at (fr_calls F ! i) = Calling"
    and a: "admit E S Transfer_FullMethodName (m_IdempotencyKey (gc_req (fr_calls F ! i))) (fr_idem F) = (a, i1)"
    and st: "admitted E (now i1) now' (gc_req (fr_calls F ! i)) a (fr_sessions F) = (p, ss)"
  shows "front_ok (F\<lparr>fr_idem := i1, fr_sessions := ss, fr_calls := at_stage i p (fr_calls F)\<rparr>)"
proof -
  note adm = admit_ok [OF a front_okD(2) [OF ok]]
  show ?thesis
  proof (cases a)
    case (Duplicate x)
    then have p: "p = Replied (map_sum id Some x)" "ss = fr_sessions F" using st by (simp_all add: admitted_def)
    have "progress_ok E (committed (db (fr_world F))) (fr_sessions F) (gc_req (fr_calls F ! i)) p"
      using adm(3) Duplicate unfolding p by (cases x) (auto simp: vouched_def)
    then show ?thesis using front_ok_at_stage [OF ok i(1) _ _ _ adm(1), of p] i(2) p by simp
  next
    case Through
    then show ?thesis using st by (intro started_ok [OF ok i _ _ adm(1)]) (auto simp: admitted_def keyed_def)
  next
    case (Claimed k)
    then show ?thesis using st adm(2) by (intro started_ok [OF ok i _ _ adm(1)]) (auto simp: admitted_def keyed_def)
  qed
qed

lemma works_ok:
  assumes ok: "front_ok F" and st: "inter_step uc E R (fr_world F, fr_sessions F) (W', ss)" and len: "length ss = length (fr_sessions F)"
  shows "front_ok (F\<lparr>fr_world := W', fr_sessions := ss\<rparr>)"
proof -
  note g = step_grows [OF st front_okD(1) [OF ok]]
  note sess = inter_step_sessions [OF st len]
  have "progress_ok E (committed (db W')) ss (gc_req c) (gc_at c)" if "c \<in> set (fr_calls F)" for c
    using front_okD(4) [OF ok that] g by (rule progress_ok_mono) (simp add: len sess)
  moreover have "owners_ok ss (fr_calls F)"
    using front_okD(5) [OF ok] sess(2) by (auto simp: owners_ok_def len)
  ultimately show ?thesis
    using running_step [OF st front_okD(1) [OF ok]] grows_idem [OF g front_okD(2) [OF ok]] by (simp add: front_ok_def)
qed

lemma returns_ok:
  assumes ok: "front_ok F" and i: "i < length (fr_calls F)" "gc_at (fr_calls F ! i) = Working c n" and a: "s_stage (fr_sessions F ! n) = Answered x"
  shows "front_ok (F\<lparr>fr_calls := at_stage i (Leaving c (transfer_close x)) (fr_calls F)\<rparr>)"
proof -
  let ?w = "committed (db (fr_world F))" and ?req = "gc_req (fr_calls F ! i)"
  have p: "n < length (fr_sessions F)" "transfer_open E ?req = Inr (s_req (fr_sessions F ! n))" "keyed E ?req c"
    using front_okD(3) [OF ok i(1)] i(2) by simp_all
  have "recorded ?w (fr_sessions F ! n)"
    using front_okD(1) [OF ok] p(1) by (auto simp: running_ok_def inter_ok_def intro: session_ok_recorded)
  then have v: "vouched E ?w ?req out" if "transfer_close x = Inr out" for out
    using that a transfer_open_asks [OF uuids p(2)] by (auto simp: recorded_def transfer_close_def vouched_def split: sum.splits) metis
  have "front_ok (F\<lparr>fr_idem := fr_idem F, fr_calls := at_stage i (Leaving c (transfer_close x)) (fr_calls F), fr_pending := fr_pending F\<rparr>)"
    by (rule front_ok_at_stage [OF ok i(1) _ _ _ front_okD(2) [OF ok]]) (use p(3) v i(2) a in auto)
  then show ?thesis by simp
qed

lemma crash_ok:
  assumes "front_ok F"
  shows "front_ok (crashed F)"
proof -
  have "running_ok (fr_world (crashed F), [])"
    using front_okD(1) [OF assms] by (auto simp: crashed_def running_ok_def inter_ok_def handles_ok_def db_ok_def)
  moreover have "progress_ok E (committed (db (fr_world F))) [] (gc_req c) (gc_at (lost_call c))" if "c \<in> set (fr_calls F)" for c
    using front_okD(4) [OF assms that] by (cases "gc_at c") (auto simp: lost_call_def)
  moreover have "\<not> works_for (gc_at (lost_call c)) n" for c n by (cases "gc_at c") (simp_all add: lost_call_def)
  ultimately show ?thesis
    using front_okD(2) [OF assms] by (auto simp: front_ok_def crashed_def idem_ok_def owners_ok_def)
qed

lemma stores_ok:
  assumes ok: "front_ok F" and n: "n < length (fr_pending F)" "fr_pending F ! n = (k, v)" and u: "is_UpdateIdempotencyStatus S k v (fr_idem F) = (e, i1)"
  shows "front_ok (F\<lparr>fr_idem := i1, fr_pending := take n (fr_pending F) @ drop (Suc n) (fr_pending F)\<rparr>)"
proof -
  let ?w = "committed (db (fr_world F))"
  have idem: "idem_ok E (entry (fr_idem F)) (fr_pending F) ?w" by (rule front_okD(2) [OF ok])
  have "receipted E ?w k v" using idem nth_mem [OF n(1)] n(2) by (auto simp: idem_ok_def)
  from update_idem [OF u idem this]
  have "idem_ok E (entry i1) (take n (fr_pending F) @ drop (Suc n) (fr_pending F)) ?w"
    by (auto simp: idem_ok_def dest: in_set_takeD in_set_dropD)
  with ok show ?thesis by (simp add: front_ok_def)
qed

lemma front_step_ok:
  assumes "gate_step uc E R S now e F F'" and ok: "front_ok F"
  shows "front_ok F'"
  using assms(1)
proof cases
  case (receives req)
  with ok show ?thesis
    by (auto simp: front_ok_def owners_ok_def nth_append less_Suc_eq)
next
  case (leaves i c y z i1 ps)
  have p: "progress_ok E (committed (db (fr_world F))) (fr_sessions F) (gc_req (fr_calls F ! i)) (Leaving c y)"
    using front_okD(3) [OF ok leaves(3)] leaves(4) by simp
  have k: "keyed E (gc_req (fr_calls F ! i)) c" and v: "\<And>out. y = Inr out \<Longrightarrow> vouched E (committed (db (fr_world F))) (gc_req (fr_calls F ! i)) out"
    using p by simp_all
  note s = settle_ok [OF leaves(5) front_okD(2) [OF ok] k v]
  have "progress_ok E (committed (db (fr_world F))) (fr_sessions F) (gc_req (fr_calls F ! i)) (Replied z)"
    using v s(2) by (cases y) auto
  from front_ok_at_stage [OF ok leaves(3) this _ _ s(1)] leaves(2,4) show ?thesis by simp
qed (use admitted_ok [OF ok] works_ok [OF ok] returns_ok [OF ok] stores_ok [OF ok] crash_ok [OF ok] in auto)

end

end
