(* ===== verification/Gateway_Claims.thy ===== *)
theory Gateway_Claims
  imports Gateway_Calls
begin

text \<open>
  Claims of idempotency keys among the concurrent calls of \<open>Gateway_Calls\<close>: as long as no call is older than the
  ten minutes of its claim, a key has one holder and a live entry in the store. The lemmas say
  what each access to the store does to the claims.
\<close>

section \<open>Who holds a key\<close>

fun claim_of :: "progress \<Rightarrow> (uuid \<times> int) option" where
  "claim_of (Working c n) = c"
| "claim_of (Leaving c y) = c"
| "claim_of p = None"

text \<open>No claim in use is older than the store's ten minutes.\<close>

definition timely :: "('i \<Rightarrow> int) \<Rightarrow> ('i, 'r) front \<Rightarrow> bool" where
  "timely clk F \<longleftrightarrow> (\<forall>c\<in>set (fr_calls F). \<forall>k t. claim_of (gc_at c) = Some (k, t) \<longrightarrow> clk (fr_idem F) < t + idempotencyKeyTTL)"

text \<open>One holder for a key, and an entry that outlives the claim.\<close>

definition claims_ok ::
  "(uuid \<Rightarrow> (string \<times> int) option) \<Rightarrow> int \<Rightarrow> transfer_call list \<Rightarrow> bool" where
  "claims_ok e clk cs \<longleftrightarrow>
     (\<forall>c\<in>set cs. \<forall>k t. claim_of (gc_at c) = Some (k, t) \<longrightarrow> t \<le> clk \<and> (\<exists>v d. e k = Some (v, d) \<and> t + idempotencyKeyTTL \<le> d))
     \<and> (\<forall>i<length cs. \<forall>j<length cs. \<forall>k t t'. claim_of (gc_at (cs ! i)) = Some (k, t) \<longrightarrow> claim_of (gc_at (cs ! j)) = Some (k, t') \<longrightarrow> i = j)"

lemma claims_ok_entry:
  "claims_ok e clk cs \<Longrightarrow> c \<in> set cs \<Longrightarrow> claim_of (gc_at c) = Some (k, t) \<Longrightarrow> t \<le> clk \<and> (\<exists>v d. e k = Some (v, d) \<and> t + idempotencyKeyTTL \<le> d)"
  unfolding claims_ok_def by blast

lemma claims_ok_one:
  "claims_ok e clk cs \<Longrightarrow> i < length cs \<Longrightarrow> j < length cs \<Longrightarrow> claim_of (gc_at (cs ! i)) = Some (k, t) \<Longrightarrow>
   claim_of (gc_at (cs ! j)) = Some (k, t') \<Longrightarrow> i = j"
  unfolding claims_ok_def by blast

lemma claims_okI:
  assumes "\<And>j k t. j < length cs \<Longrightarrow> claim_of (gc_at (cs ! j)) = Some (k, t) \<Longrightarrow> t \<le> clk \<and> (\<exists>v d. e k = Some (v, d) \<and> t + idempotencyKeyTTL \<le> d)"
    and "\<And>i j k t t'. i < length cs \<Longrightarrow> j < length cs \<Longrightarrow> claim_of (gc_at (cs ! i)) = Some (k, t) \<Longrightarrow>
      claim_of (gc_at (cs ! j)) = Some (k, t') \<Longrightarrow> i = j"
  shows "claims_ok e clk cs"
  unfolding claims_ok_def all_set_conv_all_nth using assms by blast

lemma claims_ok_store:
  assumes "claims_ok e clk cs" and "clk \<le> clk'" and "\<And>j. j \<noteq> k \<Longrightarrow> e' j = e j"
    and "e' k = e k \<or> (\<exists>v. e' k = Some (v, clk' + idempotencyKeyTTL))"
  shows "claims_ok e' clk' cs"
proof -
  have "t \<le> clk' \<and> (\<exists>v d. e' j = Some (v, d) \<and> t + idempotencyKeyTTL \<le> d)" if "c \<in> set cs" "claim_of (gc_at c) = Some (j, t)" for c j t
    using claims_ok_entry [OF assms(1) that] assms(2-) by (cases "j = k") force+
  then show ?thesis using assms(1) unfolding claims_ok_def by blast
qed

text \<open>A call gives up its claim, or keeps it.\<close>

lemma claims_ok_at_stage:
  assumes cs: "claims_ok e clk cs" and i: "i < length cs" and p: "claim_of p = None \<or> claim_of p = claim_of (gc_at (cs ! i))"
  shows "claims_ok e clk (at_stage i p cs)"
proof -
  have c: "claim_of (gc_at (at_stage i p cs ! j)) = Some kt \<Longrightarrow> claim_of (gc_at (cs ! j)) = Some kt" if "j < length cs" for j kt
    using that p by (cases "j = i") auto
  then show ?thesis
    using cs unfolding claims_ok_def all_set_conv_all_nth length_at_stage by blast
qed

lemma claims_ok_release:
  assumes cs: "claims_ok e clk cs" and i: "i < length cs" and k: "claim_of (gc_at (cs ! i)) = Some (k, t)" and p: "claim_of p = None"
    and "clk \<le> clk'" "\<And>j. j \<noteq> k \<Longrightarrow> e' j = e j"
  shows "claims_ok e' clk' (at_stage i p cs)"
proof -
  have other: "k' \<noteq> k \<and> claim_of (gc_at (cs ! j)) = Some (k', t')" if "j < length cs" "claim_of (gc_at (at_stage i p cs ! j)) = Some (k', t')" for j k' t'
  proof -
    have "j \<noteq> i" and c: "claim_of (gc_at (cs ! j)) = Some (k', t')" using that p by (auto split: if_splits)
    with cs i k that(1) show ?thesis unfolding claims_ok_def by blast
  qed
  show ?thesis
  proof (rule claims_okI, goal_cases)
    case (1 j k' t')
    then have j: "j < length cs" "claim_of (gc_at (at_stage i p cs ! j)) = Some (k', t')" by (simp_all only: length_at_stage)
    from other [OF j] claims_ok_entry [OF cs nth_mem [OF j(1)]] assms(5,6) show ?case by fastforce
  next
    case (2 a b k' t1 t2)
    then have "a < length cs" "b < length cs" by (simp_all only: length_at_stage)
    with 2(3,4) show ?case using claims_ok_one [OF cs] other by blast
  qed
qed

text \<open>A granted key had no holder with time left.\<close>

lemma claims_ok_grant:
  assumes cs: "claims_ok e clk cs" and i: "i < length cs" "claim_of (gc_at (cs ! i)) = None" and p: "claim_of p = Some (k, clk')"
    and t: "clk \<le> clk'" and e: "\<And>j. j \<noteq> k \<Longrightarrow> e' j = e j" "e' k = Some (v, clk' + idempotencyKeyTTL)"
    and free: "\<And>v d. e k = Some (v, d) \<Longrightarrow> d \<le> clk'"
    and timely: "\<And>c t. c \<in> set (at_stage i p cs) \<Longrightarrow> claim_of (gc_at c) = Some (k, t) \<Longrightarrow> clk' < t + idempotencyKeyTTL"
  shows "claims_ok e' clk' (at_stage i p cs)"
proof -
  have none: "claim_of (gc_at (cs ! j)) \<noteq> Some (k, t')" if "j < length cs" for j t'
  proof
    assume c: "claim_of (gc_at (cs ! j)) = Some (k, t')"
    with i(2) have "j \<noteq> i" by auto
    with c that have "at_stage i p cs ! j \<in> set (at_stage i p cs)" "claim_of (gc_at (at_stage i p cs ! j)) = Some (k, t')"
      using nth_mem [of j "at_stage i p cs"] by simp_all
    from timely [OF this] claims_ok_entry [OF cs nth_mem [OF that] c] free show False by fastforce
  qed
  have cl: "claim_of (gc_at (at_stage i p cs ! j)) = (if j = i then Some (k, clk') else claim_of (gc_at (cs ! j)))" if "j < length cs" for j
    using that p by simp
  have "t' \<le> clk' \<and> (\<exists>v d. e' k' = Some (v, d) \<and> t' + idempotencyKeyTTL \<le> d)"
    if "j < length cs" "claim_of (gc_at (at_stage i p cs ! j)) = Some (k', t')" for j k' t'
  proof (cases "j = i")
    case True
    then show ?thesis using that p e(2) by simp
  next
    case False
    then have c: "claim_of (gc_at (cs ! j)) = Some (k', t')" using that cl by simp
    with none [OF that(1)] have "k' \<noteq> k" by blast
    with e(1) claims_ok_entry [OF cs nth_mem [OF that(1)] c] t show ?thesis by fastforce
  qed
  moreover have "j = m" if "j < length cs" "m < length cs" "claim_of (gc_at (at_stage i p cs ! j)) = Some (k', t1)"
      "claim_of (gc_at (at_stage i p cs ! m)) = Some (k', t2)" for j m k' t1 t2
  proof -
    have "claim_of (gc_at (cs ! n)) = Some (k', t)" if "n < length cs" "n \<noteq> i" "claim_of (gc_at (at_stage i p cs ! n)) = Some (k', t)" for n t
      using that by simp
    moreover have "k' = k" if "n < length cs" "n = i" "claim_of (gc_at (at_stage i p cs ! n)) = Some (k', t)" for n t
      using that p by simp
    ultimately show ?thesis using that claims_ok_one [OF cs that(1,2)] none by metis
  qed
  ultimately show ?thesis by (intro claims_okI) (simp_all only: length_at_stage)
qed

lemma claims_ok_receives: "claims_ok e clk cs \<Longrightarrow> claims_ok e clk (cs @ [\<lparr>gc_req = req, gc_at = Calling\<rparr>])"
  by (rule claims_okI) (auto simp: nth_append less_Suc_eq split: if_splits dest: claims_ok_entry [OF _ nth_mem] claims_ok_one)

lemma claims_ok_crash: "claims_ok e clk (map lost_call cs)"
proof -
  have "claim_of (gc_at (lost_call c)) = None" for c by (cases "gc_at c") (simp_all add: lost_call_def)
  then show ?thesis by (simp add: claims_ok_def)
qed

lemma started_claim: "started E now req c ss = (p, ss') \<Longrightarrow> claim_of p = c"
  by (auto simp: started_def split: sum.splits)

context idempotency_storage
begin

lemma admit_claims:
  assumes a: "admit E S m raw i = (a, i1)" and cs: "claims_ok (entry i) (now i) cs"
  shows "(\<forall>k. a \<noteq> Claimed k) \<Longrightarrow> claims_ok (entry i1) (now i1) cs"
    and "a = Claimed k \<Longrightarrow> now i \<le> now i1 \<and> (\<forall>j. j \<noteq> k \<longrightarrow> entry i1 j = entry i j)
      \<and> entry i1 k = Some (IDEMPOTENCY_IN_PROCESS, now i1 + idempotencyKeyTTL) \<and> (\<forall>v d. entry i k = Some (v, d) \<longrightarrow> d \<le> now i1)"
proof -
  consider "i1 = i" "a = Through" | k' x where "is_CheckOrLock S k' i = (x, i1)"
      "a = (case x of Inl _ \<Rightarrow> Through | Inr (False, st) \<Rightarrow> Duplicate (handleDuplicate E st) | Inr (True, _) \<Rightarrow> Claimed k')"
    using a by (fastforce simp: admit_def split: if_splits option.splits prod.splits sum.splits bool.splits)
  then have "((\<forall>k. a \<noteq> Claimed k) \<longrightarrow> claims_ok (entry i1) (now i1) cs) \<and> (\<forall>k. a = Claimed k \<longrightarrow> now i \<le> now i1 \<and> (\<forall>j. j \<noteq> k \<longrightarrow> entry i1 j = entry i j)
      \<and> entry i1 k = Some (IDEMPOTENCY_IN_PROCESS, now i1 + idempotencyKeyTTL) \<and> (\<forall>v d. entry i k = Some (v, d) \<longrightarrow> d \<le> now i1))"
  proof cases
    case (2 k' x)
    note l = check_law [OF 2(1)]
    have "claims_ok (entry i1) (now i1) cs" if "\<forall>k. a \<noteq> Claimed k"
      by (rule claims_ok_store [OF cs, of _ k']) (use l 2(2) that in \<open>auto split: sum.splits bool.splits prod.splits\<close>)
    with l 2(2) show ?thesis by (auto split: sum.splits bool.splits prod.splits)
  qed (use cs in auto)
  then show "(\<forall>k. a \<noteq> Claimed k) \<Longrightarrow> claims_ok (entry i1) (now i1) cs"
    and "a = Claimed k \<Longrightarrow> now i \<le> now i1 \<and> (\<forall>j. j \<noteq> k \<longrightarrow> entry i1 j = entry i j)
      \<and> entry i1 k = Some (IDEMPOTENCY_IN_PROCESS, now i1 + idempotencyKeyTTL) \<and> (\<forall>v d. entry i k = Some (v, d) \<longrightarrow> d \<le> now i1)"
    by blast+
qed

lemma settle_claims:
  assumes "settle E S (map_option fst c) y i = (z, i1, ps)"
  shows "now i \<le> now i1" and "c = None \<Longrightarrow> i1 = i" and "c = Some (k, t) \<Longrightarrow> j \<noteq> k \<Longrightarrow> entry i1 j = entry i j"
proof -
  have "i1 = i \<or> (\<exists>k t. c = Some (k, t) \<and> i1 = snd (is_DeleteIdempotency S k i))"
    using assms by (auto simp: settle_def Let_def split: option.splits outcome.splits sum.splits)
  moreover have "c = None \<longrightarrow> i1 = i" using assms by (auto simp: settle_def)
  ultimately show "now i \<le> now i1" and "c = None \<Longrightarrow> i1 = i" and "c = Some (k, t) \<Longrightarrow> j \<noteq> k \<Longrightarrow> entry i1 j = entry i j"
    using delete_law [OF prod.collapse [symmetric]] by auto
qed

lemma step_claims:
  assumes "gate_step uc E R S now e F F'" and t: "timely now F'"
    and ok: "claims_ok (entry (fr_idem F)) (now (fr_idem F)) (fr_calls F)"
  shows "claims_ok (entry (fr_idem F')) (now (fr_idem F')) (fr_calls F')"
  using assms(1)
proof cases
  case (receives req)
  then show ?thesis using claims_ok_receives [OF ok] by simp
next
  case (admits i a i1 now' p ss)
  show ?thesis
  proof (cases "\<exists>k. a = Claimed k")
    case False
    then have "claim_of p = None" using admits(6) by (auto simp: admitted_def dest: started_claim split: admission.splits)
    then show ?thesis using claims_ok_at_stage [OF admit_claims(1) [OF admits(5) ok]] False admits(2,3) by simp
  next
    case True
    then obtain k where k: "a = Claimed k" by blast
    then have p: "claim_of p = Some (k, now i1)" using admits(6) by (auto simp: admitted_def dest: started_claim)
    note l = admit_claims(2) [OF admits(5) ok k]
    show ?thesis
      using claims_ok_grant [OF ok admits(3) _ p, of "entry i1"] l t admits(2,4) by (simp add: timely_def)
  qed
next
  case (leaves i c y z i1 ps)
  note s = settle_claims [OF leaves(5)]
  show ?thesis
  proof (cases c)
    case None
    then show ?thesis using claims_ok_at_stage [OF ok leaves(3), of "Replied z"] s(2) leaves(2) by simp
  next
    case (Some kt)
    then obtain k t' where c: "c = Some (k, t')" by (cases kt) auto
    then show ?thesis using claims_ok_release [OF ok leaves(3), of k t' "Replied z" "now i1" "entry i1"] leaves(2,4) s(1,3) by simp
  qed
next
  case (stores n k st x i1)
  note l = update_law [OF stores(5)]
  show ?thesis unfolding stores(2) using claims_ok_store [OF ok, of "now i1" k "entry i1"] l by auto
next
  case crashes
  then show ?thesis by (simp add: crashed_def claims_ok_crash)
next
  case (returns i c n x)
  then show ?thesis using claims_ok_at_stage [OF ok returns(3), of "Leaving c (transfer_close x)"] by simp
qed (use ok in simp)

lemma runs_claims:
  "runs (\<lambda>e F F'. gate_step uc E R S now e F F' \<and> timely now F') es F F' \<Longrightarrow> timely now F \<Longrightarrow>
   claims_ok (entry (fr_idem F)) (now (fr_idem F)) (fr_calls F) \<Longrightarrow>
   timely now F' \<and> claims_ok (entry (fr_idem F')) (now (fr_idem F')) (fr_calls F')"
  by (induction es arbitrary: F) (auto dest: step_claims)

end

end
