(* ===== verification/Gateway_Calls_Laws.thy ===== *)
theory Gateway_Calls_Laws
  imports Gateway_Claims
begin

text \<open>
  What follows for calls of the RPC \<^verbatim>\<open>Transfer\<close> that run at once in the gateway: they refine a bank that
  gives receipts again, all answers \<^verbatim>\<open>OK\<close> to one key agree, a claimed key has one handler as long as no
  claim outlives its ten minutes, and every call is answered.
\<close>

section \<open>Refinement\<close>

lemma bank_serves_cases:
  assumes "bank_serves e (B, cs) (B', cs')" and "length cs' = length cs"
  obtains "B' = B" | i req rc where "i < length cs" "cs ! i = (req, None)" "wanted req rc" "bank_move (req_IdempotencyKey req) rc B B'"
  using assms by (cases rule: bank_serves.cases) auto

context transfer_front
begin

lemma front_schema: "front_ok F \<Longrightarrow> schema_ok (postings_id_seq (db (fr_world F))) (committed (db (fr_world F)))"
  using front_okD(1) by (fastforce simp: running_ok_def inter_ok_def db_ok_def)

lemma works_serves:
  assumes ok: "front_ok F" and st: "inter_step uc E R (fr_world F, fr_sessions F) (W', ss)" and len: "length ss = length (fr_sessions F)"
  shows "gate_serves Ev_Call (front_view F) (front_view (F\<lparr>fr_world := W', fr_sessions := ss\<rparr>))"
proof -
  let ?cs = "map (\<lambda>s. (s_req s, reply (s_stage s))) (fr_sessions F)"
  have "bank_serves () (bank_of (committed (db (fr_world F))), ?cs) (bank_of (committed (db W')), map (\<lambda>s. (s_req s, reply (s_stage s))) ss)"
    using step_serves [OF st front_okD(1) [OF ok]] by (simp add: client_view_def)
  then show ?thesis
  proof (rule bank_serves_cases)
    fix n r rc
    assume n: "n < length ?cs" "?cs ! n = (r, None)" and m: "wanted r rc"
      "bank_move (req_IdempotencyKey r) rc (bank_of (committed (db (fr_world F)))) (bank_of (committed (db W')))"
    then have "\<not> answered (s_stage (fr_sessions F ! n))" "r = s_req (fr_sessions F ! n)" by (simp_all add: reply_None)
    with n front_okD(5) [OF ok] obtain i c where i: "i < length (fr_calls F)" "gc_at (fr_calls F ! i) = Working c n"
      by (auto simp: owners_ok_def works_for_def)
    let ?c = "fr_calls F ! i"
    have op: "transfer_open E (gc_req ?c) = Inr r" using front_okD(3) [OF ok i(1)] i(2) \<open>r = _\<close> by simp
    have "caller_of ?c \<in> set (map caller_of (fr_calls F))" using i(1) by simp
    then have "(gc_req ?c, None) \<in> set (map caller_of (fr_calls F))" using i(2) by (simp only: caller_of_gc progress.case)
    from gate_serves.moves [OF this transfer_open_asks(1) [OF uuids op m(1)] m(2)] show ?thesis by (simp add: front_view_def)
  qed (simp_all add: front_view_def gate_serves.waits len)
qed

text \<open>A call that is answered now.\<close>

lemma answers_serves:
  assumes ok: "front_ok F" and i: "i < length (fr_calls F)" and na: "caller_of (fr_calls F ! i) = (gc_req (fr_calls F ! i), None)"
    and p: "progress_ok E (committed (db (fr_world F))) (fr_sessions F) (gc_req (fr_calls F ! i)) (Replied x)"
  shows "gate_serves Ev_Call (front_view F) (bank_of (committed (db (fr_world F))), map caller_of (at_stage i (Replied x) (fr_calls F)))"
proof (cases x)
  case (Inl st)
  then show ?thesis using gate_serves.refuses [of i "map caller_of (fr_calls F)"] i na
    by (simp add: front_view_def callers_at_stage caller_of_gc [of "_\<lparr>gc_at := _\<rparr>"])
next
  case (Inr o')
  with p obtain out where out: "o' = Some out" "vouched E (committed (db (fr_world F))) (gc_req (fr_calls F ! i)) out" by auto
  from vouched_receipt [OF uuids front_schema [OF ok] out(2)] obtain k rc where
    "wire_id (m_IdempotencyKey (gc_req (fr_calls F ! i))) = Some k" "b_receipts (bank_of (committed (db (fr_world F)))) k = Some rc" "out = uuid_bytes (rc_ID rc)" by blast
  then show ?thesis using gate_serves.gives [of i "map caller_of (fr_calls F)"] i na out(1) Inr
    by (simp add: front_view_def callers_at_stage caller_of_gc [of "_\<lparr>gc_at := _\<rparr>"])
qed

lemma started_unanswered: "started E now' req c ss = (p, ss') \<Longrightarrow> caller_of (cl\<lparr>gc_at := p\<rparr>) = (gc_req cl, None)"
  by (auto simp: started_def caller_of_gc split: sum.splits)

lemma front_step_serves:
  assumes "gate_step uc E R S now e F F'" and ok: "front_ok F"
  shows "gate_serves e (front_view F) (front_view F')"
  using assms(1)
proof cases
  case (receives req)
  then show ?thesis by (simp add: front_view_def gate_serves.asks)
next
  case (admits i a i1 now' p ss)
  have na: "caller_of (fr_calls F ! i) = (gc_req (fr_calls F ! i), None)" using admits(4) by (simp add: caller_of_gc)
  show ?thesis
  proof (cases a)
    case (Duplicate x)
    then have "p = Replied (map_sum id Some x)" using admits(6) by (simp add: admitted_def)
    moreover have "front_ok F'" using admits admitted_ok [OF ok] by auto
    then have "progress_ok E (committed (db (fr_world F))) ss (gc_req (fr_calls F ! i)) p"
      using front_okD(3) [of F' i] admits(2,3) by simp
    moreover have "ss = fr_sessions F" using Duplicate admits(6) by (simp add: admitted_def)
    ultimately show ?thesis using answers_serves [OF ok admits(3) na] admits(1,2) by (simp add: front_view_def)
  next
    case Through
    with admits started_unanswered [of _ _ None] na show ?thesis
      by (auto simp: admitted_def front_view_def callers_same gate_serves.waits)
  next
    case (Claimed k)
    with admits started_unanswered [of _ _ "Some (k, _)"] na show ?thesis
      by (auto simp: admitted_def front_view_def callers_same gate_serves.waits)
  qed
next
  case works
  then show ?thesis using works_serves [OF ok] by simp
next
  case (returns i c n x)
  then have "map caller_of (fr_calls F') = map caller_of (fr_calls F)" by (simp add: callers_same caller_of_gc)
  with returns show ?thesis by (simp add: front_view_def gate_serves.waits)
next
  case (leaves i c y z i1 ps)
  have "front_ok F'" using front_step_ok [OF assms] .
  then have "progress_ok E (committed (db (fr_world F))) (fr_sessions F) (gc_req (fr_calls F ! i)) (Replied z)"
    using front_okD(3) [of F' i] leaves(2,3) by simp
  from answers_serves [OF ok leaves(3) _ this] leaves show ?thesis by (simp add: front_view_def caller_of_gc)
next
  case crashes
  then show ?thesis by (simp add: front_view_def crashed_def gate_serves.waits comp_def)
qed (simp add: front_view_def gate_serves.waits)

end

sublocale transfer_front \<subseteq> gate: simulation "gate_step uc E R S now" gate_serves front_ok front_view
  by unfold_locales (auto dest: front_step_ok front_step_serves)

section \<open>Every call is answered\<close>

fun stages_left :: "progress \<Rightarrow> nat" where
  "stages_left Calling = 13"
| "stages_left (Working c n) = 3"
| "stages_left (Leaving c y) = 2"
| "stages_left p = 0"

definition left_over :: "('i, 'r) front \<Rightarrow> nat" where
  "left_over F = sum_list (map (stages_left \<circ> gc_at) (fr_calls F)) + total_left (fr_sessions F) + length (fr_pending F)"

definition at_rest :: "('i, 'r) front \<Rightarrow> bool" where
  "at_rest F \<longleftrightarrow> (\<forall>c\<in>set (fr_calls F). gc_at c = Broken \<or> (\<exists>x. gc_at c = Replied x)) \<and> fr_pending F = []"

lemma stages_at_stage:
  assumes "i < length cs"
  shows "sum_list (map (stages_left \<circ> gc_at) (at_stage i p cs)) + stages_left (gc_at (cs ! i)) = sum_list (map (stages_left \<circ> gc_at) cs) + stages_left p"
  using assms
proof (induction cs arbitrary: i)
  case (Cons c cs)
  then show ?case by (cases i) (auto simp: at_stage_def)
qed simp

lemma total_left_snoc [simp]: "total_left (ss @ [arrival r now]) = total_left ss + 9"
  by (simp add: total_left_def arrival_def)

lemma started_left: "started E now req c ss = (p, ss') \<Longrightarrow> stages_left p + total_left ss' < 13 + total_left ss"
  by (auto simp: started_def split: sum.splits)

lemma admitted_left: "admitted E t now req a ss = (p, ss') \<Longrightarrow> stages_left p + total_left ss' < 13 + total_left ss"
  by (auto simp: admitted_def dest: started_left split: admission.splits)

lemma settle_pending: "settle E S c y i = (z, i1, ps) \<Longrightarrow> length ps \<le> 1"
  by (auto simp: settle_def Let_def split: option.splits outcome.splits sum.splits)

lemma settle_returns: "\<exists>z i1 ps. settle E S c (Returned y) i = (Returned z, i1, ps)"
  by (auto simp: settle_def Let_def split: option.splits sum.splits)

lemma lost_left: "sum_list (map (stages_left \<circ> gc_at) (map lost_call cs)) \<le> sum_list (map (stages_left \<circ> gc_at) cs)"
proof -
  have "stages_left (gc_at (lost_call c)) \<le> stages_left (gc_at c)" for c by (cases "gc_at c") (simp_all add: lost_call_def)
  then show ?thesis by (auto simp: comp_def intro: sum_list_mono)
qed

definition is_request :: "gate_event \<Rightarrow> bool" where
  "is_request e \<longleftrightarrow> (\<exists>req. e = Ev_Request req)"

lemma gate_step_left:
  assumes "gate_step uc E R S clk e F F'"
  shows "left_over F' + (if e = Ev_Call then 1 else 0) \<le> left_over F + (if is_request e then 13 else 0)"
  using assms
proof cases
  case (admits i a i1 now p ss)
  then show ?thesis using stages_at_stage [OF admits(3), of p] admitted_left [OF admits(6)] by (simp add: left_over_def)
next
  case (works W' ss)
  have "total_left ss < total_left (fr_sessions F)" using inter_step_left [OF works(3)] works(4) by simp
  then show ?thesis using works(1,2) by (simp add: left_over_def)
next
  case (returns i c n x)
  then show ?thesis using stages_at_stage [OF returns(3), of "Leaving c (transfer_close x)"] by (simp add: left_over_def)
next
  case (leaves i c y z i1 ps)
  then show ?thesis using stages_at_stage [OF leaves(3), of "Replied z"] settle_pending [OF leaves(5)] by (simp add: left_over_def)
next
  case crashes
  then show ?thesis using lost_left [of "fr_calls F"] by (simp add: left_over_def crashed_def total_left_def)
qed (auto simp: left_over_def is_request_def)

lemma runs_gate_left:
  "runs (gate_step uc E R S clk) es F F' \<Longrightarrow>
   left_over F' + length (filter ((=) Ev_Call) es) \<le> left_over F + 13 * length (filter is_request es)"
proof (induction es arbitrary: F)
  case (Cons e es)
  then obtain G where g: "gate_step uc E R S clk e F G" "runs (gate_step uc E R S clk) es G F'" by auto
  from gate_step_left [OF g(1)] Cons.IH [OF g(2)] show ?case by (cases e) (auto simp: is_request_def)
qed simp

lemma call_keeps_reqs:
  "gate_step uc E R S clk Ev_Call F F' \<Longrightarrow> map gc_req (fr_calls F') = map gc_req (fr_calls F)"
  by (erule gate_step.cases) simp_all

context transfer_front
begin

text \<open>Whatever is not finished, some step is possible.\<close>

lemma some_step:
  assumes ok: "front_ok F" and "\<not> at_rest F"
  shows "\<exists>F'. gate_step uc E R S now Ev_Call F F'"
proof (cases "fr_pending F = []")
  case False
  obtain k st where p: "fr_pending F ! 0 = (k, st)" by fastforce
  obtain e i1 where "is_UpdateIdempotencyStatus S k st (fr_idem F) = (e, i1)" by fastforce
  from gate_step.stores [OF _ p this] False show ?thesis by blast
next
  case True
  with assms(2) have "\<not> (\<forall>c\<in>set (fr_calls F). gc_at c = Broken \<or> (\<exists>x. gc_at c = Replied x))" by (simp add: at_rest_def)
  then obtain i where i: "i < length (fr_calls F)" "gc_at (fr_calls F ! i) \<noteq> Broken" "\<And>x. gc_at (fr_calls F ! i) \<noteq> Replied x"
    by (auto simp: settled_def in_set_conv_nth)
  show ?thesis
  proof (cases "gc_at (fr_calls F ! i)")
    case Calling
    obtain a i1 where a: "admit E S Transfer_FullMethodName (m_IdempotencyKey (gc_req (fr_calls F ! i))) (fr_idem F) = (a, i1)" by fastforce
    obtain p ss where "admitted E (now i1) 0 (gc_req (fr_calls F ! i)) a (fr_sessions F) = (p, ss)" by fastforce
    from gate_step.admits [where clk = now, OF i(1) Calling a this] show ?thesis by blast
  next
    case (Working c n)
    have n: "n < length (fr_sessions F)" using front_okD(3) [OF ok i(1)] Working by simp
    show ?thesis
    proof (cases "s_stage (fr_sessions F ! n)")
      case (Answered x)
      from gate_step.returns [OF i(1) Working this] show ?thesis by blast
    qed (use some_call [OF front_okD(1) [OF ok] nth_mem [OF n]] gate_step.works in \<open>fastforce simp del: length_0_conv\<close>)+
  next
    case (Leaving c y)
    obtain z i1 ps where "settle E S (map_option fst c) (Returned y) (fr_idem F) = (Returned z, i1, ps)" using settle_returns [of E S "map_option fst c" y "fr_idem F"] by auto
    from gate_step.leaves [OF i(1) Leaving this] show ?thesis by blast
  qed (use i in auto)
qed

lemma all_settle:
  assumes "front_ok F"
  shows "\<exists>n F'. runs (gate_step uc E R S now) (replicate n Ev_Call) F F' \<and> at_rest F' \<and> map gc_req (fr_calls F') = map gc_req (fr_calls F)"
  using assms
proof (induction "left_over F" arbitrary: F rule: less_induct)
  case less
  show ?case
  proof (cases "at_rest F")
    case True
    then show ?thesis by (intro exI [of _ 0] exI [of _ F]) simp
  next
    case False
    with some_step [OF less.prems] obtain G where g: "gate_step uc E R S now Ev_Call F G" by blast
    have "left_over G < left_over F" using gate_step_left [OF g] by (simp add: is_request_def)
    from less.hyps [OF this front_step_ok [OF g less.prems]] call_keeps_reqs [OF g] obtain n F' where
      "runs (gate_step uc E R S now) (replicate n Ev_Call) G F'" "at_rest F'" "map gc_req (fr_calls F') = map gc_req (fr_calls F)" by auto
    with g show ?thesis by (intro exI [of _ "Suc n"] exI [of _ F']) auto
  qed
qed

end

section \<open>A gateway in use\<close>

definition front_start ::
  "ext \<Rightarrow> ('r \<Rightarrow> store) \<Rightarrow> ('i \<Rightarrow> uuid \<Rightarrow>
   (string \<times> int) option) \<Rightarrow> ('i, 'r) front \<Rightarrow> bool" where
  "front_start E dc e F \<longleftrightarrow> service_start E dc (fr_world F) \<and> fr_sessions F = [] \<and> fr_calls F = [] \<and> fr_pending F = []
     \<and> idem_ok E (e (fr_idem F)) [] (committed (db (fr_world F)))"

text \<open>Every answer \<^verbatim>\<open>OK\<close> carries the id of the committed transaction of its key.\<close>

definition answers_true :: "ext \<Rightarrow> tables \<Rightarrow> transfer_call list \<Rightarrow> bool" where
  "answers_true E w cs \<longleftrightarrow> (\<forall>c\<in>set cs. \<forall>o'. gc_at c = Replied (Inr o') \<longrightarrow> (\<exists>out. o' = Some out \<and> vouched E w (gc_req c) out))"

definition answers_agree :: "ext \<Rightarrow> transfer_call list \<Rightarrow> bool" where
  "answers_agree E cs \<longleftrightarrow> (\<forall>c\<in>set cs. \<forall>c'\<in>set cs. \<forall>out out'. gc_at c = Replied (Inr (Some out)) \<longrightarrow> gc_at c' = Replied (Inr (Some out'))
     \<longrightarrow> uuid_FromBytes E (m_IdempotencyKey (gc_req c)) = uuid_FromBytes E (m_IdempotencyKey (gc_req c')) \<longrightarrow> out = out')"

lemma vouched_agree:
  assumes "uuid_laws E" and "schema_ok q w" and "vouched E w r out" "vouched E w r' out'"
    and "uuid_FromBytes E (m_IdempotencyKey r) = uuid_FromBytes E (m_IdempotencyKey r')"
  shows "out = out'"
proof -
  from assms(3-5) obtain t t' where t: "t \<in> set (transactions w)" "out = uuid_bytes (t_ID t)"
    "t' \<in> set (transactions w)" "out' = uuid_bytes (t_ID t')" "t_IdempotencyKey t = t_IdempotencyKey t'"
    by (auto simp: vouched_def)
  with assms(2) have "t = t'" by (auto simp: schema_ok_def distinct_map inj_on_def)
  with t show ?thesis by simp
qed

context transfer_front
begin

lemma front_start_ok: "front_start E data entry F \<Longrightarrow> front_ok F"
  using service_start_ok by (auto simp: front_start_def front_ok_def owners_ok_def)

lemma gate_step_total:
  assumes "gate_step uc E R S now e F F'" and "front_ok F"
  shows "total_in c (committed (db (fr_world F'))) = total_in c (committed (db (fr_world F)))"
  using assms(1)
proof cases
  case works
  then show ?thesis using step_total [OF _ front_okD(1) [OF assms(2)]] by fastforce
qed (simp_all add: crashed_def)

lemma runs_gate_total:
  "runs (gate_step uc E R S now) es F F' \<Longrightarrow> front_ok F \<Longrightarrow>
   total_in c (committed (db (fr_world F'))) = total_in c (committed (db (fr_world F)))"
proof (induction es arbitrary: F)
  case (Cons e es)
  then obtain G where g: "gate_step uc E R S now e F G" "runs (gate_step uc E R S now) es G F'" by auto
  from Cons.IH [OF g(2) front_step_ok [OF g(1) Cons.prems(2)]] gate_step_total [OF g(1) Cons.prems(2)] show ?case by simp
qed simp

lemma callers_follow:
  "front_start E data entry F0 \<Longrightarrow> runs (gate_step uc E R S now) es F0 F \<Longrightarrow>
   runs gate_serves es (bank_of (committed (db (fr_world F0))), []) (front_view F)"
  using gate.runs_follow [OF _ front_start_ok] by (fastforce simp: front_view_def front_start_def)

lemma front_sound:
  assumes st: "front_start E data entry F0" and r: "runs (gate_step uc E R S now) es F0 F"
  shows "db_ok (db (fr_world F)) \<and> journal_ok (committed (db (fr_world F))) \<and> coherent E (data (cache (fr_world F))) (committed (db (fr_world F)))
    \<and> (\<forall>c. total_in c (committed (db (fr_world F))) = total_in c (committed (db (fr_world F0))))
    \<and> answers_true E (committed (db (fr_world F))) (fr_calls F) \<and> answers_agree E (fr_calls F)"
proof -
  have ok: "front_ok F" using gate.runs_ok [OF r front_start_ok [OF st]] .
  have true: "answers_true E (committed (db (fr_world F))) (fr_calls F)"
    using front_okD(4) [OF ok] by (fastforce simp: answers_true_def)
  then have "answers_agree E (fr_calls F)"
    unfolding answers_agree_def answers_true_def using vouched_agree [OF uuids front_schema [OF ok]] by (metis option.inject)
  then show ?thesis
    using true front_okD(1) [OF ok] runs_gate_total [OF r front_start_ok [OF st]] by (simp add: running_ok_def inter_ok_def)
qed

lemma front_finishes:
  assumes st: "front_start E data entry F0" and r: "runs (gate_step uc E R S now) es F0 F"
  shows "(\<exists>n F'. runs (gate_step uc E R S now) (replicate n Ev_Call) F F' \<and> at_rest F' \<and> map gc_req (fr_calls F') = map gc_req (fr_calls F))
    \<and> length (filter ((=) Ev_Call) es) \<le> 13 * length (filter is_request es)"
proof -
  have "left_over F0 = 0" using st by (simp add: left_over_def front_start_def total_left_def)
  then show ?thesis
    using all_settle [OF gate.runs_ok [OF r front_start_ok [OF st]]] runs_gate_left [OF r] by simp
qed

end

lemma transfer_frontI:
  assumes "redis_server R clock data" "redis_server I ci di" "uuid_laws E"
  shows "transfer_front R clock data E (redis_storage E I) (\<lambda>i k. di i (castKey E k)) ci"
  using transfer_serviceI [OF assms(1,3)] redis_idempotency_storage [OF assms(2,3)] by (simp add: transfer_front_def)

interpretation refg: transfer_front ref_client rr_clock rr_data ref_ext sample_uc "redis_storage ref_ext ref_client"
    "\<lambda>i k. rr_data i (castKey ref_ext k)" rr_clock
  by (rule transfer_frontI) (simp_all add: ref.redis_server_axioms)

section \<open>A call that runs alone\<close>

lemma gate_runs_sessions:
  "runs (\<lambda>_ :: unit. inter_step uc E R) es (fr_world F, fr_sessions F) (W', ss) \<Longrightarrow> length ss = length (fr_sessions F) \<Longrightarrow>
   runs (gate_step uc E R S clk) (replicate (length es) Ev_Call) F (F\<lparr>fr_world := W', fr_sessions := ss\<rparr>)"
proof (induction es arbitrary: F)
  case (Cons e es)
  then obtain W1 ss1 where st: "inter_step uc E R (fr_world F, fr_sessions F) (W1, ss1)"
    and r: "runs (\<lambda>_ :: unit. inter_step uc E R) es (W1, ss1) (W', ss)" by auto
  have len: "length ss1 = length (fr_sessions F)"
    using inter_step_left [OF st] runs_left [OF r] Cons.prems(2) by simp
  from gate_step.works [OF st len] Cons.IH [of "F\<lparr>fr_world := W1, fr_sessions := ss1\<rparr>"] r len Cons.prems(2) show ?case by auto
qed simp

definition handler_of ::
  "transfer_uc \<Rightarrow> ext \<Rightarrow> 'r redis \<Rightarrow> bool \<Rightarrow> transfer_request \<Rightarrow>
   'r world \<Rightarrow> byte list outcome \<times> 'r world" where
  "handler_of uc E R ff req W = (case Transfer uc E R ff req W of (x, W') \<Rightarrow> (Returned x, W'))"

abbreviation one_call ::
  "'i \<Rightarrow> 'r world \<Rightarrow> transfer_session list \<Rightarrow> transfer_request \<Rightarrow> progress \<Rightarrow>
   (uuid \<times> string) list \<Rightarrow> ('i, 'r) front" where
  "one_call i W ss req p P \<equiv> \<lparr>fr_idem = i, fr_world = W, fr_sessions = ss, fr_calls = [\<lparr>gc_req = req, gc_at = p\<rparr>], fr_pending = P\<rparr>"

lemma runs_Cons: "step e s u \<Longrightarrow> runs step es u t \<Longrightarrow> runs step (e # es) s t"
  by auto

lemma solo_leaves:
  assumes "settle E S (map_option fst c) (Returned y) i = (Returned z, i', ps)"
  shows "gate_step uc E R S clk Ev_Call (one_call i W ss req (Leaving c y) P) (one_call i' W ss req (Replied z) (P @ ps))"
  using gate_step.leaves [of 0 "one_call i W ss req (Leaving c y) P" c y E S z i' ps uc R clk] assms by (simp add: at_stage_def)

lemma solo_handler:
  assumes r: "around E S (map_option fst c) (handler_of uc E R ff req) \<lparr>gw_idem = i, gw_world = W, gw_pending = P\<rparr> = (Returned z, G')"
    and p: "started E (pg_now (db W)) req c [] = (p, ss)"
  shows "\<exists>es ss'. runs (gate_step uc E R S clk) es (one_call i W ss req p P) (one_call (gw_idem G') (gw_world G') ss' req (Replied z) (gw_pending G'))"
proof (cases "transfer_open E req")
  case (Inl st)
  then have p': "p = Leaving c (Inl st)" "ss = []" using p by (simp_all add: started_def)
  obtain i' ps where s: "settle E S (map_option fst c) (Returned (Inl st)) i = (Returned z, i', ps)"
    and G': "G' = \<lparr>gw_idem = i', gw_world = W, gw_pending = P @ ps\<rparr>"
    using r Inl by (auto simp: around_def handler_of_def Transfer_parts split: prod.splits)
  show ?thesis using solo_leaves [OF s] p' G' by (intro exI [of _ "[Ev_Call]"] exI [of _ ss]) simp
next
  case (Inr rq)
  then have p': "p = Working c 0" "ss = [arrival rq (pg_now (db W))]" using p by (simp_all add: started_def)
  obtain x W1 where t: "Transaction uc E R ff rq W = (x, W1)" by fastforce
  obtain i' ps where s: "settle E S (map_option fst c) (Returned (transfer_close x)) i = (Returned z, i', ps)"
    and G': "G' = \<lparr>gw_idem = i', gw_world = W1, gw_pending = P @ ps\<rparr>"
    using r Inr t by (auto simp: around_def handler_of_def Transfer_parts split: prod.splits)
  have "session_calls uc E R ff 10 (s_stage (arrival rq (pg_now (db W)))) W = (Answered x, W1)"
    using solo_calls [OF t] by (simp add: arrival_def)
  from solo_runs [OF this] obtain es s' where
    run: "runs (\<lambda>_ :: unit. inter_step uc E R) es (W, [arrival rq (pg_now (db W))]) (W1, [s'])" and s': "s_stage s' = Answered x"
    by (auto simp: arrival_def)
  let ?F = "one_call i W1 [s'] req (Working c 0) P"
  have "runs (gate_step uc E R S clk) (replicate (length es) Ev_Call) (one_call i W ss req p P) ?F"
    using gate_runs_sessions [of uc E R es "one_call i W ss req p P" W1 "[s']" S clk] run p' by simp
  moreover have "gate_step uc E R S clk Ev_Call ?F (one_call i W1 [s'] req (Leaving c (transfer_close x)) P)"
    using gate_step.returns [of 0 ?F c 0 x uc E R S clk] s' by (simp add: at_stage_def)
  ultimately have "runs (gate_step uc E R S clk) (replicate (length es) Ev_Call @ [Ev_Call, Ev_Call]) (one_call i W ss req p P)
      (one_call i' W1 [s'] req (Replied z) (P @ ps))"
    unfolding runs_append using solo_leaves [OF s, of uc R clk W1 "[s']" req P]
    by (intro exI [of _ ?F] conjI runs_Cons [OF _ runs_Cons]) simp_all
  then show ?thesis using G' by (intro exI) simp
qed

lemma solo_call:
  assumes r: "UnaryIdempotencyInterceptor E S Transfer_FullMethodName (m_IdempotencyKey req) (handler_of uc E R ff req)
      \<lparr>gw_idem = i, gw_world = W, gw_pending = P\<rparr> = (Returned z, G')"
    and big: "bigint (m_Amount req)"
  shows "\<exists>es ss. runs (gate_step uc E R S clk) es \<lparr>fr_idem = i, fr_world = W, fr_sessions = [], fr_calls = [], fr_pending = P\<rparr>
      (one_call (gw_idem G') (gw_world G') ss req (Replied z) (gw_pending G'))"
proof -
  let ?F = "\<lparr>fr_idem = i, fr_world = W, fr_sessions = [], fr_calls = [], fr_pending = P\<rparr>"
  obtain a i1 where a: "admit E S Transfer_FullMethodName (m_IdempotencyKey req) i = (a, i1)" by fastforce
  obtain p ss where p: "admitted E (clk i1) (pg_now (db W)) req a [] = (p, ss)" by fastforce
  have c: "gate_step uc E R S clk (Ev_Request req) ?F (one_call i W [] req Calling P)"
    using gate_step.receives [OF big, of uc E R S clk ?F] by simp
  have e: "gate_step uc E R S clk Ev_Call (one_call i W [] req Calling P) (one_call i1 W ss req p P)"
    using gate_step.admits [of 0 "one_call i W [] req Calling P" E S a i1 clk "pg_now (db W)" p ss uc R] a p by (simp add: at_stage_def)
  have "\<exists>es ss'. runs (gate_step uc E R S clk) es (one_call i1 W ss req p P) (one_call (gw_idem G') (gw_world G') ss' req (Replied z) (gw_pending G'))"
  proof (cases a)
    case (Duplicate x)
    then show ?thesis using r a p by (intro exI [of _ "[]"]) (auto simp: interceptor_parts admitted_def)
  next
    case Through
    then show ?thesis using r a p by (intro solo_handler [where c = None]) (auto simp: interceptor_parts admitted_def)
  next
    case (Claimed k)
    then show ?thesis using r a p by (intro solo_handler [where c = "Some (k, clk i1)"]) (auto simp: interceptor_parts admitted_def)
  qed
  then obtain es ss' where "runs (gate_step uc E R S clk) es (one_call i1 W ss req p P)
      (one_call (gw_idem G') (gw_world G') ss' req (Replied z) (gw_pending G'))" by blast
  from runs_Cons [OF c runs_Cons [OF e this]] show ?thesis by (intro exI)
qed

section \<open>Samples\<close>

definition ref_front :: "ref_redis \<Rightarrow> (ref_redis, ref_redis) front" where
  "ref_front i = \<lparr>fr_idem = i, fr_world = sample_world, fr_sessions = [], fr_calls = [], fr_pending = []\<rparr>"

abbreviation ref_gate :: "gate_event \<Rightarrow> (ref_redis, ref_redis) front \<Rightarrow> (ref_redis, ref_redis) front \<Rightarrow> bool" where
  "ref_gate \<equiv> gate_step sample_uc ref_ext ref_client (redis_storage ref_ext ref_client) rr_clock"

lemma ref_front_start: "rr_data i = Map.empty \<Longrightarrow> front_start ref_ext rr_data (\<lambda>i k. rr_data i (castKey ref_ext k)) (ref_front i)"
  by (simp add: front_start_def ref_front_def sample_service_start idem_ok_def)

lemma ref_front_sel [simp]:
  "fr_world (ref_front i) = sample_world" "fr_idem (ref_front i) = i" "fr_calls (ref_front i) = []" "fr_sessions (ref_front i) = []" "fr_pending (ref_front i) = []"
  by (simp_all add: ref_front_def)

lemma sample_handler_of: "sample_handler = handler_of sample_uc ref_ext ref_client True sample_call"
  by (rule ext) (simp add: sample_handler_def handler_of_def)

lemma sample_call_big: "bigint (m_Amount sample_call)"
  by (simp add: sample_call_def bigint_def)

lemma sample_first:
  "UnaryIdempotencyInterceptor ref_ext (redis_storage ref_ext ref_client) Transfer_FullMethodName (m_IdempotencyKey sample_call)
     (handler_of sample_uc ref_ext ref_client True sample_call) \<lparr>gw_idem = idle_store Map.empty, gw_world = sample_world, gw_pending = []\<rparr>
   = (Returned (Inr (Some (uuid_bytes 13))), sample_answered)"
proof -
  have "m_IdempotencyKey sample_call = uuid_bytes 23" by (simp add: sample_call_def)
  then show ?thesis using sample_first_call by (simp add: sample_handler_of sample_gateway_def)
qed

lemma sample_front_run:
  obtains es ss where "runs ref_gate es (ref_front (idle_store Map.empty))
    (one_call (gw_idem sample_answered) (snd sample_run) ss sample_call (Replied (Inr (Some (uuid_bytes 13)))) [(23, completedStatus ref_ext 13)])"
  using solo_call [OF sample_first sample_call_big, of rr_clock] that by (auto simp: ref_front_def sample_answered_def)

lemma sample_opened: "transfer_open ref_ext sample_call = Inr sample_request"
  by (simp add: transfer_open_def sample_call_def sample_request_def to_currency_def currency_defs)

lemma sample_key [simp]: "m_IdempotencyKey sample_call = uuid_bytes 23"
  by (simp add: sample_call_def)

text \<open>A claim of the sample's key at a store without an entry for it, \<open>dt\<close> after the last command.\<close>

definition ref_store :: "int \<Rightarrow> store \<Rightarrow> nat list \<Rightarrow> ref_redis" where
  "ref_store t m dts = \<lparr>rr_clock = t, rr_data = m, rr_script = map (\<lambda>dt. (dt, None)) dts\<rparr>"

lemma ref_store_sel [simp]: "rr_clock (ref_store t m dts) = t" "rr_data (ref_store t m dts) = m"
  by (simp_all add: ref_store_def)

lemma ref_admit:
  assumes "live (t + int dt) m (castKey ref_ext 23) = None"
  shows "admit ref_ext (redis_storage ref_ext ref_client) Transfer_FullMethodName (uuid_bytes 23) (ref_store t m (dt # dts)) =
    (Claimed 23, ref_store (t + int dt) (ttl_put (castKey ref_ext 23) IDEMPOTENCY_IN_PROCESS idempotencyKeyTTL (t + int dt) m) dts)"
  using assms by (simp add: admit_def uuid_Nil_def CheckOrLock_def ref_client_def rr_SetArgs_def rr_tick_def ref_store_def)

abbreviation ref_state ::
  "ref_redis \<Rightarrow> transfer_session list \<Rightarrow> transfer_call list \<Rightarrow> (ref_redis, ref_redis) front" where
  "ref_state i ss cs \<equiv> \<lparr>fr_idem = i, fr_world = sample_world, fr_sessions = ss, fr_calls = cs, fr_pending = []\<rparr>"

lemma ref_receives:
  "bigint (m_Amount req) \<Longrightarrow> ref_gate (Ev_Request req) (ref_state i ss cs) (ref_state i ss (cs @ [\<lparr>gc_req = req, gc_at = Calling\<rparr>]))"
  using gate_step.receives [of req, where F = "ref_state i ss cs"] by simp

lemma ref_claims:
  assumes "n < length cs" "gc_at (cs ! n) = Calling" "m_IdempotencyKey (gc_req (cs ! n)) = uuid_bytes 23"
    and "live (t + int dt) m (castKey ref_ext 23) = None"
    and "started ref_ext 5 (gc_req (cs ! n)) (Some (23, t + int dt)) ss = (p, ss')"
  shows "ref_gate Ev_Call (ref_state (ref_store t m (dt # dts)) ss cs)
    (ref_state (ref_store (t + int dt) (ttl_put (castKey ref_ext 23) IDEMPOTENCY_IN_PROCESS idempotencyKeyTTL (t + int dt) m) dts) ss' (at_stage n p cs))"
  using gate_step.admits [of n "ref_state (ref_store t m (dt # dts)) ss cs" ref_ext "redis_storage ref_ext ref_client" "Claimed 23" _ rr_clock 5 p ss'
      sample_uc ref_client] assms ref_admit [OF assms(4), of dts]
  by (simp add: admitted_def)

lemma ref_fails:
  assumes "n < length cs" "gc_at (cs ! n) = Leaving (Some (23, t0)) (Inl e)"
  shows "ref_gate Ev_Call (ref_state (ref_store t m (dt # dts)) ss cs)
    (ref_state (ref_store (t + int dt) (m(castKey ref_ext 23 := None)) dts) ss (at_stage n (Replied (Inl e)) cs))"
proof -
  have "settle ref_ext (redis_storage ref_ext ref_client) (Some 23) (Returned (Inl e)) (ref_store t m (dt # dts))
      = (Returned (Inl e), ref_store (t + int dt) (m(castKey ref_ext 23 := None)) dts, [])"
    by (simp add: settle_def Let_def DeleteIdempotency_def cmd_Err_def ref_client_def rr_write_def rr_tick_def ref_store_def)
  then show ?thesis
    using gate_step.leaves [of n "ref_state (ref_store t m (dt # dts)) ss cs", where c = "Some (23, t0)"] assms by simp
qed

section \<open>Theorems\<close>

text \<open>C9. Concurrent calls of the RPC \<^verbatim>\<open>Transfer\<close> refine a bank that gives receipts again. Requests arrive at any
  time; each passes the idempotency interceptor, the handler and the use case in steps that mix with
  those of the others, with goroutines that store outcomes and with crashes of the process, over any Redis
  servers and under any failures of the store and the database. What the callers see is what they could see of the
  bank: every transfer takes effect in one step while a request for it is unanswered, at most once for a
  key, and the answer \<^verbatim>\<open>OK\<close>, computed or replayed, is the receipt of the request's key.\<close>

theorem gateway_refines:
  assumes "redis_server R clock data" and "redis_server I ci di" and "uuid_laws E"
    and "front_start E data (\<lambda>i k. di i (castKey E k)) F0" and "runs (gate_step uc E R (redis_storage E I) ci) es F0 F"
  shows "runs gate_serves es (bank_of (committed (db (fr_world F0))), []) (front_view F)"
  by (rule transfer_front.callers_follow [OF transfer_frontI [OF assms(1-3)] assms(4,5)])

theorem gateway_refines_witness:
  "\<exists>es. runs gate_serves es (bank_of sample_tables, []) (bank_of (committed (db (snd sample_run))), [(sample_call, Some (Inr (Some (uuid_bytes 13))))])"
proof (rule sample_front_run)
  fix es ss
  assume r: "runs ref_gate es (ref_front (idle_store Map.empty))
    (one_call (gw_idem sample_answered) (snd sample_run) ss sample_call (Replied (Inr (Some (uuid_bytes 13)))) [(23, completedStatus ref_ext 13)])"
  from gateway_refines [OF ref.redis_server_axioms ref.redis_server_axioms ref_uuid_laws ref_front_start r]
  show ?thesis by (auto simp: front_view_def)
qed

text \<open>C10. What the concurrent gateway answers is true, whatever goes wrong around it: the constraints of the tables
  hold, every balance is the sum of its postings, the journal is in double entry, the money in each currency is
  what it was, the cache agrees with the tables; every answer \<^verbatim>\<open>OK\<close>, from the handler or from the store, carries
  the id of a committed transaction of the request's key, and all answers \<^verbatim>\<open>OK\<close> to one key are the same.\<close>

theorem gateway_answers:
  assumes "redis_server R clock data" and "redis_server I ci di" and "uuid_laws E"
    and "front_start E data (\<lambda>i k. di i (castKey E k)) F0" and "runs (gate_step uc E R (redis_storage E I) ci) es F0 F"
  shows "db_ok (db (fr_world F)) \<and> journal_ok (committed (db (fr_world F))) \<and> coherent E (data (cache (fr_world F))) (committed (db (fr_world F)))
    \<and> (\<forall>c. total_in c (committed (db (fr_world F))) = total_in c (committed (db (fr_world F0))))
    \<and> answers_true E (committed (db (fr_world F))) (fr_calls F) \<and> answers_agree E (fr_calls F)"
  by (rule transfer_front.front_sound [OF transfer_frontI [OF assms(1-3)] assms(4,5)])

theorem gateway_answers_witness:
  "vouched ref_ext (committed (db (snd sample_run))) sample_call (uuid_bytes 13)
   \<and> total_in CURRENCY_USD (committed (db (snd sample_run))) = total_in CURRENCY_USD sample_tables"
proof (rule sample_front_run)
  fix es ss
  assume r: "runs ref_gate es (ref_front (idle_store Map.empty))
    (one_call (gw_idem sample_answered) (snd sample_run) ss sample_call (Replied (Inr (Some (uuid_bytes 13)))) [(23, completedStatus ref_ext 13)])"
  from gateway_answers [OF ref.redis_server_axioms ref.redis_server_axioms ref_uuid_laws ref_front_start r]
  show ?thesis by (simp add: answers_true_def)
qed

text \<open>C11. One handler for a key: in every run of the concurrent gateway in which no call works or waits for longer than the
  ten minutes that its claim lasts, at most one of the calls that claimed a key through the store is in progress, and the
  store holds an entry for the key that outlives the claim, so that no other request is let in by it.\<close>

theorem key_excludes:
  assumes "redis_server I ci di" and "uuid_laws E" and "fr_calls F0 = []"
    and "runs (\<lambda>e F F'. gate_step uc E R (redis_storage E I) ci e F F' \<and> timely ci F') es F0 F"
    and "i < length (fr_calls F)" and "claim_of (gc_at (fr_calls F ! i)) = Some (k, t)"
  shows "(\<forall>j<length (fr_calls F). \<forall>t'. claim_of (gc_at (fr_calls F ! j)) = Some (k, t') \<longrightarrow> j = i)
    \<and> (\<exists>v d. di (fr_idem F) (castKey E k) = Some (v, d) \<and> ci (fr_idem F) < t + idempotencyKeyTTL \<and> t + idempotencyKeyTTL \<le> d)"
proof -
  have "timely ci F0" and "claims_ok (\<lambda>k. di (fr_idem F0) (castKey E k)) (ci (fr_idem F0)) (fr_calls F0)"
    using assms(3) by (simp_all add: timely_def claims_ok_def)
  from idempotency_storage.runs_claims [OF redis_idempotency_storage [OF assms(1,2)] assms(4) this]
  have t: "timely ci F" and ok: "claims_ok (\<lambda>k. di (fr_idem F) (castKey E k)) (ci (fr_idem F)) (fr_calls F)" by simp_all
  have "ci (fr_idem F) < t + idempotencyKeyTTL" using \<open>timely ci F\<close> nth_mem [OF assms(5)] assms(6) unfolding timely_def by blast
  then show ?thesis
    using claims_ok_one [OF ok] claims_ok_entry [OF ok nth_mem] assms(5,6) by blast
qed

theorem key_excludes_witness:
  "\<exists>es F. runs ref_gate es (ref_state (ref_store 0 Map.empty [0]) [] []) F \<and> map gc_at (fr_calls F) = [Working (Some (23, 0)) 0, Calling]
     \<and> (\<exists>v d. rr_data (fr_idem F) (castKey ref_ext 23) = Some (v, d) \<and> 0 + idempotencyKeyTTL \<le> d)"
proof -
  let ?step = "\<lambda>e F F'. ref_gate e F F' \<and> timely rr_clock F'" and ?w = "\<lparr>gc_req = sample_call, gc_at = Calling\<rparr>"
  let ?p = "Working (Some (23, 0)) 0"
  let ?start = "ref_state (ref_store 0 Map.empty [0]) [] []"
  let ?m = "ttl_put (castKey ref_ext 23) IDEMPOTENCY_IN_PROCESS idempotencyKeyTTL 0 Map.empty"
  let ?fin = "ref_state (ref_store 0 ?m []) [arrival sample_request 5] (at_stage 0 ?p [?w, ?w])"
  have "ref_gate Ev_Call (ref_state (ref_store 0 Map.empty [0]) [] [?w, ?w]) ?fin"
    using ref_claims [of 0 "[?w, ?w]" 0 0 Map.empty "[]" ?p "[arrival sample_request 5]" "[]"] by (simp add: started_def sample_opened)
  then have r: "runs ?step [Ev_Request sample_call, Ev_Request sample_call, Ev_Call] ?start ?fin"
    using ref_receives [OF sample_call_big, of "ref_store 0 Map.empty [0]" "[]" "[]"]
      ref_receives [OF sample_call_big, of "ref_store 0 Map.empty [0]" "[]" "[?w]"]
    by (intro runs_Cons) (auto simp: timely_def at_stage_def)
  have g: "runs ref_gate es F F'" if "runs ?step es F F'" for es F F' using that by (induction es arbitrary: F) auto
  from key_excludes [OF ref.redis_server_axioms ref_uuid_laws _ r, of 0 23 0] g [OF r]
  show ?thesis by (intro exI [of _ "[Ev_Request sample_call, Ev_Request sample_call, Ev_Call]"] exI [of _ ?fin]) (simp add: at_stage_def)
qed


text \<open>C12. Every call of the concurrent gateway is answered: from every state that a run reaches, crashes included, the calls in
  progress can be brought to their answers and the goroutines to their end without a further request; and a run
  makes no more than thirteen steps for a request.\<close>

theorem gateway_finishes:
  assumes "redis_server R clock data" and "redis_server I ci di" and "uuid_laws E"
    and "front_start E data (\<lambda>i k. di i (castKey E k)) F0" and "runs (gate_step uc E R (redis_storage E I) ci) es F0 F"
  shows "(\<exists>n F'. runs (gate_step uc E R (redis_storage E I) ci) (replicate n Ev_Call) F F' \<and> at_rest F' \<and> map gc_req (fr_calls F') = map gc_req (fr_calls F))
    \<and> length (filter ((=) Ev_Call) es) \<le> 13 * length (filter is_request es)"
  by (rule transfer_front.front_finishes [OF transfer_frontI [OF assms(1-3)] assms(4,5)])

theorem gateway_finishes_witness:
  "\<exists>n F'. runs ref_gate (replicate n Ev_Call)
       ((ref_front (idle_store Map.empty))\<lparr>fr_calls := [\<lparr>gc_req = sample_call, gc_at = Calling\<rparr>, \<lparr>gc_req = sample_call, gc_at = Calling\<rparr>]\<rparr>) F'
     \<and> at_rest F' \<and> map gc_req (fr_calls F') = [sample_call, sample_call]"
proof -
  let ?F0 = "ref_front (idle_store Map.empty)" and ?c = "\<lparr>gc_req = sample_call, gc_at = Calling\<rparr>"
  have "ref_gate (Ev_Request sample_call) ?F0 (?F0\<lparr>fr_calls := [?c]\<rparr>)"
    using gate_step.receives [OF sample_call_big, of sample_uc ref_ext ref_client "redis_storage ref_ext ref_client" rr_clock ?F0] by simp
  moreover have "ref_gate (Ev_Request sample_call) (?F0\<lparr>fr_calls := [?c]\<rparr>) (?F0\<lparr>fr_calls := [?c, ?c]\<rparr>)"
    using gate_step.receives [OF sample_call_big, of sample_uc ref_ext ref_client "redis_storage ref_ext ref_client" rr_clock "?F0\<lparr>fr_calls := [?c]\<rparr>"] by simp
  ultimately have r: "runs ref_gate [Ev_Request sample_call, Ev_Request sample_call] ?F0 (?F0\<lparr>fr_calls := [?c, ?c]\<rparr>)" by auto
  from gateway_finishes [OF ref.redis_server_axioms ref.redis_server_axioms ref_uuid_laws ref_front_start r] show ?thesis by simp
qed

text \<open>C13. A call that nobody disturbs is the interceptor of the code: the steps of one call made one after the
  other give the answer, the store, the world and the goroutines of \<^verbatim>\<open>UnaryIdempotencyInterceptor\<close> around the
  handler, under every pattern of failures.\<close>

theorem gateway_alone:
  assumes "UnaryIdempotencyInterceptor E S Transfer_FullMethodName (m_IdempotencyKey req) (handler_of uc E R ff req)
      \<lparr>gw_idem = i, gw_world = W, gw_pending = P\<rparr> = (Returned z, G')" and "bigint (m_Amount req)"
  shows "\<exists>es ss. runs (gate_step uc E R S clk) es \<lparr>fr_idem = i, fr_world = W, fr_sessions = [], fr_calls = [], fr_pending = P\<rparr>
      \<lparr>fr_idem = gw_idem G', fr_world = gw_world G', fr_sessions = ss, fr_calls = [\<lparr>gc_req = req, gc_at = Replied z\<rparr>], fr_pending = gw_pending G'\<rparr>"
  by (rule solo_call [OF assms])

theorem gateway_alone_witness:
  "\<exists>es F. runs ref_gate es (ref_front (idle_store Map.empty)) F \<and> map gc_at (fr_calls F) = [Replied (Inr (Some (uuid_bytes 13)))]
     \<and> fr_world F = snd sample_run"
proof -
  have w: "gw_world sample_answered = snd sample_run" by (simp add: sample_answered_def)
  show ?thesis using gateway_alone [OF sample_first sample_call_big, of rr_clock] unfolding ref_front_def w by fastforce
qed

end
