(* ===== verification/Loadgen_Pool.thy ===== *)
theory Loadgen_Pool
  imports Transport_Laws
begin

text \<open>
  The load generator's picture of the accounts: \<^verbatim>\<open>AccountPool\<close> of \<^verbatim>\<open>loadgen/service/pool.go\<close> and
  \<^verbatim>\<open>TransferBuilder\<close> of \<^verbatim>\<open>builder.go\<close>. A panic (an index out of range, \<^verbatim>\<open>Intn\<close> of a number that is
  not positive) is \<open>None\<close>. Random numbers are read from a sequence, which may be any; the order in
  which Go iterates over a map is an argument. The locale \<open>balance_map\<close> states the pool's contract as
  an abstract map of balances; the pool is an instance.
\<close>

section \<open>Random numbers\<close>

type_synonym rng = "nat \<Rightarrow> nat"
type_synonym 'a rand = "rng \<Rightarrow> ('a \<times> rng) option"
type_synonym code32 = "32 word"

definition return_p :: "'a \<Rightarrow> 'a rand" where
  "return_p a g = Some (a, g)"

definition bind_p :: "'a rand \<Rightarrow> ('a \<Rightarrow> 'b rand) \<Rightarrow> 'b rand" where
  "bind_p m f g = (case m g of None \<Rightarrow> None | Some (a, g') \<Rightarrow> f a g')"

definition Intn :: "int \<Rightarrow> int rand" where
  "Intn n g = (if n \<le> 0 then None else Some (int (g 0) mod n, \<lambda>k. g (Suc k)))"

text \<open>\<open>yields Q m\<close>: the computation does not panic and its result satisfies \<open>Q\<close>.\<close>

definition yields :: "('a \<Rightarrow> bool) \<Rightarrow> 'a rand \<Rightarrow> bool" where
  "yields Q m \<longleftrightarrow> (\<forall>g. case m g of None \<Rightarrow> False | Some (a, _) \<Rightarrow> Q a)"

lemma yields_return [simp]: "yields Q (return_p a) \<longleftrightarrow> Q a"
  by (simp add: yields_def return_p_def)

lemma yields_bind:
  assumes "yields P m" and "\<And>a. P a \<Longrightarrow> yields Q (f a)"
  shows "yields Q (bind_p m f)"
proof (unfold yields_def, intro allI)
  fix g
  obtain a g' where "m g = Some (a, g')" "P a"
    using assms(1) [unfolded yields_def, rule_format, of g] by (auto split: option.splits)
  with assms(2) [of a] show "case bind_p m f g of None \<Rightarrow> False | Some (b, _) \<Rightarrow> Q b"
    by (simp add: bind_p_def yields_def)
qed

lemma yields_Intn: "0 < n \<Longrightarrow> yields (\<lambda>i. 0 \<le> i \<and> i < n) (Intn n)"
  by (simp add: yields_def Intn_def)

lemma yields_mono: "yields P m \<Longrightarrow> (\<And>a. P a \<Longrightarrow> Q a) \<Longrightarrow> yields Q m"
  unfolding yields_def by (fastforce split: option.splits)

lemma yields_run: "yields Q m \<Longrightarrow> \<exists>a g'. m g = Some (a, g') \<and> Q a"
  by (auto simp: yields_def dest!: spec [of _ g] split: option.splits)

section \<open>The pool\<close>

record existing_account =
  ea_ID :: uuid
  ea_Currency :: code32
  ea_Balance :: int

text \<open>A missing key of \<^verbatim>\<open>accounts\<close> reads as the empty slice.\<close>

record account_pool =
  ap_accounts :: "code32 \<Rightarrow> existing_account list"
  ap_index :: "uuid \<rightharpoonup> code32 \<times> nat"

definition NewAccountPool :: account_pool where
  "NewAccountPool = \<lparr>ap_accounts = (\<lambda>_. []), ap_index = Map.empty\<rparr>"

text \<open>The values of the enumeration, in the order the map is iterated.\<close>

definition GetValidCurrencies :: "code32 list \<Rightarrow> code32 list" where
  "GetValidCurrencies values = filter (\<lambda>v. v \<noteq> 0) values"

definition Add :: "existing_account \<Rightarrow> account_pool \<Rightarrow> account_pool" where
  "Add acc p = p\<lparr>ap_accounts := (ap_accounts p)(ea_Currency acc := ap_accounts p (ea_Currency acc) @ [acc]),
     ap_index := (ap_index p)(ea_ID acc \<mapsto> (ea_Currency acc, length (ap_accounts p (ea_Currency acc))))\<rparr>"

definition Total :: "code32 list \<Rightarrow> account_pool \<Rightarrow> nat" where
  "Total keys p = sum_list (map (\<lambda>c. length (ap_accounts p c)) keys)"

definition CurrenciesWithMinAccounts :: "code32 list \<Rightarrow> nat \<Rightarrow> account_pool \<Rightarrow> code32 list" where
  "CurrenciesWithMinAccounts keys n p = filter (\<lambda>c. n \<le> length (ap_accounts p c)) keys"

definition CurrenciesWithAccounts :: "code32 list \<Rightarrow> account_pool \<Rightarrow> code32 list" where
  "CurrenciesWithAccounts keys p = filter (\<lambda>c. 0 < length (ap_accounts p c)) keys"

definition randomDistinctIndexes :: "int \<Rightarrow> (int \<times> int) rand" where
  "randomDistinctIndexes n =
     bind_p (Intn n) (\<lambda>i. bind_p (Intn (n - 1)) (\<lambda>j. return_p (i, if j \<ge> i then j + 1 else j)))"

definition RandomPair :: "code32 \<Rightarrow> account_pool \<Rightarrow> (existing_account \<times> existing_account) option rand" where
  "RandomPair c p =
     (let accs = ap_accounts p c
      in if length accs < 2 then return_p None
         else bind_p (randomDistinctIndexes (int (length accs))) (\<lambda>(i, j). return_p (Some (accs ! nat i, accs ! nat j))))"

definition RandomAccount :: "code32 \<Rightarrow> account_pool \<Rightarrow> existing_account option rand" where
  "RandomAccount c p =
     (let accs = ap_accounts p c
      in if accs = [] then return_p None
         else bind_p (Intn (int (length accs))) (\<lambda>i. return_p (Some (accs ! nat i))))"

definition deref :: "code32 \<times> nat \<Rightarrow> account_pool \<Rightarrow> existing_account option" where
  "deref = (\<lambda>(c, i) p. if i < length (ap_accounts p c) then Some (ap_accounts p c ! i) else None)"

definition add_balance :: "code32 \<times> nat \<Rightarrow> int \<Rightarrow> account_pool \<Rightarrow> account_pool" where
  "add_balance = (\<lambda>(c, i) d p. p\<lparr>ap_accounts := (ap_accounts p)(c := (ap_accounts p c)
     [i := (ap_accounts p c ! i)\<lparr>ea_Balance := wrap64 (ea_Balance (ap_accounts p c ! i) + d)\<rparr>])\<rparr>)"

definition ReserveValid :: "uuid \<Rightarrow> uuid \<Rightarrow> int \<Rightarrow> account_pool \<Rightarrow> (bool \<times> account_pool) option" where
  "ReserveValid fromID toID amount p =
     (case (ap_index p fromID, ap_index p toID) of
        (Some fromRef, Some toRef) \<Rightarrow>
          (case (deref fromRef p, deref toRef p) of
             (Some from, Some to) \<Rightarrow>
               if ea_Balance from < amount then Some (False, p)
               else Some (True, add_balance toRef amount (add_balance fromRef (- amount) p))
           | _ \<Rightarrow> None)
      | _ \<Rightarrow> Some (False, p))"

definition add_if_known :: "uuid \<Rightarrow> int \<Rightarrow> account_pool \<Rightarrow> account_pool option" where
  "add_if_known i d p =
     (case ap_index p i of
        None \<Rightarrow> Some p
      | Some ref \<Rightarrow> (case deref ref p of None \<Rightarrow> None | Some _ \<Rightarrow> Some (add_balance ref d p)))"

definition RollbackValid :: "uuid \<Rightarrow> uuid \<Rightarrow> int \<Rightarrow> account_pool \<Rightarrow> account_pool option" where
  "RollbackValid fromID toID amount p =
     (case add_if_known fromID amount p of None \<Rightarrow> None | Some p1 \<Rightarrow> add_if_known toID (- amount) p1)"

definition BalanceOf :: "uuid \<Rightarrow> account_pool \<Rightarrow> int option option" where
  "BalanceOf i p = (case ap_index p i of
     None \<Rightarrow> Some None
   | Some ref \<Rightarrow> (case deref ref p of None \<Rightarrow> None | Some a \<Rightarrow> Some (Some (ea_Balance a))))"

section \<open>The builder\<close>

definition invalidBalanceAmount :: int where
  "invalidBalanceAmount = (2 ^ 63 - 1) div 4"

datatype stream_kind = StreamValid | StreamInvalidBalance | StreamInvalidCurrency | StreamStats

record transfer_job =
  j_Kind :: stream_kind
  j_Currency :: code32
  j_From :: "byte list"
  j_To :: "byte list"
  j_Amount :: int
  j_TxID :: uuid
  j_Reserved :: bool

definition mk_job :: "stream_kind \<Rightarrow> existing_account \<Rightarrow> existing_account \<Rightarrow> int \<Rightarrow> bool \<Rightarrow> transfer_job" where
  "mk_job kind from to amount reserved =
     \<lparr>j_Kind = kind, j_Currency = ea_Currency from, j_From = uuid_bytes (ea_ID from), j_To = uuid_bytes (ea_ID to),
      j_Amount = amount, j_TxID = uuid_Nil, j_Reserved = reserved\<rparr>"

fun funded_attempts :: "nat \<Rightarrow> code32 list \<Rightarrow> account_pool \<Rightarrow> (existing_account \<times> existing_account) option rand" where
  "funded_attempts 0 candidates p = return_p None"
| "funded_attempts (Suc n) candidates p =
     bind_p (Intn (int (length candidates))) (\<lambda>k.
     bind_p (RandomPair (candidates ! nat k) p) (\<lambda>pair.
       case pair of
         None \<Rightarrow> funded_attempts n candidates p
       | Some (from, to) \<Rightarrow>
           if ea_Balance from > 0 \<and> ea_ID from \<noteq> ea_ID to then return_p (Some (from, to))
           else funded_attempts n candidates p))"

definition pickFundedPair :: "code32 list \<Rightarrow> account_pool \<Rightarrow> (existing_account \<times> existing_account) option rand" where
  "pickFundedPair keys p =
     (let candidates = CurrenciesWithMinAccounts keys 2 p
      in if candidates = [] then return_p None else funded_attempts (length candidates * 4) candidates p)"

definition pickSameCurrencyPair :: "code32 list \<Rightarrow> account_pool \<Rightarrow> (existing_account \<times> existing_account) option rand" where
  "pickSameCurrencyPair keys p =
     (let candidates = CurrenciesWithMinAccounts keys 2 p
      in if candidates = [] then return_p None
         else bind_p (Intn (int (length candidates))) (\<lambda>k. RandomPair (candidates ! nat k) p))"

text \<open>The first of at most eight random candidates that differs, or 0.\<close>

fun other_currency :: "nat \<Rightarrow> code32 list \<Rightarrow> code32 \<Rightarrow> code32 rand" where
  "other_currency 0 cs fromCurr = return_p 0"
| "other_currency (Suc n) cs fromCurr =
     bind_p (Intn (int (length cs))) (\<lambda>k.
       if cs ! nat k \<noteq> fromCurr then return_p (cs ! nat k) else other_currency n cs fromCurr)"

definition pickDifferentCurrencyPair :: "code32 list \<Rightarrow> account_pool \<Rightarrow> (existing_account \<times> existing_account) option rand" where
  "pickDifferentCurrencyPair keys p =
     (let cs = CurrenciesWithAccounts keys p
      in if length cs < 2 then return_p None
         else bind_p (Intn (int (length cs))) (\<lambda>k.
           let fromCurr = cs ! nat k in
           bind_p (other_currency 8 cs fromCurr) (\<lambda>toCurr.
             if toCurr = 0 then return_p None
             else bind_p (RandomAccount fromCurr p) (\<lambda>f.
               case f of
                 None \<Rightarrow> return_p None
               | Some from \<Rightarrow> bind_p (RandomAccount toCurr p) (\<lambda>t.
                   case t of None \<Rightarrow> return_p None | Some to \<Rightarrow> return_p (Some (from, to)))))))"

definition pick_amount :: "int \<Rightarrow> int rand" where
  "pick_amount balance =
     (if balance > 1
      then bind_p (Intn 4) (\<lambda>q. if q = 0 then bind_p (Intn (balance - 1)) (\<lambda>a. return_p (a + 1)) else return_p 1)
      else return_p 1)"

definition BuildValid :: "code32 list \<Rightarrow> account_pool \<Rightarrow> (transfer_job option \<times> account_pool) rand" where
  "BuildValid keys p =
     bind_p (pickFundedPair keys p) (\<lambda>pair.
       case pair of
         None \<Rightarrow> return_p (None, p)
       | Some (from, to) \<Rightarrow>
           bind_p (pick_amount (ea_Balance from)) (\<lambda>amount g.
             case ReserveValid (ea_ID from) (ea_ID to) amount p of
               None \<Rightarrow> None
             | Some (False, p') \<Rightarrow> Some ((None, p'), g)
             | Some (True, p') \<Rightarrow> Some ((Some (mk_job StreamValid from to amount True), p'), g)))"

definition BuildInvalidBalance :: "code32 list \<Rightarrow> account_pool \<Rightarrow> transfer_job option rand" where
  "BuildInvalidBalance keys p =
     bind_p (pickSameCurrencyPair keys p) (\<lambda>pair. return_p (map_option (\<lambda>(from, to).
       mk_job StreamInvalidBalance from to invalidBalanceAmount False) pair))"

definition BuildInvalidCurrency :: "code32 list \<Rightarrow> account_pool \<Rightarrow> transfer_job option rand" where
  "BuildInvalidCurrency keys p =
     bind_p (pickDifferentCurrencyPair keys p) (\<lambda>pair. return_p (map_option (\<lambda>(from, to).
       mk_job StreamInvalidCurrency from to 1 False) pair))"

section \<open>The invariant and the balances\<close>

definition pool_ok :: "account_pool \<Rightarrow> bool" where
  "pool_ok p \<longleftrightarrow>
     (\<forall>c i. i < length (ap_accounts p c) \<longrightarrow> ea_Currency (ap_accounts p c ! i) = c \<and> bigint (ea_Balance (ap_accounts p c ! i))
        \<and> ap_index p (ea_ID (ap_accounts p c ! i)) = Some (c, i))
   \<and> (\<forall>a c i. ap_index p a = Some (c, i) \<longrightarrow> i < length (ap_accounts p c) \<and> ea_ID (ap_accounts p c ! i) = a)"

definition balances :: "account_pool \<Rightarrow> uuid \<rightharpoonup> int" where
  "balances p a = map_option (\<lambda>(c, i). ea_Balance (ap_accounts p c ! i)) (ap_index p a)"

text \<open>The abstract effect: one balance moves by a signed amount, with the wrap-around of \<^verbatim>\<open>int64\<close>.\<close>

definition shift :: "uuid \<Rightarrow> int \<Rightarrow> (uuid \<rightharpoonup> int) \<Rightarrow> (uuid \<rightharpoonup> int)" where
  "shift a d m = (case m a of None \<Rightarrow> m | Some b \<Rightarrow> m(a \<mapsto> wrap64 (b + d)))"

definition shifts :: "(uuid \<times> int) list \<Rightarrow> (uuid \<rightharpoonup> int) \<Rightarrow> (uuid \<rightharpoonup> int)" where
  "shifts ds = fold (\<lambda>(a, d). shift a d) ds"

lemma shift_commute: "shift a d (shift b e m) = shift b e (shift a d m)"
  by (auto simp: shift_def fun_eq_iff ac_simps split: option.splits)

lemma shift_shifts: "shift a d (shifts ds m) = shifts ds (shift a d m)"
  by (induction ds arbitrary: m) (auto simp: shifts_def shift_commute)

lemma shift_cancel: "(\<And>b. m a = Some b \<Longrightarrow> bigint b) \<Longrightarrow> shift a d (shift a (- d) m) = m"
  by (auto simp: shift_def fun_eq_iff split: option.splits)

lemma shift_bigint: "(\<And>a b. m a = Some b \<Longrightarrow> bigint b) \<Longrightarrow> shift a d m i = Some b \<Longrightarrow> bigint b"
  by (auto simp: shift_def split: option.splits if_splits)

lemma pool_ok_ref:
  assumes "pool_ok p" and "ap_index p a = Some r"
  shows "deref r p = Some (ap_accounts p (fst r) ! snd r)" and "ea_ID (ap_accounts p (fst r) ! snd r) = a"
    and "balances p a = Some (ea_Balance (ap_accounts p (fst r) ! snd r))"
  using assms by (auto simp: pool_ok_def deref_def balances_def split: prod.splits)

lemma add_balance_sel [simp]:
  "ap_index (add_balance r d p) = ap_index p"
  "length (ap_accounts (add_balance r d p) c) = length (ap_accounts p c)"
  by (cases r; simp add: add_balance_def)+

lemma add_balance_nth [simp]:
  assumes "i < length (ap_accounts p c)"
  shows "ap_accounts (add_balance r d p) c ! i = (if r = (c, i)
      then (ap_accounts p c ! i)\<lparr>ea_Balance := wrap64 (ea_Balance (ap_accounts p c ! i) + d)\<rparr> else ap_accounts p c ! i)"
  using assms by (cases r) (auto simp: add_balance_def)

lemma pool_ok_add_balance: "pool_ok p \<Longrightarrow> pool_ok (add_balance r d p)"
  by (auto simp: pool_ok_def)

lemma balances_add_balance:
  assumes "pool_ok p" and "ap_index p a = Some r"
  shows "balances (add_balance r d p) = shift a d (balances p)"
proof
  fix b
  obtain c i where r: "r = (c, i)" by (cases r)
  with assms have i: "i < length (ap_accounts p c)" "ea_ID (ap_accounts p c ! i) = a" by (auto simp: pool_ok_def)
  show "balances (add_balance r d p) b = shift a d (balances p) b"
  proof (cases "b = a")
    case True
    with assms r i show ?thesis by (simp add: balances_def add_balance_def shift_def)
  next
    case False
    have "ap_index p b \<noteq> Some (c, i)" using assms(1) i False by (auto simp: pool_ok_def)
    moreover have "shift a d (balances p) b = balances p b" using False by (simp add: shift_def split: option.splits)
    ultimately show ?thesis using assms(1) r by (auto simp: balances_def pool_ok_def map_option_case split: option.splits)
  qed
qed

lemma pool_ok_Add:
  assumes "pool_ok p" and "ap_index p (ea_ID acc) = None" and "bigint (ea_Balance acc)"
  shows "pool_ok (Add acc p) \<and> balances (Add acc p) = (balances p)(ea_ID acc \<mapsto> ea_Balance acc)"
proof -
  have fresh: "ea_ID (ap_accounts p c ! i) \<noteq> ea_ID acc" if "i < length (ap_accounts p c)" for c i
    using assms(1,2) that unfolding pool_ok_def by (metis option.distinct(1))
  then have "pool_ok (Add acc p)"
    using assms by (auto simp: pool_ok_def Add_def nth_append less_Suc_eq)
  moreover have "balances (Add acc p) b = ((balances p)(ea_ID acc \<mapsto> ea_Balance acc)) b" for b
    using assms(1) by (auto simp: pool_ok_def balances_def Add_def nth_append map_option_case split: option.splits)
  ultimately show ?thesis by blast
qed

section \<open>The contract of the pool\<close>

locale balance_map =
  fixes bal :: "'s \<Rightarrow> uuid \<rightharpoonup> int" and ok :: "'s \<Rightarrow> bool"
    and reserve :: "uuid \<Rightarrow> uuid \<Rightarrow> int \<Rightarrow> 's \<Rightarrow> (bool \<times> 's) option"
    and rollback :: "uuid \<Rightarrow> uuid \<Rightarrow> int \<Rightarrow> 's \<Rightarrow> 's option"
  assumes range_law: "ok s \<Longrightarrow> bal s i = Some b \<Longrightarrow> bigint b"
    and reserve_law: "ok s \<Longrightarrow> bal s f = Some b \<Longrightarrow> a \<le> b \<Longrightarrow> bal s t \<noteq> None \<Longrightarrow>
      \<exists>s'. reserve f t a s = Some (True, s') \<and> ok s' \<and> bal s' = shift t a (shift f (- a) (bal s))"
    and refuse_law: "ok s \<Longrightarrow> \<not> ((\<exists>b. bal s f = Some b \<and> a \<le> b) \<and> bal s t \<noteq> None) \<Longrightarrow> reserve f t a s = Some (False, s)"
    and rollback_law: "ok s \<Longrightarrow> \<exists>s'. rollback f t a s = Some s' \<and> ok s' \<and> bal s' = shift t (- a) (shift f a (bal s))"
begin

lemma reserve_cases:
  assumes "ok s"
  obtains (taken) s' b where "reserve f t a s = Some (True, s')" "ok s'" "bal s f = Some b" "a \<le> b" "bal s t \<noteq> None"
      "bal s' = shift t a (shift f (- a) (bal s))"
  | (refused) "reserve f t a s = Some (False, s)" "\<not> ((\<exists>b. bal s f = Some b \<and> a \<le> b) \<and> bal s t \<noteq> None)"
  using reserve_law [OF assms, of f _ a t] refuse_law [OF assms, of f a t] by blast

text \<open>A rollback takes back its reservation, whatever other movements came between.\<close>

lemma rolled_back:
  assumes ok: "ok s" "ok s2" and res: "reserve f t a s = Some (True, s1)" and between: "bal s2 = shifts ds (bal s1)"
  shows "\<exists>s3. rollback f t a s2 = Some s3 \<and> ok s3 \<and> bal s3 = shifts ds (bal s)"
proof -
  obtain s3 where s3: "rollback f t a s2 = Some s3" "ok s3" and b3: "bal s3 = shift t (- a) (shift f a (bal s2))"
    using rollback_law [OF ok(2)] by blast
  have "bal s1 = shift t a (shift f (- a) (bal s))"
    using ok(1) res by (cases rule: reserve_cases [of s f t a]) auto
  then have "bal s3 = shifts ds (shift t (- a) (shift f a (shift t a (shift f (- a) (bal s)))))"
    by (simp add: b3 between shift_shifts)
  also have "shift f a (shift t a (shift f (- a) (bal s))) = shift t a (shift f a (shift f (- a) (bal s)))"
    by (rule shift_commute)
  also have "shift f a (shift f (- a) (bal s)) = bal s"
    by (rule shift_cancel) (rule range_law [OF ok(1)])
  also have "shift t (- a) (shift t a (bal s)) = bal s"
    using shift_cancel [of "bal s" t "- a"] range_law [OF ok(1)] by simp
  finally show ?thesis using s3 by blast
qed

end

interpretation pool: balance_map balances pool_ok ReserveValid RollbackValid
proof (unfold_locales, goal_cases)
  case (1 s a b)
  then show ?case by (auto simp: pool_ok_def balances_def)
next
  case (2 s f b a t)
  then obtain fr tr where r: "ap_index s f = Some fr" "ap_index s t = Some tr" by (auto simp: balances_def)
  then have "ReserveValid f t a s = Some (True, add_balance tr a (add_balance fr (- a) s))"
    using 2 pool_ok_ref [OF 2(1)] by (simp add: ReserveValid_def)
  moreover have "balances (add_balance tr a (add_balance fr (- a) s)) = shift t a (shift f (- a) (balances s))"
    using r 2(1) by (simp add: balances_add_balance pool_ok_add_balance)
  ultimately show ?case using 2(1) pool_ok_add_balance by blast
next
  case (3 s f a t)
  then show ?case
    using pool_ok_ref [OF 3(1)] by (auto simp: ReserveValid_def balances_def split: option.splits)
next
  case (4 s f t a)
  have k: "\<exists>q. add_if_known i d p = Some q \<and> pool_ok q \<and> balances q = shift i d (balances p)" if "pool_ok p" for i d p
    using that pool_ok_ref(1) [OF that] balances_add_balance [OF that] pool_ok_add_balance [OF that]
    by (auto simp: add_if_known_def balances_def shift_def split: option.splits)
  obtain q where "add_if_known f a s = Some q" "pool_ok q" "balances q = shift f a (balances s)" using k [OF 4] by blast
  with k [of q t "- a"] show ?case by (auto simp: RollbackValid_def)
qed

section \<open>The builder\<close>

lemma yields_distinct: "2 \<le> n \<Longrightarrow> yields (\<lambda>(i, j). 0 \<le> i \<and> i < n \<and> 0 \<le> j \<and> j < n \<and> i \<noteq> j) (randomDistinctIndexes n)"
  unfolding randomDistinctIndexes_def
  by (intro yields_bind [OF yields_Intn [of n]] yields_bind [OF yields_Intn [of "n - 1"]]) auto

lemma pool_ok_distinct:
  "pool_ok p \<Longrightarrow> i < length (ap_accounts p c) \<Longrightarrow> j < length (ap_accounts p c) \<Longrightarrow> i \<noteq> j \<Longrightarrow>
   ea_ID (ap_accounts p c ! i) \<noteq> ea_ID (ap_accounts p c ! j)"
  unfolding pool_ok_def by (metis option.inject prod.inject)

text \<open>Two different accounts of one currency.\<close>

definition good_pair :: "account_pool \<Rightarrow> code32 \<Rightarrow> existing_account \<times> existing_account \<Rightarrow> bool" where
  "good_pair p c = (\<lambda>(from, to). from \<in> set (ap_accounts p c) \<and> to \<in> set (ap_accounts p c) \<and> ea_ID from \<noteq> ea_ID to)"

lemma yields_RandomPair:
  assumes "pool_ok p"
  shows "yields (\<lambda>r. case r of None \<Rightarrow> length (ap_accounts p c) < 2 | Some ft \<Rightarrow> good_pair p c ft) (RandomPair c p)"
proof (cases "length (ap_accounts p c) < 2")
  case False
  then have "yields (\<lambda>(i, j). 0 \<le> i \<and> i < int (length (ap_accounts p c)) \<and> 0 \<le> j \<and> j < int (length (ap_accounts p c)) \<and> i \<noteq> j)
      (randomDistinctIndexes (int (length (ap_accounts p c))))" by (intro yields_distinct) simp
  moreover have "ea_ID (ap_accounts p c ! nat i) \<noteq> ea_ID (ap_accounts p c ! nat j)"
    if "0 \<le> i" "i < int (length (ap_accounts p c))" "0 \<le> j" "j < int (length (ap_accounts p c))" "i \<noteq> j" for i j
    using that by (intro pool_ok_distinct [OF assms]) auto
  ultimately show ?thesis
    using False by (auto simp: RandomPair_def Let_def good_pair_def intro!: yields_bind)
qed (simp add: RandomPair_def)

lemma yields_index:
  assumes "cs \<noteq> []" and "\<And>c. c \<in> set cs \<Longrightarrow> yields Q (f c)"
  shows "yields Q (bind_p (Intn (int (length cs))) (\<lambda>k. f (cs ! nat k)))"
  using assms by (intro yields_bind [OF yields_Intn]) auto

lemma yields_funded:
  assumes "pool_ok p" and "cs \<noteq> []"
  shows "yields (\<lambda>r. case r of None \<Rightarrow> True | Some ft \<Rightarrow> 0 < ea_Balance (fst ft) \<and> (\<exists>c\<in>set cs. good_pair p c ft))
    (funded_attempts n cs p)"
proof (induction n)
  case (Suc n)
  show ?case
    unfolding funded_attempts.simps
  proof (rule yields_index [OF assms(2)])
    fix c assume "c \<in> set cs"
    with Suc show "yields (\<lambda>r. case r of None \<Rightarrow> True | Some ft \<Rightarrow> 0 < ea_Balance (fst ft) \<and> (\<exists>c\<in>set cs. good_pair p c ft))
        (bind_p (RandomPair c p) (\<lambda>pair. case pair of None \<Rightarrow> funded_attempts n cs p
           | Some (from, to) \<Rightarrow> if ea_Balance from > 0 \<and> ea_ID from \<noteq> ea_ID to then return_p (Some (from, to))
               else funded_attempts n cs p))"
      by (intro yields_bind [OF yields_RandomPair [OF assms(1)]]) (auto split: option.splits)
  qed
qed simp

lemma yields_pickFundedPair:
  "pool_ok p \<Longrightarrow> yields (\<lambda>r. case r of None \<Rightarrow> True | Some ft \<Rightarrow> 0 < ea_Balance (fst ft) \<and> (\<exists>c\<in>set keys. good_pair p c ft))
    (pickFundedPair keys p)"
  unfolding pickFundedPair_def Let_def
  by (auto intro!: yields_mono [OF yields_funded] simp: CurrenciesWithMinAccounts_def split: option.splits)

lemma yields_pickSame:
  "pool_ok p \<Longrightarrow> yields (\<lambda>r. case r of None \<Rightarrow> True | Some ft \<Rightarrow> \<exists>c. good_pair p c ft) (pickSameCurrencyPair keys p)"
  unfolding pickSameCurrencyPair_def Let_def
  by (auto intro!: yields_index yields_mono [OF yields_RandomPair] split: option.splits)

lemma yields_other: "cs \<noteq> [] \<Longrightarrow> yields (\<lambda>c. c = 0 \<or> c \<in> set cs \<and> c \<noteq> fc) (other_currency n cs fc)"
proof (induction n)
  case (Suc n)
  then show ?case
    unfolding other_currency.simps
    by (intro yields_index [where f = "\<lambda>c. if c \<noteq> fc then return_p c else other_currency n cs fc"]) auto
qed simp

lemma yields_RandomAccount:
  "yields (\<lambda>r. case r of None \<Rightarrow> True | Some a \<Rightarrow> a \<in> set (ap_accounts p c)) (RandomAccount c p)"
  unfolding RandomAccount_def Let_def by (auto intro!: yields_bind [OF yields_Intn])

lemma yields_pickDifferent:
  assumes "pool_ok p"
  shows "yields (\<lambda>r. case r of None \<Rightarrow> True | Some (from, to) \<Rightarrow> from \<in> set (ap_accounts p (ea_Currency from))
      \<and> to \<in> set (ap_accounts p (ea_Currency to)) \<and> ea_Currency to \<noteq> ea_Currency from) (pickDifferentCurrencyPair keys p)"
    (is "yields ?Q _")
proof -
  have cur: "a \<in> set (ap_accounts p c) \<Longrightarrow> ea_Currency a = c" for a c
    using assms by (auto simp: pool_ok_def in_set_conv_nth)
  let ?cs = "CurrenciesWithAccounts keys p"
  have "yields ?Q (bind_p (other_currency 8 ?cs fc) (\<lambda>toCurr.
      if toCurr = 0 then return_p None else bind_p (RandomAccount fc p) (\<lambda>f. case f of None \<Rightarrow> return_p None
        | Some from \<Rightarrow> bind_p (RandomAccount toCurr p) (\<lambda>t. case t of None \<Rightarrow> return_p None | Some to \<Rightarrow> return_p (Some (from, to))))))"
    if "?cs \<noteq> []" for fc
    by (rule yields_bind [OF yields_other [OF that]])
      (auto intro!: yields_bind [OF yields_RandomAccount] split: option.splits; metis cur)
  moreover have "?cs \<noteq> []" if "\<not> length ?cs < 2" using that by auto
  ultimately show ?thesis
    unfolding pickDifferentCurrencyPair_def Let_def by (auto simp del: other_currency.simps intro!: yields_index)
qed

lemma yields_amount: "0 < b \<Longrightarrow> yields (\<lambda>a. 0 < a \<and> a \<le> b) (pick_amount b)"
  unfolding pick_amount_def
  by (auto intro!: yields_bind [OF yields_Intn [of 4]] yields_bind [OF yields_Intn [of "b - 1"]])

lemma good_pair_pool:
  assumes "pool_ok p" and "good_pair p c (from, to)"
  shows "ap_index p (ea_ID from) \<noteq> None \<and> ap_index p (ea_ID to) \<noteq> None \<and> ea_Currency from = c \<and> ea_Currency to = c
    \<and> balances p (ea_ID from) = Some (ea_Balance from) \<and> balances p (ea_ID to) = Some (ea_Balance to)"
  using assms by (auto simp: pool_ok_def good_pair_def balances_def in_set_conv_nth)

lemma BuildValid_run:
  assumes ok: "pool_ok p"
  shows "\<exists>j p' g'. BuildValid keys p g = Some ((j, p'), g') \<and> (case j of None \<Rightarrow> p' = p | Some job \<Rightarrow>
    \<exists>f t a. job = mk_job StreamValid f t a True \<and> ea_Currency f \<in> set keys \<and> good_pair p (ea_Currency f) (f, t)
      \<and> 0 < a \<and> a \<le> ea_Balance f \<and> ReserveValid (ea_ID f) (ea_ID t) a p = Some (True, p') \<and> pool_ok p'
      \<and> balances p' = shift (ea_ID t) a (shift (ea_ID f) (- a) (balances p)))"
proof -
  obtain r g1 where r: "pickFundedPair keys p g = Some (r, g1)"
    "case r of None \<Rightarrow> True | Some ft \<Rightarrow> 0 < ea_Balance (fst ft) \<and> (\<exists>c\<in>set keys. good_pair p c ft)"
    using yields_run [OF yields_pickFundedPair [OF ok]] by blast
  show ?thesis
  proof (cases r)
    case None
    with r show ?thesis by (simp add: BuildValid_def bind_p_def return_p_def)
  next
    case (Some ft)
    obtain f t where ft: "ft = (f, t)" by fastforce
    with Some r(2) obtain c where c: "c \<in> set keys" "good_pair p c (f, t)" and pos: "0 < ea_Balance f" by auto
    note gp = good_pair_pool [OF ok c(2)]
    obtain a g2 where a: "pick_amount (ea_Balance f) g1 = Some (a, g2)" "0 < a" "a \<le> ea_Balance f"
      using yields_run [OF yields_amount [OF pos]] by blast
    obtain p' where p': "ReserveValid (ea_ID f) (ea_ID t) a p = Some (True, p')" "pool_ok p'"
        "balances p' = shift (ea_ID t) a (shift (ea_ID f) (- a) (balances p))"
      using pool.reserve_law [OF ok, of "ea_ID f" "ea_Balance f" a "ea_ID t"] gp a by auto
    have "BuildValid keys p g = Some ((Some (mk_job StreamValid f t a True), p'), g2)"
      using r Some ft a p' by (simp add: BuildValid_def bind_p_def)
    then show ?thesis using p' a gp c by fastforce
  qed
qed

section \<open>Theorems\<close>

text \<open>C35. The builder of valid transfers works on every pool that is in order and for all random
  numbers: it does not panic; without a job the pool is as before; a job names two different accounts of the job's
  currency, its amount is positive and at most the local balance of the sender, the pool has moved
  exactly that amount, and the transfer use case's validation accepts the request under any key.\<close>

theorem BuildValid_sound:
  assumes ok: "pool_ok p" and keys: "list_all (\<lambda>c. IsValid (to_currency c)) keys"
  shows "\<exists>j p' g'. BuildValid keys p g = Some ((j, p'), g') \<and> pool_ok p' \<and>
    (case j of None \<Rightarrow> p' = p | Some job \<Rightarrow>
      (\<exists>from to b. good_pair p (j_Currency job) (from, to) \<and> j_From job = uuid_bytes (ea_ID from) \<and> j_To job = uuid_bytes (ea_ID to)
        \<and> balances p (ea_ID from) = Some b \<and> 0 < j_Amount job \<and> j_Amount job \<le> b
        \<and> balances p' = shift (ea_ID to) (j_Amount job) (shift (ea_ID from) (- j_Amount job) (balances p))
        \<and> (\<forall>ik. ik \<noteq> uuid_Nil \<longrightarrow> validateRequest \<lparr>req_IdempotencyKey = ik, req_FromAccountID = ea_ID from,
              req_ToAccountID = ea_ID to, req_Currency = to_currency (j_Currency job), req_Amount = j_Amount job\<rparr> = Inr ())))"
proof -
  obtain j p' g' where run: "BuildValid keys p g = Some ((j, p'), g')" and j:
    "case j of None \<Rightarrow> p' = p | Some job \<Rightarrow> \<exists>f t a. job = mk_job StreamValid f t a True \<and> ea_Currency f \<in> set keys
       \<and> good_pair p (ea_Currency f) (f, t) \<and> 0 < a \<and> a \<le> ea_Balance f \<and> ReserveValid (ea_ID f) (ea_ID t) a p = Some (True, p')
       \<and> pool_ok p' \<and> balances p' = shift (ea_ID t) a (shift (ea_ID f) (- a) (balances p))"
    using BuildValid_run [OF ok] by blast
  show ?thesis
  proof (cases j)
    case None
    with run j ok show ?thesis by simp
  next
    case (Some job)
    then obtain f t a where job: "job = mk_job StreamValid f t a True" "ea_Currency f \<in> set keys"
        "good_pair p (ea_Currency f) (f, t)" "0 < a" "a \<le> ea_Balance f" "pool_ok p'"
        "balances p' = shift (ea_ID t) a (shift (ea_ID f) (- a) (balances p))" using j by auto
    moreover have "IsValid (to_currency (ea_Currency f))" using keys job(2) by (auto simp: list_all_iff)
    ultimately show ?thesis
      using run Some good_pair_pool [OF ok job(3)] by (auto simp: mk_job_def validateRequest_Inr good_pair_def)
  qed
qed

definition sample_pool :: account_pool where
  "sample_pool = Add \<lparr>ea_ID = 2, ea_Currency = 1, ea_Balance = 50\<rparr>
     (Add \<lparr>ea_ID = 1, ea_Currency = 1, ea_Balance = 100\<rparr> NewAccountPool)"

lemma sample_pool_ok [simp]: "pool_ok sample_pool"
proof -
  have "pool_ok NewAccountPool" by (simp add: pool_ok_def NewAccountPool_def)
  then have "pool_ok (Add \<lparr>ea_ID = 1, ea_Currency = 1, ea_Balance = 100\<rparr> NewAccountPool)"
    using pool_ok_Add by (simp add: NewAccountPool_def bigint_def)
  then show ?thesis
    unfolding sample_pool_def
    by (rule conjunct1 [OF pool_ok_Add]) (simp_all add: NewAccountPool_def Add_def bigint_def)
qed

theorem BuildValid_sound_witness:
  "\<exists>job p' g'. BuildValid [1] sample_pool (\<lambda>_. 0) = Some ((Some job, p'), g') \<and> pool_ok p' \<and> 0 < j_Amount job"
proof -
  have v: "list_all (\<lambda>c. IsValid (to_currency c)) [1]" by (simp add: to_currency_def IsValid_def currency_defs)
  have "map_option (\<lambda>r. fst (fst r) = None) (BuildValid [1] sample_pool (\<lambda>_. 0)) = Some False" by code_simp
  then show ?thesis using BuildValid_sound [OF sample_pool_ok v, of "\<lambda>_. 0"] by auto
qed

text \<open>C36. A rollback takes back exactly its reservation: however other reservations and rollbacks moved
  the balances in between, after it they are what those movements make of the balances before the
  reservation.\<close>

theorem RollbackValid_undoes:
  assumes "pool_ok p" and "pool_ok p2" and "ReserveValid from to a p = Some (True, p1)"
    and "balances p2 = shifts ds (balances p1)"
  shows "\<exists>p3. RollbackValid from to a p2 = Some p3 \<and> pool_ok p3 \<and> balances p3 = shifts ds (balances p)"
  using pool.rolled_back [OF assms] .

theorem RollbackValid_undoes_witness:
  "\<exists>p1 p3. ReserveValid 2 1 30 sample_pool = Some (True, p1) \<and> RollbackValid 2 1 30 p1 = Some p3 \<and> balances p3 = balances sample_pool"
proof -
  obtain p1 where p1: "ReserveValid 2 1 30 sample_pool = Some (True, p1)" "pool_ok p1"
    using pool.reserve_law [OF sample_pool_ok, of 2 50 30 1]
    by (auto simp: balances_def sample_pool_def Add_def NewAccountPool_def)
  from RollbackValid_undoes [OF sample_pool_ok p1(2,1), of "[]"] p1 show ?thesis by (auto simp: shifts_def)
qed

text \<open>The builders of refused transfers do not panic and build what their names say: a pair of
  different accounts of the job's currency with an amount of a quarter of \<^verbatim>\<open>MaxInt64\<close>; and two accounts
  of different currencies, with the sender's currency and the amount 1.\<close>

theorem BuildInvalid_sound:
  assumes ok: "pool_ok p"
  shows "(\<exists>j g'. BuildInvalidBalance keys p g = Some (j, g') \<and> (case j of None \<Rightarrow> True | Some job \<Rightarrow>
        j_Amount job = 2305843009213693951 \<and> \<not> j_Reserved job \<and> (\<exists>from to. good_pair p (j_Currency job) (from, to)
        \<and> j_From job = uuid_bytes (ea_ID from) \<and> j_To job = uuid_bytes (ea_ID to))))
    \<and> (\<exists>j g'. BuildInvalidCurrency keys p g = Some (j, g') \<and> (case j of None \<Rightarrow> True | Some job \<Rightarrow>
        j_Amount job = 1 \<and> \<not> j_Reserved job \<and> (\<exists>from to c. from \<in> set (ap_accounts p (j_Currency job)) \<and> to \<in> set (ap_accounts p c)
        \<and> c \<noteq> j_Currency job \<and> j_From job = uuid_bytes (ea_ID from) \<and> j_To job = uuid_bytes (ea_ID to))))"
proof
  have "yields (\<lambda>j. case j of None \<Rightarrow> True | Some job \<Rightarrow> j_Amount job = 2305843009213693951 \<and> \<not> j_Reserved job
      \<and> (\<exists>from to. good_pair p (j_Currency job) (from, to) \<and> j_From job = uuid_bytes (ea_ID from) \<and> j_To job = uuid_bytes (ea_ID to)))
    (BuildInvalidBalance keys p)"
    unfolding BuildInvalidBalance_def
    using good_pair_pool [OF ok]
    by (intro yields_bind [OF yields_pickSame [OF ok]]) (fastforce simp: mk_job_def invalidBalanceAmount_def split: option.splits)
  from yields_run [OF this] show "\<exists>j g'. BuildInvalidBalance keys p g = Some (j, g') \<and> (case j of None \<Rightarrow> True | Some job \<Rightarrow>
        j_Amount job = 2305843009213693951 \<and> \<not> j_Reserved job \<and> (\<exists>from to. good_pair p (j_Currency job) (from, to)
        \<and> j_From job = uuid_bytes (ea_ID from) \<and> j_To job = uuid_bytes (ea_ID to)))" .
next
  have "yields (\<lambda>j. case j of None \<Rightarrow> True | Some job \<Rightarrow> j_Amount job = 1 \<and> \<not> j_Reserved job
      \<and> (\<exists>from to c. from \<in> set (ap_accounts p (j_Currency job)) \<and> to \<in> set (ap_accounts p c)
        \<and> c \<noteq> j_Currency job \<and> j_From job = uuid_bytes (ea_ID from) \<and> j_To job = uuid_bytes (ea_ID to)))
    (BuildInvalidCurrency keys p)"
    unfolding BuildInvalidCurrency_def
    by (rule yields_bind [OF yields_pickDifferent [OF ok]]) (auto simp: mk_job_def split: option.splits)
  from yields_run [OF this] show "\<exists>j g'. BuildInvalidCurrency keys p g = Some (j, g') \<and> (case j of None \<Rightarrow> True | Some job \<Rightarrow>
        j_Amount job = 1 \<and> \<not> j_Reserved job \<and> (\<exists>from to c. from \<in> set (ap_accounts p (j_Currency job)) \<and> to \<in> set (ap_accounts p c)
        \<and> c \<noteq> j_Currency job \<and> j_From job = uuid_bytes (ea_ID from) \<and> j_To job = uuid_bytes (ea_ID to)))" .
qed

theorem BuildInvalid_sound_witness:
  "\<exists>j g'. BuildInvalidBalance [1] sample_pool (\<lambda>_. 0) = Some (j, g') \<and> map_option j_Amount j = Some 2305843009213693951"
proof -
  have "map_option (\<lambda>r. fst r = None) (BuildInvalidBalance [1] sample_pool (\<lambda>_. 0)) = Some False"
    by (simp add: BuildInvalidBalance_def pickSameCurrencyPair_def CurrenciesWithMinAccounts_def RandomPair_def
        randomDistinctIndexes_def bind_p_def return_p_def Intn_def Let_def sample_pool_def Add_def NewAccountPool_def)
  then show ?thesis using BuildInvalid_sound [OF sample_pool_ok, of "[1]" "\<lambda>_. 0"] by (auto split: option.splits)
qed

end
