(* ===== verification/Loadgen_Core.thy ===== *)
theory Loadgen_Core
  imports Loadgen_Pool
begin

text \<open>
  The load generator around its pool: \<^verbatim>\<open>TxManager\<close> of \<^verbatim>\<open>loadgen/service/transfer.go\<close>, \<^verbatim>\<open>CreateAccounts\<close> of
  \<^verbatim>\<open>Accounts.go\<close>, \<^verbatim>\<open>handleJob\<close>, \<^verbatim>\<open>buildStats\<close>, the bootstrap and the sizes of \<^verbatim>\<open>core.go\<close>, one turn of
  \<^verbatim>\<open>runPoissonStream\<close> of \<^verbatim>\<open>scheduler.go\<close>, and the counters of \<^verbatim>\<open>stats.go\<close> and \<^verbatim>\<open>metrics.go\<close>. The gRPC client is a
  parameter; clock readings, the sampled delay and the branch a \<^verbatim>\<open>select\<close> takes are arguments.
\<close>

section \<open>Calls\<close>

datatype lg_error = Lg_Status status | Lg_Error string

type_synonym 'a lg_result = "lg_error + 'a"

text \<open>The stubs of the generated client, by connection.\<close>

record 'w rpc =
  rpc_Transfer :: "nat \<Rightarrow> transfer_request \<Rightarrow> 'w \<Rightarrow> (status + byte list) \<times> 'w"
  rpc_GetTransaction :: "nat \<Rightarrow> byte list \<Rightarrow> 'w \<Rightarrow> (status + transaction_response) \<times> 'w"

record tx_manager =
  tm_conns :: nat
  tm_rr :: "64 word"

text \<open>\<open>None\<close> is the panic of the remainder by zero when there is no connection.\<close>

definition conn :: "tx_manager \<Rightarrow> (nat \<times> tx_manager) option" where
  "conn t =
     (if tm_conns t = 1 then Some (0, t)
      else if tm_conns t = 0 then None
      else let rr = tm_rr t + 1 in Some (unat (rr - 1) mod tm_conns t, t\<lparr>tm_rr := rr\<rparr>))"

definition CreateTx ::
  "ext \<Rightarrow> 'w rpc \<Rightarrow> uuid option \<Rightarrow> code32 \<Rightarrow> byte list \<Rightarrow> byte list \<Rightarrow> int \<Rightarrow> tx_manager \<times> 'w \<Rightarrow>
   (uuid lg_result \<times> tx_manager \<times> 'w) option" where
  "CreateTx E rpc newV7 currency userFrom userTo amount = (\<lambda>(t, w).
     case newV7 of
       None \<Rightarrow> Some (Inl (Lg_Error ''generate idempotency key''), t, w)
     | Some ik \<Rightarrow>
         (case conn t of
            None \<Rightarrow> None
          | Some (c, t') \<Rightarrow>
              (case rpc_Transfer rpc c \<lparr>m_IdempotencyKey = uuid_bytes ik, m_UserFromId = userFrom, m_UserToId = userTo,
                      m_Amount = amount, m_Currency = currency\<rparr> w of
                 (Inl st, w') \<Rightarrow> Some (Inl (Lg_Status st), t', w')
               | (Inr txId, w') \<Rightarrow>
                   (case uuid_FromBytes E txId of
                      None \<Rightarrow> Some (Inl (Lg_Error ''parse transaction id''), t', w')
                    | Some i \<Rightarrow> Some (Inr i, t', w')))))"

definition lg_GetTransaction :: "'w rpc \<Rightarrow> uuid \<Rightarrow> tx_manager \<times> 'w \<Rightarrow> (unit lg_result \<times> tx_manager \<times> 'w) option" where
  "lg_GetTransaction rpc txID = (\<lambda>(t, w).
     case conn t of
       None \<Rightarrow> None
     | Some (c, t') \<Rightarrow>
         (case rpc_GetTransaction rpc c (uuid_bytes txID) w of
            (Inl st, w') \<Rightarrow> Some (Inl (Lg_Status st), t', w')
          | (Inr _, w') \<Rightarrow> Some (Inr (), t', w')))"

section \<open>Counters\<close>

record load_stats =
  ls_dispatched :: "stream_kind \<Rightarrow> int"
  ls_completedOK :: int
  ls_completedError :: int
  ls_lastDispatched :: "stream_kind \<Rightarrow> int"
  ls_lastTick :: int

definition RecordDispatched :: "stream_kind \<Rightarrow> load_stats \<Rightarrow> load_stats" where
  "RecordDispatched k s = s\<lparr>ls_dispatched := (ls_dispatched s)(k := wrap64 (ls_dispatched s k + 1))\<rparr>"

definition RecordCompleted :: "'a lg_result \<Rightarrow> load_stats \<Rightarrow> load_stats" where
  "RecordCompleted x s = (case x of
     Inl _ \<Rightarrow> s\<lparr>ls_completedError := wrap64 (ls_completedError s + 1)\<rparr>
   | Inr _ \<Rightarrow> s\<lparr>ls_completedOK := wrap64 (ls_completedOK s + 1)\<rparr>)"

text \<open>\<^verbatim>\<open>rates\<close> at the time \<open>now\<close>: the counts and the elapsed nanoseconds whose quotients it returns;
  \<open>None\<close> where it returns zeros.\<close>

definition rates :: "int \<Rightarrow> load_stats \<Rightarrow> ((stream_kind \<Rightarrow> int) \<times> int) option \<times> load_stats" where
  "rates now s =
     (let prev = ls_lastTick s; mark = s\<lparr>ls_lastTick := now, ls_lastDispatched := ls_dispatched s\<rparr>
      in if prev = 0 then (None, mark)
         else if wrap64 (now - prev) \<le> 0 then (None, s)
         else (Some (\<lambda>k. wrap64 (ls_dispatched s k - ls_lastDispatched s k), wrap64 (now - prev)), mark))"

text \<open>The labels of the counter \<^verbatim>\<open>completed_total\<close> of the metrics.\<close>

definition completed_labels :: "'a lg_result \<Rightarrow> string \<times> string" where
  "completed_labels x = (case x of
     Inr _ \<Rightarrow> (''ok'', ''OK'')
   | Inl (Lg_Status st) \<Rightarrow> (''error'', code_String (st_code st))
   | Inl (Lg_Error _) \<Rightarrow> (''error'', ''Unknown''))"

record lg_metrics =
  lm_dispatched :: "stream_kind \<Rightarrow> nat"
  lm_completed :: "stream_kind \<times> string \<times> string \<Rightarrow> nat"

definition m_RecordDispatched :: "stream_kind \<Rightarrow> lg_metrics \<Rightarrow> lg_metrics" where
  "m_RecordDispatched k m = m\<lparr>lm_dispatched := (lm_dispatched m)(k := Suc (lm_dispatched m k))\<rparr>"

definition m_RecordCompleted :: "stream_kind \<Rightarrow> 'a lg_result \<Rightarrow> lg_metrics \<Rightarrow> lg_metrics" where
  "m_RecordCompleted k x m = m\<lparr>lm_completed := (lm_completed m)((k, completed_labels x) := Suc (lm_completed m (k, completed_labels x)))\<rparr>"

section \<open>Jobs\<close>

record 'w core =
  co_tx :: tx_manager
  co_world :: 'w
  co_pool :: account_pool
  co_stats :: load_stats
  co_metrics :: lg_metrics
  co_recentTxIDs :: "uuid list"
  co_jobs :: "transfer_job list"

definition complete :: "stream_kind \<Rightarrow> 'a lg_result \<Rightarrow> tx_manager \<Rightarrow> 'w \<Rightarrow> 'w core \<Rightarrow> 'w core" where
  "complete k x t w c = c\<lparr>co_tx := t, co_world := w, co_stats := RecordCompleted x (co_stats c),
     co_metrics := m_RecordCompleted k x (co_metrics c)\<rparr>"

definition remember :: "uuid \<Rightarrow> uuid list \<Rightarrow> uuid list" where
  "remember txID ids = (let ids' = ids @ [txID] in if length ids' > 10000 then drop 1000 ids' else ids')"

text \<open>\<^verbatim>\<open>dropReserved\<close>, and the same lines in \<^verbatim>\<open>handleJob\<close>.\<close>

definition rollback_job :: "ext \<Rightarrow> transfer_job \<Rightarrow> account_pool \<Rightarrow> account_pool option" where
  "rollback_job E job p =
     (case (uuid_FromBytes E (j_From job), uuid_FromBytes E (j_To job)) of
        (Some fromID, Some toID) \<Rightarrow> RollbackValid fromID toID (j_Amount job) p
      | _ \<Rightarrow> Some p)"

definition dropReserved :: "ext \<Rightarrow> transfer_job \<Rightarrow> account_pool \<Rightarrow> account_pool option" where
  "dropReserved E job p = (if \<not> j_Reserved job then Some p else rollback_job E job p)"

definition handleJob :: "ext \<Rightarrow> 'w rpc \<Rightarrow> uuid option \<Rightarrow> transfer_job \<Rightarrow> 'w core \<Rightarrow> 'w core option" where
  "handleJob E rpc newV7 job c =
     (if j_Kind job = StreamStats
      then (case lg_GetTransaction rpc (j_TxID job) (co_tx c, co_world c) of
              None \<Rightarrow> None
            | Some (x, t, w) \<Rightarrow> Some (complete (j_Kind job) x t w c))
      else (case CreateTx E rpc newV7 (j_Currency job) (j_From job) (j_To job) (j_Amount job) (co_tx c, co_world c) of
              None \<Rightarrow> None
            | Some (x, t, w) \<Rightarrow>
                (let c1 = complete (j_Kind job) x t w c
                 in if \<not> j_Reserved job then Some c1
                    else case x of
                      Inl _ \<Rightarrow> map_option (\<lambda>p. c1\<lparr>co_pool := p\<rparr>) (rollback_job E job (co_pool c1))
                    | Inr txID \<Rightarrow>
                        if j_Kind job = StreamValid \<and> txID \<noteq> uuid_Nil
                        then Some (c1\<lparr>co_recentTxIDs := remember txID (co_recentTxIDs c1)\<rparr>) else Some c1)))"

definition buildStats :: "'w core \<Rightarrow> transfer_job option rand" where
  "buildStats c =
     (let ids = co_recentTxIDs c
      in if ids = [] then return_p None
         else bind_p (Intn (int (length ids))) (\<lambda>i. return_p (Some
           \<lparr>j_Kind = StreamStats, j_Currency = 0, j_From = [], j_To = [], j_Amount = 0, j_TxID = ids ! nat i, j_Reserved = False\<rparr>)))"

section \<open>Bootstrap\<close>

definition go_quot :: "int \<Rightarrow> int \<Rightarrow> int" where
  "go_quot a b = sgn a * sgn b * (\<bar>a\<bar> div \<bar>b\<bar>)"

type_synonym account_reply = "(status + byte list) \<times> (status + int)"

text \<open>What one job of \<^verbatim>\<open>CreateAccounts\<close> makes of the replies to its two calls.\<close>

definition account_result :: "ext \<Rightarrow> code32 \<Rightarrow> account_reply \<Rightarrow> existing_account option" where
  "account_result E cur = (\<lambda>(created, balance).
     case created of
       Inl _ \<Rightarrow> None
     | Inr accountId \<Rightarrow>
         (case uuid_FromBytes E accountId of
            None \<Rightarrow> None
          | Some i \<Rightarrow> (case balance of Inl _ \<Rightarrow> None | Inr b \<Rightarrow> Some \<lparr>ea_ID = i, ea_Currency = cur, ea_Balance = b\<rparr>)))"

text \<open>\<open>replies\<close> are the replies to the jobs in the order in which the jobs end; without workers no
  job runs.\<close>

definition CreateAccounts ::
  "ext \<Rightarrow> int \<Rightarrow> code32 \<Rightarrow> int \<Rightarrow> int \<Rightarrow> account_reply list \<Rightarrow> existing_account list \<times> string option" where
  "CreateAccounts E workers cur amount maxErrorPct replies =
     (if amount \<le> 0 then ([], None)
      else let handled = (if workers \<le> 0 then [] else map (account_result E cur) replies);
               created = List.map_filter id handled;
               errorsCount = int (length handled) - int (length created);
               m = go_quot (wrap64 (amount * maxErrorPct)) 100;
               maxErrors = (if m < 1 \<and> amount > 0 then 1 else m)
           in (created, if errorsCount > maxErrors then Some ''too many account creation errors'' else None))"

definition perCurrency :: "int \<Rightarrow> nat \<Rightarrow> int" where
  "perCurrency usersAmount currencies =
     (let n = go_quot usersAmount (int currencies) in if n = 0 then 1 else n)"

text \<open>The wait for the upstream: in each round the context is looked at and then an account is
  created; \<open>None\<close> while it still waits after the given rounds.\<close>

datatype probe = Ctx_Done | Refused | Ready

fun wait_upstream :: "probe list \<Rightarrow> (string + unit) option" where
  "wait_upstream [] = None"
| "wait_upstream (Ctx_Done # ps) = Some (Inl ''context canceled'')"
| "wait_upstream (Refused # ps) = wait_upstream ps"
| "wait_upstream (Ready # ps) = Some (Inr ())"

text \<open>\<open>replies\<close> are the replies to the jobs of a currency.\<close>

definition bootstrapAccounts ::
  "ext \<Rightarrow> int \<Rightarrow> int \<Rightarrow> int \<Rightarrow> code32 list \<Rightarrow> probe list \<Rightarrow> (code32 \<Rightarrow> account_reply list) \<Rightarrow> (string + account_pool) option" where
  "bootstrapAccounts E workers usersAmount maxErrorPct values probes replies =
     (let currencies = GetValidCurrencies values
      in if currencies = [] then Some (Inl ''no currencies in proto enum'')
         else let n = perCurrency usersAmount (length currencies)
              in case wait_upstream probes of
                   None \<Rightarrow> None
                 | Some (Inl e) \<Rightarrow> Some (Inl e)
                 | Some (Inr _) \<Rightarrow>
                     (let accs = concat (map (\<lambda>c. fst (CreateAccounts E workers c n maxErrorPct (replies c))) currencies);
                          pool = fold Add accs NewAccountPool
                      in if Total currencies pool = 0 then Some (Inl ''no accounts created'') else Some (Inr pool)))"

text \<open>The sizes of \<^verbatim>\<open>runLoad\<close>; \<open>need\<close> is the sum of the truncated rates.\<close>

definition load_workers :: "int \<Rightarrow> int \<Rightarrow> int" where
  "load_workers txWorkers need = (let m = (if need < 256 then 256 else need) in if txWorkers < m then m else txWorkers)"

definition load_queueSize :: "int \<Rightarrow> int" where
  "load_queueSize workers = (let q = wrap64 (workers * 2) in if q < 8192 then 8192 else q)"

section \<open>The scheduler\<close>

definition maxCatchUp :: int where
  "maxCatchUp = 250 * 1000000"

definition next_at :: "int \<Rightarrow> int \<Rightarrow> int \<Rightarrow> int \<Rightarrow> int" where
  "next_at nextAt delay now1 now2 =
     (let n = nextAt + delay in if now1 - n > maxCatchUp then now2 - maxCatchUp else n)"

text \<open>One turn of \<^verbatim>\<open>runPoissonStream\<close>. \<open>cancel_wait\<close>, \<open>cancel_idle\<close>, \<open>cancel_send\<close>: the \<^verbatim>\<open>select\<close> of
  the wait, of the pause after a failed build, of the send takes the branch of the context.\<close>

record tick =
  tk_now :: int
  tk_cancel_wait :: bool
  tk_cancel_idle :: bool
  tk_cancel_send :: bool
  tk_delay :: int
  tk_now1 :: int
  tk_now2 :: int

definition stream_turn ::
  "ext \<Rightarrow> stream_kind \<Rightarrow> ('w core \<Rightarrow> (transfer_job option \<times> 'w core) rand) \<Rightarrow> tick \<Rightarrow> int \<times> 'w core \<Rightarrow>
   (flow \<times> int \<times> 'w core) rand" where
  "stream_turn E stream build tk = (\<lambda>(nextAt, c).
     if nextAt - tk_now tk > 0 \<and> tk_cancel_wait tk then return_p (Stop, nextAt, c)
     else bind_p (build c) (\<lambda>(j, c1) g.
       case j of
         None \<Rightarrow> Some ((if tk_cancel_idle tk then Stop else Continue, nextAt, c1), g)
       | Some job0 \<Rightarrow>
           (let job = job0\<lparr>j_Kind := stream\<rparr>
            in if tk_cancel_send tk
               then map_option (\<lambda>p. ((Stop, nextAt, c1\<lparr>co_pool := p\<rparr>), g)) (dropReserved E job (co_pool c1))
               else Some ((Continue, next_at nextAt (tk_delay tk) (tk_now1 tk) (tk_now2 tk),
                      c1\<lparr>co_jobs := co_jobs c1 @ [job], co_metrics := m_RecordDispatched stream (co_metrics c1),
                         co_stats := RecordDispatched stream (co_stats c1)\<rparr>), g))))"

definition valid_stream :: "code32 list \<Rightarrow> 'w core \<Rightarrow> (transfer_job option \<times> 'w core) rand" where
  "valid_stream keys c = bind_p (BuildValid keys (co_pool c)) (\<lambda>(j, p). return_p (j, c\<lparr>co_pool := p\<rparr>))"

section \<open>Facts\<close>

lemma conn_total: "0 < tm_conns t \<Longrightarrow> \<exists>i t'. conn t = Some (i, t') \<and> i < tm_conns t \<and> tm_conns t' = tm_conns t"
  by (auto simp: conn_def Let_def)

lemma CreateTx_total:
  assumes "0 < tm_conns t"
  shows "\<exists>x t' w'. CreateTx E rpc k cur f u a (t, w) = Some (x, t', w') \<and> tm_conns t' = tm_conns t"
proof -
  obtain i t' where "conn t = Some (i, t')" "tm_conns t' = tm_conns t" using conn_total [OF assms] by blast
  then show ?thesis by (auto simp: CreateTx_def split: option.splits prod.splits sum.splits)
qed

lemma complete_sel [simp]:
  "co_pool (complete k x t w c) = co_pool c" "co_recentTxIDs (complete k x t w c) = co_recentTxIDs c"
  "co_tx (complete k x t w c) = t" "co_world (complete k x t w c) = w" "co_jobs (complete k x t w c) = co_jobs c"
  "co_stats (complete k x t w c) = RecordCompleted x (co_stats c)"
  by (simp_all add: complete_def)

lemma length_remember: "length ids \<le> 10000 \<Longrightarrow> length (remember i ids) \<le> 10000"
  by (auto simp: remember_def Let_def)

lemma last_remember: "remember i ids \<noteq> [] \<and> last (remember i ids) = i"
proof (cases "length ids < 10000")
  case False
  then have "drop 1000 (ids @ [i]) = drop 1000 ids @ [i]" by simp
  with False show ?thesis by (simp add: remember_def Let_def)
qed (simp add: remember_def)

text \<open>A reserved job of two accounts, as the builder of valid transfers makes it.\<close>

definition reserved_job :: "uuid \<Rightarrow> uuid \<Rightarrow> transfer_job \<Rightarrow> bool" where
  "reserved_job from to job \<longleftrightarrow> j_Kind job = StreamValid \<and> j_Reserved job \<and> j_From job = uuid_bytes from \<and> j_To job = uuid_bytes to"

lemma rollback_reserved:
  "uuid_laws E \<Longrightarrow> reserved_job from to job \<Longrightarrow> rollback_job E job p = RollbackValid from to (j_Amount job) p"
  by (simp add: rollback_job_def reserved_job_def)

lemma BuildValid_reserved:
  assumes ok: "pool_ok p"
  shows "\<exists>j p' g'. BuildValid keys p g = Some ((j, p'), g') \<and> pool_ok p' \<and> (case j of None \<Rightarrow> p' = p | Some job \<Rightarrow>
    \<exists>a b. reserved_job a b job \<and> (\<exists>q. RollbackValid a b (j_Amount job) p' = Some q \<and> pool_ok q \<and> balances q = balances p))"
proof -
  obtain j p' g' where run: "BuildValid keys p g = Some ((j, p'), g')" and j:
    "case j of None \<Rightarrow> p' = p | Some job \<Rightarrow> \<exists>f t a. job = mk_job StreamValid f t a True \<and> ea_Currency f \<in> set keys
       \<and> good_pair p (ea_Currency f) (f, t) \<and> 0 < a \<and> a \<le> ea_Balance f \<and> ReserveValid (ea_ID f) (ea_ID t) a p = Some (True, p')
       \<and> pool_ok p' \<and> balances p' = shift (ea_ID t) a (shift (ea_ID f) (- a) (balances p))"
    using BuildValid_run [OF ok] by blast
  show ?thesis
  proof (cases j)
    case None
    with run j ok show ?thesis by simp
  next
    case (Some job)
    then obtain f t a where job: "job = mk_job StreamValid f t a True"
      "ReserveValid (ea_ID f) (ea_ID t) a p = Some (True, p')" "pool_ok p'" using j by auto
    have "\<exists>q. RollbackValid (ea_ID f) (ea_ID t) a p' = Some q \<and> pool_ok q \<and> balances q = balances p"
      using pool.rolled_back [OF ok job(3,2), of "[]"] by (simp add: shifts_def)
    moreover have "reserved_job (ea_ID f) (ea_ID t) job" "j_Amount job = a" by (simp_all add: job reserved_job_def mk_job_def)
    ultimately show ?thesis using run Some job(3) by auto
  qed
qed

lemma fold_Add:
  assumes "distinct (map ea_ID accs)" and "list_all (\<lambda>a. bigint (ea_Balance a)) accs"
  shows "pool_ok (fold Add accs NewAccountPool)
    \<and> balances (fold Add accs NewAccountPool) = map_of (map (\<lambda>a. (ea_ID a, ea_Balance a)) accs)"
  using assms
proof (induction accs rule: rev_induct)
  case Nil
  then show ?case by (simp add: pool_ok_def NewAccountPool_def balances_def fun_eq_iff)
next
  case (snoc a accs)
  let ?p = "fold Add accs NewAccountPool"
  have p: "pool_ok ?p" "balances ?p = map_of (map (\<lambda>a. (ea_ID a, ea_Balance a)) accs)" using snoc by auto
  have "ea_ID a \<notin> ea_ID ` set accs" using snoc.prems by simp
  then have n: "map_of (map (\<lambda>a. (ea_ID a, ea_Balance a)) accs) (ea_ID a) = None"
    by (simp add: map_of_eq_None_iff image_image)
  then have "balances ?p (ea_ID a) = None" using p(2) by simp
  then have "ap_index ?p (ea_ID a) = None" by (simp add: balances_def)
  with pool_ok_Add [OF p(1), of a] p n snoc.prems show ?case
    by (auto simp: fun_eq_iff map_add_def split: option.splits)
qed

text \<open>The connections of the next calls.\<close>

fun conns_used :: "nat \<Rightarrow> tx_manager \<Rightarrow> nat list" where
  "conns_used 0 t = []"
| "conns_used (Suc n) t = (case conn t of None \<Rightarrow> [] | Some (i, t') \<Rightarrow> i # conns_used n t')"

lemma conn_many:
  assumes "1 < tm_conns t"
  shows "conn t = Some (unat (tm_rr t) mod tm_conns t, t\<lparr>tm_rr := tm_rr t + 1\<rparr>)"
  using assms by (simp add: conn_def Let_def)

lemma conns_used_many:
  assumes "1 < tm_conns t" and "unat (tm_rr t) + n < 2 ^ 64"
  shows "conns_used n t = map (\<lambda>k. k mod tm_conns t) [unat (tm_rr t)..<unat (tm_rr t) + n]"
  using assms
proof (induction n arbitrary: t)
  case (Suc n)
  let ?t = "t\<lparr>tm_rr := tm_rr t + 1\<rparr>"
  have "unat (tm_rr ?t) = Suc (unat (tm_rr t))"
    using Suc.prems(2) by (simp add: unat_word_ariths)
  with Suc.IH [of ?t] Suc.prems
  have "conns_used n ?t = map (\<lambda>k. k mod tm_conns t) [Suc (unat (tm_rr t))..<unat (tm_rr t) + Suc n]" by simp
  moreover have "[unat (tm_rr t)..<unat (tm_rr t) + Suc n] = unat (tm_rr t) # [Suc (unat (tm_rr t))..<unat (tm_rr t) + Suc n]"
    by (rule upt_conv_Cons) simp
  ultimately show ?case by (simp only: conns_used.simps conn_many [OF Suc.prems(1)] option.case prod.case list.map)
qed simp

lemma mod_window: "0 < n \<Longrightarrow> (\<lambda>k. k mod n) ` {a..<a + n} = {..<n}" for a n :: nat
proof -
  assume n: "0 < n"
  have eq: "k = l" if "k mod n = l mod n" "k \<le> l" "l < k + n" for k l
    using mod_eq_dvd_iff_nat [of k l n] that by (auto dest: dvd_imp_le)
  have "inj_on (\<lambda>k. k mod n) {a..<a + n}"
  proof (rule inj_onI)
    fix k l assume "k \<in> {a..<a + n}" "l \<in> {a..<a + n}" "k mod n = l mod n"
    then show "k = l" using eq [of k l] eq [of l k] by (cases "k \<le> l") auto
  qed
  then show ?thesis using n by (intro card_subset_eq) (auto simp: card_image)
qed

section \<open>Theorems\<close>

text \<open>A worker settles a reserved job without panic, over any server: when the call succeeds the
  reservation stays and the id becomes the newest of at most 10000 remembered ones; when it fails the reservation is
  taken back, so that the balances are what the other movements since then make of the balances before it;
  and exactly one of the two completion counters grows.\<close>

theorem handleJob_settles:
  assumes laws: "uuid_laws E" and conns: "0 < tm_conns (co_tx c)" and job: "reserved_job from to job"
    and ok: "pool_ok p" "pool_ok (co_pool c)" and res: "ReserveValid from to (j_Amount job) p = Some (True, p1)"
    and between: "balances (co_pool c) = shifts ds (balances p1)" and few: "length (co_recentTxIDs c) \<le> 10000"
  shows "\<exists>x t w c'. CreateTx E rpc k (j_Currency job) (j_From job) (j_To job) (j_Amount job) (co_tx c, co_world c) = Some (x, t, w)
    \<and> handleJob E rpc k job c = Some c' \<and> pool_ok (co_pool c') \<and> length (co_recentTxIDs c') \<le> 10000
    \<and> co_stats c' = RecordCompleted x (co_stats c)
    \<and> (case x of
         Inl e \<Rightarrow> balances (co_pool c') = shifts ds (balances p) \<and> co_recentTxIDs c' = co_recentTxIDs c
       | Inr i \<Rightarrow> co_pool c' = co_pool c \<and> (i = uuid_Nil \<or> last (co_recentTxIDs c') = i))"
proof -
  obtain x t w where x: "CreateTx E rpc k (j_Currency job) (j_From job) (j_To job) (j_Amount job) (co_tx c, co_world c) = Some (x, t, w)"
    using CreateTx_total [OF conns, of E rpc k "j_Currency job" "j_From job" "j_To job" "j_Amount job" "co_world c"] by blast
  obtain p3 where p3: "RollbackValid from to (j_Amount job) (co_pool c) = Some p3" "pool_ok p3" "balances p3 = shifts ds (balances p)"
    using pool.rolled_back [OF ok res between] by blast
  then have rb: "rollback_job E job (co_pool c) = Some p3" by (simp add: rollback_reserved [OF laws job])
  show ?thesis
  proof (cases x)
    case (Inl e)
    with job x p3 few show ?thesis
      by (simp add: handleJob_def rb reserved_job_def)
  next
    case (Inr i)
    with job x ok few show ?thesis
      by (auto simp: handleJob_def reserved_job_def Let_def length_remember last_remember)
  qed
qed

definition idle_core :: "account_pool \<Rightarrow> unit core" where
  "idle_core p = \<lparr>co_tx = \<lparr>tm_conns = 2, tm_rr = 0\<rparr>, co_world = (), co_pool = p,
     co_stats = \<lparr>ls_dispatched = (\<lambda>_. 0), ls_completedOK = 0, ls_completedError = 0,
       ls_lastDispatched = (\<lambda>_. 0), ls_lastTick = 0\<rparr>,
     co_metrics = \<lparr>lm_dispatched = (\<lambda>_. 0), lm_completed = (\<lambda>_. 0)\<rparr>, co_recentTxIDs = [], co_jobs = []\<rparr>"

definition down_rpc :: "unit rpc" where
  "down_rpc = \<lparr>rpc_Transfer = (\<lambda>_ _ w. (Inl (Status codes_Internal '''' None), w)),
     rpc_GetTransaction = (\<lambda>_ _ w. (Inl (Status codes_NotFound '''' None), w))\<rparr>"

definition sample_job :: transfer_job where
  "sample_job = mk_job StreamValid \<lparr>ea_ID = 2, ea_Currency = 1, ea_Balance = 50\<rparr> \<lparr>ea_ID = 1, ea_Currency = 1, ea_Balance = 100\<rparr> 30 True"

theorem handleJob_settles_witness:
  "\<exists>p1 c'. ReserveValid 2 1 30 sample_pool = Some (True, p1) \<and> handleJob ref_ext down_rpc (Some 9) sample_job (idle_core p1) = Some c'
     \<and> balances (co_pool c') = balances sample_pool"
proof -
  obtain p1 where p1: "ReserveValid 2 1 30 sample_pool = Some (True, p1)" "pool_ok p1"
    using pool.reserve_law [OF sample_pool_ok, of 2 50 30 1]
    by (auto simp: balances_def sample_pool_def Add_def NewAccountPool_def)
  have "reserved_job 2 1 sample_job" "j_Amount sample_job = 30" by (simp_all add: reserved_job_def sample_job_def mk_job_def)
  moreover have "CreateTx ref_ext down_rpc (Some 9) cur f u 30 (co_tx (idle_core p1), co_world (idle_core p1)) = Some (x, t, w) \<Longrightarrow> \<exists>e. x = Inl e"
    for cur f u x t w by (auto simp: CreateTx_def down_rpc_def idle_core_def split: option.splits)
  ultimately show ?thesis
    using handleJob_settles [OF ref_uuid_laws _ _ sample_pool_ok, of "idle_core p1" 2 1 sample_job p1 "[]" down_rpc "Some 9"] p1
    by (fastforce simp: idle_core_def shifts_def)
qed

text \<open>A turn of the stream of valid transfers does not panic, on every pool in order and for all random numbers and
  clock readings. When it goes on with a job, one job entered the queue, both counters
  of the stream grew by one, and the next slot lies at most 250 ms behind the clock, so that a burst is bounded; when it
  stops or finds no job, the queue and the balances are as before, a reservation having been
  taken back.\<close>

theorem stream_turn_valid:
  assumes laws: "uuid_laws E" and ok: "pool_ok (co_pool c)" and clock: "tk_now1 tk \<le> tk_now2 tk"
  shows "\<exists>f n c' g'. stream_turn E StreamValid (valid_stream keys) tk (nextAt, c) g = Some ((f, n, c'), g') \<and> pool_ok (co_pool c') \<and>
    (co_jobs c' = co_jobs c \<and> balances (co_pool c') = balances (co_pool c) \<and> co_stats c' = co_stats c \<and> n = nextAt
     \<or> (\<exists>job. f = Continue \<and> co_jobs c' = co_jobs c @ [job] \<and> j_Reserved job \<and> j_Kind job = StreamValid
          \<and> co_stats c' = RecordDispatched StreamValid (co_stats c) \<and> co_metrics c' = m_RecordDispatched StreamValid (co_metrics c)
          \<and> tk_now1 tk - maxCatchUp \<le> n))"
proof (cases "nextAt - tk_now tk > 0 \<and> tk_cancel_wait tk")
  case True
  with ok show ?thesis by (auto simp: stream_turn_def return_p_def)
next
  case False
  obtain j p' g' where b: "BuildValid keys (co_pool c) g = Some ((j, p'), g')" "pool_ok p'" and j:
    "case j of None \<Rightarrow> p' = co_pool c | Some job \<Rightarrow> \<exists>a b. reserved_job a b job
       \<and> (\<exists>q. RollbackValid a b (j_Amount job) p' = Some q \<and> pool_ok q \<and> balances q = balances (co_pool c))"
    using BuildValid_reserved [OF ok] by blast
  let ?c = "c\<lparr>co_pool := p'\<rparr>"
  have v: "valid_stream keys c g = Some ((j, ?c), g')" using b by (simp add: valid_stream_def bind_p_def return_p_def)
  show ?thesis
  proof (cases j)
    case None
    with v j False ok show ?thesis by (auto simp: stream_turn_def bind_p_def)
  next
    case (Some job)
    then obtain a d q where job: "reserved_job a d job"
      and q: "RollbackValid a d (j_Amount job) p' = Some q" "pool_ok q" "balances q = balances (co_pool c)" using j by auto
    then have kind: "job\<lparr>j_Kind := StreamValid\<rparr> = job" by (simp add: reserved_job_def)
    have "tk_now1 tk - maxCatchUp \<le> next_at nextAt (tk_delay tk) (tk_now1 tk) (tk_now2 tk)"
      using clock by (simp add: next_at_def Let_def)
    moreover have "dropReserved E job p' = Some q"
      using job q rollback_reserved [OF laws job] by (simp add: dropReserved_def reserved_job_def)
    ultimately show ?thesis
      using v False Some b q job by (cases "tk_cancel_send tk") (auto simp: stream_turn_def bind_p_def reserved_job_def Let_def kind)
  qed
qed

definition open_tick :: tick where
  "open_tick = \<lparr>tk_now = 0, tk_cancel_wait = False, tk_cancel_idle = False, tk_cancel_send = True, tk_delay = 5, tk_now1 = 1, tk_now2 = 2\<rparr>"

theorem stream_turn_valid_witness:
  "\<exists>f n c' g'. stream_turn ref_ext StreamValid (valid_stream [1]) open_tick (0, idle_core sample_pool) (\<lambda>_. 0) = Some ((f, n, c'), g')
     \<and> pool_ok (co_pool c') \<and> length (co_jobs c') \<le> 1"
proof -
  have "tk_now1 open_tick \<le> tk_now2 open_tick" "pool_ok (co_pool (idle_core sample_pool))" "co_jobs (idle_core sample_pool) = []"
    by (simp_all add: open_tick_def idle_core_def)
  with stream_turn_valid [OF ref_uuid_laws, of "idle_core sample_pool" open_tick "[1]" 0 "\<lambda>_. 0"] show ?thesis
    by fastforce
qed

text \<open>The bootstrap tolerates a share of failed creations: with workers and a percentage that does
  not overflow, \<^verbatim>\<open>CreateAccounts\<close> returns one account in the requested currency for every job whose
  two calls succeeded, and an error exactly when the failures exceed the share, of which at least one
  is always allowed.\<close>

theorem CreateAccounts_threshold:
  assumes "0 < workers" and "replies \<noteq> []" and "0 \<le> pct" and "bigint (int (length replies) * pct)"
  shows "fst (CreateAccounts E workers cur (int (length replies)) pct replies) = List.map_filter (account_result E cur) replies
    \<and> (snd (CreateAccounts E workers cur (int (length replies)) pct replies) \<noteq> None
       \<longleftrightarrow> int (length (filter (\<lambda>r. account_result E cur r = None) replies)) > max 1 (int (length replies) * pct div 100))"
proof -
  have mf: "List.map_filter id (map (account_result E cur) replies) = List.map_filter (account_result E cur) replies"
    by (simp add: List.map_filter_def filter_map comp_def)
  have "length (List.map_filter (account_result E cur) replies) = length (filter (\<lambda>r. account_result E cur r \<noteq> None) replies)"
    by (simp add: List.map_filter_def)
  then have "int (length replies) - int (length (List.map_filter (account_result E cur) replies))
      = int (length (filter (\<lambda>r. account_result E cur r = None) replies))"
    using sum_length_filter_compl [of "\<lambda>r. account_result E cur r \<noteq> None" replies] by simp
  moreover have "go_quot (int (length replies) * pct) 100 = int (length replies) * pct div 100"
  proof (cases "int (length replies) * pct = 0")
    case False
    then have "0 < int (length replies) * pct" using assms(3) by (simp add: zero_less_mult_iff)
    then show ?thesis by (simp add: go_quot_def del: of_nat_mult)
  qed (simp only: go_quot_def, simp)
  moreover have "\<not> int (length replies) \<le> 0" using assms(2) by simp
  ultimately show ?thesis
    using assms by (auto simp: CreateAccounts_def Let_def mf max_def)
qed

definition sample_replies :: "account_reply list" where
  "sample_replies = [(Inr (uuid_bytes 1), Inr 100), (Inl (Status codes_Internal '''' None), Inr 0), (Inr (uuid_bytes 2), Inr 50)]"

theorem CreateAccounts_threshold_witness:
  "map ea_ID (fst (CreateAccounts ref_ext 4 1 3 33 sample_replies)) = [1, 2] \<and> snd (CreateAccounts ref_ext 4 1 3 33 sample_replies) = None"
proof -
  have l: "int (length sample_replies) = 3" by (simp add: sample_replies_def)
  have r: "List.map_filter (account_result ref_ext 1) sample_replies =
      [\<lparr>ea_ID = 1, ea_Currency = 1, ea_Balance = 100\<rparr>, \<lparr>ea_ID = 2, ea_Currency = 1, ea_Balance = 50\<rparr>]"
    and f: "length (filter (\<lambda>r. account_result ref_ext 1 r = None) sample_replies) = 1"
    by (simp_all add: sample_replies_def account_result_def List.map_filter_simps)
  from CreateAccounts_threshold [of 4 sample_replies 33 ref_ext 1] l r f show ?thesis
    by (auto simp: sample_replies_def bigint_def)
qed

text \<open>The bootstrap builds a pool in order: when the server gave every account its own id and balances
  in the range of \<^verbatim>\<open>int64\<close>, the pool that \<^verbatim>\<open>bootstrapAccounts\<close> returns satisfies the invariant that the builders
  and workers rely on, and its balances are exactly those of the created accounts.\<close>

theorem bootstrap_pool_ok:
  assumes run: "bootstrapAccounts E workers usersAmount pct values probes replies = Some (Inr pool)"
    and accs: "accs = concat (map (\<lambda>c. fst (CreateAccounts E workers c (perCurrency usersAmount (length (GetValidCurrencies values))) pct (replies c)))
        (GetValidCurrencies values))"
    and ids: "distinct (map ea_ID accs)" and range: "list_all (\<lambda>a. bigint (ea_Balance a)) accs"
  shows "pool_ok pool \<and> balances pool = map_of (map (\<lambda>a. (ea_ID a, ea_Balance a)) accs)"
proof -
  have "pool = fold Add accs NewAccountPool"
    using run by (auto simp: bootstrapAccounts_def Let_def accs split: if_splits option.splits sum.splits)
  then show ?thesis using fold_Add [OF ids range] by simp
qed

definition sample_accounts :: "code32 \<Rightarrow> account_reply list" where
  "sample_accounts c = (if c = 1 then sample_replies else [])"

lemma sample_created:
  "fst (CreateAccounts ref_ext 4 1 (perCurrency 3 (length (GetValidCurrencies [1, 0]))) 33 (sample_accounts 1)) =
      [\<lparr>ea_ID = 1, ea_Currency = 1, ea_Balance = 100\<rparr>, \<lparr>ea_ID = 2, ea_Currency = 1, ea_Balance = 50\<rparr>]"
proof -
  have r: "List.map_filter id (map (account_result ref_ext 1) sample_replies) =
      [\<lparr>ea_ID = 1, ea_Currency = 1, ea_Balance = 100\<rparr>, \<lparr>ea_ID = 2, ea_Currency = 1, ea_Balance = 50\<rparr>]"
    by (simp add: sample_replies_def account_result_def List.map_filter_simps)
  have p: "perCurrency 3 (Suc 0) = 3" by (simp add: perCurrency_def go_quot_def)
  show ?thesis by (simp add: CreateAccounts_def GetValidCurrencies_def Let_def sample_accounts_def r p)
qed

lemma sample_bootstrap:
  "\<exists>pool. bootstrapAccounts ref_ext 4 3 33 [1, 0] [Refused, Ready] sample_accounts = Some (Inr pool)
     \<and> Total (GetValidCurrencies [1, 0]) pool = 2"
proof -
  have v: "GetValidCurrencies [1, 0] = [1]" by (simp add: GetValidCurrencies_def)
  show ?thesis using sample_created by (simp add: bootstrapAccounts_def v Let_def Add_def NewAccountPool_def Total_def)
qed

theorem bootstrap_pool_ok_witness:
  "\<exists>pool. bootstrapAccounts ref_ext 4 3 33 [1, 0] [Refused, Ready] sample_accounts = Some (Inr pool) \<and> pool_ok pool \<and> balances pool = [1 \<mapsto> 100, 2 \<mapsto> 50]"
proof -
  obtain pool where b: "bootstrapAccounts ref_ext 4 3 33 [1, 0] [Refused, Ready] sample_accounts = Some (Inr pool)"
    using sample_bootstrap by blast
  have v: "GetValidCurrencies [1, 0] = [1]" by (simp add: GetValidCurrencies_def)
  from bootstrap_pool_ok [OF b refl] have "pool_ok pool \<and> balances pool = [1 \<mapsto> 100, 2 \<mapsto> 50]"
    using sample_created by (simp add: v bigint_def fun_upd_twist)
  with b show ?thesis by blast
qed

text \<open>Calls are spread over all connections: with at least two, as many consecutive calls as there are connections use every
  connection exactly once, as long as the 64-bit counter does not wrap in between.\<close>

theorem conn_round_robin:
  assumes many: "1 < tm_conns t" and room: "unat (tm_rr t) + tm_conns t < 2 ^ 64"
  shows "set (conns_used (tm_conns t) t) = {..<tm_conns t} \<and> distinct (conns_used (tm_conns t) t)"
proof -
  let ?l = "conns_used (tm_conns t) t"
  have "set ?l = {..<tm_conns t}"
    using mod_window [of "tm_conns t" "unat (tm_rr t)"] many by (simp add: conns_used_many [OF many room])
  moreover have "length ?l = tm_conns t" by (simp add: conns_used_many [OF many room])
  ultimately show ?thesis by (metis card_distinct card_lessThan)
qed

theorem conn_round_robin_witness: "set (conns_used 3 \<lparr>tm_conns = 3, tm_rr = 5\<rparr>) = {..<3}"
  using conn_round_robin [of "\<lparr>tm_conns = 3, tm_rr = 5\<rparr>"] by simp

end
