(* ===== verification/Loadgen_Report.thy ===== *)
theory Loadgen_Report
  imports Complex_Main Loadgen_Core
begin

text \<open>
  What the load generator computes with \<^verbatim>\<open>float64\<close> and what it reports: the delays of
  \<^verbatim>\<open>loadgen/service/scheduler.go\<close> and the seeds of its generators, the gauges of \<^verbatim>\<open>metrics.go\<close>, and the
  reporter of \<^verbatim>\<open>stats.go\<close>. The arithmetic is a parameter; what the reporter reads of the clock and of the
  counters, which the streams and workers change meanwhile, comes with the event that wakes it.
\<close>

unbundle bit_operations_syntax

section \<open>Floating-point numbers\<close>

text \<open>The operations on \<^verbatim>\<open>float64\<close> that the load generator uses: \<open>f_dec m e\<close> is the literal \<open>m\<close> times ten to
  the power \<open>e\<close>, \<open>f_trunc\<close> the conversion to an integer type, \<open>f_neg_log\<close> the negated \<^verbatim>\<open>math.Log\<close>.\<close>

record 'f float_ops =
  f_dec :: "int \<Rightarrow> int \<Rightarrow> 'f"
  f_of_int :: "int \<Rightarrow> 'f"
  f_trunc :: "'f \<Rightarrow> int"
  f_minus :: "'f \<Rightarrow> 'f \<Rightarrow> 'f"
  f_times :: "'f \<Rightarrow> 'f \<Rightarrow> 'f"
  f_div :: "'f \<Rightarrow> 'f \<Rightarrow> 'f"
  f_neg_log :: "'f \<Rightarrow> 'f"
  f_less :: "'f \<Rightarrow> 'f \<Rightarrow> bool"
  f_le :: "'f \<Rightarrow> 'f \<Rightarrow> bool"

abbreviation f_zero :: "'f float_ops \<Rightarrow> 'f" where
  "f_zero F \<equiv> f_of_int F 0"

section \<open>Configuration and gauges\<close>

text \<open>The fields of the configuration of \<^verbatim>\<open>loadgen/config\<close> that the core reads.\<close>

record 'f lg_config =
  lc_Working :: bool
  lc_UsersAmount :: int
  lc_RPS :: "stream_kind \<Rightarrow> 'f"
  lc_LoadDuration :: int
  lc_BootstrapWorkers :: int
  lc_TxWorkers :: int
  lc_BootstrapMaxError :: int

definition stream_kinds :: "stream_kind list" where
  "stream_kinds = [StreamValid, StreamInvalidBalance, StreamInvalidCurrency, StreamStats]"

record 'f gauges =
  targetRPS :: "stream_kind \<rightharpoonup> 'f"
  queueDepth :: int

definition SetTarget :: "stream_kind \<Rightarrow> 'f \<Rightarrow> 'f gauges \<Rightarrow> 'f gauges" where
  "SetTarget k rps m = m\<lparr>targetRPS := (targetRPS m)(k \<mapsto> rps)\<rparr>"

definition SetQueueDepth :: "int \<Rightarrow> 'f gauges \<Rightarrow> 'f gauges" where
  "SetQueueDepth n m = m\<lparr>queueDepth := n\<rparr>"

section \<open>Delays and seeds\<close>

definition poissonDelay :: "'f float_ops \<Rightarrow> 'f \<Rightarrow> 'f \<Rightarrow> int" where
  "poissonDelay F u rps =
     (let u = (if f_le F u (f_zero F) then f_dec F 1 (- 12) else u);
          seconds = f_div F (f_neg_log F u) rps
      in f_trunc F (f_times F seconds (f_of_int F 1000000000)))"

text \<open>The names of the streams, and FNV-1a of \<^verbatim>\<open>hash/fnv\<close> over them.\<close>

definition stream_name :: "stream_kind \<Rightarrow> string" where
  "stream_name k = (case k of StreamValid \<Rightarrow> ''valid'' | StreamInvalidBalance \<Rightarrow> ''invalid_balance''
     | StreamInvalidCurrency \<Rightarrow> ''invalid_currency'' | StreamStats \<Rightarrow> ''stats'')"

definition fnv64a :: "string \<Rightarrow> 64 word" where
  "fnv64a s = fold (\<lambda>c h. (h XOR word_of_nat (of_char c)) * 1099511628211) s 14695981039346656037"

definition streamSeed :: "string \<Rightarrow> int" where
  "streamSeed s = sint (fnv64a s)"

section \<open>The reporter\<close>

text \<open>What \<^verbatim>\<open>rates\<close> returns.\<close>

definition stream_rates :: "'f float_ops \<Rightarrow> int \<Rightarrow> load_stats \<Rightarrow> (stream_kind \<Rightarrow> 'f) \<times> load_stats" where
  "stream_rates F now s = (case rates now s of
     (None, s') \<Rightarrow> (\<lambda>_. f_zero F, s')
   | (Some (counts, ns), s') \<Rightarrow>
       (let elapsed = f_div F (f_of_int F ns) (f_of_int F 1000000000)
        in (\<lambda>k. f_div F (f_of_int F (counts k)) elapsed, s')))"

text \<open>The values of the warning, in its order.\<close>

record 'f shortfall =
  sf_stream :: stream_kind
  sf_achieved :: 'f
  sf_target :: 'f
  sf_percent :: 'f

definition ValidateAchieved :: "'f float_ops \<Rightarrow> stream_kind \<Rightarrow> 'f \<Rightarrow> 'f \<Rightarrow> 'f \<Rightarrow> 'f shortfall option" where
  "ValidateAchieved F stream target achieved tolerance =
     (if f_le F target (f_zero F) then None
      else if f_less F achieved (f_times F target (f_minus F (f_of_int F 1) tolerance))
      then Some \<lparr>sf_stream = stream, sf_achieved = achieved, sf_target = target, sf_percent = f_times F tolerance (f_of_int F 100)\<rparr>
      else None)"

definition achievedTolerance :: "'f float_ops \<Rightarrow> 'f" where
  "achievedTolerance F = f_dec F 5 (- 2)"

datatype 'f report =
  Dispatch_Rate "stream_kind \<Rightarrow> 'f" "stream_kind \<Rightarrow> 'f" int int
| Final_Rate "stream_kind \<Rightarrow> 'f" int int
| Rate_Warning "'f shortfall"
| Within_Tolerance

definition logFinal :: "'f float_ops \<Rightarrow> (stream_kind \<Rightarrow> 'f) \<Rightarrow> int \<Rightarrow> load_stats \<Rightarrow> 'f report list \<times> load_stats" where
  "logFinal F rps now s =
     (let (r, s') = stream_rates F now s;
          warnings = List.map_filter (\<lambda>k. ValidateAchieved F k (rps k) (r k) (achievedTolerance F)) stream_kinds
      in ([Final_Rate r (ls_completedOK s) (ls_completedError s)] @ map Rate_Warning warnings
          @ (if warnings = [] then [Within_Tolerance] else []), s'))"

text \<open>An event of the reporter's \<^verbatim>\<open>select\<close>, with the clock and the counters it reads then.\<close>

record wake =
  wk_now :: int
  wk_dispatched :: "stream_kind \<Rightarrow> int"
  wk_completedOK :: int
  wk_completedError :: int

definition reading :: "wake \<Rightarrow> load_stats \<Rightarrow> load_stats" where
  "reading e s = s\<lparr>ls_dispatched := wk_dispatched e, ls_completedOK := wk_completedOK e, ls_completedError := wk_completedError e\<rparr>"

text \<open>\<^verbatim>\<open>RunReporter\<close> over its ticks up to the end of the context.\<close>

fun RunReporter :: "'f float_ops \<Rightarrow> (stream_kind \<Rightarrow> 'f) \<Rightarrow> wake list \<Rightarrow> wake \<Rightarrow> load_stats \<Rightarrow> 'f report list \<times> load_stats" where
  "RunReporter F rps [] fin s = logFinal F rps (wk_now fin) (reading fin s)"
| "RunReporter F rps (e # es) fin s =
     (let (r, s1) = stream_rates F (wk_now e) (reading e s);
          (out, s2) = RunReporter F rps es fin s1
      in (Dispatch_Rate r rps (wk_completedOK e) (wk_completedError e) # out, s2))"

section \<open>What the reporter reports\<close>

lemma streams_seeded_apart: "distinct (map (streamSeed \<circ> stream_name) stream_kinds)"
  by code_simp

text \<open>A first reading yields zeros and sets the marks.\<close>

lemma stream_rates_first: "ls_lastTick s = 0 \<Longrightarrow> stream_rates F now s = (\<lambda>_. f_zero F, s\<lparr>ls_lastTick := now, ls_lastDispatched := ls_dispatched s\<rparr>)"
  by (simp add: stream_rates_def rates_def Let_def)

lemma stream_rates_next:
  assumes "ls_lastTick s \<noteq> 0" and "ls_lastTick s < now" and "bigint now" and "bigint (now - ls_lastTick s)"
  shows "stream_rates F now s =
    (\<lambda>k. f_div F (f_of_int F (wrap64 (ls_dispatched s k - ls_lastDispatched s k)))
           (f_div F (f_of_int F (now - ls_lastTick s)) (f_of_int F 1000000000)),
     s\<lparr>ls_lastTick := now, ls_lastDispatched := ls_dispatched s\<rparr>)"
  using assms by (simp add: stream_rates_def rates_def Let_def)

text \<open>The ticks and the end, in the order of the clock, from the first reading on.\<close>

definition wakes_ok :: "wake list \<Rightarrow> bool" where
  "wakes_ok ws \<longleftrightarrow> sorted_wrt (\<lambda>e f. wk_now e < wk_now f \<and> (\<forall>k. wk_dispatched e k \<le> wk_dispatched f k)) ws
     \<and> (\<forall>e\<in>set ws. 0 < wk_now e \<and> bigint (wk_now e) \<and> (\<forall>k. 0 \<le> wk_dispatched e k \<and> bigint (wk_dispatched e k)))"

lemma reading_sel [simp]: "ls_lastTick (reading e s) = ls_lastTick s" "ls_dispatched (reading e s) = wk_dispatched e"
    "ls_lastDispatched (reading e s) = ls_lastDispatched s"
  by (simp_all add: reading_def)

definition marked :: "wake \<Rightarrow> load_stats \<Rightarrow> bool" where
  "marked e s \<longleftrightarrow> ls_lastTick s = wk_now e \<and> ls_lastDispatched s = wk_dispatched e"

lemma wakes_apart:
  assumes "wakes_ok (e # es)" and "f \<in> set es"
  shows "0 < wk_now e" and "wk_now e < wk_now f" and "bigint (wk_now f)" and "bigint (wk_now f - wk_now e)"
    and "bigint (wk_dispatched f k - wk_dispatched e k)"
proof -
  have e: "0 < wk_now e" "0 \<le> wk_dispatched e k" and f: "wk_now e < wk_now f" "bigint (wk_now f)" "wk_dispatched e k \<le> wk_dispatched f k" "bigint (wk_dispatched f k)"
    using assms by (auto simp: wakes_ok_def)
  then show "0 < wk_now e" "wk_now e < wk_now f" "bigint (wk_now f)" "bigint (wk_now f - wk_now e)"
    "bigint (wk_dispatched f k - wk_dispatched e k)" by (auto simp: bigint_def)
qed

text \<open>Between two readings, the counts of the interval.\<close>

lemma stream_rates_interval:
  assumes "wakes_ok (e # es)" and "f \<in> set es" and "marked e s"
  shows "fst (stream_rates F (wk_now f) (reading f s)) = (\<lambda>k. f_div F (f_of_int F (wk_dispatched f k - wk_dispatched e k))
      (f_div F (f_of_int F (wk_now f - wk_now e)) (f_of_int F 1000000000)))"
    and "marked f (snd (stream_rates F (wk_now f) (reading f s)))"
proof -
  note a = wakes_apart [OF assms(1,2)]
  have "stream_rates F (wk_now f) (reading f s) = (\<lambda>k. f_div F (f_of_int F (wk_dispatched f k - wk_dispatched e k))
      (f_div F (f_of_int F (wk_now f - wk_now e)) (f_of_int F 1000000000)), (reading f s)\<lparr>ls_lastTick := wk_now f, ls_lastDispatched := wk_dispatched f\<rparr>)"
    using stream_rates_next [of "reading f s" "wk_now f" F] assms(3) a by (simp add: marked_def)
  then show "fst (stream_rates F (wk_now f) (reading f s)) = (\<lambda>k. f_div F (f_of_int F (wk_dispatched f k - wk_dispatched e k))
      (f_div F (f_of_int F (wk_now f - wk_now e)) (f_of_int F 1000000000)))"
    and "marked f (snd (stream_rates F (wk_now f) (reading f s)))" by (simp_all add: marked_def)
qed

definition final_rates :: "'f float_ops \<Rightarrow> wake list \<Rightarrow> wake \<Rightarrow> stream_kind \<Rightarrow> 'f" where
  "final_rates F es fin k =
     (if es = [] then f_zero F
      else f_div F (f_of_int F (wk_dispatched fin k - wk_dispatched (last es) k))
             (f_div F (f_of_int F (wk_now fin - wk_now (last es))) (f_of_int F 1000000000)))"

text \<open>A run reports every tick, and at the end the rates since the last of them.\<close>

definition reports_end :: "'f float_ops \<Rightarrow> (stream_kind \<Rightarrow> 'f) \<Rightarrow> nat \<Rightarrow> (stream_kind \<Rightarrow> 'f) \<Rightarrow> wake \<Rightarrow> 'f report list \<Rightarrow> bool" where
  "reports_end F rps n r fin out \<longleftrightarrow> (\<exists>pre s'. out = pre @ fst (logFinal F rps (wk_now fin) (reading fin s'))
     \<and> length pre = n \<and> (\<forall>x\<in>set pre. \<exists>r a b. x = Dispatch_Rate r rps a b)
     \<and> fst (stream_rates F (wk_now fin) (reading fin s')) = r)"

lemma reports_end_Cons: "reports_end F rps n r fin out \<Longrightarrow> reports_end F rps (Suc n) r fin (Dispatch_Rate q rps a b # out)"
  unfolding reports_end_def by (metis append_Cons length_Cons set_ConsD)

lemma wakes_ok_Cons: "wakes_ok (e # f # ws) \<Longrightarrow> wakes_ok (f # ws)"
  by (auto simp: wakes_ok_def)

lemma RunReporter_fst:
  "fst (RunReporter F rps (e # es) fin s) =
     Dispatch_Rate (fst (stream_rates F (wk_now e) (reading e s))) rps (wk_completedOK e) (wk_completedError e)
     # fst (RunReporter F rps es fin (snd (stream_rates F (wk_now e) (reading e s))))"
  by (simp add: case_prod_beta)

lemma RunReporter_marked:
  "wakes_ok (e # es @ [fin]) \<Longrightarrow> marked e s \<Longrightarrow> reports_end F rps (length es) (final_rates F (e # es) fin) fin (fst (RunReporter F rps es fin s))"
proof (induction es arbitrary: e s)
  case Nil
  then show ?case
    using stream_rates_interval(1) [of e "[fin]" fin s F] by (auto simp: reports_end_def final_rates_def)
next
  case (Cons f es)
  let ?s = "snd (stream_rates F (wk_now f) (reading f s))"
  have "marked f ?s" using stream_rates_interval(2) [of e "f # es @ [fin]" f s F] Cons.prems by simp
  moreover have "wakes_ok (f # es @ [fin])" using Cons.prems(1) by (auto intro: wakes_ok_Cons)
  ultimately have "reports_end F rps (length es) (final_rates F (f # es) fin) fin (fst (RunReporter F rps es fin ?s))"
    by (intro Cons.IH)
  moreover have "final_rates F (e # f # es) fin = final_rates F (f # es) fin" by (simp add: final_rates_def fun_eq_iff)
  ultimately show ?case by (simp only: RunReporter_fst list.size(4) Nat.add_0_right add_Suc_right reports_end_Cons)
qed

lemma RunReporter_end:
  assumes "wakes_ok (es @ [fin])" and "ls_lastTick s = 0"
  shows "reports_end F rps (length es) (final_rates F es fin) fin (fst (RunReporter F rps es fin s))"
proof (cases es)
  case Nil
  then show ?thesis
    unfolding reports_end_def
    by (intro exI [of _ "[]"] exI [of _ s]) (use assms in \<open>simp add: final_rates_def stream_rates_first fun_eq_iff\<close>)
next
  case (Cons e es')
  have "marked e (snd (stream_rates F (wk_now e) (reading e s)))" using assms(2) by (simp add: stream_rates_first marked_def)
  from RunReporter_marked [OF _ this, of es' fin] assms(1) Cons
  have "reports_end F rps (length es') (final_rates F es fin) fin (fst (RunReporter F rps es' fin (snd (stream_rates F (wk_now e) (reading e s)))))"
    by simp
  then show ?thesis by (simp only: Cons RunReporter_fst list.size(4) Nat.add_0_right add_Suc_right reports_end_Cons)
qed

lemma logFinal_verdict:
  assumes "fst (stream_rates F now s) = r"
  shows "Within_Tolerance \<in> set (fst (logFinal F rps now s)) \<longleftrightarrow>
    (\<forall>k. f_le F (rps k) (f_zero F) \<or> \<not> f_less F (r k) (f_times F (rps k) (f_minus F (f_of_int F 1) (achievedTolerance F))))"
proof -
  have w: "List.map_filter h stream_kinds = [] \<longleftrightarrow> (\<forall>k. h k = None)" for h :: "stream_kind \<Rightarrow> 'a shortfall option"
  proof -
    have "List.map_filter h ks = [] \<longleftrightarrow> (\<forall>k\<in>set ks. h k = None)" for ks
      by (induction ks) (auto simp: List.map_filter_simps split: option.splits)
    moreover have "k \<in> set stream_kinds" for k by (cases k) (simp_all add: stream_kinds_def)
    ultimately show ?thesis by blast
  qed
  show ?thesis
    using assms by (auto simp: logFinal_def Let_def w ValidateAchieved_def split: prod.splits)
qed

section \<open>Exact arithmetic\<close>

definition exact_ops :: "real float_ops" where
  "exact_ops = \<lparr>f_dec = (\<lambda>m e. of_int m * (if 0 \<le> e then 10 ^ nat e else inverse (10 ^ nat (- e)))), f_of_int = of_int,
     f_trunc = (\<lambda>x. if 0 \<le> x then \<lfloor>x\<rfloor> else \<lceil>x\<rceil>), f_minus = (-), f_times = (*), f_div = (/), f_neg_log = (\<lambda>x. - ln x),
     f_less = (<), f_le = (\<le>)\<rparr>"

lemma exact_ops_sel:
  "f_dec exact_ops m e = of_int m * (if 0 \<le> e then 10 ^ nat e else inverse (10 ^ nat (- e)))" "f_of_int exact_ops n = of_int n"
  "f_minus exact_ops x y = x - y" "f_times exact_ops x y = x * y" "f_div exact_ops x y = x / y" "f_less exact_ops x y \<longleftrightarrow> x < y"
  "f_le exact_ops x y \<longleftrightarrow> x \<le> y"
  by (simp_all add: exact_ops_def)

text \<open>The verdict that the load generator logs at its end is about its last interval: with exact arithmetic it says that
  the rates are within the tolerance exactly when every stream with a positive target has sent, since the last tick of the
  reporter, at least 95 percent of the target times the time that has passed; a load that ends before the first tick
  never passes, whatever it sent.\<close>

theorem RunReporter_verdict:
  assumes "wakes_ok (es @ [fin])" and "ls_lastTick s = 0"
  shows "Within_Tolerance \<in> set (fst (RunReporter exact_ops rps es fin s)) \<longleftrightarrow>
    (\<forall>k. 0 < rps k \<longrightarrow> es \<noteq> [] \<and>
       95 / 100 * rps k * (real_of_int (wk_now fin - wk_now (last es)) / 1000000000) \<le> real_of_int (wk_dispatched fin k - wk_dispatched (last es) k))"
proof -
  obtain pre s' where out: "fst (RunReporter exact_ops rps es fin s) = pre @ fst (logFinal exact_ops rps (wk_now fin) (reading fin s'))"
    and pre: "\<forall>x\<in>set pre. \<exists>r a b. x = Dispatch_Rate r rps a b"
    and r: "fst (stream_rates exact_ops (wk_now fin) (reading fin s')) = final_rates exact_ops es fin"
    using RunReporter_end [OF assms, of exact_ops rps] by (auto simp: reports_end_def)
  have "Within_Tolerance \<in> set (fst (RunReporter exact_ops rps es fin s)) \<longleftrightarrow>
      (\<forall>k. rps k \<le> 0 \<or> 95 / 100 * rps k \<le> final_rates exact_ops es fin k)"
  proof -
    have "Within_Tolerance \<notin> set pre" using pre by blast
    then show ?thesis by (simp add: out logFinal_verdict [OF r, of rps]) (simp add: exact_ops_sel achievedTolerance_def not_less mult.commute)
  qed
  also have "\<dots> \<longleftrightarrow> (\<forall>k. 0 < rps k \<longrightarrow> es \<noteq> [] \<and>
       95 / 100 * rps k * (real_of_int (wk_now fin - wk_now (last es)) / 1000000000) \<le> real_of_int (wk_dispatched fin k - wk_dispatched (last es) k))"
  proof (rule iff_allI)
    fix k
    show "(rps k \<le> 0 \<or> 95 / 100 * rps k \<le> final_rates exact_ops es fin k) \<longleftrightarrow> (0 < rps k \<longrightarrow> es \<noteq> [] \<and>
       95 / 100 * rps k * (real_of_int (wk_now fin - wk_now (last es)) / 1000000000) \<le> real_of_int (wk_dispatched fin k - wk_dispatched (last es) k))"
    proof (cases "es = []")
      case True
      then show ?thesis by (auto simp: final_rates_def exact_ops_sel)
    next
      case False
      then have t: "0 < real_of_int (wk_now fin - wk_now (last es)) / 1000000000"
        using assms(1) by (auto simp: wakes_ok_def sorted_wrt_append)
      have "final_rates exact_ops es fin k
          = real_of_int (wk_dispatched fin k - wk_dispatched (last es) k) / (real_of_int (wk_now fin - wk_now (last es)) / 1000000000)"
        using False by (simp add: final_rates_def exact_ops_sel)
      with False pos_le_divide_eq [OF t] show ?thesis by (simp only: not_le [symmetric] not_False_eq_True) blast
    qed
  qed
  finally show ?thesis .
qed

definition wake_at :: "int \<Rightarrow> int \<Rightarrow> wake" where
  "wake_at now n = \<lparr>wk_now = now, wk_dispatched = (\<lambda>_. n), wk_completedOK = n, wk_completedError = 0\<rparr>"

theorem RunReporter_verdict_witness:
  "Within_Tolerance \<in> set (fst (RunReporter exact_ops (\<lambda>_. 10) [wake_at 1 5, wake_at 10000000001 5] (wake_at 20000000001 105)
       \<lparr>ls_dispatched = (\<lambda>_. 0), ls_completedOK = 0, ls_completedError = 0, ls_lastDispatched = (\<lambda>_. 0), ls_lastTick = 0\<rparr>))
   \<and> Within_Tolerance \<notin> set (fst (RunReporter exact_ops (\<lambda>_. 10) [] (wake_at 9000000000 90)
       \<lparr>ls_dispatched = (\<lambda>_. 0), ls_completedOK = 0, ls_completedError = 0, ls_lastDispatched = (\<lambda>_. 0), ls_lastTick = 0\<rparr>))"
proof -
  have "wakes_ok ([wake_at 1 5, wake_at 10000000001 5] @ [wake_at 20000000001 105])" "wakes_ok ([] @ [wake_at 9000000000 90])"
    by (simp_all add: wakes_ok_def wake_at_def bigint_def)
  from this [THEN RunReporter_verdict] show ?thesis by (simp add: wake_at_def)
qed

end
