(* ===== verification/Loadgen_Run.thy ===== *)
theory Loadgen_Run
  imports Loadgen_Report
begin

text \<open>
  The load phase of \<^verbatim>\<open>loadgen/service/core.go\<close> as it runs: the four goroutines of \<^verbatim>\<open>runPoissonStream\<close>, the
  workers, the sampler of the queue and \<^verbatim>\<open>runLoad\<close> itself, which take their steps in any order; and
  \<^verbatim>\<open>LoadGenWorker\<close>, which starts them. A job is handled in one step. The reporter shares only counters with
  them and is in \<open>Loadgen_Report\<close>. The builders of three streams draw from one \<^verbatim>\<open>*rand.Rand\<close> without a lock
  (\<^verbatim>\<open>core.go:133\<close>): two of them that draw at the same time are a data race, after which a draw may
  index outside the generator's table and panic. \<open>lr_raced\<close> records that it may have happened.
\<close>

section \<open>The streams, the workers and their queue\<close>

text \<open>Where a call of a builder is. \<^verbatim>\<open>BuildValid\<close> looks at the pool once in every attempt of
  \<^verbatim>\<open>pickFundedPair\<close> (\<open>Funding\<close>, with the attempts that are left and the candidates) and once more in
  \<^verbatim>\<open>ReserveValid\<close> (\<open>Reserving\<close>, with copies of the accounts it picked); what it picked may be out of date
  by then. The other builders look once at what may change (\<open>Drawing\<close>): the pool's lists of accounts are fixed
  before the load begins. A builder that finds too few accounts returns without a draw (\<open>Giving_Up\<close>).\<close>

datatype build_stage = Funding nat "code32 list" | Reserving existing_account existing_account int | Drawing | Giving_Up

text \<open>Where a goroutine of \<^verbatim>\<open>runPoissonStream\<close> is: at the head of its loop, in its builder, with a job to send,
  before the two counters of a sent job, or returned. The number is \<^verbatim>\<open>nextAt\<close>.\<close>

datatype stream_pc = Looping int | Building int build_stage | Holding int transfer_job | Counting int | Stream_Over

datatype worker_pc = Receiving | Handling transfer_job | Worker_Over

text \<open>Where \<^verbatim>\<open>runLoad\<close> itself is: at \<^verbatim>\<open><-ctx.Done()\<close>, at \<^verbatim>\<open>streamsWg.Wait()\<close>, at \<^verbatim>\<open>workersWg.Wait()\<close>, returned.\<close>

datatype main_pc = Loading | Awaiting_Streams | Awaiting_Workers | Load_Over

text \<open>\<open>co_jobs\<close> of the core is the content of the channel \<^verbatim>\<open>jobs\<close>. \<open>lr_settled\<close> is no variable of the source: it
  lists the jobs whose transfer went through, for the statements below; nor is \<open>lr_raced\<close>.\<close>

record ('f, 'w) load_run =
  lr_core :: "'w core"
  lr_gauges :: "'f gauges"
  lr_cap :: int
  lr_closed :: bool
  lr_cancelled :: bool
  lr_streams :: "stream_pc list"
  lr_workers :: "worker_pc list"
  lr_main :: main_pc
  lr_raced :: bool
  lr_settled :: "transfer_job list"

text \<open>The functions \<^verbatim>\<open>build\<close> of the four streams, each without the others in between; \<open>keys\<close> is the order in
  which the pool's map is iterated.\<close>

definition load_build :: "stream_kind \<Rightarrow> code32 list \<Rightarrow> 'w core \<Rightarrow> (transfer_job option \<times> 'w core) rand" where
  "load_build k keys c = (case k of
     StreamValid \<Rightarrow> valid_stream keys c
   | StreamInvalidBalance \<Rightarrow> bind_p (BuildInvalidBalance keys (co_pool c)) (\<lambda>j. return_p (j, c))
   | StreamInvalidCurrency \<Rightarrow> bind_p (BuildInvalidCurrency keys (co_pool c)) (\<lambda>j. return_p (j, c))
   | StreamStats \<Rightarrow> bind_p (buildStats c) (\<lambda>j. return_p (j, c)))"

text \<open>A call of a builder in its steps: it goes on to another stage or returns.\<close>

definition first_stage :: "stream_kind \<Rightarrow> code32 list \<Rightarrow> account_pool \<Rightarrow> build_stage" where
  "first_stage k keys p = (case k of
     StreamValid \<Rightarrow> (let candidates = CurrenciesWithMinAccounts keys 2 p in if candidates = [] then Giving_Up else Funding (length candidates * 4) candidates)
   | StreamInvalidBalance \<Rightarrow> if CurrenciesWithMinAccounts keys 2 p = [] then Giving_Up else Drawing
   | StreamInvalidCurrency \<Rightarrow> if length (CurrenciesWithAccounts keys p) < 2 then Giving_Up else Drawing
   | StreamStats \<Rightarrow> Drawing)"

fun build_call :: "stream_kind \<Rightarrow> code32 list \<Rightarrow> build_stage \<Rightarrow> 'w core \<Rightarrow> ((build_stage + transfer_job option) \<times> 'w core) rand" where
  "build_call k keys (Funding 0 candidates) c = return_p (Inr None, c)"
| "build_call k keys (Funding (Suc n) candidates) c =
     bind_p (Intn (int (length candidates))) (\<lambda>i.
     bind_p (RandomPair (candidates ! nat i) (co_pool c)) (\<lambda>pair.
       case pair of
         None \<Rightarrow> return_p (Inl (Funding n candidates), c)
       | Some (from, to) \<Rightarrow>
           if ea_Balance from > 0 \<and> ea_ID from \<noteq> ea_ID to
           then bind_p (pick_amount (ea_Balance from)) (\<lambda>amount. return_p (Inl (Reserving from to amount), c))
           else return_p (Inl (Funding n candidates), c)))"
| "build_call k keys (Reserving from to amount) c = (\<lambda>g.
     case ReserveValid (ea_ID from) (ea_ID to) amount (co_pool c) of
       None \<Rightarrow> None
     | Some (False, p) \<Rightarrow> Some ((Inr None, c\<lparr>co_pool := p\<rparr>), g)
     | Some (True, p) \<Rightarrow> Some ((Inr (Some (mk_job StreamValid from to amount True)), c\<lparr>co_pool := p\<rparr>), g))"
| "build_call k keys Giving_Up c = return_p (Inr None, c)"
| "build_call k keys Drawing c = bind_p (load_build k keys c) (\<lambda>(j, c'). return_p (Inr j, c'))"

text \<open>The steps of a call that nothing interrupts.\<close>

fun build_calls :: "nat \<Rightarrow> stream_kind \<Rightarrow> code32 list \<Rightarrow> build_stage \<Rightarrow> 'w core \<Rightarrow> (transfer_job option \<times> 'w core) rand" where
  "build_calls 0 k keys st c = (\<lambda>g. None)"
| "build_calls (Suc n) k keys st c = bind_p (build_call k keys st c) (\<lambda>(x, c').
     case x of Inl st' \<Rightarrow> build_calls n k keys st' c' | Inr j \<Rightarrow> return_p (j, c'))"

text \<open>The three streams whose builders draw from the shared generator (\<^verbatim>\<open>buildStats\<close> uses the locked one of
  the package), and the stages in which they draw.\<close>

definition sharing :: "stream_kind \<Rightarrow> bool" where
  "sharing k \<longleftrightarrow> k \<noteq> StreamStats"

fun draws :: "stream_pc \<Rightarrow> bool" where
  "draws (Building n (Funding m candidates)) \<longleftrightarrow> 0 < m"
| "draws (Building n Drawing) \<longleftrightarrow> True"
| "draws pc \<longleftrightarrow> False"

definition may_draw :: "nat \<Rightarrow> ('f, 'w) load_run \<Rightarrow> bool" where
  "may_draw i s \<longleftrightarrow> i < length (lr_streams s) \<and> sharing (stream_kinds ! i) \<and> draws (lr_streams s ! i)"

text \<open>Stream \<open>i\<close> enters its builder; that is a race when both it and another stream are about to draw.\<close>

definition enter_build :: "nat \<Rightarrow> stream_pc \<Rightarrow> ('f, 'w) load_run \<Rightarrow> ('f, 'w) load_run" where
  "enter_build i pc s = s\<lparr>lr_streams := (lr_streams s)[i := pc],
     lr_raced := lr_raced s \<or> sharing (stream_kinds ! i) \<and> draws pc
       \<and> list_ex (\<lambda>j. j \<noteq> i \<and> may_draw j s) [0..<length (lr_streams s)]\<rparr>"

text \<open>An order in which Go iterates over the pool's map.\<close>

definition map_order :: "code32 list \<Rightarrow> account_pool \<Rightarrow> bool" where
  "map_order keys p \<longleftrightarrow> distinct keys \<and> (\<forall>c. c \<in> set keys \<longleftrightarrow> ap_accounts p c \<noteq> [])"

text \<open>The transfer of a job went through.\<close>

definition job_succeeds :: "ext \<Rightarrow> 'w rpc \<Rightarrow> uuid option \<Rightarrow> transfer_job \<Rightarrow> 'w core \<Rightarrow> bool" where
  "job_succeeds E rpc newV7 job c \<longleftrightarrow> j_Kind job \<noteq> StreamStats \<and>
     (case CreateTx E rpc newV7 (j_Currency job) (j_From job) (j_To job) (j_Amount job) (co_tx c, co_world c) of
        Some (Inr i, t, w) \<Rightarrow> True | _ \<Rightarrow> False)"

definition set_stream :: "nat \<Rightarrow> stream_pc \<Rightarrow> 'w core \<Rightarrow> ('f, 'w) load_run \<Rightarrow> ('f, 'w) load_run" where
  "set_stream i pc c s = s\<lparr>lr_streams := (lr_streams s)[i := pc], lr_core := c\<rparr>"

definition set_worker :: "nat \<Rightarrow> worker_pc \<Rightarrow> 'w core \<Rightarrow> ('f, 'w) load_run \<Rightarrow> ('f, 'w) load_run" where
  "set_worker i pc c s = s\<lparr>lr_workers := (lr_workers s)[i := pc], lr_core := c\<rparr>"

text \<open>The steps of all goroutines, one at a time. A \<^verbatim>\<open>select\<close> takes any branch that is ready; time is what the
  clock happens to show.\<close>

inductive load_step :: "'f float_ops \<Rightarrow> (stream_kind \<Rightarrow> 'f) \<Rightarrow> ext \<Rightarrow> 'w rpc \<Rightarrow> ('f, 'w) load_run \<Rightarrow> ('f, 'w) load_run \<Rightarrow> bool" for F rps E rpc where
  cancelled: "load_step F rps E rpc s (s\<lparr>lr_cancelled := True\<rparr>)"
| stops_waiting: "i < length (lr_streams s) \<Longrightarrow> lr_streams s ! i = Looping n \<Longrightarrow> n - now > 0 \<Longrightarrow> lr_cancelled s \<Longrightarrow>
     load_step F rps E rpc s (set_stream i Stream_Over (lr_core s) s)"
| enters: "i < length (lr_streams s) \<Longrightarrow> lr_streams s ! i = Looping n \<Longrightarrow> map_order keys (co_pool (lr_core s)) \<Longrightarrow>
     load_step F rps E rpc s (enter_build i (Building n (first_stage (stream_kinds ! i) keys (co_pool (lr_core s)))) s)"
| builds_on: "i < length (lr_streams s) \<Longrightarrow> lr_streams s ! i = Building n st \<Longrightarrow> map_order keys (co_pool (lr_core s)) \<Longrightarrow>
     build_call (stream_kinds ! i) keys st (lr_core s) g = Some ((Inl st', c), g') \<Longrightarrow>
     load_step F rps E rpc s (set_stream i (Building n st') c s)"
| builds_none: "i < length (lr_streams s) \<Longrightarrow> lr_streams s ! i = Building n st \<Longrightarrow> map_order keys (co_pool (lr_core s)) \<Longrightarrow>
     build_call (stream_kinds ! i) keys st (lr_core s) g = Some ((Inr None, c), g') \<Longrightarrow> pc = Looping n \<or> lr_cancelled s \<and> pc = Stream_Over \<Longrightarrow>
     load_step F rps E rpc s (set_stream i pc c s)"
| builds: "i < length (lr_streams s) \<Longrightarrow> lr_streams s ! i = Building n st \<Longrightarrow> map_order keys (co_pool (lr_core s)) \<Longrightarrow>
     build_call (stream_kinds ! i) keys st (lr_core s) g = Some ((Inr (Some job), c), g') \<Longrightarrow>
     load_step F rps E rpc s (set_stream i (Holding n (job\<lparr>j_Kind := stream_kinds ! i\<rparr>)) c s)"
| sends: "i < length (lr_streams s) \<Longrightarrow> lr_streams s ! i = Holding n job \<Longrightarrow> \<not> lr_closed s \<Longrightarrow>
     int (length (co_jobs (lr_core s))) < lr_cap s \<Longrightarrow>
     load_step F rps E rpc s (set_stream i (Counting n) ((lr_core s)\<lparr>co_jobs := co_jobs (lr_core s) @ [job]\<rparr>) s)"
| drops: "i < length (lr_streams s) \<Longrightarrow> lr_streams s ! i = Holding n job \<Longrightarrow> lr_cancelled s \<Longrightarrow>
     dropReserved E job (co_pool (lr_core s)) = Some p \<Longrightarrow>
     load_step F rps E rpc s (set_stream i Stream_Over ((lr_core s)\<lparr>co_pool := p\<rparr>) s)"
| counts: "i < length (lr_streams s) \<Longrightarrow> lr_streams s ! i = Counting n \<Longrightarrow> k = stream_kinds ! i \<Longrightarrow>
     load_step F rps E rpc s (set_stream i (Looping (next_at n (poissonDelay F u (rps k)) now1 now2))
       ((lr_core s)\<lparr>co_metrics := m_RecordDispatched k (co_metrics (lr_core s)), co_stats := RecordDispatched k (co_stats (lr_core s))\<rparr>) s)"
| receives: "i < length (lr_workers s) \<Longrightarrow> lr_workers s ! i = Receiving \<Longrightarrow> co_jobs (lr_core s) = job # jobs \<Longrightarrow>
     load_step F rps E rpc s (set_worker i (Handling job) ((lr_core s)\<lparr>co_jobs := jobs\<rparr>) s)"
| handles: "i < length (lr_workers s) \<Longrightarrow> lr_workers s ! i = Handling job \<Longrightarrow> handleJob E rpc newV7 job (lr_core s) = Some c \<Longrightarrow>
     load_step F rps E rpc s ((set_worker i Receiving c s)
       \<lparr>lr_settled := lr_settled s @ (if job_succeeds E rpc newV7 job (lr_core s) then [job] else [])\<rparr>)"
| worker_ends: "i < length (lr_workers s) \<Longrightarrow> lr_workers s ! i = Receiving \<Longrightarrow> co_jobs (lr_core s) = [] \<Longrightarrow> lr_closed s \<Longrightarrow>
     load_step F rps E rpc s (set_worker i Worker_Over (lr_core s) s)"
| samples: "load_step F rps E rpc s (s\<lparr>lr_gauges := SetQueueDepth (int (length (co_jobs (lr_core s)))) (lr_gauges s)\<rparr>)"
| context_done: "lr_main s = Loading \<Longrightarrow> lr_cancelled s \<Longrightarrow> load_step F rps E rpc s (s\<lparr>lr_main := Awaiting_Streams\<rparr>)"
| closes: "lr_main s = Awaiting_Streams \<Longrightarrow> list_all (\<lambda>pc. pc = Stream_Over) (lr_streams s) \<Longrightarrow>
     load_step F rps E rpc s (s\<lparr>lr_main := Awaiting_Workers, lr_closed := True\<rparr>)"
| returns: "lr_main s = Awaiting_Workers \<Longrightarrow> list_all (\<lambda>pc. pc = Worker_Over) (lr_workers s) \<Longrightarrow>
     load_step F rps E rpc s (s\<lparr>lr_main := Load_Over\<rparr>)"

text \<open>The states in which some goroutine may panic: a builder, a draw after a race, a send on the closed channel, a
  rollback, a job, a second close.\<close>

inductive load_panic :: "ext \<Rightarrow> 'w rpc \<Rightarrow> ('f, 'w) load_run \<Rightarrow> bool" for E rpc where
  build_panics: "i < length (lr_streams s) \<Longrightarrow> lr_streams s ! i = Building n st \<Longrightarrow> map_order keys (co_pool (lr_core s)) \<Longrightarrow>
     build_call (stream_kinds ! i) keys st (lr_core s) g = None \<Longrightarrow> load_panic E rpc s"
| race_panics: "lr_raced s \<Longrightarrow> may_draw i s \<Longrightarrow> load_panic E rpc s"
| send_panics: "i < length (lr_streams s) \<Longrightarrow> lr_streams s ! i = Holding n job \<Longrightarrow> lr_closed s \<Longrightarrow> load_panic E rpc s"
| drop_panics: "i < length (lr_streams s) \<Longrightarrow> lr_streams s ! i = Holding n job \<Longrightarrow> lr_cancelled s \<Longrightarrow>
     dropReserved E job (co_pool (lr_core s)) = None \<Longrightarrow> load_panic E rpc s"
| job_panics: "i < length (lr_workers s) \<Longrightarrow> lr_workers s ! i = Handling job \<Longrightarrow>
     handleJob E rpc newV7 job (lr_core s) = None \<Longrightarrow> load_panic E rpc s"
| close_panics: "lr_main s = Awaiting_Streams \<Longrightarrow> list_all (\<lambda>pc. pc = Stream_Over) (lr_streams s) \<Longrightarrow> lr_closed s \<Longrightarrow> load_panic E rpc s"

section \<open>The start of the load\<close>

text \<open>\<^verbatim>\<open>runLoad\<close> up to the wait: a stream without a rate returns at once.\<close>

definition load_need :: "'f float_ops \<Rightarrow> (stream_kind \<Rightarrow> 'f) \<Rightarrow> int" where
  "load_need F rps = wrap64 (wrap64 (wrap64 (f_trunc F (f_times F (rps StreamValid) (f_dec F 2 (- 1)))
     + f_trunc F (rps StreamInvalidBalance)) + f_trunc F (rps StreamInvalidCurrency)) + f_trunc F (rps StreamStats))"

definition runLoad :: "'f float_ops \<Rightarrow> 'f lg_config \<Rightarrow> int \<Rightarrow> account_pool \<Rightarrow> 'f gauges \<Rightarrow> 'w core \<Rightarrow> ('f, 'w) load_run" where
  "runLoad F cfg now pool m c =
     (let workers = load_workers (lc_TxWorkers cfg) (load_need F (lc_RPS cfg))
      in \<lparr>lr_core = c\<lparr>co_pool := pool, co_jobs := []\<rparr>, lr_gauges = m, lr_cap = load_queueSize workers, lr_closed = False, lr_cancelled = False,
          lr_streams = map (\<lambda>k. if f_le F (lc_RPS cfg k) (f_zero F) then Stream_Over else Looping now) stream_kinds,
          lr_workers = replicate (nat workers) Receiving, lr_main = Loading, lr_raced = False, lr_settled = []\<rparr>)"

text \<open>\<^verbatim>\<open>main\<close> of \<^verbatim>\<open>cmd/loadgen\<close> opens at least one connection.\<close>

definition conn_count :: "int \<Rightarrow> int" where
  "conn_count n = (if n < 1 then 1 else n)"

definition NewTxManager :: "nat \<Rightarrow> tx_manager" where
  "NewTxManager conns = \<lparr>tm_conns = conns, tm_rr = 0\<rparr>"

definition NewCoreService :: "tx_manager \<Rightarrow> 'w \<Rightarrow> 'w core" where
  "NewCoreService tx w = \<lparr>co_tx = tx, co_world = w, co_pool = NewAccountPool,
     co_stats = \<lparr>ls_dispatched = (\<lambda>_. 0), ls_completedOK = 0, ls_completedError = 0, ls_lastDispatched = (\<lambda>_. 0), ls_lastTick = 0\<rparr>,
     co_metrics = \<lparr>lm_dispatched = (\<lambda>_. 0), lm_completed = (\<lambda>_. 0)\<rparr>, co_recentTxIDs = [], co_jobs = []\<rparr>"

datatype ('f, 'w) load_phase = Disabled | Bootstrap_Failed string | Too_Few_Accounts | Load_Phase "('f, 'w) load_run"

text \<open>\<^verbatim>\<open>LoadGenWorker\<close>, with the gauges it leaves; \<open>None\<close> while the bootstrap waits for the upstream. A
  \<^verbatim>\<open>LoadDuration\<close> bounds the context of the load, whose end is the step \<open>cancelled\<close>.\<close>

definition LoadGenWorker ::
  "'f float_ops \<Rightarrow> ext \<Rightarrow> 'f lg_config \<Rightarrow> code32 list \<Rightarrow> probe list \<Rightarrow> (code32 \<Rightarrow> account_reply list) \<Rightarrow> int \<Rightarrow> 'f gauges \<Rightarrow> 'w core \<Rightarrow>
   (('f, 'w) load_phase \<times> 'f gauges) option" where
  "LoadGenWorker F E cfg values probes replies now m c =
     (if \<not> lc_Working cfg then Some (Disabled, m)
      else let m' = fold (\<lambda>k. SetTarget k (lc_RPS cfg k)) stream_kinds m
           in case bootstrapAccounts E (lc_BootstrapWorkers cfg) (lc_UsersAmount cfg) (lc_BootstrapMaxError cfg) values probes replies of
                None \<Rightarrow> None
              | Some (Inl e) \<Rightarrow> Some (Bootstrap_Failed e, m')
              | Some (Inr pool) \<Rightarrow>
                  Some (if Total (GetValidCurrencies values) pool < 2 then Too_Few_Accounts
                        else Load_Phase (runLoad F cfg now pool m' c), m'))"

end
