(* ===== verification/Loadgen_Run_Laws.thy ===== *)
theory Loadgen_Run_Laws
  imports Loadgen_Run Ledger_System "HOL-Library.Multiset" "HOL-Library.Sublist"
begin

text \<open>
  The invariant of the load phase, and what follows from it in every state its goroutines reach: none of
  them panics, except by the race on the shared random source; the balances of the pool are what the jobs that went through or are still outstanding
  make of the balances at the start; and once its context ends, \<^verbatim>\<open>runLoad\<close> can return.
\<close>

section \<open>Outstanding jobs\<close>

text \<open>What a job has done to the balances of the pool.\<close>

definition job_moves :: "transfer_job \<Rightarrow> (uuid \<times> int) list" where
  "job_moves job = (if j_Reserved job
     then [(uuid_of_bytes (j_From job), - j_Amount job), (uuid_of_bytes (j_To job), j_Amount job)] else [])"

definition job_ok :: "transfer_job \<Rightarrow> bool" where
  "job_ok job \<longleftrightarrow> (j_Reserved job \<longrightarrow> (\<exists>a b. reserved_job a b job))"

text \<open>\<open>m'\<close> is what the jobs make of the balances \<open>m\<close>, in whatever order.\<close>

definition moved :: "transfer_job multiset \<Rightarrow> (uuid \<rightharpoonup> int) \<Rightarrow> (uuid \<rightharpoonup> int) \<Rightarrow> bool" where
  "moved M m m' \<longleftrightarrow> (\<exists>js. mset js = M \<and> m' = shifts (concat (map job_moves js)) m)"

lemma shifts_append: "shifts (xs @ ys) m = shifts ys (shifts xs m)"
  by (simp add: shifts_def)

lemma shifts_commute: "shifts xs (shifts ys m) = shifts ys (shifts xs m)"
proof (induction xs arbitrary: m)
  case (Cons x xs)
  obtain a d where x: "x = (a, d)" by (cases x)
  have "shifts (x # xs) (shifts ys m) = shifts xs (shift a d (shifts ys m))" by (simp add: shifts_def x)
  also have "\<dots> = shifts ys (shifts xs (shift a d m))" by (simp add: shift_shifts Cons.IH)
  finally show ?case by (simp add: shifts_def x)
qed (simp add: shifts_def)

lemma moved_empty [simp]: "moved {#} m m' \<longleftrightarrow> m' = m"
  by (simp add: moved_def shifts_def)

text \<open>The jobs of a list may be taken in any order.\<close>

lemma shifts_concat_perm: "mset js = mset ks \<Longrightarrow> shifts (concat (map job_moves js)) m = shifts (concat (map job_moves ks)) m"
proof -
  have f: "shifts (concat (map job_moves xs)) n = fold (\<lambda>j. shifts (job_moves j)) xs n" for xs n
    by (induction xs arbitrary: n) (simp_all add: shifts_append, simp add: shifts_def)
  assume "mset js = mset ks"
  then show ?thesis
    unfolding f by (intro fun_cong [OF fold_multiset_equiv]) (auto simp: fun_eq_iff shifts_commute)
qed

lemma moved_add_mset: "moved (add_mset job M) m m' \<longleftrightarrow> (\<exists>m1. moved M m m1 \<and> m' = shifts (job_moves job) m1)"
proof
  assume "moved (add_mset job M) m m'"
  then obtain js where js: "mset js = add_mset job M" "m' = shifts (concat (map job_moves js)) m" by (auto simp: moved_def)
  obtain ks where ks: "mset ks = M" by (metis ex_mset)
  have "m' = shifts (concat (map job_moves (ks @ [job]))) m"
    using js ks by (subst js(2), intro shifts_concat_perm) simp
  with ks show "\<exists>m1. moved M m m1 \<and> m' = shifts (job_moves job) m1"
    by (auto simp: moved_def shifts_append)
next
  assume "\<exists>m1. moved M m m1 \<and> m' = shifts (job_moves job) m1"
  then obtain ks where "mset ks = M" "m' = shifts (job_moves job) (shifts (concat (map job_moves ks)) m)" by (auto simp: moved_def)
  then show "moved (add_mset job M) m m'"
    unfolding moved_def by (intro exI [of _ "ks @ [job]"]) (simp add: shifts_append)
qed

lemma shifts_bigint: "\<forall>a b. m a = Some b \<longrightarrow> bigint b \<Longrightarrow> shifts ds m i = Some b \<Longrightarrow> bigint b"
proof (induction ds arbitrary: m)
  case (Cons d ds)
  obtain a x where d: "d = (a, x)" by (cases d)
  have "\<forall>j y. shift a x m j = Some y \<longrightarrow> bigint y"
    using Cons.prems(1) by (auto simp: shift_def split: option.splits if_splits)
  with Cons.IH [of "shift a x m"] Cons.prems(2) show ?case by (simp add: shifts_def d)
qed (simp add: shifts_def)

text \<open>Taking back a reservation.\<close>

lemma moved_cancel:
  assumes "moved (add_mset job M) m m'" and job: "reserved_job a b job" and "\<forall>i x. m i = Some x \<longrightarrow> bigint x"
  shows "moved M m (shift b (- j_Amount job) (shift a (j_Amount job) m'))"
proof -
  obtain m1 where m1: "moved M m m1" "m' = shifts (job_moves job) m1" using assms(1) by (auto simp: moved_add_mset)
  have big: "bigint x" if "m1 i = Some x" for i x
    using m1(1) that shifts_bigint [OF assms(3)] by (auto simp: moved_def)
  have "m' = shift b (j_Amount job) (shift a (- j_Amount job) m1)"
    using m1(2) job by (simp add: job_moves_def reserved_job_def shifts_def)
  then have "shift b (- j_Amount job) (shift a (j_Amount job) m')
      = shift b (- j_Amount job) (shift b (j_Amount job) (shift a (j_Amount job) (shift a (- j_Amount job) m1)))"
    by (metis shift_commute)
  also have "\<dots> = m1"
    using shift_cancel [of m1 a "j_Amount job"] shift_cancel [of m1 b "- j_Amount job"] big by simp
  finally show ?thesis using m1(1) by simp
qed

fun held_jobs :: "stream_pc \<Rightarrow> transfer_job list" where
  "held_jobs (Holding n job) = [job]"
| "held_jobs pc = []"

fun worked_jobs :: "worker_pc \<Rightarrow> transfer_job list" where
  "worked_jobs (Handling job) = [job]"
| "worked_jobs pc = []"

text \<open>Jobs that are built and neither dropped nor failed.\<close>

definition outstanding :: "('f, 'w) load_run \<Rightarrow> transfer_job multiset" where
  "outstanding s = mset (lr_settled s) + mset (concat (map held_jobs (lr_streams s))) + mset (co_jobs (lr_core s))
     + mset (concat (map worked_jobs (lr_workers s)))"

lemma mset_concat_update:
  "i < length xs \<Longrightarrow> mset (concat (map f (xs[i := y]))) + mset (f (xs ! i)) = mset (concat (map f xs)) + mset (f y)"
proof (induction xs arbitrary: i)
  case (Cons x xs)
  show ?case
  proof (cases i)
    case (Suc j)
    then have "mset (concat (map f (xs[j := y]))) + mset (f (xs ! j)) = mset (concat (map f xs)) + mset (f y)"
      using Cons by simp
    then show ?thesis by (simp add: Suc union_assoc)
  qed (simp add: ac_simps)
qed simp

section \<open>What the goroutines do to the core\<close>

lemma yields_unreserved_Balance: "pool_ok p \<Longrightarrow> yields (\<lambda>j. \<forall>job. j = Some job \<longrightarrow> \<not> j_Reserved job) (BuildInvalidBalance keys p)"
  unfolding BuildInvalidBalance_def
  by (intro yields_bind [OF yields_pickSame]) (auto simp: mk_job_def)

lemma yields_unreserved_Currency: "pool_ok p \<Longrightarrow> yields (\<lambda>j. \<forall>job. j = Some job \<longrightarrow> \<not> j_Reserved job) (BuildInvalidCurrency keys p)"
  unfolding BuildInvalidCurrency_def
  by (intro yields_bind [OF yields_pickDifferent]) (auto simp: mk_job_def)

lemma yields_buildStats: "yields (\<lambda>j. \<forall>job. j = Some job \<longrightarrow> \<not> j_Reserved job) (buildStats c)"
  unfolding buildStats_def Let_def by (auto intro!: yields_bind [OF yields_Intn])

lemma load_build_ok:
  assumes ok: "pool_ok (co_pool c)"
  obtains j p g' where "load_build k keys c g = Some ((j, c\<lparr>co_pool := p\<rparr>), g')" and "pool_ok p"
    and "case j of None \<Rightarrow> p = co_pool c
         | Some job \<Rightarrow> job_ok (job\<lparr>j_Kind := k\<rparr>) \<and> balances p = shifts (job_moves job) (balances (co_pool c))"
proof (cases k)
  case StreamValid
  obtain j p' g' where run: "BuildValid keys (co_pool c) g = Some ((j, p'), g')" and j:
    "case j of None \<Rightarrow> p' = co_pool c | Some job \<Rightarrow> \<exists>f t a. job = mk_job StreamValid f t a True \<and> ea_Currency f \<in> set keys
       \<and> good_pair (co_pool c) (ea_Currency f) (f, t) \<and> 0 < a \<and> a \<le> ea_Balance f
       \<and> ReserveValid (ea_ID f) (ea_ID t) a (co_pool c) = Some (True, p') \<and> pool_ok p'
       \<and> balances p' = shift (ea_ID t) a (shift (ea_ID f) (- a) (balances (co_pool c)))"
    using BuildValid_run [OF ok] by blast
  have "load_build k keys c g = Some ((j, c\<lparr>co_pool := p'\<rparr>), g')"
    using run StreamValid by (simp add: load_build_def valid_stream_def bind_p_def return_p_def)
  moreover have "pool_ok p'" using j ok by (auto split: option.splits)
  moreover have "case j of None \<Rightarrow> p' = co_pool c
      | Some job \<Rightarrow> job_ok (job\<lparr>j_Kind := k\<rparr>) \<and> balances p' = shifts (job_moves job) (balances (co_pool c))"
    using j StreamValid by (auto simp: job_ok_def reserved_job_def mk_job_def job_moves_def shifts_def split: option.splits)
  ultimately show thesis by (rule that)
next
  case StreamInvalidBalance
  with yields_run [OF yields_unreserved_Balance [OF ok], of keys g] show thesis
    by (auto simp: load_build_def bind_p_def return_p_def job_ok_def job_moves_def shifts_def ok split: option.splits intro!: that [of _ "co_pool c"])
next
  case StreamInvalidCurrency
  with yields_run [OF yields_unreserved_Currency [OF ok], of keys g] show thesis
    by (auto simp: load_build_def bind_p_def return_p_def job_ok_def job_moves_def shifts_def ok split: option.splits intro!: that [of _ "co_pool c"])
next
  case StreamStats
  with yields_run [OF yields_buildStats [of c], of g] show thesis
    by (auto simp: load_build_def bind_p_def return_p_def job_ok_def job_moves_def shifts_def ok split: option.splits intro!: that [of _ "co_pool c"])
qed

text \<open>What a builder carries from step to step.\<close>

fun stage_ok :: "stream_kind \<Rightarrow> build_stage \<Rightarrow> bool" where
  "stage_ok k (Funding m candidates) \<longleftrightarrow> k = StreamValid \<and> (0 < m \<longrightarrow> candidates \<noteq> [])"
| "stage_ok k (Reserving from to amount) \<longleftrightarrow> k = StreamValid"
| "stage_ok k Drawing \<longleftrightarrow> True"
| "stage_ok k Giving_Up \<longleftrightarrow> True"

text \<open>The steps a builder has at most to go.\<close>

fun stage_left :: "build_stage \<Rightarrow> nat" where
  "stage_left (Funding m candidates) = m + 2"
| "stage_left (Reserving from to amount) = 1"
| "stage_left Drawing = 1"
| "stage_left Giving_Up = 1"

lemma first_stage_ok: "stage_ok k (first_stage k keys p)"
  by (cases k) (auto simp: first_stage_def Let_def)

lemma yields_attempt:
  assumes ok: "pool_ok (co_pool c)" and ne: "candidates \<noteq> []"
  shows "yields (\<lambda>(x, c'). c' = c \<and> (\<exists>st. x = Inl st \<and> stage_ok StreamValid st \<and> stage_left st < m + 3))
    (build_call StreamValid keys (Funding (Suc m) candidates) c)"
  unfolding build_call.simps
proof (rule yields_index [OF ne])
  fix cur
  show "yields (\<lambda>(x, c'). c' = c \<and> (\<exists>st. x = Inl st \<and> stage_ok StreamValid st \<and> stage_left st < m + 3))
    (bind_p (RandomPair cur (co_pool c)) (\<lambda>pair. case pair of None \<Rightarrow> return_p (Inl (Funding m candidates), c)
       | Some (from, to) \<Rightarrow> if ea_Balance from > 0 \<and> ea_ID from \<noteq> ea_ID to
           then bind_p (pick_amount (ea_Balance from)) (\<lambda>amount. return_p (Inl (Reserving from to amount), c))
           else return_p (Inl (Funding m candidates), c)))"
    by (rule yields_bind [OF yields_RandomPair [OF ok]])
      (auto split: option.splits simp: ne intro!: yields_bind [OF yields_amount])
qed

lemma build_call_ok:
  assumes ok: "pool_ok (co_pool c)" and st: "stage_ok k st"
  obtains x p g' where "build_call k keys st c g = Some ((x, c\<lparr>co_pool := p\<rparr>), g')" and "pool_ok p"
    and "case x of Inl st' \<Rightarrow> p = co_pool c \<and> stage_ok k st' \<and> stage_left st' < stage_left st
      | Inr None \<Rightarrow> p = co_pool c
      | Inr (Some job) \<Rightarrow> job_ok (job\<lparr>j_Kind := k\<rparr>) \<and> balances p = shifts (job_moves job) (balances (co_pool c))"
proof (cases st)
  case (Funding m candidates)
  show thesis
  proof (cases m)
    case 0
    with Funding ok show thesis by (intro that [of "Inr None" "co_pool c" g]) (simp_all add: return_p_def)
  next
    case (Suc n)
    with Funding st have k: "k = StreamValid" and ne: "candidates \<noteq> []" by simp_all
    obtain x c' g' where "build_call k keys st c g = Some ((x, c'), g')"
      "c' = c \<and> (\<exists>st. x = Inl st \<and> stage_ok StreamValid st \<and> stage_left st < n + 3)"
      using yields_run [OF yields_attempt [OF ok ne, of n keys], of g] by (auto simp: Funding Suc k)
    with ok show thesis by (intro that [of x "co_pool c" g']) (auto simp: Funding Suc k)
  qed
next
  case (Reserving f t a)
  then have k: "k = StreamValid" using st by simp
  show thesis
  proof (cases rule: pool.reserve_cases [OF ok, of "ea_ID f" "ea_ID t" a, case_names taken refused])
    case (taken p b)
    then have "job_moves (mk_job StreamValid f t a True) = [(ea_ID f, - a), (ea_ID t, a)]"
      by (simp add: job_moves_def mk_job_def)
    with taken show thesis
      by (intro that [of "Inr (Some (mk_job StreamValid f t a True))" p g])
        (auto simp: Reserving k job_ok_def reserved_job_def mk_job_def shifts_def)
  next
    case refused
    with ok show thesis by (intro that [of "Inr None" "co_pool c" g]) (simp_all add: Reserving)
  qed
next
  case Drawing
  obtain j p g' where "load_build k keys c g = Some ((j, c\<lparr>co_pool := p\<rparr>), g')" "pool_ok p"
    "case j of None \<Rightarrow> p = co_pool c
         | Some job \<Rightarrow> job_ok (job\<lparr>j_Kind := k\<rparr>) \<and> balances p = shifts (job_moves job) (balances (co_pool c))"
    by (rule load_build_ok [OF ok])
  then show thesis by (intro that [of "Inr j" p g']) (auto simp: Drawing bind_p_def return_p_def split: option.splits)
next
  case Giving_Up
  with ok show thesis by (intro that [of "Inr None" "co_pool c" g]) (simp_all add: return_p_def)
qed

text \<open>The steps of a builder that nothing interrupts are the builder.\<close>

lemma bind_p_return: "bind_p (return_p a) f = f a" and bind_p_assoc: "bind_p (bind_p m f) h = bind_p m (\<lambda>a. bind_p (f a) h)"
  and bind_p_if: "bind_p (if b then m else m') f = (if b then bind_p m f else bind_p m' f)"
  by (auto simp: fun_eq_iff bind_p_def return_p_def split: option.splits)

definition after_pair :: "'w core \<Rightarrow> (existing_account \<times> existing_account) option \<Rightarrow> (transfer_job option \<times> 'w core) rand" where
  "after_pair c pair = (case pair of None \<Rightarrow> return_p (None, c)
     | Some (from, to) \<Rightarrow> bind_p (pick_amount (ea_Balance from)) (\<lambda>amount.
         bind_p (build_call StreamValid [] (Reserving from to amount) c) (\<lambda>(x, c'). case x of Inl st' \<Rightarrow> (\<lambda>g. None) | Inr j \<Rightarrow> return_p (j, c'))))"

lemma after_pair_simps:
  "after_pair c None = return_p (None, c)"
  "after_pair c (Some (f, t)) = bind_p (pick_amount (ea_Balance f)) (\<lambda>amount.
     bind_p (build_call StreamValid [] (Reserving f t amount) c) (\<lambda>(x, c'). case x of Inl st' \<Rightarrow> (\<lambda>g. None) | Inr j \<Rightarrow> return_p (j, c')))"
  by (simp_all add: after_pair_def)

lemma build_calls_funding:
  assumes "Suc m \<le> n"
  shows "build_calls n StreamValid keys (Funding m candidates) c = bind_p (funded_attempts m candidates (co_pool c)) (after_pair c)"
  using assms
proof (induction m arbitrary: n)
  case 0
  then show ?case by (cases n) (simp_all add: bind_p_return after_pair_simps)
next
  case (Suc m)
  then obtain k where n: "n = Suc k" "Suc m \<le> k" by (cases n) auto
  then obtain k' where k: "k = Suc k'" by (cases k) auto
  have res: "build_calls k StreamValid keys (Reserving f t a) c =
      bind_p (build_call StreamValid [] (Reserving f t a) c) (\<lambda>(x, c'). case x of Inl st' \<Rightarrow> (\<lambda>g. None) | Inr j \<Rightarrow> return_p (j, c'))" for f t a
    unfolding k build_calls.simps by (auto simp: fun_eq_iff bind_p_def split: option.splits bool.splits sum.splits)
  show ?case
    unfolding n(1)
    unfolding build_calls.simps build_call.simps funded_attempts.simps bind_p_assoc
  proof (intro arg_cong [of _ _ "bind_p _"] ext, goal_cases)
    case (1 i pair)
    show ?case
      by (cases pair)
        (auto simp: bind_p_assoc bind_p_return Suc.IH [OF n(2)] res after_pair_simps simp del: build_call.simps)
  qed
qed

lemma build_calls_once:
  "build_call k keys st c = bind_p m (\<lambda>(j, c'). return_p (Inr j, c')) \<Longrightarrow> stage_left st = 1 \<Longrightarrow> build_calls (stage_left st) k keys st c = m"
  by (auto simp: bind_p_def return_p_def fun_eq_iff split: option.splits prod.splits)

lemma build_calls_alone:
  "build_calls (stage_left (first_stage k keys (co_pool c))) k keys (first_stage k keys (co_pool c)) c = load_build k keys c"
proof (cases "first_stage k keys (co_pool c)")
  case (Funding m cs)
  then have k: "k = StreamValid" and cs: "cs \<noteq> []" "cs = CurrenciesWithMinAccounts keys 2 (co_pool c)" "m = length cs * 4"
    by (auto simp: first_stage_def Let_def split: stream_kind.splits if_splits)
  have "load_build k keys c = bind_p (pickFundedPair keys (co_pool c)) (after_pair c)"
    by (auto simp: k load_build_def valid_stream_def BuildValid_def after_pair_def bind_p_def return_p_def fun_eq_iff
        split: option.splits prod.splits bool.splits)
  also have "pickFundedPair keys (co_pool c) = funded_attempts m cs (co_pool c)"
    using cs by (simp add: pickFundedPair_def Let_def)
  finally show ?thesis unfolding Funding by (simp add: k build_calls_funding del: build_calls.simps)
next
  case (Reserving f t a)
  then show ?thesis by (auto simp: first_stage_def Let_def split: stream_kind.splits if_splits)
next
  case Drawing
  then show ?thesis by (intro build_calls_once) simp_all
next
  case Giving_Up
  then have "load_build k keys c = return_p (None, c)"
    by (auto simp: first_stage_def Let_def load_build_def valid_stream_def BuildValid_def BuildInvalidBalance_def BuildInvalidCurrency_def
        pickFundedPair_def pickSameCurrencyPair_def pickDifferentCurrencyPair_def bind_p_return split: stream_kind.splits if_splits)
  with Giving_Up show ?thesis by (intro build_calls_once) (simp_all add: bind_p_return)
qed

lemma lg_GetTransaction_total:
  assumes "0 < tm_conns t"
  shows "\<exists>x t' w'. lg_GetTransaction rpc i (t, w) = Some (x, t', w') \<and> tm_conns t' = tm_conns t"
proof -
  obtain j t' where "conn t = Some (j, t')" "tm_conns t' = tm_conns t" using conn_total [OF assms] by blast
  then show ?thesis by (auto simp: lg_GetTransaction_def split: prod.splits sum.splits)
qed

text \<open>The parts of the core that every goroutine relies on.\<close>

definition core_ok :: "'w core \<Rightarrow> bool" where
  "core_ok c \<longleftrightarrow> pool_ok (co_pool c) \<and> 0 < tm_conns (co_tx c) \<and> length (co_recentTxIDs c) \<le> 10000"

lemma rollback_job_ok:
  assumes "uuid_laws E" and "pool_ok p" and "job_ok job" and "j_Reserved job"
  obtains a b q where "reserved_job a b job" and "rollback_job E job p = Some q" and "pool_ok q"
    and "balances q = shift b (- j_Amount job) (shift a (j_Amount job) (balances p))"
proof -
  obtain a b where ab: "reserved_job a b job" using assms(3,4) by (auto simp: job_ok_def)
  from pool.rollback_law [OF assms(2), of a b "j_Amount job"] show thesis
    using that ab rollback_reserved [OF assms(1) ab] by auto
qed

lemma handleJob_ok:
  assumes laws: "uuid_laws E" and ok: "core_ok c" and job: "job_ok job"
  obtains c' x where "handleJob E rpc newV7 job c = Some c'" and "core_ok c'" and "co_jobs c' = co_jobs c"
    and "co_stats c' = RecordCompleted (x :: unit lg_result) (co_stats c)"
    and "if j_Reserved job \<and> \<not> job_succeeds E rpc newV7 job c
         then \<exists>a b. reserved_job a b job \<and> balances (co_pool c') = shift b (- j_Amount job) (shift a (j_Amount job) (balances (co_pool c)))
         else co_pool c' = co_pool c"
proof (cases "j_Kind job = StreamStats")
  case True
  then have nr: "\<not> j_Reserved job" using job by (auto simp: job_ok_def reserved_job_def)
  obtain x t w where x: "lg_GetTransaction rpc (j_TxID job) (co_tx c, co_world c) = Some (x, t, w)" "tm_conns t = tm_conns (co_tx c)"
    using lg_GetTransaction_total ok by (metis core_ok_def)
  with True ok nr show thesis
    by (intro that [of "complete (j_Kind job) x t w c" x]) (auto simp: handleJob_def core_ok_def)
next
  case False
  obtain x t w where x: "CreateTx E rpc newV7 (j_Currency job) (j_From job) (j_To job) (j_Amount job) (co_tx c, co_world c) = Some (x, t, w)"
    "tm_conns t = tm_conns (co_tx c)"
    using CreateTx_total ok by (metis core_ok_def)
  have succ: "job_succeeds E rpc newV7 job c \<longleftrightarrow> (\<exists>i. x = Inr i)"
    using False x by (auto simp: job_succeeds_def split: sum.splits)
  have st: "RecordCompleted x s = RecordCompleted (map_sum id (\<lambda>_. ()) x) s" for s
    by (cases x) (simp_all add: RecordCompleted_def)
  let ?c = "complete (j_Kind job) x t w c"
  show thesis
  proof (cases "j_Reserved job")
    case r: True
    show thesis
    proof (cases x)
      case (Inl e)
      obtain a b q where q: "reserved_job a b job" "rollback_job E job (co_pool c) = Some q" "pool_ok q"
        "balances q = shift b (- j_Amount job) (shift a (j_Amount job) (balances (co_pool c)))"
        using rollback_job_ok [OF laws _ job r, of "co_pool c"] ok by (auto simp: core_ok_def)
      with False x r Inl ok succ show thesis
        by (intro that [of "?c\<lparr>co_pool := q\<rparr>" "map_sum id (\<lambda>_. ()) x"]) (auto simp: handleJob_def core_ok_def RecordCompleted_def)
    next
      case (Inr i)
      with False x r ok succ st show thesis
        by (intro that [of "if j_Kind job = StreamValid \<and> i \<noteq> uuid_Nil then ?c\<lparr>co_recentTxIDs := remember i (co_recentTxIDs ?c)\<rparr> else ?c" "map_sum id (\<lambda>_. ()) x"])
          (auto simp: handleJob_def core_ok_def length_remember)
    qed
  next
    case nr: False
    with False x ok st show thesis
      by (intro that [of ?c "map_sum id (\<lambda>_. ()) x"]) (auto simp: handleJob_def core_ok_def)
  qed
qed

section \<open>The invariant of a load\<close>

definition jobs_ok :: "(uuid \<rightharpoonup> int) \<Rightarrow> ('f, 'w) load_run \<Rightarrow> bool" where
  "jobs_ok m s \<longleftrightarrow> (\<forall>job\<in>#outstanding s. job_ok job) \<and> moved (outstanding s) m (balances (co_pool (lr_core s)))"

definition control_ok :: "('f, 'w) load_run \<Rightarrow> bool" where
  "control_ok s \<longleftrightarrow> length (lr_streams s) = 4 \<and> 0 < lr_cap s
     \<and> (lr_closed s \<longleftrightarrow> lr_main s = Awaiting_Workers \<or> lr_main s = Load_Over)
     \<and> (lr_closed s \<longrightarrow> (\<forall>pc\<in>set (lr_streams s). pc = Stream_Over))
     \<and> (Worker_Over \<in> set (lr_workers s) \<longrightarrow> lr_closed s \<and> co_jobs (lr_core s) = [])
     \<and> (lr_main s = Load_Over \<longrightarrow> (\<forall>pc\<in>set (lr_workers s). pc = Worker_Over))
     \<and> (lr_main s \<noteq> Loading \<longrightarrow> lr_cancelled s) \<and> lr_workers s \<noteq> []"

text \<open>The counters of \<^verbatim>\<open>LoadStats\<close>, which wrap around.\<close>

definition dispatched_sum :: "load_stats \<Rightarrow> int" where
  "dispatched_sum st = sum_list (map (ls_dispatched st) stream_kinds)"

definition completed_sum :: "load_stats \<Rightarrow> int" where
  "completed_sum st = ls_completedOK st + ls_completedError st"

fun uncounted :: "stream_pc \<Rightarrow> nat" where
  "uncounted (Counting n) = 1"
| "uncounted pc = 0"

fun uncompleted :: "worker_pc \<Rightarrow> nat" where
  "uncompleted (Handling job) = 1"
| "uncompleted pc = 0"

text \<open>Sent jobs are in the queue, with a worker or completed: what the counters differ by beyond that.\<close>

definition account :: "('f, 'w) load_run \<Rightarrow> 64 word" where
  "account s = of_int (dispatched_sum (co_stats (lr_core s))) + of_nat (sum_list (map uncounted (lr_streams s)))
     - of_int (completed_sum (co_stats (lr_core s))) - of_nat (length (co_jobs (lr_core s))) - of_nat (sum_list (map uncompleted (lr_workers s)))"

definition builds_ok :: "('f, 'w) load_run \<Rightarrow> bool" where
  "builds_ok s \<longleftrightarrow> (\<forall>i<length (lr_streams s). \<forall>n st. lr_streams s ! i = Building n st \<longrightarrow> stage_ok (stream_kinds ! i) st)"

definition load_ok :: "(uuid \<rightharpoonup> int) \<Rightarrow> 64 word \<Rightarrow> ('f, 'w) load_run \<Rightarrow> bool" where
  "load_ok m off s \<longleftrightarrow> core_ok (lr_core s) \<and> jobs_ok m s \<and> control_ok s \<and> builds_ok s \<and> account s = off"

lemma of_int_wrap64 [simp]: "(of_int (wrap64 x) :: 64 word) = of_int x"
  by (simp add: wrap64_def)

lemma of_int_dispatched: "(of_int (dispatched_sum (RecordDispatched k st)) :: 64 word) = of_int (dispatched_sum st) + 1"
  by (cases k) (simp_all add: dispatched_sum_def stream_kinds_def RecordDispatched_def)

lemma of_int_completed: "(of_int (completed_sum (RecordCompleted x st)) :: 64 word) = of_int (completed_sum st) + 1"
  by (cases x) (simp_all add: completed_sum_def RecordCompleted_def)

lemma sums_frame [simp]:
  "completed_sum (RecordDispatched k st) = completed_sum st" "dispatched_sum (RecordCompleted x st) = dispatched_sum st"
  by (simp_all add: completed_sum_def dispatched_sum_def RecordDispatched_def RecordCompleted_def split: sum.splits)

lemma of_nat_sum_update:
  fixes f :: "'a \<Rightarrow> nat"
  assumes "i < length xs"
  shows "(of_nat (sum_list (map f (xs[i := y]))) :: 64 word) = of_nat (sum_list (map f xs)) + of_nat (f y) - of_nat (f (xs ! i))"
proof -
  have "sum_list (map f (xs[i := y])) + f (xs ! i) = sum_list (map f xs) + f y"
    using assms
  proof (induction xs arbitrary: i)
    case (Cons x xs)
    then show ?case by (cases i) auto
  qed simp
  then have "(of_nat (sum_list (map f (xs[i := y])) + f (xs ! i)) :: 64 word) = of_nat (sum_list (map f xs) + f y)" by simp
  then show ?thesis by (simp add: algebra_simps)
qed

lemma outstanding_stream:
  assumes "i < length (lr_streams s)"
  shows "outstanding (set_stream i pc c s) + mset (held_jobs (lr_streams s ! i)) + mset (co_jobs (lr_core s))
    = outstanding s + mset (held_jobs pc) + mset (co_jobs c)"
  using mset_concat_update [OF assms, of held_jobs pc]
  by (simp add: outstanding_def set_stream_def ac_simps)

lemma outstanding_worker:
  assumes "i < length (lr_workers s)"
  shows "outstanding (set_worker i pc c s) + mset (worked_jobs (lr_workers s ! i)) + mset (co_jobs (lr_core s))
    = outstanding s + mset (worked_jobs pc) + mset (co_jobs c)"
  using mset_concat_update [OF assms, of worked_jobs pc]
  by (simp add: outstanding_def set_worker_def ac_simps)

lemma account_stream:
  assumes "i < length (lr_streams s)"
  shows "account (set_stream i pc c s) = account s
    + (of_int (dispatched_sum (co_stats c)) - of_int (dispatched_sum (co_stats (lr_core s)))) + (of_nat (uncounted pc) - of_nat (uncounted (lr_streams s ! i)))
    - (of_int (completed_sum (co_stats c)) - of_int (completed_sum (co_stats (lr_core s))))
    - (of_nat (length (co_jobs c)) - of_nat (length (co_jobs (lr_core s))))"
  using of_nat_sum_update [OF assms, of uncounted pc] by (simp add: account_def set_stream_def algebra_simps)

lemma account_worker:
  assumes "i < length (lr_workers s)"
  shows "account (set_worker i pc c s) = account s
    + (of_int (dispatched_sum (co_stats c)) - of_int (dispatched_sum (co_stats (lr_core s)))) - (of_nat (uncompleted pc) - of_nat (uncompleted (lr_workers s ! i)))
    - (of_int (completed_sum (co_stats c)) - of_int (completed_sum (co_stats (lr_core s))))
    - (of_nat (length (co_jobs c)) - of_nat (length (co_jobs (lr_core s))))"
  using of_nat_sum_update [OF assms, of uncompleted pc] by (simp add: account_def set_worker_def algebra_simps)

lemma control_stream:
  assumes "control_ok s" and "i < length (lr_streams s)" and "lr_streams s ! i \<noteq> Stream_Over"
  shows "control_ok (set_stream i pc c s)" and "\<not> lr_closed s"
proof -
  show nc: "\<not> lr_closed s" using assms nth_mem [OF assms(2)] by (auto simp: control_ok_def)
  with assms show "control_ok (set_stream i pc c s)" by (auto simp: control_ok_def set_stream_def)
qed

lemma control_worker:
  assumes "control_ok s" and "i < length (lr_workers s)" and "lr_workers s ! i \<noteq> Worker_Over"
    and "co_jobs (lr_core s) = [] \<Longrightarrow> co_jobs c = []" and "pc = Worker_Over \<Longrightarrow> lr_closed s \<and> co_jobs c = []"
  shows "control_ok (set_worker i pc c s)"
proof -
  have "lr_main s \<noteq> Load_Over" using assms nth_mem [OF assms(2)] by (auto simp: control_ok_def)
  moreover have "Worker_Over \<in> set ((lr_workers s)[i := pc]) \<Longrightarrow> Worker_Over \<in> set (lr_workers s) \<or> pc = Worker_Over"
    using set_update_subset_insert [of "lr_workers s" i pc] by auto
  ultimately show ?thesis using assms by (auto simp: control_ok_def set_worker_def)
qed

text \<open>A goroutine of a stream does something with the core.\<close>

lemma load_ok_stream:
  assumes ok: "load_ok m off s" and i: "i < length (lr_streams s)" "lr_streams s ! i \<noteq> Stream_Over"
    and core: "core_ok c" and jobs: "jobs_ok m (set_stream i pc c s)"
    and acc: "account (set_stream i pc c s) = account s"
    and st: "\<And>n st. pc = Building n st \<Longrightarrow> stage_ok (stream_kinds ! i) st"
  shows "load_ok m off (set_stream i pc c s)"
proof -
  have "lr_core (set_stream i pc c s) = c" by (simp add: set_stream_def)
  moreover have "builds_ok (set_stream i pc c s)"
    using ok i(1) st by (auto simp: load_ok_def builds_ok_def set_stream_def nth_list_update)
  ultimately show ?thesis using ok core jobs acc control_stream(1) [OF _ i] by (simp add: load_ok_def)
qed

lemma load_ok_worker:
  assumes ok: "load_ok m off s" and i: "i < length (lr_workers s)" "lr_workers s ! i \<noteq> Worker_Over"
    and q: "co_jobs (lr_core s) = [] \<Longrightarrow> co_jobs c = []" "pc = Worker_Over \<Longrightarrow> lr_closed s \<and> co_jobs c = []"
    and core: "core_ok c" and jobs: "jobs_ok m (set_worker i pc c s)" and acc: "account (set_worker i pc c s) = account s"
  shows "load_ok m off (set_worker i pc c s)"
proof -
  have "lr_core (set_worker i pc c s) = c" by (simp add: set_worker_def)
  moreover have "builds_ok (set_worker i pc c s) = builds_ok s" by (simp add: builds_ok_def set_worker_def)
  ultimately show ?thesis using ok core jobs acc control_worker [OF _ i q] by (simp add: load_ok_def)
qed

lemma jobs_ok_same:
  assumes "jobs_ok m s" and "outstanding s' = outstanding s" and "balances (co_pool (lr_core s')) = balances (co_pool (lr_core s))"
  shows "jobs_ok m s'"
  using assms by (simp add: jobs_ok_def)

text \<open>A job leaves without effect: its reservation, if it has one, was taken back.\<close>

lemma jobs_ok_less:
  assumes js: "jobs_ok m s" and out: "outstanding s = add_mset job (outstanding s')" and range: "\<forall>i x. m i = Some x \<longrightarrow> bigint x"
    and pool: "if j_Reserved job
      then \<exists>a b. reserved_job a b job \<and> balances (co_pool (lr_core s')) = shift b (- j_Amount job) (shift a (j_Amount job) (balances (co_pool (lr_core s))))
      else balances (co_pool (lr_core s')) = balances (co_pool (lr_core s))"
  shows "jobs_ok m s'"
proof -
  have mv: "moved (add_mset job (outstanding s')) m (balances (co_pool (lr_core s)))" using js out by (simp add: jobs_ok_def)
  have "moved (outstanding s') m (balances (co_pool (lr_core s')))"
  proof (cases "j_Reserved job")
    case True
    with pool moved_cancel [OF mv _ range] show ?thesis by auto
  next
    case False
    with pool mv show ?thesis by (auto simp: moved_add_mset job_moves_def shifts_def)
  qed
  with js out show ?thesis by (simp add: jobs_ok_def)
qed

lemma job_moves_kind [simp]: "job_moves (job\<lparr>j_Kind := k\<rparr>) = job_moves job"
  by (simp add: job_moves_def)

lemma set_stream_sel [simp]:
  "lr_core (set_stream i pc c s) = c" "lr_settled (set_stream i pc c s) = lr_settled s" "lr_core (set_worker i wpc c s) = c"
  by (simp_all add: set_stream_def set_worker_def)

lemma settled_frame [simp]:
  "control_ok (s\<lparr>lr_settled := js\<rparr>) \<longleftrightarrow> control_ok s" "account (s\<lparr>lr_settled := js\<rparr>) = account s"
  "builds_ok (s\<lparr>lr_settled := js\<rparr>) \<longleftrightarrow> builds_ok s" "builds_ok (set_worker i wpc c s) \<longleftrightarrow> builds_ok s"
  by (simp_all add: control_ok_def account_def builds_ok_def set_worker_def)

text \<open>The record of races matters to no invariant.\<close>

lemma raced_frame [simp]:
  "load_ok m off (s\<lparr>lr_raced := b\<rparr>) \<longleftrightarrow> load_ok m off s"
  by (simp add: load_ok_def jobs_ok_def control_ok_def builds_ok_def account_def outstanding_def)

lemma enter_build_eq:
  "enter_build i pc s = (set_stream i pc (lr_core s) s)\<lparr>lr_raced := lr_raced (enter_build i pc s)\<rparr>"
  by (simp add: enter_build_def set_stream_def)

lemma load_step_ok:
  assumes "load_step F rps E rpc s s'" and ok: "load_ok m off s" and laws: "uuid_laws E" and range: "\<forall>i x. m i = Some x \<longrightarrow> bigint x"
  shows "load_ok m off s'"
proof -
  have c: "core_ok (lr_core s)" and js: "jobs_ok m s" and ct: "control_ok s" using ok by (simp_all add: load_ok_def)
  have pool: "pool_ok (co_pool (lr_core s))" using c by (simp add: core_ok_def)
  from assms(1) show ?thesis
  proof cases
    case cancelled
    with ok show ?thesis by (auto simp: load_ok_def jobs_ok_def control_ok_def builds_ok_def outstanding_def account_def)
  next
    case (stops_waiting i n now)
    show ?thesis
      unfolding stops_waiting(1)
      by (rule load_ok_stream [OF ok stops_waiting(2)])
        (use stops_waiting c outstanding_stream [of i s Stream_Over "lr_core s"] account_stream [of i s Stream_Over "lr_core s"]
          in \<open>auto intro: jobs_ok_same [OF js]\<close>)
  next
    case (enters i n keys)
    let ?pc = "Building n (first_stage (stream_kinds ! i) keys (co_pool (lr_core s)))"
    have "load_ok m off (set_stream i ?pc (lr_core s) s)"
      by (rule load_ok_stream [OF ok enters(2)])
        (use enters(2,3) c first_stage_ok outstanding_stream [of i s ?pc "lr_core s"] account_stream [of i s ?pc "lr_core s"]
          in \<open>auto intro: jobs_ok_same [OF js]\<close>)
    then show ?thesis unfolding enters(1) by (subst enter_build_eq) simp
  next
    case (builds_on i n st keys g st' c' g')
    have st: "stage_ok (stream_kinds ! i) st" using ok builds_on(2,3) by (simp add: load_ok_def builds_ok_def)
    have c': "c' = lr_core s \<and> stage_ok (stream_kinds ! i) st'"
      by (rule build_call_ok [OF pool st, of keys g]) (use builds_on(5) in auto)
    show ?thesis
      unfolding builds_on(1)
      by (rule load_ok_stream [OF ok builds_on(2)])
        (use builds_on(2,3) c c' outstanding_stream [of i s "Building n st'" "lr_core s"] account_stream [of i s "Building n st'" "lr_core s"]
          in \<open>auto intro: jobs_ok_same [OF js]\<close>)
  next
    case (builds_none i n st keys g c' g' pc)
    have st: "stage_ok (stream_kinds ! i) st" using ok builds_none(2,3) by (simp add: load_ok_def builds_ok_def)
    have c': "c' = lr_core s"
      by (rule build_call_ok [OF pool st, of keys g]) (use builds_none(5) in auto)
    show ?thesis
      unfolding builds_none(1) c'
      by (rule load_ok_stream [OF ok builds_none(2)])
        (use builds_none(2,3,6) c outstanding_stream [of i s pc "lr_core s"] account_stream [of i s pc "lr_core s"]
          in \<open>auto intro: jobs_ok_same [OF js]\<close>)
  next
    case (builds i n st keys g job c' g')
    have st: "stage_ok (stream_kinds ! i) st" using ok builds(2,3) by (simp add: load_ok_def builds_ok_def)
    let ?job = "job\<lparr>j_Kind := stream_kinds ! i\<rparr>"
    obtain p' where c': "c' = (lr_core s)\<lparr>co_pool := p'\<rparr>" and p': "pool_ok p'"
      and j: "job_ok ?job" "balances p' = shifts (job_moves ?job) (balances (co_pool (lr_core s)))"
      by (rule build_call_ok [OF pool st, of keys g]) (use builds(5) in auto)
    have "outstanding (set_stream i (Holding n ?job) c' s) = add_mset ?job (outstanding s)"
      using outstanding_stream [OF builds(2), of "Holding n ?job" c'] builds(3) c' by simp
    then have "jobs_ok m (set_stream i (Holding n ?job) c' s)" using js j c' by (auto simp: jobs_ok_def moved_add_mset)
    then show ?thesis
      unfolding builds(1)
      by (intro load_ok_stream [OF ok builds(2)])
        (use builds(2,3) c p' c' account_stream [of i s "Holding n ?job" c'] in \<open>auto simp: core_ok_def\<close>)
  next
    case (sends i n job)
    let ?c = "(lr_core s)\<lparr>co_jobs := co_jobs (lr_core s) @ [job]\<rparr>"
    have "outstanding (set_stream i (Counting n) ?c s) = outstanding s"
      using outstanding_stream [OF sends(2), of "Counting n" ?c] sends(3) by simp
    then have "jobs_ok m (set_stream i (Counting n) ?c s)" by (intro jobs_ok_same [OF js]) simp_all
    then show ?thesis
      unfolding sends(1)
      by (intro load_ok_stream [OF ok sends(2)])
        (use sends(2,3) c account_stream [of i s "Counting n" ?c] in \<open>auto simp: core_ok_def\<close>)
  next
    case (drops i n job p)
    let ?c = "(lr_core s)\<lparr>co_pool := p\<rparr>"
    have out: "outstanding s = add_mset job (outstanding (set_stream i Stream_Over ?c s))"
      using outstanding_stream [OF drops(2), of Stream_Over ?c] drops(3) by simp
    then have jk: "job_ok job" using js by (simp add: jobs_ok_def)
    have p: "pool_ok p \<and> (if j_Reserved job
        then \<exists>a b. reserved_job a b job \<and> balances p = shift b (- j_Amount job) (shift a (j_Amount job) (balances (co_pool (lr_core s))))
        else balances p = balances (co_pool (lr_core s)))"
    proof (cases "j_Reserved job")
      case True
      from rollback_job_ok [OF laws pool jk True] obtain a b q where "reserved_job a b job" "rollback_job E job (co_pool (lr_core s)) = Some q"
        "pool_ok q" "balances q = shift b (- j_Amount job) (shift a (j_Amount job) (balances (co_pool (lr_core s))))" by metis
      with True drops(5) show ?thesis by (auto simp: dropReserved_def)
    next
      case False
      with drops(5) pool show ?thesis by (simp add: dropReserved_def)
    qed
    then have "jobs_ok m (set_stream i Stream_Over ?c s)" by (intro jobs_ok_less [OF js out range]) simp
    then show ?thesis
      unfolding drops(1)
      by (intro load_ok_stream [OF ok drops(2)])
        (use drops(2,3) c p account_stream [of i s Stream_Over ?c] in \<open>auto simp: core_ok_def\<close>)
  next
    case (counts i n k u now1 now2)
    let ?pc = "Looping (next_at n (poissonDelay F u (rps k)) now1 now2)"
    let ?c = "(lr_core s)\<lparr>co_metrics := m_RecordDispatched k (co_metrics (lr_core s)), co_stats := RecordDispatched k (co_stats (lr_core s))\<rparr>"
    have "outstanding (set_stream i ?pc ?c s) = outstanding s" using outstanding_stream [OF counts(2), of ?pc ?c] counts(3) by simp
    then have "jobs_ok m (set_stream i ?pc ?c s)" by (intro jobs_ok_same [OF js]) simp_all
    then show ?thesis
      unfolding counts(1)
      by (intro load_ok_stream [OF ok counts(2)])
        (use counts(2,3) c account_stream [of i s ?pc ?c] in \<open>auto simp: core_ok_def of_int_dispatched\<close>)
  next
    case (receives i job jobs)
    let ?c = "(lr_core s)\<lparr>co_jobs := jobs\<rparr>"
    have "outstanding (set_worker i (Handling job) ?c s) = outstanding s"
      using outstanding_worker [OF receives(2), of "Handling job" ?c] receives(3,4) by simp
    then have "jobs_ok m (set_worker i (Handling job) ?c s)" by (intro jobs_ok_same [OF js]) simp_all
    then show ?thesis
      unfolding receives(1)
      by (intro load_ok_worker [OF ok receives(2)])
        (use receives c account_worker [of i s "Handling job" ?c] in \<open>auto simp: core_ok_def\<close>)
  next
    case (handles i job newV7 c')
    let ?s1 = "set_worker i Receiving c' s" and ?new = "if job_succeeds E rpc newV7 job (lr_core s) then [job] else []"
    have jk: "job_ok job"
      using js handles(2,3) nth_mem [OF handles(2)] by (force simp: jobs_ok_def outstanding_def)
    obtain h x where hs: "handleJob E rpc newV7 job (lr_core s) = Some h" "core_ok h" "co_jobs h = co_jobs (lr_core s)"
      "co_stats h = RecordCompleted (x :: unit lg_result) (co_stats (lr_core s))"
      "if j_Reserved job \<and> \<not> job_succeeds E rpc newV7 job (lr_core s)
       then \<exists>a b. reserved_job a b job \<and> balances (co_pool h) = shift b (- j_Amount job) (shift a (j_Amount job) (balances (co_pool (lr_core s))))
       else co_pool h = co_pool (lr_core s)"
      by (rule handleJob_ok [OF laws c jk])
    have "h = c'" using hs(1) handles(4) by simp
    note h = hs(2-5) [unfolded this]
    have out: "outstanding s = add_mset job (outstanding ?s1)"
      using outstanding_worker [OF handles(2), of Receiving c'] handles(3) h(2) by simp
    have out': "outstanding (?s1\<lparr>lr_settled := lr_settled s @ ?new\<rparr>) = outstanding ?s1 + mset ?new"
      by (simp add: outstanding_def set_worker_def)
    have "jobs_ok m (?s1\<lparr>lr_settled := lr_settled s @ ?new\<rparr>)"
    proof (cases "job_succeeds E rpc newV7 job (lr_core s)")
      case True
      with h(4) out out' show ?thesis by (intro jobs_ok_same [OF js]) auto
    next
      case False
      with h(4) out out' show ?thesis by (intro jobs_ok_less [OF js _ range]) auto
    qed
    moreover have "control_ok ?s1"
      by (rule control_worker [OF ct handles(2)]) (use handles(3) h(2) in auto)
    moreover have "account ?s1 = account s"
      using account_worker [OF handles(2), of Receiving c'] handles(3) h(2,3)
      by (simp add: of_int_completed)
    ultimately show ?thesis
      using ok h(1) unfolding handles(1) by (simp add: load_ok_def)
  next
    case (worker_ends i)
    have "outstanding (set_worker i Worker_Over (lr_core s) s) = outstanding s"
      using outstanding_worker [OF worker_ends(2), of Worker_Over "lr_core s"] worker_ends(3) by simp
    then have "jobs_ok m (set_worker i Worker_Over (lr_core s) s)" by (intro jobs_ok_same [OF js]) simp_all
    then show ?thesis
      unfolding worker_ends(1)
      by (intro load_ok_worker [OF ok worker_ends(2)])
        (use worker_ends c account_worker [of i s Worker_Over "lr_core s"] in auto)
  next
    case samples
    with ok show ?thesis by (auto simp: load_ok_def jobs_ok_def control_ok_def builds_ok_def outstanding_def account_def)
  next
    case context_done
    with ok show ?thesis by (auto simp: load_ok_def jobs_ok_def control_ok_def builds_ok_def outstanding_def account_def)
  next
    case closes
    with ok show ?thesis by (auto simp: load_ok_def jobs_ok_def control_ok_def builds_ok_def outstanding_def account_def list_all_iff)
  next
    case returns
    with ok show ?thesis by (auto simp: load_ok_def jobs_ok_def control_ok_def builds_ok_def outstanding_def account_def list_all_iff)
  qed
qed

section \<open>No panic\<close>

lemma load_panic_race:
  assumes ok: "load_ok m off s" and laws: "uuid_laws E" and panic: "load_panic E rpc s"
  shows "lr_raced s \<and> (\<exists>i. may_draw i s)"
proof -
  have c: "core_ok (lr_core s)" and js: "jobs_ok m s" and ct: "control_ok s" using ok by (simp_all add: load_ok_def)
  have pool: "pool_ok (co_pool (lr_core s))" using c by (simp add: core_ok_def)
  from panic show ?thesis
  proof cases
    case (build_panics i n st keys g)
    have st: "stage_ok (stream_kinds ! i) st" using ok build_panics(1,2) by (simp add: load_ok_def builds_ok_def)
    show ?thesis by (rule build_call_ok [OF pool st, of keys g]) (use build_panics(4) in simp)
  next
    case (race_panics i)
    then show ?thesis by blast
  next
    case (send_panics i n job)
    with control_stream(2) [OF ct send_panics(1)] show ?thesis by simp
  next
    case (drop_panics i n job)
    have "job_ok job"
      using js drop_panics(1,2) nth_mem [OF drop_panics(1)] by (force simp: jobs_ok_def outstanding_def)
    from rollback_job_ok [OF laws pool this] drop_panics(4) show ?thesis
      by (auto simp: dropReserved_def split: if_splits)
  next
    case (job_panics i job newV7)
    have "job_ok job"
      using js job_panics(1,2) nth_mem [OF job_panics(1)] by (force simp: jobs_ok_def outstanding_def)
    show ?thesis by (rule handleJob_ok [OF laws c \<open>job_ok job\<close>, of rpc newV7]) (use job_panics(3) in simp)
  next
    case close_panics
    with ct show ?thesis by (simp add: control_ok_def)
  qed
qed

section \<open>The end of a load\<close>

text \<open>Steps to go once the context is cancelled, if every stream ends its builder and takes its branch of the context.\<close>

fun stream_left :: "stream_pc \<Rightarrow> nat" where
  "stream_left (Looping n) = 1"
| "stream_left (Building n st) = Suc (stage_left st)"
| "stream_left (Holding n job) = 1"
| "stream_left (Counting n) = 2"
| "stream_left Stream_Over = 0"

fun worker_left :: "worker_pc \<Rightarrow> nat" where
  "worker_left Receiving = 1"
| "worker_left (Handling job) = 2"
| "worker_left Worker_Over = 0"

fun main_left :: "main_pc \<Rightarrow> nat" where
  "main_left Loading = 3"
| "main_left Awaiting_Streams = 2"
| "main_left Awaiting_Workers = 1"
| "main_left Load_Over = 0"

definition load_left :: "('f, 'w) load_run \<Rightarrow> nat" where
  "load_left s = main_left (lr_main s) + sum_list (map stream_left (lr_streams s)) + sum_list (map worker_left (lr_workers s))
     + 2 * length (co_jobs (lr_core s))"

lemma sum_list_update_less:
  fixes f :: "'a \<Rightarrow> nat"
  assumes "i < length xs"
  shows "sum_list (map f (xs[i := y])) + f (xs ! i) = sum_list (map f xs) + f y"
  using assms
proof (induction xs arbitrary: i)
  case (Cons x xs)
  then show ?case by (cases i) auto
qed simp

lemma load_left_stream:
  assumes "i < length (lr_streams s)" and "stream_left pc < stream_left (lr_streams s ! i)" and "co_jobs c = co_jobs (lr_core s)"
  shows "load_left (set_stream i pc c s) < load_left s"
  using sum_list_update_less [OF assms(1), of stream_left pc] assms(2,3) by (simp add: load_left_def set_stream_def)

lemma load_left_worker:
  assumes "i < length (lr_workers s)" and "worker_left pc + 2 * length (co_jobs c) < worker_left (lr_workers s ! i) + 2 * length (co_jobs (lr_core s))"
  shows "load_left (set_worker i pc c s) < load_left s"
  using sum_list_update_less [OF assms(1), of worker_left pc] assms(2) by (simp add: load_left_def set_worker_def)

lemma stream_can_end:
  assumes ok: "load_ok m off s" and laws: "uuid_laws E" and can: "lr_cancelled s" and i: "i < length (lr_streams s)" "lr_streams s ! i \<noteq> Stream_Over"
  shows "\<exists>s'. load_step F rps E rpc s s' \<and> load_left s' < load_left s \<and> lr_cancelled s'"
proof (cases "lr_streams s ! i")
  case (Looping n)
  then show ?thesis
    using load_step.stops_waiting [OF i(1) Looping, of "n - 1"] load_left_stream [of i s Stream_Over "lr_core s"] i can
    by (intro exI [of _ "set_stream i Stream_Over (lr_core s) s"]) (simp add: set_stream_def)
next
  case (Building n st)
  have st: "stage_ok (stream_kinds ! i) st" using ok i(1) Building by (simp add: load_ok_def builds_ok_def)
  have pool: "pool_ok (co_pool (lr_core s))" using ok by (simp add: load_ok_def core_ok_def)
  obtain keys where keys: "map_order keys (co_pool (lr_core s))"
    using finite_distinct_list [of "{c. ap_accounts (co_pool (lr_core s)) c \<noteq> []}"] by (auto simp: map_order_def)
  obtain x p g' where b: "build_call (stream_kinds ! i) keys st (lr_core s) (\<lambda>_. 0) = Some ((x, (lr_core s)\<lparr>co_pool := p\<rparr>), g')"
    "case x of Inl st' \<Rightarrow> p = co_pool (lr_core s) \<and> stage_ok (stream_kinds ! i) st' \<and> stage_left st' < stage_left st
      | Inr None \<Rightarrow> p = co_pool (lr_core s)
      | Inr (Some job) \<Rightarrow> job_ok (job\<lparr>j_Kind := stream_kinds ! i\<rparr>) \<and> balances p = shifts (job_moves job) (balances (co_pool (lr_core s)))"
    by (rule build_call_ok [OF pool st])
  have pos: "0 < stage_left st" by (cases st) simp_all
  show ?thesis
  proof (cases x)
    case (Inl st')
    then show ?thesis
      using load_step.builds_on [OF i(1) Building keys b(1) [unfolded Inl]] b(2)
        load_left_stream [of i s "Building n st'" "(lr_core s)\<lparr>co_pool := p\<rparr>"] i can Building
      by (intro exI [of _ "set_stream i (Building n st') ((lr_core s)\<lparr>co_pool := p\<rparr>) s"]) (simp add: set_stream_def)
  next
    case (Inr j)
    show ?thesis
    proof (cases j)
      case None
      then show ?thesis
        using load_step.builds_none [OF i(1) Building keys b(1) [unfolded Inr None], of Stream_Over] pos
          load_left_stream [of i s Stream_Over "(lr_core s)\<lparr>co_pool := p\<rparr>"] i can Building
        by (intro exI [of _ "set_stream i Stream_Over ((lr_core s)\<lparr>co_pool := p\<rparr>) s"]) (simp add: set_stream_def)
    next
      case (Some job)
      let ?pc = "Holding n (job\<lparr>j_Kind := stream_kinds ! i\<rparr>)"
      show ?thesis
        using load_step.builds [OF i(1) Building keys b(1) [unfolded Inr Some]] pos
          load_left_stream [of i s ?pc "(lr_core s)\<lparr>co_pool := p\<rparr>"] i can Building
        by (intro exI [of _ "set_stream i ?pc ((lr_core s)\<lparr>co_pool := p\<rparr>) s"]) (simp add: set_stream_def)
    qed
  qed
next
  case (Holding n job)
  have c: "core_ok (lr_core s)" and js: "jobs_ok m s" using ok by (simp_all add: load_ok_def)
  have "job_ok job" using js i(1) Holding nth_mem [OF i(1)] by (force simp: jobs_ok_def outstanding_def)
  then have "dropReserved E job (co_pool (lr_core s)) \<noteq> None"
    using rollback_job_ok [OF laws, of "co_pool (lr_core s)" job] c by (cases "j_Reserved job") (auto simp: dropReserved_def core_ok_def)
  then obtain p where p: "dropReserved E job (co_pool (lr_core s)) = Some p" by blast
  let ?s = "set_stream i Stream_Over ((lr_core s)\<lparr>co_pool := p\<rparr>) s"
  show ?thesis
    using load_step.drops [OF i(1) Holding can p] load_left_stream [of i s Stream_Over "(lr_core s)\<lparr>co_pool := p\<rparr>"] i can Holding
    by (intro exI [of _ ?s]) (simp add: set_stream_def)
next
  case (Counting n)
  let ?c = "(lr_core s)\<lparr>co_metrics := m_RecordDispatched (stream_kinds ! i) (co_metrics (lr_core s)),
      co_stats := RecordDispatched (stream_kinds ! i) (co_stats (lr_core s))\<rparr>"
  let ?s = "set_stream i (Looping (next_at n (poissonDelay F (f_zero F) (rps (stream_kinds ! i))) 0 0)) ?c s"
  show ?thesis
    using load_step.counts [OF i(1) Counting refl] load_left_stream [of i s "Looping (next_at n (poissonDelay F (f_zero F) (rps (stream_kinds ! i))) 0 0)" ?c] i can Counting
    by (intro exI [of _ ?s]) (simp add: set_stream_def)
qed (use i in simp)

lemma worker_can_end:
  assumes ok: "load_ok m off s" and laws: "uuid_laws E" and cl: "lr_closed s" "lr_cancelled s"
    and i: "i < length (lr_workers s)" "lr_workers s ! i \<noteq> Worker_Over"
  shows "\<exists>s'. load_step F rps E rpc s s' \<and> load_left s' < load_left s \<and> lr_cancelled s'"
proof (cases "lr_workers s ! i")
  case Receiving
  show ?thesis
  proof (cases "co_jobs (lr_core s)")
    case Nil
    then show ?thesis
      using load_step.worker_ends [OF i(1) Receiving Nil cl(1)] load_left_worker [of i s Worker_Over "lr_core s"] i cl Receiving
      by (intro exI [of _ "set_worker i Worker_Over (lr_core s) s"]) (simp add: set_worker_def)
  next
    case (Cons job jobs)
    then show ?thesis
      using load_step.receives [OF i(1) Receiving Cons] load_left_worker [of i s "Handling job" "(lr_core s)\<lparr>co_jobs := jobs\<rparr>"] i cl Receiving
      by (intro exI [of _ "set_worker i (Handling job) ((lr_core s)\<lparr>co_jobs := jobs\<rparr>) s"]) (simp add: set_worker_def)
  qed
next
  case (Handling job)
  have c: "core_ok (lr_core s)" and js: "jobs_ok m s" using ok by (simp_all add: load_ok_def)
  have "job_ok job" using js i(1) Handling nth_mem [OF i(1)] by (force simp: jobs_ok_def outstanding_def)
  then obtain c' where h: "handleJob E rpc None job (lr_core s) = Some c'" "co_jobs c' = co_jobs (lr_core s)"
    using handleJob_ok [OF laws c] by metis
  let ?s = "(set_worker i Receiving c' s)\<lparr>lr_settled := lr_settled s @ (if job_succeeds E rpc None job (lr_core s) then [job] else [])\<rparr>"
  have "load_left ?s = load_left (set_worker i Receiving c' s)" by (simp add: load_left_def set_worker_def)
  then show ?thesis
    using load_step.handles [OF i(1) Handling h(1)] load_left_worker [of i s Receiving c'] i cl Handling h(2)
    by (intro exI [of _ ?s]) (simp add: set_worker_def)
qed (use i in simp)

lemma load_can_end:
  assumes ok: "load_ok m off s" and laws: "uuid_laws E" and can: "lr_cancelled s" and live: "lr_main s \<noteq> Load_Over"
  shows "\<exists>s'. load_step F rps E rpc s s' \<and> load_left s' < load_left s \<and> lr_cancelled s'"
proof (cases "lr_main s")
  case Loading
  then show ?thesis using load_step.context_done [OF Loading can] can
    by (intro exI [of _ "s\<lparr>lr_main := Awaiting_Streams\<rparr>"]) (simp add: load_left_def)
next
  case Awaiting_Streams
  show ?thesis
  proof (cases "list_all (\<lambda>pc. pc = Stream_Over) (lr_streams s)")
    case True
    then show ?thesis using load_step.closes [OF Awaiting_Streams True] can Awaiting_Streams
      by (intro exI [of _ "s\<lparr>lr_main := Awaiting_Workers, lr_closed := True\<rparr>"]) (simp add: load_left_def)
  next
    case False
    then show ?thesis using stream_can_end [OF ok laws can] by (auto simp: list_all_length)
  qed
next
  case Awaiting_Workers
  then have cl: "lr_closed s" using ok by (simp add: load_ok_def control_ok_def)
  show ?thesis
  proof (cases "list_all (\<lambda>pc. pc = Worker_Over) (lr_workers s)")
    case True
    then show ?thesis using load_step.returns [OF Awaiting_Workers True] can Awaiting_Workers
      by (intro exI [of _ "s\<lparr>lr_main := Load_Over\<rparr>"]) (simp add: load_left_def)
  next
    case False
    then show ?thesis using worker_can_end [OF ok laws cl can] by (auto simp: list_all_length)
  qed
qed (use live in simp)

section \<open>Loads from the start\<close>

definition load_running :: "ext \<Rightarrow> (uuid \<rightharpoonup> int) \<Rightarrow> ('f, 'w) load_run \<Rightarrow> bool" where
  "load_running E m s \<longleftrightarrow> uuid_laws E \<and> (\<forall>i x. m i = Some x \<longrightarrow> bigint x) \<and> load_ok m 0 s"

lemma settled_grow: "load_step F rps E rpc s s' \<Longrightarrow> prefix (lr_settled s) (lr_settled s')"
  by (cases rule: load_step.cases) (auto simp: set_worker_def enter_build_def)

interpretation load: simulation "\<lambda>_ :: unit. load_step F rps E rpc" "\<lambda>_ :: unit. prefix" "load_running E m" lr_settled
  by unfold_locales (auto simp: load_running_def intro: load_step_ok settled_grow)

section \<open>The race on the shared random source\<close>

text \<open>Whether the builder of a stream finds the accounts it draws from.\<close>

definition pool_draws :: "stream_kind \<Rightarrow> account_pool \<Rightarrow> bool" where
  "pool_draws k p \<longleftrightarrow> (case k of
     StreamValid \<Rightarrow> \<exists>c. 2 \<le> length (ap_accounts p c)
   | StreamInvalidBalance \<Rightarrow> \<exists>c. 2 \<le> length (ap_accounts p c)
   | StreamInvalidCurrency \<Rightarrow> \<exists>c c'. c \<noteq> c' \<and> ap_accounts p c \<noteq> [] \<and> ap_accounts p c' \<noteq> []
   | StreamStats \<Rightarrow> False)"

text \<open>Two streams with a rate whose builders draw.\<close>

definition racing :: "'f float_ops \<Rightarrow> (stream_kind \<Rightarrow> 'f) \<Rightarrow> account_pool \<Rightarrow> bool" where
  "racing F rps p \<longleftrightarrow> (\<exists>k k'. k \<noteq> k' \<and> pool_draws k p \<and> pool_draws k' p
     \<and> \<not> f_le F (rps k) (f_zero F) \<and> \<not> f_le F (rps k') (f_zero F))"

lemma pool_length: "pool_ok p \<Longrightarrow> i < length (ap_accounts p c) \<longleftrightarrow> (\<exists>a. ap_index p a = Some (c, i))"
  by (auto simp: pool_ok_def)

lemma pool_draws_index:
  assumes "pool_ok p" and "pool_ok q" and "ap_index p = ap_index q"
  shows "pool_draws k p = pool_draws k q"
proof -
  have "i < length (ap_accounts p c) \<longleftrightarrow> i < length (ap_accounts q c)" for i c
    using pool_length assms by metis
  then have "2 \<le> length (ap_accounts p c) \<longleftrightarrow> 2 \<le> length (ap_accounts q c)" "ap_accounts p c = [] \<longleftrightarrow> ap_accounts q c = []" for c
    by (metis Suc_1 less_eq_Suc_le, metis length_greater_0_conv)
  then show ?thesis by (simp add: pool_draws_def split: stream_kind.splits)
qed

lemma two_of_list: "distinct xs \<Longrightarrow> 2 \<le> length xs \<longleftrightarrow> (\<exists>x\<in>set xs. \<exists>y\<in>set xs. x \<noteq> y)"
  by (cases xs rule: remdups_adj.cases) auto

lemma first_stage_draws:
  assumes "map_order keys p"
  shows "sharing k \<and> draws (Building n (first_stage k keys p)) \<longleftrightarrow> pool_draws k p"
proof -
  have keys: "distinct keys" "c \<in> set keys \<longleftrightarrow> ap_accounts p c \<noteq> []" for c using assms by (auto simp: map_order_def)
  have min: "CurrenciesWithMinAccounts keys 2 p \<noteq> [] \<longleftrightarrow> (\<exists>c. 2 \<le> length (ap_accounts p c))"
    using keys(2) by (force simp: CurrenciesWithMinAccounts_def filter_empty_conv)
  have "CurrenciesWithAccounts keys p = keys" using keys(2) by (simp add: CurrenciesWithAccounts_def filter_id_conv)
  then have "2 \<le> length (CurrenciesWithAccounts keys p) \<longleftrightarrow> (\<exists>c c'. c \<noteq> c' \<and> ap_accounts p c \<noteq> [] \<and> ap_accounts p c' \<noteq> [])"
    using two_of_list [OF keys(1)] keys(2) by auto
  with min show ?thesis by (cases k) (auto simp: first_stage_def Let_def sharing_def pool_draws_def not_less)
qed

text \<open>No step adds an account to the pool.\<close>

lemma index_add_balance [simp]: "ap_index (add_balance r d p) = ap_index p"
  by (simp add: add_balance_def split: prod.splits)

lemma ReserveValid_index: "ReserveValid f t a p = Some (b, q) \<Longrightarrow> ap_index q = ap_index p"
  by (auto simp: ReserveValid_def split: option.splits if_splits)

lemma add_if_known_index: "add_if_known i d p = Some q \<Longrightarrow> ap_index q = ap_index p"
  by (auto simp: add_if_known_def split: option.splits)

lemma rollback_job_index: "rollback_job E job p = Some q \<Longrightarrow> ap_index q = ap_index p"
  by (auto simp: rollback_job_def RollbackValid_def dest!: add_if_known_index split: option.splits)

lemma dropReserved_index: "dropReserved E job p = Some q \<Longrightarrow> ap_index q = ap_index p"
  by (auto simp: dropReserved_def dest: rollback_job_index split: if_splits)

lemma BuildValid_index: "BuildValid keys p g = Some ((j, q), g') \<Longrightarrow> ap_index q = ap_index p"
  by (auto simp: BuildValid_def bind_p_def return_p_def dest!: ReserveValid_index split: option.splits bool.splits)

lemma build_call_index:
  assumes "build_call k keys st c g = Some ((x, c'), g')"
  shows "ap_index (co_pool c') = ap_index (co_pool c)"
proof (cases st)
  case (Funding m cs)
  with assms show ?thesis
    by (cases m) (auto simp: bind_p_def return_p_def split: option.splits if_splits prod.splits)
next
  case Drawing
  with assms show ?thesis
    by (auto simp: load_build_def valid_stream_def bind_p_def return_p_def dest!: BuildValid_index split: option.splits stream_kind.splits)
qed (use assms in \<open>auto simp: return_p_def dest!: ReserveValid_index split: option.splits bool.splits\<close>)

lemma handleJob_index: "handleJob E rpc newV7 job c = Some c' \<Longrightarrow> ap_index (co_pool c') = ap_index (co_pool c)"
  by (auto simp: handleJob_def Let_def complete_def dest!: rollback_job_index split: if_splits option.splits sum.splits)

text \<open>A race needs two streams with a rate whose builders draw.\<close>

definition race_ok :: "'f float_ops \<Rightarrow> (stream_kind \<Rightarrow> 'f) \<Rightarrow> account_pool \<Rightarrow> ('f, 'w) load_run \<Rightarrow> bool" where
  "race_ok F rps p s \<longleftrightarrow> pool_ok p \<and> ap_index (co_pool (lr_core s)) = ap_index p \<and> (lr_raced s \<longrightarrow> racing F rps p)
     \<and> (\<forall>i<length (lr_streams s). (f_le F (rps (stream_kinds ! i)) (f_zero F) \<longrightarrow> lr_streams s ! i = Stream_Over)
          \<and> (may_draw i s \<longrightarrow> pool_draws (stream_kinds ! i) p))"

lemma race_ok_frame:
  "lr_streams s' = lr_streams s \<Longrightarrow> lr_raced s' = lr_raced s \<Longrightarrow> ap_index (co_pool (lr_core s')) = ap_index (co_pool (lr_core s)) \<Longrightarrow>
     race_ok F rps p s \<Longrightarrow> race_ok F rps p s'"
  by (simp add: race_ok_def may_draw_def)

lemma race_ok_stream:
  "race_ok F rps p s \<Longrightarrow> i < length (lr_streams s) \<Longrightarrow> lr_streams s ! i \<noteq> Stream_Over \<Longrightarrow>
     ap_index (co_pool c) = ap_index (co_pool (lr_core s)) \<Longrightarrow> draws pc \<longrightarrow> draws (lr_streams s ! i) \<Longrightarrow> race_ok F rps p (set_stream i pc c s)"
  by (auto simp: race_ok_def set_stream_def may_draw_def nth_list_update)

lemma race_ok_worker:
  "race_ok F rps p s \<Longrightarrow> ap_index (co_pool c) = ap_index (co_pool (lr_core s)) \<Longrightarrow> race_ok F rps p (set_worker i pc c s)"
  by (auto simp: race_ok_def set_worker_def may_draw_def)

lemma race_ok_enter:
  assumes rt: "race_ok F rps p s" and len: "length (lr_streams s) = 4" and i: "i < length (lr_streams s)" "lr_streams s ! i \<noteq> Stream_Over"
    and pc: "sharing (stream_kinds ! i) \<and> draws pc \<longrightarrow> pool_draws (stream_kinds ! i) p"
  shows "race_ok F rps p (enter_build i pc s)"
proof -
  have rate: "\<not> f_le F (rps (stream_kinds ! j)) (f_zero F)" if "j < length (lr_streams s)" "lr_streams s ! j \<noteq> Stream_Over" for j
    using rt that by (auto simp: race_ok_def)
  have "racing F rps p" if "sharing (stream_kinds ! i)" "draws pc" "j \<noteq> i" "may_draw j s" for j
  proof -
    have j: "j < length (lr_streams s)" "lr_streams s ! j \<noteq> Stream_Over" "pool_draws (stream_kinds ! j) p"
      using that(4) rt by (auto simp: may_draw_def race_ok_def)
    have "distinct stream_kinds" "length stream_kinds = 4" by (simp_all add: stream_kinds_def)
    then have "stream_kinds ! i \<noteq> stream_kinds ! j" using that(3) i(1) j(1) len by (simp add: nth_eq_iff_index_eq)
    with that pc j rate [OF i] rate [OF j(1,2)] show ?thesis unfolding racing_def by blast
  qed
  moreover have "lr_raced (enter_build i pc s) \<longrightarrow> lr_raced s \<or> sharing (stream_kinds ! i) \<and> draws pc \<and> (\<exists>j. j \<noteq> i \<and> may_draw j s)"
    by (auto simp: enter_build_def list_ex_iff)
  ultimately have raced: "lr_raced (enter_build i pc s) \<longrightarrow> racing F rps p" using rt by (auto simp: race_ok_def)
  have "may_draw j (enter_build i pc s) \<longrightarrow> pool_draws (stream_kinds ! j) p" if "j < length (lr_streams s)" for j
  proof (cases "j = i")
    case False
    then have "may_draw j (enter_build i pc s) = may_draw j s" by (simp add: enter_build_def may_draw_def)
    with rt that show ?thesis by (simp add: race_ok_def)
  qed (use pc i in \<open>simp add: enter_build_def may_draw_def\<close>)
  with rt i raced show ?thesis by (auto simp: race_ok_def enter_build_def nth_list_update)
qed

lemma race_ok_step:
  assumes "load_step F rps E rpc s s'" and rt: "race_ok F rps p s" and ok: "load_ok m off s"
  shows "race_ok F rps p s'"
proof -
  have len: "length (lr_streams s) = 4" and pool: "pool_ok (co_pool (lr_core s))" using ok by (simp_all add: load_ok_def control_ok_def core_ok_def)
  have same: "pool_draws k (co_pool (lr_core s)) = pool_draws k p" for k
    by (rule pool_draws_index [OF pool]) (use rt in \<open>simp_all add: race_ok_def\<close>)
  from assms(1) show ?thesis
  proof cases
    case (enters i n keys)
    show ?thesis
      unfolding enters(1)
      by (rule race_ok_enter [OF rt len enters(2)]) (use first_stage_draws [OF enters(4)] enters(3) same in auto)
  next
    case (builds_on i n st keys g st' c g')
    have "draws (Building n st)"
    proof (cases st)
      case (Funding m cs)
      with builds_on(5) show ?thesis by (cases m) (simp_all add: return_p_def)
    qed (use builds_on(5) in \<open>auto simp: return_p_def split: option.splits bool.splits\<close>)
    with builds_on show ?thesis
      unfolding builds_on(1) by (intro race_ok_stream [OF rt]) (auto dest: build_call_index)
  next
    case (builds_none i n st keys g c g' pc)
    then show ?thesis
      unfolding builds_none(1) by (intro race_ok_stream [OF rt]) (auto dest: build_call_index)
  next
    case (builds i n st keys g job c g')
    then show ?thesis
      unfolding builds(1) by (intro race_ok_stream [OF rt]) (auto dest: build_call_index)
  next
    case (drops i n job q)
    then show ?thesis
      unfolding drops(1) by (intro race_ok_stream [OF rt]) (auto dest: dropReserved_index)
  next
    case (handles i job newV7 c)
    then show ?thesis
      unfolding handles(1)
      by (intro race_ok_frame [OF _ _ _ race_ok_worker [OF rt, of c i Receiving]]) (auto dest: handleJob_index)
  qed (use rt in \<open>auto intro!: race_ok_stream race_ok_worker elim: race_ok_frame [rotated 3]\<close>)
qed

interpretation racer: simulation "\<lambda>_ :: unit. load_step F rps E rpc" "\<lambda>_ :: unit. prefix"
  "\<lambda>s. load_running E m s \<and> race_ok F rps p s" lr_settled
proof (unfold_locales, goal_cases)
  case (1 e s t)
  then have "load_ok m 0 s" by (simp add: load_running_def)
  with 1 show ?case using load.keeps race_ok_step by blast
next
  case (2 e s t)
  then show ?case using load.follows by blast
qed

text \<open>Two streams at the heads of their loops may both enter their builders.\<close>

lemma race_reached:
  assumes ok: "load_ok m off s" and i: "i < length (lr_streams s)" "lr_streams s ! i = Looping n" "pool_draws (stream_kinds ! i) (co_pool (lr_core s))"
    and j: "j < length (lr_streams s)" "lr_streams s ! j = Looping n'" "pool_draws (stream_kinds ! j) (co_pool (lr_core s))" and ne: "i \<noteq> j"
  shows "\<exists>s'. runs (\<lambda>_ :: unit. load_step F rps E rpc) [(), ()] s s' \<and> load_panic E rpc s'"
proof -
  let ?p = "co_pool (lr_core s)"
  obtain keys where keys: "map_order keys ?p"
    using finite_distinct_list [of "{c. ap_accounts ?p c \<noteq> []}"] by (auto simp: map_order_def)
  let ?pc = "\<lambda>i n. Building n (first_stage (stream_kinds ! i) keys ?p)"
  let ?s1 = "enter_build i (?pc i n) s"
  let ?s2 = "enter_build j (?pc j n') ?s1"
  have d: "sharing (stream_kinds ! i)" "draws (?pc i n)" "sharing (stream_kinds ! j)" "draws (?pc j n')"
    using first_stage_draws [OF keys] i(3) j(3) by blast+
  have s1: "load_step F rps E rpc s ?s1" by (rule load_step.enters [OF i(1,2) keys])
  have c1: "lr_core ?s1 = lr_core s" by (simp add: enter_build_def)
  have "j < length (lr_streams ?s1)" "lr_streams ?s1 ! j = Looping n'" using j ne by (simp_all add: enter_build_def)
  from load_step.enters [OF this, of keys F rps E rpc] have s2: "load_step F rps E rpc ?s1 ?s2" using keys by (simp add: c1)
  have "may_draw i ?s1" using i d by (simp add: may_draw_def enter_build_def)
  then have raced: "lr_raced ?s2" using d ne i unfolding enter_build_def [of j] by (auto simp: list_ex_iff enter_build_def)
  have "may_draw i ?s2" using i d ne by (simp add: may_draw_def enter_build_def)
  from load_panic.race_panics [OF raced this] s1 s2 show ?thesis by (intro exI [of _ ?s2]) auto
qed

text \<open>The accounts that the bootstrap creates, and a load that \<^verbatim>\<open>LoadGenWorker\<close> starts with them, over the connections that
  \<^verbatim>\<open>main\<close> opens. The server gives every account an id of its own and a balance in the range of \<^verbatim>\<open>int64\<close>.\<close>

definition created :: "ext \<Rightarrow> 'f lg_config \<Rightarrow> code32 list \<Rightarrow> (code32 \<Rightarrow> account_reply list) \<Rightarrow> existing_account list" where
  "created E cfg values replies = concat (map (\<lambda>c. fst (CreateAccounts E (lc_BootstrapWorkers cfg) c
     (perCurrency (lc_UsersAmount cfg) (length (GetValidCurrencies values))) (lc_BootstrapMaxError cfg) (replies c))) (GetValidCurrencies values))"

definition initial_balances :: "existing_account list \<Rightarrow> (uuid \<rightharpoonup> int)" where
  "initial_balances accs = map_of (map (\<lambda>a. (ea_ID a, ea_Balance a)) accs)"

definition load_begins :: "'f float_ops \<Rightarrow> ext \<Rightarrow> 'f lg_config \<Rightarrow> existing_account list \<Rightarrow> ('f, 'w) load_run \<Rightarrow> bool" where
  "load_begins F E cfg accs s \<longleftrightarrow> uuid_laws E \<and> distinct (map ea_ID accs) \<and> list_all (\<lambda>a. bigint (ea_Balance a)) accs \<and>
     (\<exists>values probes replies now m n w m'. accs = created E cfg values replies
        \<and> LoadGenWorker F E cfg values probes replies now m (NewCoreService (NewTxManager (nat (conn_count n))) w) = Some (Load_Phase s, m'))"

lemma runLoad_ok:
  assumes "pool_ok pool" and "0 < tm_conns t"
  shows "load_ok (balances pool) 0 (runLoad F cfg now pool m (NewCoreService t w))"
proof -
  let ?s = "runLoad F cfg now pool m (NewCoreService t w)"
  have q: "0 < load_queueSize n" for n by (simp add: load_queueSize_def Let_def)
  have n: "0 < load_workers a b" for a b by (simp add: load_workers_def Let_def)
  have core: "lr_core ?s = (NewCoreService t w)\<lparr>co_pool := pool, co_jobs := []\<rparr>" and st: "lr_settled ?s = []"
    and ws: "lr_workers ?s = replicate (nat (load_workers (lc_TxWorkers cfg) (load_need F (lc_RPS cfg)))) Receiving"
    and ss: "lr_streams ?s = map (\<lambda>k. if f_le F (lc_RPS cfg k) (f_zero F) then Stream_Over else Looping now) stream_kinds"
    and rest: "lr_main ?s = Loading" "\<not> lr_closed ?s" "\<not> lr_cancelled ?s" "0 < lr_cap ?s"
    using q by (simp_all add: runLoad_def Let_def)
  have out: "outstanding ?s = {#}" unfolding outstanding_def core st ws ss by (simp add: stream_kinds_def)
  have "core_ok (lr_core ?s)" unfolding core using assms by (simp add: core_ok_def NewCoreService_def)
  moreover have "jobs_ok (balances pool) ?s" unfolding jobs_ok_def out core by simp
  moreover have "control_ok ?s"
    using n [of "lc_TxWorkers cfg" "load_need F (lc_RPS cfg)"] rest unfolding control_ok_def ws ss by (simp add: stream_kinds_def)
  moreover have "builds_ok ?s" unfolding builds_ok_def ss by auto
  moreover have "account ?s = 0"
    unfolding account_def core ws ss by (simp add: NewCoreService_def dispatched_sum_def completed_sum_def stream_kinds_def sum_list_replicate)
  ultimately show ?thesis by (simp add: load_ok_def)
qed

lemma load_begins_ok:
  assumes "load_begins F E cfg accs s"
  obtains now where "load_running E (initial_balances accs) s" and "race_ok F (lc_RPS cfg) (co_pool (lr_core s)) s"
    and "co_pool (lr_core s) = fold Add accs NewAccountPool"
    and "lr_streams s = map (\<lambda>k. if f_le F (lc_RPS cfg k) (f_zero F) then Stream_Over else Looping now) stream_kinds"
proof -
  obtain vals probes replies now m n w m' where laws: "uuid_laws E"
    and ids: "distinct (map ea_ID accs)" and range: "list_all (\<lambda>a. bigint (ea_Balance a)) accs"
    and accs: "accs = created E cfg vals replies"
    and run: "LoadGenWorker F E cfg vals probes replies now m (NewCoreService (NewTxManager (nat (conn_count n))) w) = Some (Load_Phase s, m')"
    using assms by (auto simp: load_begins_def)
  have conns: "0 < tm_conns (NewTxManager (nat (conn_count n)))" by (simp add: NewTxManager_def conn_count_def)
  obtain pool where b: "bootstrapAccounts E (lc_BootstrapWorkers cfg) (lc_UsersAmount cfg) (lc_BootstrapMaxError cfg) vals probes replies = Some (Inr pool)"
    and s: "s = runLoad F cfg now pool m' (NewCoreService (NewTxManager (nat (conn_count n))) w)"
    using run by (auto simp: LoadGenWorker_def Let_def split: if_splits option.splits sum.splits)
  have filled: "pool = fold Add accs NewAccountPool"
    using b by (auto simp: bootstrapAccounts_def Let_def accs created_def split: if_splits option.splits sum.splits)
  then have pool: "pool_ok pool" "balances pool = initial_balances accs"
    using fold_Add [OF ids range] by (simp_all add: initial_balances_def)
  have "\<forall>i x. initial_balances accs i = Some x \<longrightarrow> bigint x"
    using range by (auto simp: initial_balances_def list_all_iff dest!: map_of_SomeD)
  with runLoad_ok [OF pool(1) conns] have running: "load_running E (initial_balances accs) s"
    by (simp add: load_running_def laws pool(2) s)
  have streams: "lr_streams s = map (\<lambda>k. if f_le F (lc_RPS cfg k) (f_zero F) then Stream_Over else Looping now) stream_kinds"
    and rest: "co_pool (lr_core s) = pool" "\<not> lr_raced s" by (simp_all add: s runLoad_def Let_def)
  have "race_ok F (lc_RPS cfg) pool s" unfolding race_ok_def may_draw_def streams using pool(1) rest by auto
  then show thesis using that [of now] running streams rest(1) filled by simp
qed

lemma load_begins_running: "load_begins F E cfg accs s \<Longrightarrow> load_running E (initial_balances accs) s"
  by (rule load_begins_ok) simp

lemma race_from_start:
  assumes s: "load_begins F E cfg accs s" and race: "racing F (lc_RPS cfg) (co_pool (lr_core s))"
  shows "\<exists>es s'. runs (\<lambda>_ :: unit. load_step F (lc_RPS cfg) E rpc) es s s' \<and> load_panic E rpc s'"
proof -
  obtain now where ok: "load_running E (initial_balances accs) s"
    and streams: "lr_streams s = map (\<lambda>k. if f_le F (lc_RPS cfg k) (f_zero F) then Stream_Over else Looping now) stream_kinds"
    by (rule load_begins_ok [OF s])
  obtain k k' where k: "k \<noteq> k'" "pool_draws k (co_pool (lr_core s))" "pool_draws k' (co_pool (lr_core s))"
    "\<not> f_le F (lc_RPS cfg k) (f_zero F)" "\<not> f_le F (lc_RPS cfg k') (f_zero F)" using race by (auto simp: racing_def)
  have all: "k \<in> set stream_kinds" for k by (cases k) (simp_all add: stream_kinds_def)
  obtain i j where i: "i < length stream_kinds" "stream_kinds ! i = k" and j: "j < length stream_kinds" "stream_kinds ! j = k'"
    using all by (metis in_set_conv_nth)
  have "load_ok (initial_balances accs) 0 s" using ok by (simp add: load_running_def)
  from race_reached [OF this, of i now j now F "lc_RPS cfg" E rpc] show ?thesis using i j k by (fastforce simp: streams)
qed

lemma load_can_return:
  assumes "load_running E m s" and "lr_cancelled s"
  shows "\<exists>es s'. runs (\<lambda>_ :: unit. load_step F rps E rpc) es s s' \<and> length es \<le> load_left s \<and> lr_main s' = Load_Over"
  using assms
proof (induction "load_left s" arbitrary: s rule: less_induct)
  case less
  show ?case
  proof (cases "lr_main s = Load_Over")
    case True
    then show ?thesis by (intro exI [of _ "[]"] exI [of _ s]) simp
  next
    case False
    have "load_ok m 0 s" "uuid_laws E" using less.prems(1) by (simp_all add: load_running_def)
    from load_can_end [OF this less.prems(2) False] obtain s1 where
      s1: "load_step F rps E rpc s s1" "load_left s1 < load_left s" "lr_cancelled s1" by blast
    from less.hyps [OF s1(2) load.keeps [OF s1(1) less.prems(1)] s1(3)] obtain es s' where
      es: "runs (\<lambda>_ :: unit. load_step F rps E rpc) es s1 s'" "length es \<le> load_left s1" "lr_main s' = Load_Over" by blast
    with s1 show ?thesis by (intro exI [of _ "() # es"] exI [of _ s']) auto
  qed
qed

lemma load_over:
  assumes "load_running E m s" and "lr_main s = Load_Over"
  shows "outstanding s = mset (lr_settled s) \<and> co_jobs (lr_core s) = []
    \<and> list_all (\<lambda>pc. pc = Stream_Over) (lr_streams s) \<and> list_all (\<lambda>pc. pc = Worker_Over) (lr_workers s)"
proof -
  have ct: "control_ok s" using assms(1) by (simp add: load_running_def load_ok_def)
  with assms(2) have cl: "lr_closed s" and ws: "\<forall>pc\<in>set (lr_workers s). pc = Worker_Over" and ne: "lr_workers s \<noteq> []"
    by (simp_all add: control_ok_def)
  have ss: "\<forall>pc\<in>set (lr_streams s). pc = Stream_Over" using ct cl by (simp add: control_ok_def)
  have "Worker_Over \<in> set (lr_workers s)" using ws ne by (metis last_in_set)
  with ct have js: "co_jobs (lr_core s) = []" by (simp add: control_ok_def)
  have "concat (map held_jobs (lr_streams s)) = []" "concat (map worked_jobs (lr_workers s)) = []" using ss ws by auto
  then have "outstanding s = mset (lr_settled s)" by (simp add: outstanding_def js)
  with js ss ws show ?thesis by (simp add: list_all_iff)
qed

lemma account_over:
  assumes "load_running E m s" and "lr_main s = Load_Over"
  shows "(of_int (dispatched_sum (co_stats (lr_core s))) :: 64 word) = of_int (completed_sum (co_stats (lr_core s)))"
proof -
  have "account s = 0" using assms(1) by (simp add: load_running_def load_ok_def)
  moreover have "sum_list (map uncounted (lr_streams s)) = 0" "sum_list (map uncompleted (lr_workers s)) = 0" "co_jobs (lr_core s) = []"
    using load_over [OF assms] by (auto simp: list_all_iff)
  ultimately show ?thesis by (simp add: account_def)
qed

section \<open>The load phase\<close>

text \<open>C37. However its goroutines interleave, a load that \<^verbatim>\<open>LoadGenWorker\<close> starts (\<open>load_begins\<close>: with accounts that have ids of their own)
  can panic in one way only, whatever the server answers: by the race of its builders on the random source that
  they share without a lock (\<^verbatim>\<open>core.go:133\<close>). In a state where some goroutine may panic, two streams have been
  drawing at the same time and one of them is about to draw; no builder runs out of candidates it needs, no stream
  sends on the closed channel, no rollback or job fails, and the channel is closed once. A run gets to such a state
  exactly if two of the three streams have a rate and find accounts to draw (\<open>racing\<close>). At every moment the balances of
  the pool are the balances of the created accounts, moved by exactly the jobs that went through or are still outstanding.\<close>

theorem load_panics_only_by_race:
  assumes begin_load: "load_begins F E cfg accs s0" and run: "runs (\<lambda>_ :: unit. load_step F (lc_RPS cfg) E rpc) es s0 s"
  shows "(load_panic E rpc s \<longrightarrow> lr_raced s \<and> (\<exists>i. may_draw i s))
    \<and> ((\<exists>fs t. runs (\<lambda>_ :: unit. load_step F (lc_RPS cfg) E rpc) fs s0 t \<and> load_panic E rpc t) \<longleftrightarrow> racing F (lc_RPS cfg) (co_pool (lr_core s0)))
    \<and> moved (outstanding s) (initial_balances accs) (balances (co_pool (lr_core s)))"
proof -
  have ok0: "load_running E (initial_balances accs) s0 \<and> race_ok F (lc_RPS cfg) (co_pool (lr_core s0)) s0"
    by (rule load_begins_ok [OF begin_load]) simp
  have inv: "load_ok (initial_balances accs) 0 t \<and> uuid_laws E \<and> race_ok F (lc_RPS cfg) (co_pool (lr_core s0)) t"
    if "runs (\<lambda>_ :: unit. load_step F (lc_RPS cfg) E rpc) fs s0 t" for fs t
    using racer.runs_ok [OF that ok0] by (simp add: load_running_def)
  have panic: "lr_raced t \<and> (\<exists>i. may_draw i t)"
    if "runs (\<lambda>_ :: unit. load_step F (lc_RPS cfg) E rpc) fs s0 t" "load_panic E rpc t" for fs t
    using load_panic_race inv [OF that(1)] that(2) by blast
  have "racing F (lc_RPS cfg) (co_pool (lr_core s0))"
    if "runs (\<lambda>_ :: unit. load_step F (lc_RPS cfg) E rpc) fs s0 t" "load_panic E rpc t" for fs t
    using panic [OF that] inv [OF that(1)] by (simp add: race_ok_def)
  with panic [OF run] inv [OF run] race_from_start [OF begin_load] show ?thesis by (auto simp: load_ok_def jobs_ok_def)
qed

text \<open>C38. When \<^verbatim>\<open>runLoad\<close> has returned, nothing of the load is left: the queue is empty, every stream and worker
  has ended, every job that was counted as dispatched was counted as completed (modulo the width of the counters), and the balances of
  the pool are those of the created accounts moved by exactly the jobs whose transfer went through.\<close>

theorem load_drained:
  assumes begin_load: "load_begins F E cfg accs s0" and run: "runs (\<lambda>_ :: unit. load_step F (lc_RPS cfg) E rpc) es s0 s"
    and over: "lr_main s = Load_Over"
  shows "co_jobs (lr_core s) = [] \<and> list_all (\<lambda>pc. pc = Stream_Over) (lr_streams s) \<and> list_all (\<lambda>pc. pc = Worker_Over) (lr_workers s)
    \<and> (of_int (dispatched_sum (co_stats (lr_core s))) :: 64 word) = of_int (completed_sum (co_stats (lr_core s)))
    \<and> moved (mset (lr_settled s)) (initial_balances accs) (balances (co_pool (lr_core s)))"
proof -
  have ok: "load_running E (initial_balances accs) s" using load.runs_ok [OF run load_begins_running [OF begin_load]] .
  then have "moved (outstanding s) (initial_balances accs) (balances (co_pool (lr_core s)))"
    by (simp add: load_running_def load_ok_def jobs_ok_def)
  with load_over [OF ok over] account_over [OF ok over] show ?thesis by simp
qed

text \<open>C39. A load whose context has ended can always return: from every state its goroutines have reached there is a run of at most
  \<open>load_left\<close> steps in which every stream finishes its builder and takes the branch of the context, the workers drain the queue and
  \<^verbatim>\<open>runLoad\<close> returns; no state is a deadlock.\<close>

theorem load_returns:
  assumes begin_load: "load_begins F E cfg accs s0" and run: "runs (\<lambda>_ :: unit. load_step F (lc_RPS cfg) E rpc) es s0 s"
    and cancelled: "lr_cancelled s"
  shows "\<exists>fs s'. runs (\<lambda>_ :: unit. load_step F (lc_RPS cfg) E rpc) fs s s' \<and> length fs \<le> load_left s \<and> lr_main s' = Load_Over"
  using load_can_return [OF load.runs_ok [OF run load_begins_running [OF begin_load]] cancelled] .

subsection \<open>A small load\<close>

definition sample_load :: "real lg_config" where
  "sample_load = \<lparr>lc_Working = True, lc_UsersAmount = 3, lc_RPS = (\<lambda>_. 10), lc_LoadDuration = 0, lc_BootstrapWorkers = 4,
     lc_TxWorkers = 2, lc_BootstrapMaxError = 33\<rparr>"

definition two_accounts :: "existing_account list" where
  "two_accounts = [\<lparr>ea_ID = 1, ea_Currency = 1, ea_Balance = 100\<rparr>, \<lparr>ea_ID = 2, ea_Currency = 1, ea_Balance = 50\<rparr>]"

lemma sample_load_begins: "\<exists>s :: (real, unit) load_run. load_begins exact_ops ref_ext sample_load two_accounts s"
proof -
  obtain pool where b: "bootstrapAccounts ref_ext 4 3 33 [1, 0] [Refused, Ready] sample_accounts = Some (Inr pool)"
    and n: "Total (GetValidCurrencies [1, 0]) pool = 2" using sample_bootstrap by blast
  have v: "GetValidCurrencies [1, 0] = [1]" by (simp add: GetValidCurrencies_def)
  have accs: "two_accounts = created ref_ext sample_load [1, 0] sample_accounts"
    using sample_created by (simp add: created_def sample_load_def two_accounts_def v)
  have "\<exists>s m'. LoadGenWorker exact_ops ref_ext sample_load [1, 0] [Refused, Ready] sample_accounts 0
      \<lparr>targetRPS = Map.empty, queueDepth = 0\<rparr> (NewCoreService (NewTxManager (nat (conn_count 0))) ()) = Some (Load_Phase s, m')"
    using b n by (simp add: LoadGenWorker_def sample_load_def Let_def)
  then obtain s m' where s: "LoadGenWorker exact_ops ref_ext sample_load [1, 0] [Refused, Ready] sample_accounts 0
      \<lparr>targetRPS = Map.empty, queueDepth = 0\<rparr> (NewCoreService (NewTxManager (nat (conn_count 0))) ()) = Some (Load_Phase s, m')" by blast
  have "distinct (map ea_ID two_accounts)" "list_all (\<lambda>a. bigint (ea_Balance a)) two_accounts"
    by (simp_all add: two_accounts_def bigint_def)
  then have "load_begins exact_ops ref_ext sample_load two_accounts s"
    unfolding load_begins_def using accs s ref_uuid_laws by blast
  then show ?thesis ..
qed

lemma sample_load_ends:
  "\<exists>(s0 :: (real, unit) load_run) es s. load_begins exact_ops ref_ext sample_load two_accounts s0
     \<and> runs (\<lambda>_ :: unit. load_step exact_ops (lc_RPS sample_load) ref_ext down_rpc) es s0 s \<and> lr_main s = Load_Over"
proof -
  obtain s0 :: "(real, unit) load_run" where s0: "load_begins exact_ops ref_ext sample_load two_accounts s0" using sample_load_begins by blast
  let ?s1 = "s0\<lparr>lr_cancelled := True\<rparr>"
  have c: "load_step exact_ops (lc_RPS sample_load) ref_ext down_rpc s0 ?s1" by (rule load_step.cancelled)
  from load_can_return [OF load.keeps [OF c load_begins_running [OF s0]], of exact_ops "lc_RPS sample_load" down_rpc] obtain es s where
    "runs (\<lambda>_ :: unit. load_step exact_ops (lc_RPS sample_load) ref_ext down_rpc) es ?s1 s" "lr_main s = Load_Over" by auto
  with c s0 show ?thesis by (intro exI [of _ s0] exI [of _ "() # es"] exI [of _ s]) auto
qed

lemma sample_races:
  assumes s: "load_begins exact_ops ref_ext sample_load two_accounts s"
  shows "racing exact_ops (lc_RPS sample_load) (co_pool (lr_core s))"
proof -
  have "co_pool (lr_core s) = fold Add two_accounts NewAccountPool" by (rule load_begins_ok [OF s])
  then have "length (ap_accounts (co_pool (lr_core s)) 1) = 2" by (simp add: two_accounts_def Add_def NewAccountPool_def)
  then have "pool_draws StreamValid (co_pool (lr_core s)) \<and> pool_draws StreamInvalidBalance (co_pool (lr_core s))"
    by (simp add: pool_draws_def) (metis order_refl)
  then show ?thesis
    unfolding racing_def by (intro exI [of _ StreamValid] exI [of _ StreamInvalidBalance]) (simp add: exact_ops_def sample_load_def)
qed

theorem load_panics_only_by_race_witness:
  "\<exists>(s0 :: (real, unit) load_run) es s t fs. runs (\<lambda>_ :: unit. load_step exact_ops (lc_RPS sample_load) ref_ext down_rpc) es s0 s
     \<and> lr_main s = Load_Over \<and> moved (outstanding s) [1 \<mapsto> 100, 2 \<mapsto> 50] (balances (co_pool (lr_core s)))
     \<and> runs (\<lambda>_ :: unit. load_step exact_ops (lc_RPS sample_load) ref_ext down_rpc) fs s0 t \<and> load_panic ref_ext down_rpc t"
proof -
  obtain s0 s :: "(real, unit) load_run" and es where s: "load_begins exact_ops ref_ext sample_load two_accounts s0"
    "runs (\<lambda>_ :: unit. load_step exact_ops (lc_RPS sample_load) ref_ext down_rpc) es s0 s" "lr_main s = Load_Over" using sample_load_ends by blast
  have "initial_balances two_accounts = [1 \<mapsto> 100, 2 \<mapsto> 50]" by (simp add: initial_balances_def two_accounts_def fun_upd_twist)
  with load_panics_only_by_race [OF s(1,2)] sample_races [OF s(1)] s(2,3) show ?thesis by metis
qed

theorem load_drained_witness:
  "\<exists>(s0 :: (real, unit) load_run) es s. runs (\<lambda>_ :: unit. load_step exact_ops (lc_RPS sample_load) ref_ext down_rpc) es s0 s
     \<and> lr_main s = Load_Over \<and> co_jobs (lr_core s) = [] \<and> list_all (\<lambda>pc. pc = Worker_Over) (lr_workers s)"
proof -
  obtain s0 s :: "(real, unit) load_run" and es where s: "load_begins exact_ops ref_ext sample_load two_accounts s0"
    "runs (\<lambda>_ :: unit. load_step exact_ops (lc_RPS sample_load) ref_ext down_rpc) es s0 s" "lr_main s = Load_Over" using sample_load_ends by blast
  from load_drained [OF s] s(2,3) show ?thesis by blast
qed

theorem load_returns_witness:
  "\<exists>(s :: (real, unit) load_run) fs s'. lr_main s = Loading \<and> runs (\<lambda>_ :: unit. load_step exact_ops (lc_RPS sample_load) ref_ext down_rpc) fs s s' \<and> lr_main s' = Load_Over"
proof -
  obtain s0 :: "(real, unit) load_run" where s0: "load_begins exact_ops ref_ext sample_load two_accounts s0" using sample_load_begins by blast
  let ?s1 = "s0\<lparr>lr_cancelled := True\<rparr>"
  have r: "runs (\<lambda>_ :: unit. load_step exact_ops (lc_RPS sample_load) ref_ext down_rpc) [()] s0 ?s1"
    using load_step.cancelled [of exact_ops "lc_RPS sample_load" ref_ext down_rpc s0] by simp
  have "lr_main ?s1 = Loading"
    using s0 by (auto simp: load_begins_def LoadGenWorker_def runLoad_def Let_def split: if_splits option.splits sum.splits)
  moreover obtain fs s' where "runs (\<lambda>_ :: unit. load_step exact_ops (lc_RPS sample_load) ref_ext down_rpc) fs ?s1 s'" "lr_main s' = Load_Over"
    using load_returns [OF s0 r] by auto
  ultimately show ?thesis by blast
qed

end
