(* ===== verification/Config.thy ===== *)
theory Config
  imports Ledger_Prelude "HOL-Library.Monad_Syntax"
begin

text \<open>
  The pure parts of the start-up code: the configuration of \<^verbatim>\<open>internal/config\<close> with its addresses and connection
  strings, the choice of the log handler in \<^verbatim>\<open>internal/infra/logger\<close>, and the resolver of the load generator
  (\<^verbatim>\<open>loadgen/service/k8sresolver.go\<close>). The package that reads a variable of the environment and converts
  it is a parameter; the variables and defaults are those of the tags.
\<close>

section \<open>Addresses\<close>

text \<open>\<^verbatim>\<open>strings.Split\<close> with a separator of one character.\<close>

fun split_on :: "char \<Rightarrow> string \<Rightarrow> string list" where
  "split_on sep [] = [[]]"
| "split_on sep (c # cs) =
     (if c = sep then [] # split_on sep cs
      else case split_on sep cs of [] \<Rightarrow> [[c]] | p # ps \<Rightarrow> (c # p) # ps)"

definition splitAddrs :: "string \<Rightarrow> string list" where
  "splitAddrs addrs = split_on CHR '','' addrs"

section \<open>The environment\<close>

text \<open>The package \<^verbatim>\<open>env\<close>: the value of a field from its variable and default, \<open>None\<close> for an error. A tag without
  default has the empty one.\<close>

record env_parser =
  ep_string :: "string \<Rightarrow> string \<Rightarrow> string option"
  ep_int :: "string \<Rightarrow> string \<Rightarrow> int option"
  ep_int32 :: "string \<Rightarrow> string \<Rightarrow> int option"
  ep_duration :: "string \<Rightarrow> string \<Rightarrow> int option"
  ep_bool_ptr :: "string \<Rightarrow> bool option option"

definition or_error :: "string \<Rightarrow> 'a option \<Rightarrow> string + 'a" where
  "or_error msg x = (case x of None \<Rightarrow> Inl msg | Some y \<Rightarrow> Inr y)"

text \<open>\<open>loads\<close> says which files exist: the first of the two is read.\<close>

definition LoadDotEnv :: "(string \<Rightarrow> bool) \<Rightarrow> string option" where
  "LoadDotEnv loads = find loads [''.env'', ''../../.env'']"

record log_config =
  lg_Environment :: string
  lg_Level :: string
  lg_AddSource :: "bool option"
  lg_IsJSON :: "bool option"

definition LoadLog :: "env_parser \<Rightarrow> string + log_config" where
  "LoadLog P = or_error ''log config'' (do {
     e \<leftarrow> ep_string P ''ENVIRONMENT'' ''development'';
     l \<leftarrow> ep_string P ''LOG_LEVEL'' [];
     a \<leftarrow> ep_bool_ptr P ''ADD_SOURCE'';
     j \<leftarrow> ep_bool_ptr P ''IS_JSON'';
     Some \<lparr>lg_Environment = e, lg_Level = l, lg_AddSource = a, lg_IsJSON = j\<rparr>})"

definition LoadGRPC :: "env_parser \<Rightarrow> string + string" where
  "LoadGRPC P = or_error ''grpc config'' (ep_string P ''GRPC_PORT'' ''50051'')"

record telemetry_config =
  tc_ServiceName :: string
  tc_MetricsPort :: string

definition LoadTelemetry :: "env_parser \<Rightarrow> string + telemetry_config" where
  "LoadTelemetry P = or_error ''telemetry config'' (do {
     n \<leftarrow> ep_string P ''SERVICE_NAME'' ''ledger'';
     p \<leftarrow> ep_string P ''METRICS_PORT'' ''6767'';
     Some \<lparr>tc_ServiceName = n, tc_MetricsPort = p\<rparr>})"

record worker_config =
  wc_Name :: string
  wc_BatchSize :: int
  wc_Backoff :: int

definition LoadPostingWorker :: "env_parser \<Rightarrow> string + worker_config" where
  "LoadPostingWorker P = or_error ''posting worker config'' (do {
     n \<leftarrow> ep_string P ''POSTING_WORKER_NAME'' ''balance_verifier'';
     b \<leftarrow> ep_int P ''POSTING_WORKER_BATCH_SIZE'' ''100'';
     t \<leftarrow> ep_duration P ''POSTING_WORKER_BACKOFF'' ''5s'';
     Some \<lparr>wc_Name = n, wc_BatchSize = b, wc_Backoff = t\<rparr>})"

text \<open>\<^verbatim>\<open>KafkaProducer\<close> has no group.\<close>

record kafka_config =
  kc_Brokers :: string
  kc_Topic :: string
  kc_GroupID :: string

definition LoadKafkaProducer :: "env_parser \<Rightarrow> string + kafka_config" where
  "LoadKafkaProducer P = or_error ''kafka producer config'' (do {
     b \<leftarrow> ep_string P ''KAFKA_BROKERS'' ''kafka:29092'';
     t \<leftarrow> ep_string P ''KAFKA_TOPIC'' ''completed_transactions'';
     Some \<lparr>kc_Brokers = b, kc_Topic = t, kc_GroupID = []\<rparr>})"

definition LoadKafkaConsumer :: "env_parser \<Rightarrow> string + kafka_config" where
  "LoadKafkaConsumer P = or_error ''kafka consumer config'' (do {
     b \<leftarrow> ep_string P ''KAFKA_BROKERS'' ''kafka:29092'';
     t \<leftarrow> ep_string P ''KAFKA_TOPIC'' ''completed_transactions'';
     g \<leftarrow> ep_string P ''KAFKA_CONSUMER_GROUP'' ''ledger-stats-cache'';
     Some \<lparr>kc_Brokers = b, kc_Topic = t, kc_GroupID = g\<rparr>})"

definition BrokerList :: "kafka_config \<Rightarrow> string list" where
  "BrokerList k = splitAddrs (kc_Brokers k)"

text \<open>Both \<^verbatim>\<open>Redis\<close> and \<^verbatim>\<open>Idempotency\<close>; only the former has a lifetime for transactions.\<close>

record redis_config =
  rc_Host :: string
  rc_Port :: string
  rc_Password :: string
  rc_DB :: int
  rc_PoolSize :: int
  rc_MinIdleConns :: int
  rc_PoolTimeout :: int

record redis_ttl_config = redis_config +
  rc_TransactionTTL :: int

definition LoadRedis :: "env_parser \<Rightarrow> string + redis_ttl_config" where
  "LoadRedis P = or_error ''redis config'' (do {
     h \<leftarrow> ep_string P ''REDIS_HOST'' [];
     p \<leftarrow> ep_string P ''REDIS_PORT'' ''6379'';
     w \<leftarrow> ep_string P ''REDIS_PASSWORD'' [];
     d \<leftarrow> ep_int P ''REDIS_DB'' ''0'';
     s \<leftarrow> ep_int P ''REDIS_POOL_SIZE'' ''1500'';
     m \<leftarrow> ep_int P ''REDIS_MIN_IDLE_CONNS'' ''200'';
     t \<leftarrow> ep_duration P ''REDIS_POOL_TIMEOUT'' ''4s'';
     l \<leftarrow> ep_duration P ''REDIS_TRANSACTION_TTL'' ''67m'';
     Some \<lparr>rc_Host = h, rc_Port = p, rc_Password = w, rc_DB = d, rc_PoolSize = s, rc_MinIdleConns = m, rc_PoolTimeout = t,
       rc_TransactionTTL = l\<rparr>})"

definition LoadIdempotency :: "env_parser \<Rightarrow> string + redis_config" where
  "LoadIdempotency P = or_error ''env'' (do {
     h \<leftarrow> ep_string P ''IDEMPOTENCY_REDIS_HOST'' ''127.0.0.1'';
     p \<leftarrow> ep_string P ''IDEMPOTENCY_REDIS_PORT'' ''6377'';
     w \<leftarrow> ep_string P ''IDEMPOTENCY_REDIS_PASSWORD'' ''password'';
     d \<leftarrow> ep_int P ''IDEMPOTENCY_REDIS_DB'' ''0'';
     s \<leftarrow> ep_int P ''IDEMPOTENCY_REDIS_POOL_SIZE'' ''1500'';
     m \<leftarrow> ep_int P ''IDEMPOTENCY_REDIS_MIN_IDLE_CONNS'' ''200'';
     t \<leftarrow> ep_duration P ''IDEMPOTENCY_REDIS_POOL_TIMEOUT'' ''4s'';
     Some \<lparr>rc_Host = h, rc_Port = p, rc_Password = w, rc_DB = d, rc_PoolSize = s, rc_MinIdleConns = m, rc_PoolTimeout = t\<rparr>})"

definition Addr :: "'a redis_config_scheme \<Rightarrow> string" where
  "Addr r = rc_Host r @ '':'' @ rc_Port r"

record postgres_config =
  pc_SuperUser :: string
  pc_SuperUserPass :: string
  pc_User :: string
  pc_Password :: string
  pc_Name :: string
  pc_Host :: string
  pc_Port :: string
  pc_SSLMode :: string
  pc_MaxConns :: int
  pc_MinConns :: int
  pc_DSN :: string

definition LoadPostgres :: "env_parser \<Rightarrow> string + postgres_config" where
  "LoadPostgres P = or_error ''postgres config'' (do {
     su \<leftarrow> ep_string P ''DB_SUPER_USER'' [];
     sp \<leftarrow> ep_string P ''DB_SUPER_PASSWORD'' [];
     u \<leftarrow> ep_string P ''DB_USER'' [];
     w \<leftarrow> ep_string P ''DB_PASSWORD'' [];
     n \<leftarrow> ep_string P ''DB_NAME'' [];
     h \<leftarrow> ep_string P ''DB_HOST'' [];
     p \<leftarrow> ep_string P ''DB_PORT'' [];
     m \<leftarrow> ep_string P ''DB_SSL_MODE'' [];
     x \<leftarrow> ep_int32 P ''DB_MAX_CONNS'' ''400'';
     i \<leftarrow> ep_int32 P ''DB_MIN_CONNS'' ''50'';
     d \<leftarrow> ep_string P ''DSN'' [];
     Some \<lparr>pc_SuperUser = su, pc_SuperUserPass = sp, pc_User = u, pc_Password = w, pc_Name = n, pc_Host = h, pc_Port = p,
       pc_SSLMode = m, pc_MaxConns = x, pc_MinConns = i, pc_DSN = d\<rparr>})"

definition ConnectionString :: "postgres_config \<Rightarrow> string" where
  "ConnectionString p =
     (if pc_DSN p \<noteq> [] then pc_DSN p
      else ''postgres://'' @ pc_SuperUser p @ '':'' @ pc_SuperUserPass p @ ''@'' @ pc_Host p @ '':'' @ pc_Port p
        @ ''/'' @ pc_Name p @ ''?sslmode='' @ pc_SSLMode p)"

section \<open>Logging\<close>

datatype level = LevelDebug | LevelInfo | LevelWarn | LevelError

record log_handler =
  lh_Level :: level
  lh_AddSource :: bool
  lh_JSON :: bool

fun log_level :: "string \<Rightarrow> level" where
  "log_level s =
     (if s = ''debug'' then LevelDebug else if s = ''info'' then LevelInfo
      else if s = ''warn'' then LevelWarn else if s = ''error'' then LevelError else LevelInfo)"

definition logger_New :: "string \<Rightarrow> string \<Rightarrow> bool option \<Rightarrow> bool option \<Rightarrow> log_handler" where
  "logger_New env logLevel addSource isJSON =
     (let dev = (env = ''development'');
          finalLogLevel = (if logLevel \<noteq> '''' then logLevel else if dev then ''debug'' else ''info'');
          finalIsJSON = (case isJSON of Some b \<Rightarrow> b | None \<Rightarrow> \<not> dev);
          finalAddSource = (case addSource of Some b \<Rightarrow> b | None \<Rightarrow> dev)
      in \<lparr>lh_Level = log_level finalLogLevel, lh_AddSource = finalAddSource, lh_JSON = finalIsJSON\<rparr>)"

section \<open>Name resolution\<close>

definition JoinHostPort :: "string \<Rightarrow> string \<Rightarrow> string" where
  "JoinHostPort host port = (if CHR '':'' \<in> set host then ''['' @ host @ '']:'' @ port else host @ '':'' @ port)"

text \<open>What the resolver told its connection: an error or a list of addresses.\<close>

datatype cc_event = ReportError | UpdateState "string list"

text \<open>\<open>lookup\<close> is the answer of \<^verbatim>\<open>net.LookupHost\<close>.\<close>

definition resolve :: "string \<Rightarrow> string list option \<Rightarrow> cc_event list \<Rightarrow> cc_event list" where
  "resolve port lookup cc =
     (case lookup of
        None \<Rightarrow> cc @ [ReportError]
      | Some ips \<Rightarrow> cc @ [UpdateState (map (\<lambda>ip. JoinHostPort ip port) ips)])"

text \<open>\<^verbatim>\<open>net.SplitHostPort\<close>: the port follows the last colon, a host with colons is in brackets.\<close>

definition SplitHostPort :: "string \<Rightarrow> (string \<times> string) option" where
  "SplitHostPort s =
     (if CHR '':'' \<notin> set s then None
      else let port = rev (takeWhile (\<lambda>c. c \<noteq> CHR '':'') (rev s)); i = length s - length port - 1
           in if hd s = CHR ''['' then
                (let e = length (takeWhile (\<lambda>c. c \<noteq> CHR '']'') s)
                 in if CHR '']'' \<notin> set s \<or> e + 1 \<noteq> i \<or> CHR ''['' \<in> set (drop 1 s) \<or> CHR '']'' \<in> set (drop (e + 1) s) then None
                    else Some (take (e - 1) (drop 1 s), port))
              else if CHR '':'' \<in> set (take i s) \<or> CHR ''['' \<in> set s \<or> CHR '']'' \<in> set s then None
              else Some (take i s, port))"

text \<open>A resolver, what it told its connection, and its goroutine \<^verbatim>\<open>watch\<close>.\<close>

record k8s_resolver =
  rs_host :: string
  rs_port :: string
  rs_cc :: "cc_event list"
  rs_cancelled :: bool
  rs_watching :: bool

definition rs_resolve :: "(string \<Rightarrow> string list option) \<Rightarrow> k8s_resolver \<Rightarrow> k8s_resolver" where
  "rs_resolve lookup r = r\<lparr>rs_cc := resolve (rs_port r) (lookup (rs_host r)) (rs_cc r)\<rparr>"

definition Build :: "string \<Rightarrow> (string \<Rightarrow> string list option) \<Rightarrow> k8s_resolver option" where
  "Build endpoint lookup = (case SplitHostPort endpoint of
     None \<Rightarrow> None
   | Some (host, port) \<Rightarrow> Some ((rs_resolve lookup
       \<lparr>rs_host = host, rs_port = port, rs_cc = [], rs_cancelled = False, rs_watching = False\<rparr>)\<lparr>rs_watching := True\<rparr>))"

text \<open>What happens to a resolver: ticks of its goroutine, whose \<^verbatim>\<open>select\<close> may prefer a tick to the end of the context,
  calls of gRPC, and the two halves of \<^verbatim>\<open>Close\<close>.\<close>

datatype resolver_event = Tick | Watch_Ends | Resolve_Now | Cancel | Close_Returns

inductive resolver_step :: "resolver_event \<Rightarrow> k8s_resolver \<Rightarrow> k8s_resolver \<Rightarrow> bool" where
  tick: "rs_watching r \<Longrightarrow> resolver_step Tick r (rs_resolve lookup r)"
| ends: "rs_watching r \<Longrightarrow> rs_cancelled r \<Longrightarrow> resolver_step Watch_Ends r (r\<lparr>rs_watching := False\<rparr>)"
| now: "resolver_step Resolve_Now r (rs_resolve lookup r)"
| cancel: "resolver_step Cancel r (r\<lparr>rs_cancelled := True\<rparr>)"
| close: "rs_cancelled r \<Longrightarrow> \<not> rs_watching r \<Longrightarrow> resolver_step Close_Returns r r"

section \<open>Facts\<close>

fun join_with :: "char \<Rightarrow> string list \<Rightarrow> string" where
  "join_with sep [] = []"
| "join_with sep [p] = p"
| "join_with sep (p # q # ps) = p @ sep # join_with sep (q # ps)"

lemma split_on_Cons: "\<exists>p ps. split_on sep s = p # ps"
  by (induction s) (auto split: list.splits)

lemma split_on_pieces: "p \<in> set (split_on sep s) \<Longrightarrow> sep \<notin> set p"
proof (induction s arbitrary: p)
  case (Cons c cs)
  then show ?case using split_on_Cons [of sep cs] by (auto split: if_splits)
qed simp

text \<open>Joining the pieces gives the text back, no piece holds a separator, and there is always one:
  an empty list of brokers is one broker with an empty address.\<close>

lemma splitAddrs_join: "join_with CHR '','' (splitAddrs s) = s"
proof -
  have "join_with sep (split_on sep s) = s" for sep
  proof (induction s)
    case (Cons c cs)
    obtain p ps where p: "split_on sep cs = p # ps" using split_on_Cons by blast
    with Cons show ?case by (cases ps) auto
  qed simp
  then show ?thesis by (simp add: splitAddrs_def)
qed

lemma BrokerList_pieces:
  "BrokerList k \<noteq> []" "b \<in> set (BrokerList k) \<Longrightarrow> CHR '','' \<notin> set b" "kc_Brokers k = '''' \<Longrightarrow> BrokerList k = ['''']"
  using split_on_Cons [of "CHR '',''" "kc_Brokers k"] split_on_pieces
  by (auto simp: BrokerList_def splitAddrs_def)

text \<open>User and password are not escaped: different configurations have one connection string.\<close>

lemma ConnectionString_ambiguous:
  "pc_DSN p = [] \<Longrightarrow> ConnectionString (p\<lparr>pc_SuperUserPass := ''b@c'', pc_Host := ''d''\<rparr>)
     = ConnectionString (p\<lparr>pc_SuperUserPass := ''b'', pc_Host := ''c@d''\<rparr>)"
  by (simp add: ConnectionString_def)

text \<open>An explicit setting wins over the default of the environment.\<close>

lemma logger_New_explicit:
  "logLevel \<noteq> '''' \<Longrightarrow> logger_New env logLevel (Some a) (Some j) = \<lparr>lh_Level = log_level logLevel, lh_AddSource = a, lh_JSON = j\<rparr>"
  by (simp add: logger_New_def)

lemma JoinHostPort_v4: "CHR '':'' \<notin> set host \<Longrightarrow> CHR '':'' \<notin> set port \<Longrightarrow> split_on CHR '':'' (JoinHostPort host port) = [host, port]"
proof -
  have "split_on sep (a @ sep # b) = [a, b]" if "sep \<notin> set a" "sep \<notin> set b" for sep a b
  proof -
    have "split_on sep b = [b]" using that(2) by (induction b) auto
    with that(1) show ?thesis by (induction a) auto
  qed
  then show "CHR '':'' \<notin> set host \<Longrightarrow> CHR '':'' \<notin> set port \<Longrightarrow> ?thesis" by (simp add: JoinHostPort_def)
qed

lemma takeWhile_rev_last: "c \<notin> set ys \<Longrightarrow> takeWhile (\<lambda>x. x \<noteq> c) (rev (xs @ c # ys)) = rev ys"
  by (simp add: takeWhile_append)

text \<open>Joining and splitting, for IPv6 addresses too.\<close>

lemma SplitHostPort_Join:
  assumes h: "CHR ''['' \<notin> set host" "CHR '']'' \<notin> set host" and p: "CHR '':'' \<notin> set port" "CHR ''['' \<notin> set port" "CHR '']'' \<notin> set port"
  shows "SplitHostPort (JoinHostPort host port) = Some (host, port)"
proof (cases "CHR '':'' \<in> set host")
  case True
  let ?s = "CHR ''['' # host @ CHR '']'' # CHR '':'' # port"
  have w: "rev (takeWhile (\<lambda>c. c \<noteq> CHR '':'') (rev ?s)) = port"
    using takeWhile_rev_last [OF p(1), of "CHR ''['' # host @ [CHR '']'']"] by simp
  have e: "length (takeWhile (\<lambda>c. c \<noteq> CHR '']'') ?s) = Suc (length host)"
    using h(2) by (simp add: takeWhile_append)
  have "SplitHostPort ?s = Some (host, port)"
    unfolding SplitHostPort_def Let_def w e using h p by simp
  then show ?thesis using True by (simp add: JoinHostPort_def)
next
  case False
  let ?s = "host @ CHR '':'' # port"
  have w: "rev (takeWhile (\<lambda>c. c \<noteq> CHR '':'') (rev ?s)) = port" using takeWhile_rev_last [OF p(1), of host] by simp
  have "hd ?s \<noteq> CHR ''[''" using h(1) by (cases host) auto
  then have "SplitHostPort ?s = Some (host, port)"
    unfolding SplitHostPort_def Let_def w using h p False by simp
  then show ?thesis using False by (simp add: JoinHostPort_def)
qed

text \<open>Once \<^verbatim>\<open>Close\<close> has returned, only \<^verbatim>\<open>ResolveNow\<close> speaks to the connection.\<close>

lemma resolver_closed:
  assumes "resolver_step e r r'" and "rs_cancelled r" and "\<not> rs_watching r"
  shows "rs_cancelled r' \<and> \<not> rs_watching r' \<and> (e \<noteq> Resolve_Now \<longrightarrow> rs_cc r' = rs_cc r)"
  using assms by (cases rule: resolver_step.cases) (auto simp: rs_resolve_def)

lemma resolver_fields: "resolver_step e r r' \<Longrightarrow> rs_host r' = rs_host r \<and> rs_port r' = rs_port r"
  by (cases rule: resolver_step.cases) (auto simp: rs_resolve_def)

end
