(* ===== verification/Lifecycle.thy ===== *)
theory Lifecycle
  imports Config Stats_UC Posting_Worker Loadgen_Run_Laws
begin

text \<open>
  The four programs of \<^verbatim>\<open>cmd/\<close>: what each of them does from its start to its exit, in order, and the HTTP
  server of \<^verbatim>\<open>internal/infra/telemetry/setup.go\<close>. A program is a list of steps; which calls fail is a
  parameter. The parser of the configuration stands for the environment after \<^verbatim>\<open>LoadDotEnv\<close>. \<^verbatim>\<open>log.Fatal\<close> and \<^verbatim>\<open>os.Exit\<close> end the process without its deferred calls.
\<close>

section \<open>Programs\<close>

datatype 'a main_step = Do 'a | Must 'a | Defer 'a | Fatal

text \<open>The calls made, and the exit status.\<close>

fun run_main :: "('a \<Rightarrow> bool) \<Rightarrow> 'a main_step list \<Rightarrow> 'a list \<Rightarrow> 'a list \<times> nat" where
  "run_main ok [] ds = (ds, 0)"
| "run_main ok (Do a # ss) ds = (let (t, x) = run_main ok ss ds in (a # t, x))"
| "run_main ok (Must a # ss) ds = (if ok a then (let (t, x) = run_main ok ss ds in (a # t, x)) else ([a], 1))"
| "run_main ok (Defer a # ss) ds = run_main ok ss (a # ds)"
| "run_main ok (Fatal # ss) ds = ([], 1)"

text \<open>A configuration that is required.\<close>

definition loaded :: "string + 'c \<Rightarrow> ('c \<Rightarrow> 'a main_step list) \<Rightarrow> 'a main_step list" where
  "loaded x f = (case x of Inl e \<Rightarrow> [Fatal] | Inr c \<Rightarrow> f c)"

section \<open>Telemetry\<close>

record http_server =
  hs_Addr :: string
  hs_ReadTimeout :: int
  hs_WriteTimeout :: int

abbreviation seconds :: "int \<Rightarrow> int" where
  "seconds n \<equiv> n * 1000000000"

definition telemetry_New :: "telemetry_config \<Rightarrow> http_server" where
  "telemetry_New cfg = \<lparr>hs_Addr = '':'' @ tc_MetricsPort cfg, hs_ReadTimeout = seconds 5, hs_WriteTimeout = seconds 10\<rparr>"

text \<open>How \<^verbatim>\<open>ListenAndServe\<close> and \<^verbatim>\<open>Serve\<close> return, and what their goroutines send on \<^verbatim>\<open>errCh\<close>.\<close>

datatype serve_result = Serve_Nil | Server_Closed | Serve_Error string

definition telemetry_Start :: "serve_result \<Rightarrow> string option" where
  "telemetry_Start r = (case r of Serve_Error e \<Rightarrow> Some (''telemetry server error: '' @ e) | _ \<Rightarrow> None)"

definition serve_grpc :: "serve_result \<Rightarrow> string option" where
  "serve_grpc r = (case r of Serve_Nil \<Rightarrow> None | Server_Closed \<Rightarrow> Some ''gRPC server: http: Server closed'' | Serve_Error e \<Rightarrow> Some (''gRPC server: '' @ e))"

text \<open>\<^verbatim>\<open>Stop\<close> hands on the error of \<^verbatim>\<open>Shutdown\<close>, which has five seconds.\<close>

definition telemetry_Stop :: "(int \<Rightarrow> string option) \<Rightarrow> string option" where
  "telemetry_Stop shutdown = shutdown (seconds 5)"

text \<open>What ends the wait of a program.\<close>

datatype stop_cause = Err_Ch string | Quit_Signal string

section \<open>Connections\<close>

record pool_options =
  po_ConnectionString :: string
  po_MaxConns :: int
  po_MinConns :: int
  po_MaxConnLifetime :: "int option"
  po_MaxConnIdleTime :: "int option"
  po_HealthCheckPeriod :: "int option"

text \<open>\<open>None\<close>: the option is left to the client.\<close>

record redis_options =
  ro_Addr :: string
  ro_Password :: string
  ro_DB :: int
  ro_PoolSize :: "int option"
  ro_MinIdleConns :: "int option"
  ro_PoolTimeout :: "int option"
  ro_ConnMaxLifetime :: "int option"
  ro_ConnMaxIdleTime :: "int option"
  ro_MaxRetries :: "int option"

definition gateway_redis :: "'a redis_config_scheme \<Rightarrow> redis_options" where
  "gateway_redis c = \<lparr>ro_Addr = Addr c, ro_Password = rc_Password c, ro_DB = rc_DB c, ro_PoolSize = Some (rc_PoolSize c),
     ro_MinIdleConns = Some (rc_MinIdleConns c), ro_PoolTimeout = Some (rc_PoolTimeout c), ro_ConnMaxLifetime = Some (seconds 1800),
     ro_ConnMaxIdleTime = Some (seconds 300), ro_MaxRetries = Some 2\<rparr>"

definition stats_redis :: "'a redis_config_scheme \<Rightarrow> redis_options" where
  "stats_redis c = \<lparr>ro_Addr = Addr c, ro_Password = rc_Password c, ro_DB = rc_DB c, ro_PoolSize = None, ro_MinIdleConns = None,
     ro_PoolTimeout = None, ro_ConnMaxLifetime = None, ro_ConnMaxIdleTime = None, ro_MaxRetries = None\<rparr>"

definition gateway_pool :: "postgres_config \<Rightarrow> pool_options" where
  "gateway_pool p = \<lparr>po_ConnectionString = ConnectionString p, po_MaxConns = pc_MaxConns p, po_MinConns = pc_MinConns p,
     po_MaxConnLifetime = Some (seconds 1800), po_MaxConnIdleTime = Some (seconds 300), po_HealthCheckPeriod = Some (seconds 30)\<rparr>"

definition worker_pool :: "postgres_config \<Rightarrow> pool_options" where
  "worker_pool p = \<lparr>po_ConnectionString = ConnectionString p, po_MaxConns = pc_MaxConns p, po_MinConns = pc_MinConns p,
     po_MaxConnLifetime = None, po_MaxConnIdleTime = None, po_HealthCheckPeriod = None\<rparr>"

text \<open>The calls of the programs. The gateway has two Redis clients, of the cache and of the idempotency keys,
  which may name one server. \<open>Ping_Warm\<close> is a ping of \<^verbatim>\<open>warmRedisPool\<close>, whose failure is only logged.\<close>

datatype redis_client = Cache_Client | Idempotency_Client

datatype call_op =
  Parse_Pool string | New_Pool pool_options | Ping_Pool | Close_Pool
| New_Redis redis_client redis_options | Ping_Redis redis_client string | Ping_Warm redis_client string | Close_Redis redis_client string
| New_Writer "string list" string | Close_Writer | New_Reader "string list" string string | Close_Reader
| Listen string | Serve_GRPC | Graceful_Stop
| Start_Telemetry http_server | Stop_Telemetry
| Spawn_Worker posting_worker | Cancel_App | Cancel_Init | Await stop_cause | Stop_Signals | Consume
| Start_Metrics string | Stop_Metrics | Dial string nat | Close_Conn nat | Generate_Load tx_manager | Cancel_Load

definition warmRedisPool :: "redis_client \<Rightarrow> string \<Rightarrow> int \<Rightarrow> call_op main_step list" where
  "warmRedisPool c addr n = (if n \<le> 1 then [] else replicate (nat n) (Do (Ping_Warm c addr)))"

section \<open>The gateway\<close>

text \<open>From the pool to the exit.\<close>

definition gateway_steps ::
  "env_parser \<Rightarrow> postgres_config \<Rightarrow> redis_ttl_config \<Rightarrow> kafka_config \<Rightarrow> string \<Rightarrow> telemetry_config \<Rightarrow> stop_cause \<Rightarrow> call_op main_step list" where
  "gateway_steps P pgCfg redisCfg kafkaCfg port telCfg cause =
     [Defer Cancel_Init, Must (Parse_Pool (ConnectionString pgCfg)), Must (New_Pool (gateway_pool pgCfg)), Defer Close_Pool, Must Ping_Pool,
      Do (New_Redis Cache_Client (gateway_redis redisCfg)), Defer (Close_Redis Cache_Client (Addr redisCfg))]
     @ loaded (LoadIdempotency P) (\<lambda>icfg.
         [Do (New_Redis Idempotency_Client (gateway_redis icfg)), Defer (Close_Redis Idempotency_Client (Addr icfg)), Must (Ping_Redis Idempotency_Client (Addr icfg))]
         @ warmRedisPool Idempotency_Client (Addr icfg) (rc_MinIdleConns icfg)
         @ [Must (Ping_Redis Cache_Client (Addr redisCfg))]
         @ warmRedisPool Cache_Client (Addr redisCfg) (rc_MinIdleConns redisCfg)
         @ [Do (New_Writer (BrokerList kafkaCfg) (kc_Topic kafkaCfg)), Defer Close_Writer,
            Must (Listen ('':'' @ port)), Do (Start_Telemetry (telemetry_New telCfg)), Do Serve_GRPC,
            Do (Await cause), Do Graceful_Stop, Do Stop_Telemetry])"

definition gateway_main :: "env_parser \<Rightarrow> (call_op \<Rightarrow> bool) \<Rightarrow> stop_cause \<Rightarrow> call_op list \<times> nat" where
  "gateway_main P ok cause = run_main ok
     (loaded (LoadLog P) (\<lambda>_. loaded (LoadPostgres P) (\<lambda>pg. loaded (LoadRedis P) (\<lambda>rd. loaded (LoadKafkaProducer P) (\<lambda>kf.
      loaded (LoadGRPC P) (\<lambda>port. loaded (LoadTelemetry P) (\<lambda>tel. gateway_steps P pg rd kf port tel cause))))))) []"

section \<open>The posting worker\<close>

definition worker_steps :: "postgres_config \<Rightarrow> worker_config \<Rightarrow> telemetry_config \<Rightarrow> stop_cause \<Rightarrow> call_op main_step list" where
  "worker_steps pgCfg workerCfg telCfg cause =
     (if wc_Name workerCfg = [] then [Fatal]
      else [Defer Cancel_Init, Must (Parse_Pool (ConnectionString pgCfg)), Must (New_Pool (worker_pool pgCfg)), Defer Close_Pool, Must Ping_Pool]
        @ (case NewPostingWorker True True (wc_Name workerCfg) (wc_BatchSize workerCfg) (wc_Backoff workerCfg) of
             Inl _ \<Rightarrow> [Fatal]
           | Inr pw \<Rightarrow> [Do (Start_Telemetry (telemetry_New telCfg)), Defer Cancel_App, Do (Spawn_Worker pw), Do (Await cause),
               Do Cancel_App, Do Stop_Telemetry]))"

definition worker_main :: "env_parser \<Rightarrow> (call_op \<Rightarrow> bool) \<Rightarrow> stop_cause \<Rightarrow> call_op list \<times> nat" where
  "worker_main P ok cause = run_main ok
     (loaded (LoadLog P) (\<lambda>_. loaded (LoadPostgres P) (\<lambda>pg. loaded (LoadPostingWorker P) (\<lambda>wc.
      loaded (LoadTelemetry P) (\<lambda>tel. worker_steps pg wc tel cause))))) []"

section \<open>The statistics worker\<close>

text \<open>\<open>failed\<close>: \<^verbatim>\<open>Run\<close> returned an error that is not the end of the context.\<close>

definition stats_steps :: "redis_ttl_config \<Rightarrow> kafka_config \<Rightarrow> bool \<Rightarrow> call_op main_step list" where
  "stats_steps redisCfg kafkaCfg failed =
     [Defer Cancel_Init, Do (New_Redis Cache_Client (stats_redis redisCfg)), Defer (Close_Redis Cache_Client (Addr redisCfg)), Must (Ping_Redis Cache_Client (Addr redisCfg)),
      Do (New_Reader (BrokerList kafkaCfg) (kc_Topic kafkaCfg) (kc_GroupID kafkaCfg)), Defer Close_Reader, Defer Stop_Signals, Do Consume]
     @ (if failed then [Fatal] else [])"

text \<open>With the servers as the consumer leaves them; \<open>None\<close> while it runs.\<close>

definition stats_main ::
  "env_parser \<Rightarrow> (call_op \<Rightarrow> bool) \<Rightarrow> ext \<Rightarrow> 'r redis \<Rightarrow> 'k kafka \<Rightarrow> 'k \<times> 'r \<Rightarrow> ((call_op list \<times> nat) \<times> 'k \<times> 'r) option" where
  "stats_main P ok E R K kr =
     (case (LoadLog P, LoadRedis P, LoadKafkaConsumer P) of
        (Inr _, Inr rd, Inr kf) \<Rightarrow>
          (if \<not> ok (Ping_Redis Cache_Client (Addr rd)) then Some (run_main ok (stats_steps rd kf False) [], kr)
           else (case consumer_Run K (HandleKafkaMessage E R (rc_TransactionTTL rd)) kr of
                   None \<Rightarrow> None
                 | Some (e, k', r') \<Rightarrow> Some (run_main ok (stats_steps rd kf (k_ctxErr K k' = None)) [], k', r')))
      | _ \<Rightarrow> Some (([], 1), kr))"

section \<open>The load generator\<close>

text \<open>\<^verbatim>\<open>loadgen/config\<close>; \<open>boolean\<close> and \<open>float\<close> convert the fields of these types.\<close>

record 'f lg_main_config = "'f lg_config" +
  lm_GRPCAddr :: string
  lm_GRPCConnections :: int
  lm_MetricsPort :: string

definition loadgen_Load ::
  "env_parser \<Rightarrow> (string \<Rightarrow> string \<Rightarrow> bool option) \<Rightarrow> (string \<Rightarrow> string \<Rightarrow> 'f option) \<Rightarrow> string + 'f lg_main_config" where
  "loadgen_Load P boolean float = or_error ''env'' (do {
     w \<leftarrow> boolean ''LOAD_GEN_WORKING'' ''false'';
     u \<leftarrow> ep_int P ''USERS_AMOUNT'' ''1000'';
     v \<leftarrow> float ''VALID_RPS'' ''100'';
     i \<leftarrow> float ''INVALID_RPS'' ''10'';
     c \<leftarrow> float ''INVALID_CURRENCY_RPS'' ''5'';
     s \<leftarrow> float ''STATS_RPS'' ''50'';
     d \<leftarrow> ep_duration P ''LOAD_DURATION'' ''0'';
     b \<leftarrow> ep_int P ''LOAD_BOOTSTRAP_WORKERS'' ''50'';
     t \<leftarrow> ep_int P ''LOAD_TX_WORKERS'' ''2000'';
     e \<leftarrow> ep_int P ''BOOTSTRAP_MAX_ERROR_PCT'' ''33'';
     a \<leftarrow> ep_string P ''LOADGEN_GRPC_ADDR'' ''127.0.0.1:8085'';
     n \<leftarrow> ep_int P ''LOADGEN_GRPC_CONNECTIONS'' ''8'';
     p \<leftarrow> ep_string P ''LOADGEN_METRICS_PORT'' ''9092'';
     Some \<lparr>lc_Working = w, lc_UsersAmount = u,
       lc_RPS = (\<lambda>k. case k of StreamValid \<Rightarrow> v | StreamInvalidBalance \<Rightarrow> i | StreamInvalidCurrency \<Rightarrow> c | StreamStats \<Rightarrow> s),
       lc_LoadDuration = d, lc_BootstrapWorkers = b, lc_TxWorkers = t, lc_BootstrapMaxError = e,
       lm_GRPCAddr = a, lm_GRPCConnections = n, lm_MetricsPort = p\<rparr>})"

definition PeriodicDNSScheme :: string where
  "PeriodicDNSScheme = ''k8sdns''"

definition loadgen_steps :: "'f lg_main_config \<Rightarrow> call_op main_step list" where
  "loadgen_steps cfg =
     (if \<not> lc_Working cfg then []
      else let n = nat (conn_count (lm_GRPCConnections cfg)); target = PeriodicDNSScheme @ '':///'' @ lm_GRPCAddr cfg
           in [Do (Start_Metrics ('':'' @ lm_MetricsPort cfg)), Defer Stop_Metrics]
              @ map (\<lambda>i. Must (Dial target i)) [0..<n]
              @ map (\<lambda>i. Defer (Close_Conn i)) (rev [0..<n])
              @ [Defer Cancel_Load, Do (Generate_Load (NewTxManager n))])"

definition loadgen_main :: "string + 'f lg_main_config \<Rightarrow> (call_op \<Rightarrow> bool) \<Rightarrow> call_op list \<times> nat" where
  "loadgen_main cfg ok = run_main ok (loaded cfg loadgen_steps) []"

section \<open>How programs end\<close>

fun made :: "'a main_step list \<Rightarrow> 'a list" where
  "made [] = []"
| "made (Do a # ss) = a # made ss"
| "made (Must a # ss) = a # made ss"
| "made (Defer a # ss) = made ss"
| "made (Fatal # ss) = made ss"

fun deferred :: "'a main_step list \<Rightarrow> 'a list" where
  "deferred [] = []"
| "deferred (Defer a # ss) = a # deferred ss"
| "deferred (s # ss) = deferred ss"

fun checks :: "'a main_step list \<Rightarrow> 'a list" where
  "checks [] = []"
| "checks (Must a # ss) = a # checks ss"
| "checks (s # ss) = checks ss"

lemma steps_append [simp]:
  "made (xs @ ys) = made xs @ made ys" "deferred (xs @ ys) = deferred xs @ deferred ys" "checks (xs @ ys) = checks xs @ checks ys"
proof -
  show "made (xs @ ys) = made xs @ made ys" by (induction xs rule: made.induct) auto
  show "deferred (xs @ ys) = deferred xs @ deferred ys" by (induction xs rule: deferred.induct) auto
  show "checks (xs @ ys) = checks xs @ checks ys" by (induction xs rule: checks.induct) auto
qed

text \<open>A program whose calls succeed makes all of them, then its deferred calls in reverse.\<close>

lemma run_main_ok:
  "Fatal \<notin> set ss \<Longrightarrow> \<forall>a\<in>set (checks ss). ok a \<Longrightarrow> run_main ok ss ds = (made ss @ rev (deferred ss) @ ds, 0)"
  by (induction ok ss ds rule: run_main.induct) auto

text \<open>A program that fails makes a part of its calls and none of its deferred ones.\<close>

lemma run_main_fails:
  "\<not> (Fatal \<notin> set ss \<and> (\<forall>a\<in>set (checks ss). ok a)) \<Longrightarrow> prefix (fst (run_main ok ss ds)) (made ss) \<and> snd (run_main ok ss ds) = 1"
  by (induction ok ss ds rule: run_main.induct) (auto split: prod.splits if_splits)

lemma run_main_fails_early:
  assumes "\<not> (Fatal \<notin> set xs \<and> (\<forall>a\<in>set (checks xs). ok a))"
  shows "run_main ok (xs @ ys) ds = run_main ok xs ds"
  using assms by (induction ok xs ds rule: run_main.induct) (auto split: prod.splits if_splits)

lemma replicate_Do [simp]:
  "deferred (replicate k (Do a)) = []" "checks (replicate k (Do a)) = []" "made (replicate k (Do a)) = replicate k a"
  by (induction k) auto

lemma warmRedisPool_steps [simp]:
  "deferred (warmRedisPool c addr n) = []" "checks (warmRedisPool c addr n) = []" "Fatal \<notin> set (warmRedisPool c addr n)"
  by (auto simp: warmRedisPool_def)

lemma made_warmRedisPool: "set (made (warmRedisPool c addr n)) \<subseteq> {Ping_Warm c addr}"
  by (auto simp: warmRedisPool_def)

text \<open>The calls whose failure ends the gateway before it serves.\<close>

definition gateway_checks :: "postgres_config \<Rightarrow> redis_ttl_config \<Rightarrow> redis_config \<Rightarrow> string \<Rightarrow> call_op list" where
  "gateway_checks pg rd ic port = [Parse_Pool (ConnectionString pg), New_Pool (gateway_pool pg), Ping_Pool, Ping_Redis Idempotency_Client (Addr ic),
     Ping_Redis Cache_Client (Addr rd), Listen ('':'' @ port)]"

text \<open>Its orderly end.\<close>

definition gateway_down :: "redis_ttl_config \<Rightarrow> redis_config \<Rightarrow> call_op list" where
  "gateway_down rd ic = [Graceful_Stop, Stop_Telemetry, Close_Writer, Close_Redis Idempotency_Client (Addr ic), Close_Redis Cache_Client (Addr rd), Close_Pool, Cancel_Init]"

text \<open>What a gateway that fails at its start never does: serve, or any call of the orderly end.\<close>

definition up_and_down :: "call_op set" where
  "up_and_down = {Serve_GRPC, Graceful_Stop, Stop_Telemetry, Close_Writer, Close_Pool, Cancel_Init} \<union> {Close_Redis c a | c a. True}"

lemma gateway_split:
  assumes "LoadIdempotency P = Inr ic"
  obtains up where "gateway_steps P pg rd kf port tel cause = up @ map Do [Start_Telemetry (telemetry_New tel), Serve_GRPC, Await cause, Graceful_Stop, Stop_Telemetry]"
    and "checks up = gateway_checks pg rd ic port" and "Fatal \<notin> set up" and "set (made up) \<inter> up_and_down = {}"
    and "rev (deferred up) = [Close_Writer, Close_Redis Idempotency_Client (Addr ic), Close_Redis Cache_Client (Addr rd), Close_Pool, Cancel_Init]"
proof -
  let ?up = "[Defer Cancel_Init, Must (Parse_Pool (ConnectionString pg)), Must (New_Pool (gateway_pool pg)), Defer Close_Pool, Must Ping_Pool,
      Do (New_Redis Cache_Client (gateway_redis rd)), Defer (Close_Redis Cache_Client (Addr rd))]
     @ [Do (New_Redis Idempotency_Client (gateway_redis ic)), Defer (Close_Redis Idempotency_Client (Addr ic)), Must (Ping_Redis Idempotency_Client (Addr ic))]
         @ warmRedisPool Idempotency_Client (Addr ic) (rc_MinIdleConns ic)
         @ [Must (Ping_Redis Cache_Client (Addr rd))]
         @ warmRedisPool Cache_Client (Addr rd) (rc_MinIdleConns rd)
         @ [Do (New_Writer (BrokerList kf) (kc_Topic kf)), Defer Close_Writer, Must (Listen ('':'' @ port))]"
  have "set (made ?up) \<inter> up_and_down = {}"
    using made_warmRedisPool by (fastforce simp: up_and_down_def)
  then show thesis
    by (intro that [of ?up]) (simp_all add: gateway_steps_def loaded_def assms gateway_checks_def)
qed

lemma gateway_without_keys:
  assumes "LoadIdempotency P = Inl e"
  shows "\<exists>trace. run_main ok (gateway_steps P pg rd kf port tel cause) [] = (trace, 1) \<and> set trace \<inter> up_and_down = {}"
  by (simp add: gateway_steps_def loaded_def assms up_and_down_def)

text \<open>C40. The gateway serves only after every check of its start has passed: the seven parts of the configuration, the pool
  and its ping, both Redis clients, the listener. It then ends in order, whatever ended it: first the calls in progress, then
  the telemetry, the Kafka writer, the two Redis clients and the pool, in the reverse order of their creation, with status 0.
  If a part of the configuration does not load or a check fails it exits with status 1, has never served, and closes nothing.\<close>

theorem gateway_lifecycle:
  assumes run: "gateway_main P ok cause = (trace, code)"
  shows "case (LoadLog P, LoadPostgres P, LoadRedis P, LoadKafkaProducer P, LoadGRPC P, LoadTelemetry P, LoadIdempotency P) of
      (Inr lc, Inr pg, Inr rd, Inr kf, Inr port, Inr tel, Inr ic) \<Rightarrow>
        if \<forall>a\<in>set (gateway_checks pg rd ic port). ok a
        then code = 0 \<and> (\<exists>up. trace = up @ [Start_Telemetry (telemetry_New tel), Serve_GRPC, Await cause] @ gateway_down rd ic
          \<and> set (gateway_checks pg rd ic port) \<subseteq> set up \<and> set up \<inter> up_and_down = {})
        else code = 1 \<and> set trace \<inter> up_and_down = {}
    | _ \<Rightarrow> code = 1 \<and> set trace \<inter> up_and_down = {}"
proof (cases "\<exists>lc pg rd kf port tel. LoadLog P = Inr lc \<and> LoadPostgres P = Inr pg \<and> LoadRedis P = Inr rd
    \<and> LoadKafkaProducer P = Inr kf \<and> LoadGRPC P = Inr port \<and> LoadTelemetry P = Inr tel")
  case False
  then have "trace = [] \<and> code = 1"
    using run by (auto simp: gateway_main_def loaded_def split: sum.splits)
  with False show ?thesis by (auto split: sum.splits)
next
  case True
  then obtain lc pg rd kf port tel where cfgs: "LoadLog P = Inr lc" "LoadPostgres P = Inr pg" "LoadRedis P = Inr rd"
    "LoadKafkaProducer P = Inr kf" "LoadGRPC P = Inr port" "LoadTelemetry P = Inr tel" by blast
  have run1: "run_main ok (gateway_steps P pg rd kf port tel cause) [] = (trace, code)"
    using run by (simp add: gateway_main_def loaded_def cfgs)
  show ?thesis
  proof (cases "LoadIdempotency P")
    case (Inl e)
    from gateway_without_keys [OF this, of ok pg rd kf port tel cause] run1 show ?thesis by (auto simp: cfgs Inl)
  next
    case (Inr ic)
    obtain up where up: "gateway_steps P pg rd kf port tel cause = up @ map Do [Start_Telemetry (telemetry_New tel), Serve_GRPC, Await cause, Graceful_Stop, Stop_Telemetry]"
      "checks up = gateway_checks pg rd ic port" "Fatal \<notin> set up" "set (made up) \<inter> up_and_down = {}"
      "rev (deferred up) = [Close_Writer, Close_Redis Idempotency_Client (Addr ic), Close_Redis Cache_Client (Addr rd), Close_Pool, Cancel_Init]"
      by (rule gateway_split [OF Inr])
    let ?rest = "map Do [Start_Telemetry (telemetry_New tel), Serve_GRPC, Await cause, Graceful_Stop, Stop_Telemetry]"
    have run': "run_main ok (up @ ?rest) [] = (trace, code)" using run1 by (simp add: up(1))
    have sub: "set (checks ss) \<subseteq> set (made ss)" for ss :: "call_op main_step list" by (induction ss rule: made.induct) auto
    show ?thesis
    proof (cases "\<forall>a\<in>set (gateway_checks pg rd ic port). ok a")
      case True
      then have "run_main ok (up @ ?rest) [] = (made up @ made ?rest @ rev (deferred up), 0)"
        using up(2,3) run_main_ok [of "up @ ?rest" ok "[]"] by simp
      with run' True sub [of up] up(2,4) show ?thesis
        by (auto simp: cfgs Inr up(5) gateway_down_def intro!: exI [of _ "made up"])
    next
      case False
      then have f: "\<not> (Fatal \<notin> set up \<and> (\<forall>a\<in>set (checks up). ok a))" using up(2) by simp
      from run_main_fails [OF f, of "[]"] run_main_fails_early [OF f, of ?rest "[]"] run'
      have "code = 1" "prefix trace (made up)" by simp_all
      with False up(4) show ?thesis by (auto simp: cfgs Inr dest: set_mono_prefix)
    qed
  qed
qed

subsection \<open>An environment\<close>

definition decimal :: "string \<Rightarrow> int" where
  "decimal s = foldl (\<lambda>n c. 10 * n + (of_char c - 48)) 0 s"

text \<open>An environment without variables: every field has its default.\<close>

definition ref_parser :: env_parser where
  "ref_parser = \<lparr>ep_string = (\<lambda>_ d. Some d), ep_int = (\<lambda>_ d. Some (decimal d)), ep_int32 = (\<lambda>_ d. Some (decimal d)),
     ep_duration = (\<lambda>_ d. Some (seconds (if d = ''67m'' then 4020 else decimal (butlast d)))), ep_bool_ptr = (\<lambda>_. Some None)\<rparr>"

lemma ref_parser_loads:
  "\<exists>c. LoadLog ref_parser = Inr c" "\<exists>c. LoadPostgres ref_parser = Inr c" "\<exists>c. LoadRedis ref_parser = Inr c" "\<exists>c. LoadKafkaProducer ref_parser = Inr c"
  "\<exists>c. LoadKafkaConsumer ref_parser = Inr c" "LoadGRPC ref_parser = Inr ''50051''" "\<exists>c. LoadTelemetry ref_parser = Inr c" "\<exists>c. LoadIdempotency ref_parser = Inr c"
  "\<exists>c. LoadPostingWorker ref_parser = Inr c"
  by (simp_all add: LoadLog_def LoadPostgres_def LoadRedis_def LoadKafkaProducer_def LoadKafkaConsumer_def LoadGRPC_def LoadTelemetry_def
      LoadIdempotency_def LoadPostingWorker_def or_error_def ref_parser_def)

theorem gateway_lifecycle_witness:
  "\<exists>trace. gateway_main ref_parser (\<lambda>_. True) (Quit_Signal ''terminated'') = (trace, 0) \<and> Serve_GRPC \<in> set trace \<and> Graceful_Stop \<in> set trace
     \<and> (\<exists>trace'. gateway_main ref_parser (\<lambda>a. a \<noteq> Listen '':50051'') (Quit_Signal ''terminated'') = (trace', 1) \<and> Serve_GRPC \<notin> set trace')
     \<and> (\<exists>trace'. gateway_main (ref_parser\<lparr>ep_bool_ptr := (\<lambda>_. None)\<rparr>) (\<lambda>_. True) (Quit_Signal ''terminated'') = (trace', 1) \<and> Serve_GRPC \<notin> set trace')"
proof -
  let ?broken = "ref_parser\<lparr>ep_bool_ptr := (\<lambda>_. None)\<rparr>"
  obtain t n where r: "gateway_main ref_parser (\<lambda>_. True) (Quit_Signal ''terminated'') = (t, n)" by fastforce
  obtain t' n' where r': "gateway_main ref_parser (\<lambda>a. a \<noteq> Listen '':50051'') (Quit_Signal ''terminated'') = (t', n')" by fastforce
  obtain t2 n2 where r2: "gateway_main ?broken (\<lambda>_. True) (Quit_Signal ''terminated'') = (t2, n2)" by fastforce
  obtain lc pg rd kf tel ic where c: "LoadLog ref_parser = Inr lc" "LoadPostgres ref_parser = Inr pg" "LoadRedis ref_parser = Inr rd" "LoadKafkaProducer ref_parser = Inr kf"
    "LoadTelemetry ref_parser = Inr tel" "LoadIdempotency ref_parser = Inr ic" using ref_parser_loads by blast
  obtain e where e: "LoadLog ?broken = Inl e" by (simp add: LoadLog_def or_error_def ref_parser_def)
  have s: "Serve_GRPC \<in> up_and_down" by (simp add: up_and_down_def)
  have "n = 0 \<and> Serve_GRPC \<in> set t \<and> Graceful_Stop \<in> set t"
    using gateway_lifecycle [OF r] by (auto simp: c ref_parser_loads(6) gateway_down_def)
  moreover have "n' = 1 \<and> Serve_GRPC \<notin> set t'"
    using gateway_lifecycle [OF r'] s by (auto simp: c ref_parser_loads(6) gateway_checks_def)
  moreover have "n2 = 1 \<and> Serve_GRPC \<notin> set t2"
    using gateway_lifecycle [OF r2] s by (auto simp: e)
  ultimately show ?thesis using r r' r2 by blast
qed

section \<open>The other programs\<close>

text \<open>The posting worker runs only with a name, behind the same checks; it runs with a positive batch and pause. The program cancels it, does not wait for it,
  and closes the pool.\<close>

lemma worker_lifecycle:
  assumes cfgs: "LoadLog P = Inr lc" "LoadPostgres P = Inr pg" "LoadPostingWorker P = Inr wc" "LoadTelemetry P = Inr tel"
    and run: "worker_main P ok cause = (trace, code)"
  shows "if wc_Name wc \<noteq> [] \<and> (\<forall>a\<in>{Parse_Pool (ConnectionString pg), New_Pool (worker_pool pg), Ping_Pool}. ok a)
    then code = 0 \<and> (\<exists>pw. 0 < pw_batchSize pw \<and> 0 < pw_backoffTime pw \<and> pw_workerName pw = wc_Name wc
      \<and> trace = [Parse_Pool (ConnectionString pg), New_Pool (worker_pool pg), Ping_Pool, Start_Telemetry (telemetry_New tel), Spawn_Worker pw,
          Await cause, Cancel_App, Stop_Telemetry, Cancel_App, Close_Pool, Cancel_Init])
    else code = 1 \<and> (\<forall>pw. Spawn_Worker pw \<notin> set trace) \<and> Close_Pool \<notin> set trace"
proof (cases "wc_Name wc = []")
  case True
  then show ?thesis using run by (auto simp: worker_main_def loaded_def cfgs worker_steps_def)
next
  case False
  then obtain pw where pw: "NewPostingWorker True True (wc_Name wc) (wc_BatchSize wc) (wc_Backoff wc) = Inr pw"
    "0 < pw_batchSize pw" "0 < pw_backoffTime pw" "pw_workerName pw = wc_Name wc"
    by (simp add: NewPostingWorker_def defaultPostingBatchSize_def defaultBackoff_def)
  have "run_main ok (worker_steps pg wc tel cause) [] = (trace, code)" using run by (simp add: worker_main_def loaded_def cfgs)
  with False pw show ?thesis by (auto simp: worker_steps_def split: if_splits)
qed

text \<open>The load generator dials at least once, all connections before the load, and closes them after it.\<close>

lemma loadgen_lifecycle:
  fixes cfg :: "'f lg_main_config"
  defines "n \<equiv> nat (conn_count (lm_GRPCConnections cfg))" and "target \<equiv> PeriodicDNSScheme @ '':///'' @ lm_GRPCAddr cfg"
  assumes on: "lc_Working cfg" and dials: "\<forall>i<n. ok (Dial target i)"
  shows "0 < n \<and> loadgen_main (Inr cfg) ok = ([Start_Metrics ('':'' @ lm_MetricsPort cfg)] @ map (Dial target) [0..<n]
     @ [Generate_Load (NewTxManager n), Cancel_Load] @ map Close_Conn [0..<n] @ [Stop_Metrics], 0)"
proof -
  have m: "made (map (\<lambda>i. Must (h i)) xs) = map h xs" "checks (map (\<lambda>i. Must (h i)) xs) = map h xs" "deferred (map (\<lambda>i. Must (h i)) xs) = []"
    "made (map (\<lambda>i. Defer (h i)) xs) = []" "checks (map (\<lambda>i. Defer (h i)) xs) = []" "deferred (map (\<lambda>i. Defer (h i)) xs) = map h xs"
    for h :: "nat \<Rightarrow> call_op" and xs by (induction xs) auto
  have "loadgen_steps cfg = [Do (Start_Metrics ('':'' @ lm_MetricsPort cfg)), Defer Stop_Metrics] @ map (\<lambda>i. Must (Dial target i)) [0..<n]
      @ map (\<lambda>i. Defer (Close_Conn i)) (rev [0..<n]) @ [Defer Cancel_Load, Do (Generate_Load (NewTxManager n))]"
    by (simp add: loadgen_steps_def on n_def target_def Let_def)
  moreover from this have "Fatal \<notin> set (loadgen_steps cfg)" "\<forall>a\<in>set (checks (loadgen_steps cfg)). ok a"
    using dials by (auto simp: m)
  moreover have "0 < n" by (simp add: n_def conn_count_def)
  ultimately show ?thesis
    using run_main_ok [of "loadgen_steps cfg" ok "[]"] by (simp add: loadgen_main_def loaded_def m rev_map)
qed

text \<open>C27. The statistics worker as a process, from its start to its exit. A configuration that does not load ends it with
  status 1 before any call, a Redis server that does not answer right after the ping; in both cases the servers are as they were. Otherwise
  it consumes until \<^verbatim>\<open>Run\<close> returns, and what ended its run decides: after a signal it exits with status 0 and stops the
  signals and closes the reader and the Redis client in the reverse order of their creation, after anything else it exits with status
  1 and closes nothing. Whatever fails, the transaction cache stays in agreement with the tables and the topic as it was.\<close>

theorem stats_process:
  assumes srv: "redis_server R clock data" and br: "kafka_broker K topic pos off" and laws: "uuid_laws E" "json_laws E"
    and run: "stats_main P ok E R K (k, r) = Some ((trace, code), k', r')"
    and co: "tx_coherent E (data r) w" and gen: "genuine E w (topic k)"
  shows "tx_coherent E (data r') w \<and> topic k' = topic k
    \<and> (case (LoadLog P, LoadRedis P, LoadKafkaConsumer P) of
        (Inr lc, Inr rd, Inr kf) \<Rightarrow>
          if \<not> ok (Ping_Redis Cache_Client (Addr rd))
          then k' = k \<and> r' = r \<and> code = 1
            \<and> trace = [New_Redis Cache_Client (stats_redis rd), Ping_Redis Cache_Client (Addr rd)]
          else (\<exists>e. consumer_Run K (HandleKafkaMessage E R (rc_TransactionTTL rd)) (k, r) = Some (e, k', r'))
            \<and> code = (if k_ctxErr K k' \<noteq> None then 0 else 1)
            \<and> trace = [New_Redis Cache_Client (stats_redis rd), Ping_Redis Cache_Client (Addr rd),
                New_Reader (BrokerList kf) (kc_Topic kf) (kc_GroupID kf), Consume]
              @ (if k_ctxErr K k' \<noteq> None
                 then [Stop_Signals, Close_Reader, Close_Redis Cache_Client (Addr rd), Cancel_Init] else [])
      | _ \<Rightarrow> k' = k \<and> r' = r \<and> code = 1 \<and> trace = [])"
proof (cases "(\<exists>c. LoadLog P = Inr c) \<and> (\<exists>c. LoadRedis P = Inr c) \<and> (\<exists>c. LoadKafkaConsumer P = Inr c)")
  case False
  then have "trace = [] \<and> code = 1 \<and> k' = k \<and> r' = r"
    using run by (auto simp: stats_main_def split: sum.splits)
  with co False show ?thesis by (auto split: sum.splits)
next
  case True
  then obtain lc rd kf where c: "LoadLog P = Inr lc" "LoadRedis P = Inr rd" "LoadKafkaConsumer P = Inr kf" by blast
  show ?thesis
  proof (cases "ok (Ping_Redis Cache_Client (Addr rd))")
    case False
    with run co show ?thesis by (auto simp: stats_main_def c stats_steps_def)
  next
    case ping: True
    then obtain e where cr: "consumer_Run K (HandleKafkaMessage E R (rc_TransactionTTL rd)) (k, r) = Some (e, k', r')"
      and t: "run_main ok (stats_steps rd kf (k_ctxErr K k' = None)) [] = (trace, code)"
      using run by (auto simp: stats_main_def c split: option.splits)
    have "tx_coherent E (data r') w \<and> topic k' = topic k" using consumer_keeps_cache [OF srv br laws cr co gen] .
    then show ?thesis
      using t ping cr by (auto simp: c stats_steps_def)
  qed
qed

theorem stats_process_witness:
  "\<exists>trace k' r'. stats_main ref_parser (\<lambda>_. True) ref_ext ref_client ref_broker (sample_topic, sample_cache) = Some ((trace, 0), k', r')
     \<and> tx_coherent ref_ext (rr_data r') sample_tables \<and> Close_Reader \<in> set trace"
proof -
  obtain lc rd kf where c: "LoadLog ref_parser = Inr lc" "LoadRedis ref_parser = Inr rd" "LoadKafkaConsumer ref_parser = Inr kf"
    using ref_parser_loads by blast
  obtain k1 r1 where k: "consumer_Run ref_broker (HandleKafkaMessage ref_ext ref_client (rc_TransactionTTL rd)) (sample_topic, sample_cache)
      = Some (Driver Ctx_Canceled, k1, r1)" "k_ctxErr ref_broker k1 \<noteq> None" using sample_consumer_run by blast
  have co: "tx_coherent ref_ext (rr_data sample_cache) sample_tables" by (simp add: tx_coherent_def sample_cache_def)
  obtain trace where s: "stats_main ref_parser (\<lambda>_. True) ref_ext ref_client ref_broker (sample_topic, sample_cache) = Some ((trace, 0), k1, r1)"
    using k by (simp add: stats_main_def c stats_steps_def)
  from stats_process [OF ref.redis_server_axioms refk.kafka_broker_axioms ref_uuid_laws ref_json_laws s co sample_genuine] s k(2)
  show ?thesis by (auto simp: c)
qed

end
