(* ===== verification/Registry.thy ===== *)
theory Registry
  imports Sample Transport Posting_Worker Loadgen_Report
begin

text \<open>
  The counters of the other theories as they are kept by the Prometheus client: the collectors that
  \<^verbatim>\<open>internal/infra/telemetry/metrics.go\<close> and \<^verbatim>\<open>loadgen/service/metrics.go\<close> register, and their methods as calls with a list
  of label values. The client is a parameter with its documented laws; it panics on a second registration
  of a name and on a wrong number of label values.
\<close>

section \<open>The client\<close>

type_synonym sample = "string \<times> string list"

text \<open>\<open>None\<close> is a panic.\<close>

record ('p, 'f) prom =
  pr_register :: "string \<Rightarrow> string list \<Rightarrow> 'p \<Rightarrow> 'p option"
  pr_Inc :: "string \<Rightarrow> string list \<Rightarrow> 'p \<Rightarrow> 'p option"
  pr_Observe :: "string \<Rightarrow> string list \<Rightarrow> int \<Rightarrow> 'p \<Rightarrow> 'p option"
  pr_Set :: "string \<Rightarrow> string list \<Rightarrow> 'f \<Rightarrow> 'p \<Rightarrow> 'p option"

locale prom_registry =
  fixes Q :: "('p, 'f) prom" and labels :: "'p \<Rightarrow> string \<rightharpoonup> string list" and count :: "'p \<Rightarrow> sample \<Rightarrow> nat"
    and observed :: "'p \<Rightarrow> sample \<Rightarrow> int list" and gauge :: "'p \<Rightarrow> sample \<rightharpoonup> 'f"
  assumes register_law: "case pr_register Q n ls p of
        None \<Rightarrow> labels p n \<noteq> None
      | Some p' \<Rightarrow> labels p n = None \<and> labels p' = (labels p)(n \<mapsto> ls) \<and> count p' = count p \<and> observed p' = observed p \<and> gauge p' = gauge p"
    and inc_law: "labels p n = Some ls \<Longrightarrow> length vs = length ls \<Longrightarrow>
      \<exists>p'. pr_Inc Q n vs p = Some p' \<and> labels p' = labels p \<and> count p' = (count p)((n, vs) := Suc (count p (n, vs)))
         \<and> observed p' = observed p \<and> gauge p' = gauge p"
    and observe_law: "labels p n = Some ls \<Longrightarrow> length vs = length ls \<Longrightarrow>
      \<exists>p'. pr_Observe Q n vs d p = Some p' \<and> labels p' = labels p \<and> count p' = count p
         \<and> observed p' = (observed p)((n, vs) := observed p (n, vs) @ [d]) \<and> gauge p' = gauge p"
    and set_law: "labels p n = Some ls \<Longrightarrow> length vs = length ls \<Longrightarrow>
      \<exists>p'. pr_Set Q n vs x p = Some p' \<and> labels p' = labels p \<and> count p' = count p
         \<and> observed p' = observed p \<and> gauge p' = (gauge p)((n, vs) \<mapsto> x)"

text \<open>The name of a collector from its namespace, subsystem and name.\<close>

definition BuildFQName :: "string \<Rightarrow> string \<Rightarrow> string \<Rightarrow> string" where
  "BuildFQName ns sub name = ns @ ''_'' @ (if sub = [] then [] else sub @ ''_'') @ name"

section \<open>The metrics of the services\<close>

definition grpcRequests :: string where "grpcRequests = BuildFQName ''ledger'' ''grpc'' ''requests_total''"
definition grpcDuration :: string where "grpcDuration = BuildFQName ''ledger'' ''grpc'' ''request_duration_seconds''"
definition transferTotal :: string where "transferTotal = BuildFQName ''ledger'' [] ''transfer_total''"
definition balanceCorrections :: string where "balanceCorrections = BuildFQName ''ledger'' ''posting_worker'' ''balance_corrections_total''"

fun register_all :: "('p, 'f) prom \<Rightarrow> (string \<times> string list) list \<Rightarrow> 'p \<Rightarrow> 'p option" where
  "register_all Q [] p = Some p"
| "register_all Q ((n, ls) # cs) p = (case pr_register Q n ls p of None \<Rightarrow> None | Some p' \<Rightarrow> register_all Q cs p')"

definition service_collectors :: "(string \<times> string list) list" where
  "service_collectors = [(grpcRequests, [''service'', ''rpc'', ''code'']), (grpcDuration, [''service'', ''rpc'', ''code'']),
     (transferTotal, [''service'', ''result'']), (balanceCorrections, [])]"

definition NewPrometheusMetrics :: "('p, 'f) prom \<Rightarrow> 'p \<Rightarrow> 'p option" where
  "NewPrometheusMetrics Q = register_all Q service_collectors"

text \<open>The calls of the interface \<^verbatim>\<open>Metrics\<close>, for the service of the given name.\<close>

datatype meter_call = Total_Requests string string | Response_Time string string int | Transfer_Result string | Balance_Correction

definition meter :: "('p, 'f) prom \<Rightarrow> string \<Rightarrow> meter_call \<Rightarrow> 'p \<Rightarrow> 'p option" where
  "meter Q serviceName c = (case c of
     Total_Requests fullMethod code \<Rightarrow> pr_Inc Q grpcRequests [serviceName, grpcRPC fullMethod, code]
   | Response_Time fullMethod code d \<Rightarrow> pr_Observe Q grpcDuration [serviceName, grpcRPC fullMethod, code] d
   | Transfer_Result result \<Rightarrow> pr_Inc Q transferTotal [serviceName, result]
   | Balance_Correction \<Rightarrow> pr_Inc Q balanceCorrections [])"

fun calls_all :: "('c \<Rightarrow> 'p \<Rightarrow> 'p option) \<Rightarrow> 'c list \<Rightarrow> 'p \<Rightarrow> 'p option" where
  "calls_all f [] p = Some p"
| "calls_all f (c # cs) p = (case f c p of None \<Rightarrow> None | Some p' \<Rightarrow> calls_all f cs p')"

section \<open>The metrics of the load generator\<close>

definition targetRPS_name :: string where "targetRPS_name = BuildFQName ''loadgen'' [] ''target_rps''"
definition dispatched_name :: string where "dispatched_name = BuildFQName ''loadgen'' [] ''dispatched_total''"
definition completed_name :: string where "completed_name = BuildFQName ''loadgen'' [] ''completed_total''"
definition queueDepth_name :: string where "queueDepth_name = BuildFQName ''loadgen'' [] ''queue_depth''"

definition loadgen_collectors :: "(string \<times> string list) list" where
  "loadgen_collectors = [(targetRPS_name, [''stream'']), (dispatched_name, [''stream'']),
     (completed_name, [''stream'', ''outcome'', ''grpc_code'']), (queueDepth_name, [])]"

definition NewMetrics :: "('p, 'f) prom \<Rightarrow> string \<Rightarrow> 'p \<Rightarrow> (string \<times> 'p) option" where
  "NewMetrics Q port p = map_option (Pair ('':'' @ port)) (register_all Q loadgen_collectors p)"

datatype 'f lg_call = Target stream_kind 'f | Dispatched stream_kind | Completed stream_kind "unit lg_result" | Queue_Depth int

definition lg_meter :: "('p, 'f) prom \<Rightarrow> 'f float_ops \<Rightarrow> 'f lg_call \<Rightarrow> 'p \<Rightarrow> 'p option" where
  "lg_meter Q F c = (case c of
     Target k rps \<Rightarrow> pr_Set Q targetRPS_name [stream_name k] rps
   | Dispatched k \<Rightarrow> pr_Inc Q dispatched_name [stream_name k]
   | Completed k x \<Rightarrow> (case completed_labels x of (outcome, code) \<Rightarrow> pr_Inc Q completed_name [stream_name k, outcome, code])
   | Queue_Depth n \<Rightarrow> pr_Set Q queueDepth_name [] (f_of_int F n))"

section \<open>Registration\<close>

text \<open>The collectors are registered with these labels.\<close>

definition registered :: "('p \<Rightarrow> string \<rightharpoonup> string list) \<Rightarrow> (string \<times> string list) list \<Rightarrow> 'p \<Rightarrow> bool" where
  "registered labels cs p \<longleftrightarrow> (\<forall>(n, ls)\<in>set cs. labels p n = Some ls)"

lemmas collector_names = grpcRequests_def grpcDuration_def transferTotal_def balanceCorrections_def
  targetRPS_name_def dispatched_name_def completed_name_def queueDepth_name_def BuildFQName_def

lemma collectors_distinct: "distinct (map fst (service_collectors @ loadgen_collectors))"
  by (simp add: service_collectors_def loadgen_collectors_def collector_names)

lemma stream_name_inject [simp]: "stream_name k = stream_name k' \<longleftrightarrow> k = k'"
  by (cases k; cases k') (simp_all add: stream_name_def)

context prom_registry
begin

lemma registers:
  assumes "distinct (map fst cs)" and "\<forall>(n, ls)\<in>set cs. labels p n = None"
  obtains p' where "register_all Q cs p = Some p'" and "registered labels cs p'" and "count p' = count p" and "observed p' = observed p"
    and "gauge p' = gauge p" and "\<forall>n. n \<notin> fst ` set cs \<longrightarrow> labels p' n = labels p n"
proof -
  have "\<exists>p'. register_all Q cs p = Some p' \<and> registered labels cs p' \<and> count p' = count p \<and> observed p' = observed p \<and> gauge p' = gauge p
      \<and> (\<forall>n. n \<notin> fst ` set cs \<longrightarrow> labels p' n = labels p n)"
    using assms
  proof (induction cs arbitrary: p)
    case (Cons c cs)
    obtain n ls where c: "c = (n, ls)" by (cases c)
    obtain p1 where p1: "pr_register Q n ls p = Some p1" "labels p1 = (labels p)(n \<mapsto> ls)" "count p1 = count p" "observed p1 = observed p" "gauge p1 = gauge p"
      using register_law [of p n ls] Cons.prems(2) c by (auto split: option.splits)
    have n: "n \<notin> fst ` set cs" using Cons.prems(1) c by auto
    have "\<forall>(m, ms)\<in>set cs. labels p1 m = None" using Cons.prems(2) n by (force simp: p1(2))
    with Cons.IH [of p1] Cons.prems(1) obtain p' where p': "register_all Q cs p1 = Some p'" "registered labels cs p'" "count p' = count p1"
      "observed p' = observed p1" "gauge p' = gauge p1" "\<forall>n. n \<notin> fst ` set cs \<longrightarrow> labels p' n = labels p1 n" by auto
    with n p1 c show ?case by (auto simp: registered_def)
  qed (simp add: registered_def)
  with that show thesis by blast
qed

lemma registers_once:
  assumes "registered labels cs p" and "cs \<noteq> []"
  shows "register_all Q cs p = None"
proof -
  obtain n ls cs' where cs: "cs = (n, ls) # cs'" using assms(2) by (cases cs) auto
  then have "labels p n = Some ls" using assms(1) by (simp add: registered_def)
  with register_law [of p n ls] have "pr_register Q n ls p = None" by (auto split: option.splits)
  then show ?thesis by (simp add: cs)
qed

end

section \<open>The counters of the model in the registry\<close>

text \<open>What each call means in the other theories.\<close>

definition meter_spec :: "meter_call \<Rightarrow> grpc_metrics \<times> 'r world \<times> wk \<Rightarrow> grpc_metrics \<times> 'r world \<times> wk" where
  "meter_spec c = (\<lambda>(M, W, w). case c of
     Total_Requests fullMethod code \<Rightarrow> (ObserveTotalRequests fullMethod code M, W, w)
   | Response_Time fullMethod code d \<Rightarrow> (ObserveResponseTime fullMethod code d M, W, w)
   | Transfer_Result result \<Rightarrow> (M, RecordTransfer result W, w)
   | Balance_Correction \<Rightarrow> (M, W, RecordBalanceCorrection w))"

definition service_view ::
  "('p \<Rightarrow> sample \<Rightarrow> nat) \<Rightarrow> ('p \<Rightarrow> sample \<Rightarrow> int list) \<Rightarrow> string \<Rightarrow> 'p \<Rightarrow> grpc_metrics \<times> 'r world \<times> wk \<Rightarrow> bool" where
  "service_view count observed serviceName p = (\<lambda>(M, W, w).
     (\<forall>rpc code. count p (grpcRequests, [serviceName, rpc, code]) = gm_requests M (rpc, code))
   \<and> (\<forall>rpc code. observed p (grpcDuration, [serviceName, rpc, code])
        = map (\<lambda>(_, _, d). d) (filter (\<lambda>(r, c, _). r = rpc \<and> c = code) (gm_durations M)))
   \<and> (\<forall>result. count p (transferTotal, [serviceName, result]) = transfer_total W result)
   \<and> count p (balanceCorrections, []) = wk_corrections w)"

definition lg_spec :: "'f lg_call \<Rightarrow> lg_metrics \<times> 'f gauges \<Rightarrow> lg_metrics \<times> 'f gauges" where
  "lg_spec c = (\<lambda>(M, G). case c of
     Target k rps \<Rightarrow> (M, SetTarget k rps G)
   | Dispatched k \<Rightarrow> (m_RecordDispatched k M, G)
   | Completed k x \<Rightarrow> (m_RecordCompleted k x M, G)
   | Queue_Depth n \<Rightarrow> (M, SetQueueDepth n G))"

definition lg_view ::
  "('p \<Rightarrow> sample \<Rightarrow> nat) \<Rightarrow> ('p \<Rightarrow> sample \<rightharpoonup> 'f) \<Rightarrow> 'f float_ops \<Rightarrow> 'p \<Rightarrow> lg_metrics \<times> 'f gauges \<Rightarrow> bool" where
  "lg_view count gauge F p = (\<lambda>(M, G).
     (\<forall>k. count p (dispatched_name, [stream_name k]) = lm_dispatched M k)
   \<and> (\<forall>k outcome code. count p (completed_name, [stream_name k, outcome, code]) = lm_completed M (k, outcome, code))
   \<and> (\<forall>k. gauge p (targetRPS_name, [stream_name k]) = targetRPS G k)
   \<and> gauge p (queueDepth_name, []) = Some (f_of_int F (queueDepth G)))"

lemma names_distinct [simp]:
  "grpcRequests \<noteq> transferTotal" "transferTotal \<noteq> grpcRequests" "grpcRequests \<noteq> balanceCorrections" "balanceCorrections \<noteq> grpcRequests"
  "transferTotal \<noteq> balanceCorrections" "balanceCorrections \<noteq> transferTotal"
  "dispatched_name \<noteq> completed_name" "completed_name \<noteq> dispatched_name" "targetRPS_name \<noteq> queueDepth_name" "queueDepth_name \<noteq> targetRPS_name"
  by (simp_all add: collector_names)

text \<open>A call that keeps the labels registered and the view.\<close>

definition refines :: "('p \<Rightarrow> string \<rightharpoonup> string list) \<Rightarrow> ('c \<Rightarrow> 'p \<Rightarrow> 'p option) \<Rightarrow> ('c \<Rightarrow> 's \<Rightarrow> 's) \<Rightarrow> ('p \<Rightarrow> 's \<Rightarrow> bool) \<Rightarrow> (string \<times> string list) list \<Rightarrow> bool" where
  "refines labels f spec view cs \<longleftrightarrow> (\<forall>c p s. registered labels cs p \<longrightarrow> view p s \<longrightarrow> (\<exists>p'. f c p = Some p' \<and> registered labels cs p' \<and> view p' (spec c s)))"

context prom_registry
begin

lemma refines_all:
  assumes "refines labels f spec view cs" and "registered labels cs p" and "view p s"
  shows "\<exists>p'. calls_all f xs p = Some p' \<and> view p' (fold spec xs s)"
  using assms(2,3)
proof (induction xs arbitrary: p s)
  case (Cons x xs)
  obtain p1 where "f x p = Some p1" "registered labels cs p1" "view p1 (spec x s)"
    using assms(1) Cons.prems unfolding refines_def by blast
  with Cons.IH [of p1 "spec x s"] show ?case by simp
qed simp

lemma inc_registered:
  assumes "registered labels cs p" and "(n, ls) \<in> set cs" and "length vs = length ls"
  obtains p' where "pr_Inc Q n vs p = Some p'" and "registered labels cs p'" and "count p' = (count p)((n, vs) := Suc (count p (n, vs)))"
    and "observed p' = observed p" and "gauge p' = gauge p"
  using inc_law [of p n ls vs] assms by (fastforce simp: registered_def)

lemma observe_registered:
  assumes "registered labels cs p" and "(n, ls) \<in> set cs" and "length vs = length ls"
  obtains p' where "pr_Observe Q n vs d p = Some p'" and "registered labels cs p'" and "count p' = count p"
    and "observed p' = (observed p)((n, vs) := observed p (n, vs) @ [d])" and "gauge p' = gauge p"
  using observe_law [of p n ls vs d] assms by (fastforce simp: registered_def)

lemma set_registered:
  assumes "registered labels cs p" and "(n, ls) \<in> set cs" and "length vs = length ls"
  obtains p' where "pr_Set Q n vs x p = Some p'" and "registered labels cs p'" and "count p' = count p"
    and "observed p' = observed p" and "gauge p' = (gauge p)((n, vs) \<mapsto> x)"
  using set_law [of p n ls vs x] assms by (fastforce simp: registered_def)

lemma meter_refines: "refines labels (meter Q serviceName) (meter_spec :: meter_call \<Rightarrow> grpc_metrics \<times> 'r world \<times> wk \<Rightarrow> _) (service_view count observed serviceName) service_collectors"
  unfolding refines_def
proof (intro allI impI)
  fix c p and s :: "grpc_metrics \<times> 'r world \<times> wk"
  assume r: "registered labels service_collectors p" and v: "service_view count observed serviceName p s"
  obtain M W w where s: "s = (M, W, w)" by (cases s) auto
  have m: "(grpcRequests, [''service'', ''rpc'', ''code'']) \<in> set service_collectors" "(grpcDuration, [''service'', ''rpc'', ''code'']) \<in> set service_collectors"
    "(transferTotal, [''service'', ''result'']) \<in> set service_collectors" "(balanceCorrections, []) \<in> set service_collectors"
    by (simp_all add: service_collectors_def)
  show "\<exists>p'. meter Q serviceName c p = Some p' \<and> registered labels service_collectors p' \<and> service_view count observed serviceName p' (meter_spec c s)"
  proof (cases c)
    case (Total_Requests fm code)
    obtain p' where "pr_Inc Q grpcRequests [serviceName, grpcRPC fm, code] p = Some p'" "registered labels service_collectors p'"
      "count p' = (count p)((grpcRequests, [serviceName, grpcRPC fm, code]) := Suc (count p (grpcRequests, [serviceName, grpcRPC fm, code])))" "observed p' = observed p"
      by (rule inc_registered [OF r m(1), of "[serviceName, grpcRPC fm, code]"]) auto
    with v show ?thesis
      by (simp add: Total_Requests meter_def meter_spec_def s service_view_def ObserveTotalRequests_def ObserveGRPCRequest_def)
  next
    case (Response_Time fm code d)
    obtain p' where "pr_Observe Q grpcDuration [serviceName, grpcRPC fm, code] d p = Some p'" "registered labels service_collectors p'" "count p' = count p"
      "observed p' = (observed p)((grpcDuration, [serviceName, grpcRPC fm, code]) := observed p (grpcDuration, [serviceName, grpcRPC fm, code]) @ [d])"
      by (rule observe_registered [OF r m(2), of "[serviceName, grpcRPC fm, code]" d]) auto
    with v show ?thesis
      by (auto simp: Response_Time meter_def meter_spec_def s service_view_def ObserveResponseTime_def ObserveGRPCDuration_def)
  next
    case (Transfer_Result result)
    obtain p' where "pr_Inc Q transferTotal [serviceName, result] p = Some p'" "registered labels service_collectors p'"
      "count p' = (count p)((transferTotal, [serviceName, result]) := Suc (count p (transferTotal, [serviceName, result])))" "observed p' = observed p"
      by (rule inc_registered [OF r m(3), of "[serviceName, result]"]) auto
    with v show ?thesis
      by (simp add: Transfer_Result meter_def meter_spec_def s service_view_def RecordTransfer_def)
  next
    case Balance_Correction
    obtain p' where "pr_Inc Q balanceCorrections [] p = Some p'" "registered labels service_collectors p'"
      "count p' = (count p)((balanceCorrections, []) := Suc (count p (balanceCorrections, [])))" "observed p' = observed p"
      by (rule inc_registered [OF r m(4), of "[]"]) auto
    with v show ?thesis
      by (simp add: Balance_Correction meter_def meter_spec_def s service_view_def RecordBalanceCorrection_def)
  qed
qed

lemma lg_meter_refines: "refines labels (lg_meter Q F) lg_spec (lg_view count gauge F) loadgen_collectors"
  unfolding refines_def
proof (intro allI impI)
  fix c p and s :: "lg_metrics \<times> 'f gauges"
  assume r: "registered labels loadgen_collectors p" and v: "lg_view count gauge F p s"
  obtain M G where s: "s = (M, G)" by (cases s) auto
  have m: "(targetRPS_name, [''stream'']) \<in> set loadgen_collectors" "(dispatched_name, [''stream'']) \<in> set loadgen_collectors"
    "(completed_name, [''stream'', ''outcome'', ''grpc_code'']) \<in> set loadgen_collectors" "(queueDepth_name, []) \<in> set loadgen_collectors"
    by (simp_all add: loadgen_collectors_def)
  show "\<exists>p'. lg_meter Q F c p = Some p' \<and> registered labels loadgen_collectors p' \<and> lg_view count gauge F p' (lg_spec c s)"
  proof (cases c)
    case (Target k rps)
    obtain p' where "pr_Set Q targetRPS_name [stream_name k] rps p = Some p'" "registered labels loadgen_collectors p'" "count p' = count p"
      "gauge p' = (gauge p)((targetRPS_name, [stream_name k]) \<mapsto> rps)"
      by (rule set_registered [OF r m(1), of "[stream_name k]" rps]) auto
    with v show ?thesis by (simp add: Target lg_meter_def lg_spec_def s lg_view_def SetTarget_def)
  next
    case (Dispatched k)
    obtain p' where "pr_Inc Q dispatched_name [stream_name k] p = Some p'" "registered labels loadgen_collectors p'"
      "count p' = (count p)((dispatched_name, [stream_name k]) := Suc (count p (dispatched_name, [stream_name k])))" "gauge p' = gauge p"
      by (rule inc_registered [OF r m(2), of "[stream_name k]"]) auto
    with v show ?thesis by (simp add: Dispatched lg_meter_def lg_spec_def s lg_view_def m_RecordDispatched_def)
  next
    case (Completed k x)
    obtain o' c' where l: "completed_labels x = (o', c')" by fastforce
    obtain p' where "pr_Inc Q completed_name [stream_name k, o', c'] p = Some p'" "registered labels loadgen_collectors p'"
      "count p' = (count p)((completed_name, [stream_name k, o', c']) := Suc (count p (completed_name, [stream_name k, o', c'])))" "gauge p' = gauge p"
      by (rule inc_registered [OF r m(3), of "[stream_name k, o', c']"]) auto
    with v l show ?thesis by (simp add: Completed lg_meter_def lg_spec_def s lg_view_def m_RecordCompleted_def)
  next
    case (Queue_Depth n)
    obtain p' where "pr_Set Q queueDepth_name [] (f_of_int F n) p = Some p'" "registered labels loadgen_collectors p'" "count p' = count p"
      "gauge p' = (gauge p)((queueDepth_name, []) \<mapsto> f_of_int F n)"
      by (rule set_registered [OF r m(4), of "[]" "f_of_int F n"]) auto
    with v show ?thesis by (simp add: Queue_Depth lg_meter_def lg_spec_def s lg_view_def SetQueueDepth_def)
  qed
qed

end

section \<open>A reference registry\<close>

record 'f ref_prom =
  rp_labels :: "string \<rightharpoonup> string list"
  rp_count :: "sample \<Rightarrow> nat"
  rp_observed :: "sample \<Rightarrow> int list"
  rp_gauge :: "sample \<rightharpoonup> 'f"

definition rp_with :: "string \<Rightarrow> string list \<Rightarrow> 'f ref_prom \<Rightarrow> 'f ref_prom \<Rightarrow> 'f ref_prom option" where
  "rp_with n vs p p' = (case rp_labels p n of None \<Rightarrow> None | Some ls \<Rightarrow> if length vs = length ls then Some p' else None)"

definition ref_prom :: "('f ref_prom, 'f) prom" where
  "ref_prom = \<lparr>pr_register = (\<lambda>n ls p. if rp_labels p n = None then Some (p\<lparr>rp_labels := (rp_labels p)(n \<mapsto> ls)\<rparr>) else None),
     pr_Inc = (\<lambda>n vs p. rp_with n vs p (p\<lparr>rp_count := (rp_count p)((n, vs) := Suc (rp_count p (n, vs)))\<rparr>)),
     pr_Observe = (\<lambda>n vs d p. rp_with n vs p (p\<lparr>rp_observed := (rp_observed p)((n, vs) := rp_observed p (n, vs) @ [d])\<rparr>)),
     pr_Set = (\<lambda>n vs x p. rp_with n vs p (p\<lparr>rp_gauge := (rp_gauge p)((n, vs) \<mapsto> x)\<rparr>))\<rparr>"

definition new_prom :: "'f float_ops \<Rightarrow> 'f ref_prom" where
  "new_prom F = \<lparr>rp_labels = Map.empty, rp_count = (\<lambda>_. 0), rp_observed = (\<lambda>_. []), rp_gauge = [(queueDepth_name, []) \<mapsto> f_zero F]\<rparr>"

interpretation refp: prom_registry ref_prom rp_labels rp_count rp_observed rp_gauge
  by unfold_locales (auto simp: ref_prom_def rp_with_def)

section \<open>No metric call panics\<close>

text \<open>C33. The metrics of a service fit their collectors: on every registry that has none of their names, \<^verbatim>\<open>NewPrometheusMetrics\<close>
  registers all four (and panics when it is called again on the same registry); then no sequence of calls panics for a wrong
  number of labels, and every counter and histogram holds exactly what the interceptor, the transfer
  use case and the worker have recorded.\<close>

theorem service_metrics:
  assumes reg: "prom_registry Q labels count observed gauge" and fresh: "\<forall>(n, ls)\<in>set service_collectors. labels p0 n = None"
    and start: "service_view count observed serviceName p0 s"
  shows "\<exists>p. NewPrometheusMetrics Q p0 = Some p \<and> NewPrometheusMetrics Q p = None
    \<and> (\<forall>cs. \<exists>p'. calls_all (meter Q serviceName) cs p = Some p' \<and> service_view count observed serviceName p' (fold meter_spec cs s))"
proof -
  have d: "distinct (map fst service_collectors)" and ne: "service_collectors \<noteq> []"
    using collectors_distinct by (simp_all add: service_collectors_def)
  obtain p where p: "register_all Q service_collectors p0 = Some p" "registered labels service_collectors p" "count p = count p0" "observed p = observed p0"
    by (rule prom_registry.registers [OF reg d fresh])
  have "service_view count observed serviceName p s" using start p(3,4) by (simp add: service_view_def split: prod.splits)
  from prom_registry.refines_all [OF reg prom_registry.meter_refines [OF reg] p(2) this] prom_registry.registers_once [OF reg p(2) ne] p(1)
  show ?thesis by (auto simp: NewPrometheusMetrics_def)
qed

theorem service_metrics_witness:
  "\<exists>p p'. NewPrometheusMetrics ref_prom (new_prom exact_ops) = Some p
     \<and> calls_all (meter ref_prom ''ledger'') [Total_Requests Transfer_FullMethodName ''OK'', Transfer_Result ''success''] p = Some p'
     \<and> rp_count p' (grpcRequests, [''ledger'', ''Transfer'', ''OK'']) = 1"
proof -
  let ?s = "(\<lparr>gm_requests = (\<lambda>_. 0), gm_durations = []\<rparr>, sample_world, \<lparr>wk_db = sample_db, wk_env = [], wk_alive = None, wk_corrections = 0\<rparr>)"
  have "service_view rp_count rp_observed ''ledger'' (new_prom exact_ops) ?s"
    by (simp add: service_view_def new_prom_def sample_world_def)
  moreover have "\<forall>(n, ls)\<in>set service_collectors. rp_labels (new_prom exact_ops) n = None" by (simp add: new_prom_def)
  ultimately obtain p where p: "NewPrometheusMetrics ref_prom (new_prom exact_ops) = Some p"
    "\<forall>cs. \<exists>p'. calls_all (meter ref_prom ''ledger'') cs p = Some p' \<and> service_view rp_count rp_observed ''ledger'' p' (fold meter_spec cs ?s)"
    using service_metrics [OF refp.prom_registry_axioms] by blast
  have g: "grpcRPC Transfer_FullMethodName = ''Transfer''" by code_simp
  from p(2) obtain p' where p': "calls_all (meter ref_prom ''ledger'') [Total_Requests Transfer_FullMethodName ''OK'', Transfer_Result ''success''] p = Some p'"
    "service_view rp_count rp_observed ''ledger'' p' (fold meter_spec [Total_Requests Transfer_FullMethodName ''OK'', Transfer_Result ''success''] ?s)" by blast
  from p'(2) have "rp_count p' (grpcRequests, [''ledger'', ''Transfer'', ''OK'']) = 1"
    by (simp add: service_view_def meter_spec_def ObserveTotalRequests_def ObserveGRPCRequest_def g)
  with p(1) p'(1) show ?thesis by blast
qed

text \<open>The same for the load generator, whose server has the address of its port.\<close>

lemma loadgen_metrics:
  assumes reg: "prom_registry Q labels count observed gauge" and fresh: "\<forall>(n, ls)\<in>set loadgen_collectors. labels p0 n = None"
    and start: "lg_view count gauge F p0 s"
  shows "\<exists>p. NewMetrics Q port p0 = Some ('':'' @ port, p) \<and> NewMetrics Q port p = None
    \<and> (\<forall>cs. \<exists>p'. calls_all (lg_meter Q F) cs p = Some p' \<and> lg_view count gauge F p' (fold lg_spec cs s))"
proof -
  have d: "distinct (map fst loadgen_collectors)" and ne: "loadgen_collectors \<noteq> []"
    using collectors_distinct by (simp_all add: loadgen_collectors_def)
  obtain p where p: "register_all Q loadgen_collectors p0 = Some p" "registered labels loadgen_collectors p" "count p = count p0" "gauge p = gauge p0"
    by (rule prom_registry.registers [OF reg d fresh])
  have "lg_view count gauge F p s" using start p(3,4) by (simp add: lg_view_def split: prod.splits)
  from prom_registry.refines_all [OF reg prom_registry.lg_meter_refines [OF reg] p(2) this] prom_registry.registers_once [OF reg p(2) ne] p(1)
  show ?thesis by (auto simp: NewMetrics_def)
qed

end
