(* ===== verification/Spec2Isabelle.thy ===== *)
theory Spec2Isabelle
  imports Ledger_Refinement Ledger_Calls_Laws Gateway_Calls_Laws Loadgen_Run_Laws Lifecycle Registry
begin

text \<open>
  \<^bold>\<open>The high-load ledger: a verification library.\<close>

  \<^bold>\<open>The program.\<close> A gateway (\<^verbatim>\<open>cmd/gateway\<close>) serves gRPC: it opens accounts with a random opening balance,
  moves money between two accounts of one currency, and answers reads. PostgreSQL holds accounts,
  transactions and postings in double entry. One Redis caches account currencies and transactions, a
  second one holds idempotency keys. After a commit the gateway publishes the transfer to Kafka;
  \<^verbatim>\<open>cmd/stats\<close> copies the messages into the cache. \<^verbatim>\<open>cmd/worker\<close> walks the postings in batches and corrects
  balances that disagree with them. \<^verbatim>\<open>cmd/loadgen\<close> drives the gateway.

  \<^bold>\<open>Theories and sources\<close> (paths under \<^verbatim>\<open>src/\<close>).

  \<^item> \<open>Ledger_Prelude\<close>: Go's sized integers, UUIDs as 128-bit words, \<^verbatim>\<open>strconv\<close> and \<^verbatim>\<open>strings\<close>, the fact
    collections \<open>pg_defs\<close> (the driver calls) and \<open>ledger_mono\<close> (facts that survive growing tables).
  \<^item> \<open>Entity\<close>: \<^verbatim>\<open>internal/domain/entity\<close>; \<open>External\<close>: the packages the program calls, as parameters with their
    documented laws (\<open>uuid_laws\<close>, \<open>json_laws\<close>, locale \<open>redis_server\<close>), and reference instances.
  \<^item> \<open>Postgres\<close>, \<open>Postgres_Facts\<close>: \<^verbatim>\<open>internal/repository/postgres\<close> and the schema of \<^verbatim>\<open>migrations/\<close>. The
    state \<open>pg\<close> has the committed tables, the open transactions, the posting sequence and a list of
    faults: every driver call may be lost before or after the server acted.
  \<^item> \<open>Redis_Cache\<close>: \<^verbatim>\<open>internal/repository/redis\<close>.
  \<^item> \<open>Transfer_UC\<close>, \<open>Transfer_Laws\<close> (\<open>Sample\<close>: a concrete ledger): \<^verbatim>\<open>internal/usecase/transfer.go\<close>; \<open>Account_UC\<close>:
    \<^verbatim>\<open>account.go\<close>; \<open>Posting_Worker\<close>, \<open>Worker_Facts\<close>, \<open>Worker_Laws\<close>: \<^verbatim>\<open>posting_worker.go\<close>; \<open>Stats_UC\<close>: \<^verbatim>\<open>stats.go\<close>,
    \<^verbatim>\<open>transaction_cache.go\<close> and \<^verbatim>\<open>internal/infra/kafka\<close> (locale \<open>kafka_broker\<close>).
  \<^item> \<open>Transport\<close>, \<open>Transport_Laws\<close>: \<^verbatim>\<open>internal/transport/grpc\<close> with its interceptors, the metrics of
    \<^verbatim>\<open>internal/infra/telemetry/metrics.go\<close>, and the chain of \<^verbatim>\<open>cmd/gateway/main.go\<close>. \<open>Registry\<close>: the same metrics, and those of the load
    generator, as collectors of the Prometheus client (locale \<open>prom_registry\<close>).
  \<^item> \<open>Locking\<close>: the rows and index entries that concurrent database transactions wait for, and the unique violations that
    make a transfer roll back.
  \<^item> \<open>Transfer_Session\<close>: \<^verbatim>\<open>Transaction\<close> cut into its calls; \<open>Interleaving\<close>, \<open>Interleaving_Laws\<close>: any number of
    such sessions, interleaved call by call, with the locks of PostgreSQL between them.
  \<^item> \<open>Opening_Session\<close>, \<open>Opening_Calls\<close>: \<^verbatim>\<open>CreateAccount\<close> cut in the same way, and what holds of such a session while others
    run; \<open>Ledger_Calls\<close>, \<open>Ledger_Calls_Laws\<close>: transfers and openings in one service (\<open>service_step\<close>).
  \<^item> \<open>Gateway_Calls\<close>, \<open>Gateway_Claims\<close>, \<open>Gateway_Calls_Laws\<close>: many RPCs \<^verbatim>\<open>Transfer\<close> at once, each cut where it calls the idempotency
    store or the use case (\<open>admit\<close>, \<open>settle\<close>, \<open>transfer_open\<close>, \<open>transfer_close\<close>), with the sessions of \<open>Interleaving\<close> as their
    handlers, goroutines that store outcomes, and crashes.
  \<^item> \<open>Loadgen_Pool\<close>, \<open>Loadgen_Core\<close>: pool, builders, calls, jobs and bootstrap of \<^verbatim>\<open>loadgen/service\<close>;
    \<open>Loadgen_Report\<close>: its delays, gauges and reporter; \<open>Loadgen_Run\<close>, \<open>Loadgen_Run_Laws\<close>: \<^verbatim>\<open>runLoad\<close> with all its goroutines.
  \<^item> \<open>Config\<close>: \<^verbatim>\<open>internal/config\<close>, \<^verbatim>\<open>internal/infra/logger\<close> and the resolver of the load generator; \<open>Lifecycle\<close>: the four
    \<^verbatim>\<open>main\<close> functions of \<^verbatim>\<open>cmd/\<close> and \<^verbatim>\<open>internal/infra/telemetry/setup.go\<close>.
  \<^item> \<open>Ledger_Frames\<close>, \<open>Ledger_System\<close>, \<open>Ledger_Refinement\<close> and this theory: the composed system, its
    specification as a bank, and the theorems that span components.

  An operation of the source is a function on a record of the state it changes, with every early
  return and every error as a branch; errors are values of \<open>error\<close>, with Go's wrapping kept, so
  that \<^verbatim>\<open>errors.Is\<close> is a function on them. Goroutines that share state are an inductive step relation over
  the places they have reached. Sources of nondeterminism (ids, clocks, random numbers, faults, the
  order of goroutines, the branch of a \<^verbatim>\<open>select\<close>, the iteration order of a map) are arguments or
  components of the state, and the theorems quantify over them.

  \<^bold>\<open>What is shown.\<close>

  \<^item> Transfers (C1 to C4, C18): all or nothing under every pattern of failures; schema, books and journal kept;
    money conserved per currency; the verdict of every branch, equal to a reference function of the request, the fresh id
    and the tables (\<open>expected_result\<close>), whatever the cache does; the exact effect.
  \<^item> Concurrent transfers and openings (C5 to C8): interleaved call by call they refine a bank that serves each request in one
    step, keep the ledger sound, create money only as opening balances, and can always finish; a call that runs alone is the
    function \<^verbatim>\<open>Transaction\<close>, or \<^verbatim>\<open>CreateAccount\<close> (\<open>CreateAccount_calls\<close>). Transfers
    and corrections never deadlock (C34), since \<^verbatim>\<open>Transaction\<close> updates rows in the order of their ids; a unique index refuses a
    transfer only for an id or key that is in the tables.
  \<^item> The concurrent gateway (C9 to C14): the RPCs refine a bank that gives the receipt of a key again; every \<^verbatim>\<open>OK\<close> names the
    committed transaction of its key; a claimed key has one call at work as long as no claim runs out, and what goes wrong when one
    does; every call is answered; a call that runs alone is the interceptor of the code.
  \<^item> The system (C15 to C17): soundness of every reachable state, refinement of the bank, and readability of
    every acknowledged transfer.
  \<^item> Accounts (C19): the same for openings. Worker (C20 to C25): a pass settles every touched account; a validation changes
    at most its account and only to the sum of its postings; concurrent transfers cause no false alarm when the account settles
    within the eight attempts; a cancelled worker stops; the race of a correction with whatever commits between its statements and
    the cursor at shutdown go wrong.
  \<^item> Cache, topic and reads (C26, C28: from \<^verbatim>\<open>PublishTransaction\<close> through the consumer to \<^verbatim>\<open>GetTransaction\<close>); the gRPC
    surface (C29 to C33): replay of keys, the panic that is not reported and what becomes of its key, the meaning of a status,
    currency codes, metrics whose labels fit.
  \<^item> Load generator (C35 to C39): valid jobs are covered and accepted, reservations are undone exactly; however the
    goroutines of a load interleave, none of them panics except by the race of the builders on their random source,
    the pool stays in step with the jobs, and a cancelled load can return with everything drained.
  \<^item> Processes (C27, C40): configurations and checks before service, the calls made, order of shutdown, exit status.
  \<^item> Theorems without a number state further facts, such as exclusion at the interceptor, invalid jobs, the verdict of the reporter.

  Interfaces are locales, interpreted on the model: \<open>tx_body\<close> (work inside a database transaction) on
  the opening of an account, \<open>batch_cursor\<close> on the worker's turns, \<open>ordered_locks\<close> on the lock plans,
  \<open>balance_map\<close> on the pool, \<open>idempotency_storage\<close> on the Redis repository (through \<open>redis_idem\<close>),
  \<open>simulation\<close> on the system and the bank (through \<open>ledger_services\<close>), on the interleaved transfers and on those with openings
  (through \<open>transfer_service\<close>), on the concurrent gateway (through \<open>transfer_front\<close>) and on the load.

  \<^bold>\<open>Bounds and fuel.\<close> The version steps of a validation are bounded by the source's own
  \<^verbatim>\<open>maxBalanceVersionSteps = 8\<close>. The endless loops of the worker and of the consumer are partial functions into
  \<open>option\<close>; that the worker returns once its context is cancelled is C24. A session of \<open>Locking\<close> has at most five
  steps, which bounds its runs. A transfer makes at most nine calls, which the ten of C8
  cover, and an opening ten; a call of the concurrent gateway makes at most thirteen steps. A load can return within \<open>load_left\<close> steps, which counts what each goroutine and
  each queued job has left. \<open>wait_upstream\<close> of the load generator takes the list of its rounds.

  \<^bold>\<open>Granularity.\<close> In \<open>ledger_step\<close> an RPC, a turn of the worker and a goroutine are one step each, so C15 to C17 speak
  of their orders; C5 to C8 justify this for transfers and openings among each other, down to the statements, and C9 to C14
  for transfers from the interceptor on.
  In \<open>gate_step\<close> one call of the store or of a repository is a step. A crash there ends every call and aborts the open
  transactions; what a lost connection leaves undecided is in the faults. Corrections of the worker are not sessions of
  \<open>service_step\<close>: with them the books would not be kept (C23). Statements also interleave
  in \<open>Posting_Worker\<close> (other processes act before every call; C22 and C23) and in \<open>Locking\<close>. A transaction is
  installed on the tables committed at that time (READ COMMITTED). In \<open>load_step\<close> the handling of a job is one step, and
  a call of a builder takes a step for each look at the pool (\<open>build_call\<close>; alone these steps are the builder, \<open>build_calls_alone\<close>).
  The random source that three streams share without a lock gives arbitrary numbers; while two of them are about to draw
  it is a data race (\<open>lr_raced\<close>), and from then on a draw may panic.

  \<^bold>\<open>Not modelled.\<close> Generated code (\<^verbatim>\<open>gen/go\<close>) and the packages behind the parameters (database driver, Redis, Kafka, gRPC and HTTP
  servers, the registry of the metrics, the conversion of variables of the environment, \<^verbatim>\<open>float64\<close>); log lines, apart from
  the reports of the load generator; deployment files.
\<close>

section \<open>Theorems\<close>

text \<open>C15. The running system is sound: in every state that any sequence of RPCs and background work
  reaches from a new ledger, over any Redis servers and broker and under any pattern of failures,
  restarts and delays, the constraints of the schema hold, every balance is the sum of its postings
  and none is negative, the journal is in double entry, both caches agree with the tables, the topic
  holds committed transactions only, and every stored outcome of an idempotency key names the
  committed transaction of that key.\<close>

theorem system_sound:
  assumes svc: "ledger_services D ck dc ik di topic pos off" and start: "ledger_start dc di topic L0"
    and run: "runs (ledger_step D) es L0 L"
  shows "db_ok (db (gw_world (lg_gateway L))) \<and> journal_ok (ledger_tables L)
    \<and> coherent (d_ext D) (dc (cache (gw_world (lg_gateway L)))) (ledger_tables L)
    \<and> tx_coherent (d_ext D) (dc (cache (gw_world (lg_gateway L)))) (ledger_tables L)
    \<and> genuine (d_ext D) (ledger_tables L) (topic (lg_kafka L))
    \<and> idem_ok (d_ext D) (\<lambda>k. di (gw_idem (lg_gateway L)) (castKey (d_ext D) k)) (gw_pending (lg_gateway L)) (ledger_tables L)"
  using ledger_services.reach_ok [OF svc start run]
  by (simp add: ledger_ok_def world_ok_def ledger_tables_def)

theorem system_sound_witness:
  "\<exists>L. runs (ledger_step ref_deployment) [Ev_Open 2 (Returned (Inr (uuid_bytes 13)))] new_ledger L
     \<and> db_ok (db (gw_world (lg_gateway L))) \<and> journal_ok (ledger_tables L)"
proof -
  obtain L where r: "runs (ledger_step ref_deployment) [Ev_Open 2 (Returned (Inr (uuid_bytes 13)))] new_ledger L"
    using sample_open by auto
  from system_sound [OF refd.ledger_services_axioms new_ledger_start r] r show ?thesis by blast
qed

text \<open>C16. The running system refines the bank: what the clients observe in a run from a new ledger (every
  request with its answer) is what they can observe of a bank that starts empty, keeps balances
  and receipts by idempotency key, moves money in one step and only with cover, and never changes a
  balance in the background; the tables at the end represent the bank's state.\<close>

theorem system_refines_bank:
  assumes svc: "ledger_services D ck dc ik di topic pos off" and start: "ledger_start dc di topic L0"
    and run: "runs (ledger_step D) es L0 L"
  shows "runs bank_step es \<lparr>b_accounts = Map.empty, b_receipts = Map.empty\<rparr> (bank_of (ledger_tables L))"
proof -
  have "bank_of (ledger_tables L0) = \<lparr>b_accounts = Map.empty, b_receipts = Map.empty\<rparr>"
    using start by (auto simp: ledger_start_def bank_of_def Let_def)
  with ledger_services.reach_bank [OF svc start run] show ?thesis by simp
qed

theorem system_refines_bank_witness:
  "\<exists>B. runs bank_step [Ev_Open 2 (Returned (Inr (uuid_bytes 13)))] \<lparr>b_accounts = Map.empty, b_receipts = Map.empty\<rparr> B"
proof -
  obtain L where r: "runs (ledger_step ref_deployment) [Ev_Open 2 (Returned (Inr (uuid_bytes 13)))] new_ledger L"
    using sample_open by auto
  from system_refines_bank [OF refd.ledger_services_axioms new_ledger_start r] show ?thesis by blast
qed

text \<open>C17. An acknowledged transfer can be read for ever: when, in a state with the invariant \<open>ledger_ok\<close>,
  which every reachable state has (\<open>reach_ok\<close>), a transfer was answered with an id, by its handler
  or from the store of idempotency keys, then whatever happens later, a read of that id answers with the committed transaction of the request's key, or fails with a code other than
  \<^verbatim>\<open>NotFound\<close>; if the key was new, that transaction moves the request's amount between the
  request's accounts in its currency.\<close>

theorem acknowledged_readable:
  assumes svc: "ledger_services D ck dc ik di topic pos off" and ok: "ledger_ok (d_ext D) dc di topic L1"
    and ack: "ledger_step D (Ev_Transfer req (Returned (Inr (Some out)))) L1 L2"
    and mid: "runs (ledger_step D) es L2 L3" and rd: "ledger_step D (Ev_Transaction out (Returned x)) L3 L4"
  shows "\<exists>t\<in>set (transactions (ledger_tables L2)). uuid_bytes (t_ID t) = out
    \<and> uuid_FromBytes (d_ext D) (m_IdempotencyKey req) = Some (t_IdempotencyKey t)
    \<and> ((\<forall>t'\<in>set (transactions (ledger_tables L1)). t_IdempotencyKey t' \<noteq> t_IdempotencyKey t) \<longrightarrow> asked req (t_IdempotencyKey t) (receipt_of t))
    \<and> (case x of Inr r \<Rightarrow> r = receipt_response (receipt_of t) | Inl st \<Rightarrow> st_code st \<noteq> codes_NotFound)"
  using ledger_services.acknowledged [OF svc ok ack mid rd] .

theorem acknowledged_readable_witness:
  "\<exists>r L t. ledger_step ref_deployment (Ev_Transfer sample_call (Returned (Inr (Some (uuid_bytes 13))))) sample_ledger answered_ledger
     \<and> ledger_step ref_deployment (Ev_Transaction (uuid_bytes 13) (Returned (Inr r))) answered_ledger L
     \<and> t \<in> set (transactions (ledger_tables answered_ledger)) \<and> r = receipt_response (receipt_of t) \<and> asked sample_call (t_IdempotencyKey t) (receipt_of t)"
proof -
  obtain r L where rd: "ledger_step ref_deployment (Ev_Transaction (uuid_bytes 13) (Returned (Inr r))) answered_ledger L"
    using sample_read by blast
  have "\<forall>t'\<in>set (transactions sample_tables). t_IdempotencyKey t' \<noteq> 23" by (simp add: sample_tables_def)
  then show ?thesis
    using acknowledged_readable [OF refd.ledger_services_axioms _ sample_acknowledged _ rd, of "[]"] sample_ledger_ok sample_acknowledged rd
    by (auto simp: sample_call_def)
qed

end
